(* ===== verification/Prelude.thy ===== *)
theory Prelude
  imports Complex_Main "HOL-Library.Word" "HOL-Library.Signed_Division"
    "HOL-Library.List_Lexorder" "HOL-Library.Product_Lexorder"
begin

unbundle bit_operations_syntax

text \<open>
  The vocabulary the component theories share: Go's sized integers, its partial operations
  (slice indexing, nil dereference, explicit panics) as values of an outcome type, Go maps as
  association lists, and the generic list lemmas that the component proofs use.

  \<^item> \<open>int64\<close> and \<open>int32\<close> values are \<open>int\<close>; \<open>i64\<close> and \<open>i32\<close> are the two's complement
    wrap-around that Go applies to the result of an arithmetic operation.  \<open>uint64\<close> and
    \<open>uint32\<close> values that are compared, incremented or used bitwise are \<open>64 word\<close> and
    \<open>32 word\<close>.
  \<^item> Go's \<open>/\<close> and \<open>%\<close> truncate towards zero: \<open>sdiv\<close> and \<open>smod\<close>.
  \<^item> A function that may panic or return an error has an \<open>outcome\<close>.
\<close>

section \<open>Collections\<close>

named_theorems go_simps \<open>equations that evaluate the Go primitives of this theory\<close>
named_theorems inv_intros \<open>introduction rules of the invariants of the components\<close>

section \<open>Sized integers\<close>

type_synonym byte = "8 word"
type_synonym bytes = "byte list"

abbreviation MaxInt64 :: int where "MaxInt64 \<equiv> 9223372036854775807"
abbreviation MinInt64 :: int where "MinInt64 \<equiv> - 9223372036854775808"
abbreviation MaxInt32 :: int where "MaxInt32 \<equiv> 2147483647"
abbreviation MinInt32 :: int where "MinInt32 \<equiv> - 2147483648"

definition i64 :: "int \<Rightarrow> int" where
  "i64 x = (x + 9223372036854775808) mod 18446744073709551616 - 9223372036854775808"

definition i32 :: "int \<Rightarrow> int" where
  "i32 x = (x + 2147483648) mod 4294967296 - 2147483648"

definition is_i64 :: "int \<Rightarrow> bool" where
  "is_i64 x \<longleftrightarrow> MinInt64 \<le> x \<and> x \<le> MaxInt64"

definition is_i32 :: "int \<Rightarrow> bool" where
  "is_i32 x \<longleftrightarrow> MinInt32 \<le> x \<and> x \<le> MaxInt32"

lemma i64_id [simp]: "is_i64 x \<Longrightarrow> i64 x = x"
  by (simp add: is_i64_def i64_def)

lemma i32_id [simp]: "is_i32 x \<Longrightarrow> i32 x = x"
  by (simp add: is_i32_def i32_def)

lemma is_i64_i64 [simp, intro]: "is_i64 (i64 x)"
proof -
  have "(x + 9223372036854775808) mod 18446744073709551616 < 18446744073709551616"
    and "0 \<le> (x + 9223372036854775808) mod 18446744073709551616"
    by simp_all
  then show ?thesis unfolding is_i64_def i64_def by linarith
qed

lemma is_i32_i32 [simp, intro]: "is_i32 (i32 x)"
proof -
  have "(x + 2147483648) mod 4294967296 < 4294967296"
    and "0 \<le> (x + 2147483648) mod 4294967296"
    by simp_all
  then show ?thesis unfolding is_i32_def i32_def by linarith
qed

lemma is_i64I [intro]: "MinInt64 \<le> x \<Longrightarrow> x \<le> MaxInt64 \<Longrightarrow> is_i64 x"
  by (simp add: is_i64_def)

lemma is_i64D: "is_i64 x \<Longrightarrow> MinInt64 \<le> x \<and> x \<le> MaxInt64"
  by (simp add: is_i64_def)

lemma i64_i64_add: "i64 (i64 x + y) = i64 (x + y)"
proof -
  have "i64 (i64 x + y) = ((x + 9223372036854775808) mod 18446744073709551616 + y) mod 18446744073709551616
      - 9223372036854775808" by (simp add: i64_def)
  also have "\<dots> = (x + 9223372036854775808 + y) mod 18446744073709551616 - 9223372036854775808"
    by (simp only: mod_add_left_eq)
  finally show ?thesis by (simp add: i64_def add.assoc add.commute [of y])
qed

section \<open>Outcomes: values, errors and panics\<close>

datatype ('e, 'a) outcome = Return 'a | Error 'e | Panic

fun bind_o :: "('e, 'a) outcome \<Rightarrow> ('a \<Rightarrow> ('e, 'b) outcome) \<Rightarrow> ('e, 'b) outcome" where
  "bind_o (Return x) f = f x"
| "bind_o (Error e) f = Error e"
| "bind_o Panic f = Panic"

fun map_outcome_val :: "('a \<Rightarrow> 'b) \<Rightarrow> ('e, 'a) outcome \<Rightarrow> ('e, 'b) outcome" where
  "map_outcome_val f (Return x) = Return (f x)"
| "map_outcome_val f (Error e) = Error e"
| "map_outcome_val f Panic = Panic"

definition nth_go :: "'a list \<Rightarrow> int \<Rightarrow> ('e, 'a) outcome" where
  \<comment> \<open>indexing a slice: out of range panics\<close>
  "nth_go xs i = (if 0 \<le> i \<and> i < int (length xs) then Return (xs ! nat i) else Panic)"

definition upd_go :: "'a list \<Rightarrow> int \<Rightarrow> 'a \<Rightarrow> ('e, 'a list) outcome" where
  \<comment> \<open>assigning to a slice element: out of range panics\<close>
  "upd_go xs i x = (if 0 \<le> i \<and> i < int (length xs) then Return (xs[nat i := x]) else Panic)"

lemma bind_o_Return_iff:
  "bind_o m f = Return y \<longleftrightarrow> (\<exists>x. m = Return x \<and> f x = Return y)"
  by (cases m) auto

lemma bind_o_cong [fundef_cong]:
  "m = m' \<Longrightarrow> (\<And>x. m' = Return x \<Longrightarrow> f x = g x) \<Longrightarrow> bind_o m f = bind_o m' g"
  by (cases m') auto

lemma bind_o_assoc: "bind_o (bind_o m f) g = bind_o m (\<lambda>x. bind_o (f x) g)"
  by (cases m) auto

lemma nth_go_in [simp]: "i < length xs \<Longrightarrow> nth_go xs (int i) = Return (xs ! i)"
  by (simp add: nth_go_def)

lemma upd_go_in [simp]: "i < length xs \<Longrightarrow> upd_go xs (int i) x = Return (xs[i := x])"
  by (simp add: upd_go_def)

section \<open>Go maps as association lists\<close>

text \<open>
  A Go map is an association list whose keys are distinct.  \<open>range\<close> visits a map in an
  unspecified order: the model visits the list in its order, so a statement about every
  association list is a statement about every iteration order.
\<close>

type_synonym ('k, 'v) gomap = "('k \<times> 'v) list"

fun gm_put :: "'k \<Rightarrow> 'v \<Rightarrow> ('k, 'v) gomap \<Rightarrow> ('k, 'v) gomap" where
  "gm_put k v [] = [(k, v)]"
| "gm_put k v ((k', v') # m) = (if k' = k then (k, v) # m else (k', v') # gm_put k v m)"

definition gm_get :: "('k, 'v) gomap \<Rightarrow> 'k \<Rightarrow> 'v option" where
  "gm_get m k = map_of m k"

definition gm_del :: "'k \<Rightarrow> ('k, 'v) gomap \<Rightarrow> ('k, 'v) gomap" where
  "gm_del k m = filter (\<lambda>p. fst p \<noteq> k) m"

definition gm_wf :: "('k, 'v) gomap \<Rightarrow> bool" where
  "gm_wf m \<longleftrightarrow> distinct (map fst m)"

lemma gm_get_Nil [simp]: "gm_get [] k = None"
  by (simp add: gm_get_def)

lemma gm_get_put: "gm_get (gm_put k v m) k' = (if k' = k then Some v else gm_get m k')"
  by (induction k v m rule: gm_put.induct) (auto simp: gm_get_def)

lemma gm_get_put_same [simp]: "gm_get (gm_put k v m) k = Some v"
  by (simp add: gm_get_put)

lemma gm_get_put_other [simp]: "k' \<noteq> k \<Longrightarrow> gm_get (gm_put k v m) k' = gm_get m k'"
  by (simp add: gm_get_put)

lemma gm_get_del: "gm_get (gm_del k m) k' = (if k' = k then None else gm_get m k')"
  by (induction m) (auto simp: gm_get_def gm_del_def)

lemma keys_gm_put: "fst ` set (gm_put k v m) = insert k (fst ` set m)"
  by (induction k v m rule: gm_put.induct) auto

lemma gm_wf_Nil [simp]: "gm_wf []"
  by (simp add: gm_wf_def)

lemma gm_wf_put [simp]: "gm_wf m \<Longrightarrow> gm_wf (gm_put k v m)"
  by (induction k v m rule: gm_put.induct)
     (auto simp: gm_wf_def keys_gm_put)

lemma gm_wf_del [simp]: "gm_wf m \<Longrightarrow> gm_wf (gm_del k m)"
  by (simp add: gm_wf_def gm_del_def distinct_map_filter)

lemma length_gm_put:
  "length (gm_put k v m) = (if gm_get m k = None then Suc (length m) else length m)"
  by (induction k v m rule: gm_put.induct) (auto simp: gm_get_def)

lemma gm_get_SomeD: "gm_get m k = Some v \<Longrightarrow> (k, v) \<in> set m"
  by (simp add: gm_get_def map_of_SomeD)

section \<open>Lists\<close>

lemma sum_list_update_int:
  fixes xs :: "int list"
  shows "k < length xs \<Longrightarrow> sum_list (xs[k := x]) = sum_list xs + x - xs ! k"
proof (induction xs arbitrary: k)
  case Nil
  then show ?case by simp
next
  case (Cons a xs)
  then show ?case by (cases k) auto
qed

end
