(* ===== verification/Bits.thy ===== *)
theory Bits
  imports Prelude
begin

unbundle bit_operations_syntax

text \<open>
  The bit array of libs/bits/bit_array.go: a length and a slice of 64-bit words.  A nil
  \<open>*BitArray\<close> is \<open>None\<close>.  The operations are translated word by word; \<open>ba_get\<close> and
  \<open>ba_list\<close> read a well-formed array (\<open>ba_wf\<close>) as a list of booleans, and the lemmas say
  what each operation does to that list.
\<close>

section \<open>Data and operations\<close>

record bit_array =
  Bits :: int
  Elems :: "64 word list"

definition NewBitArray :: "int \<Rightarrow> bit_array option" where
  "NewBitArray bits =
     (if bits \<le> 0 then None
      else Some \<lparr>Bits = bits, Elems = replicate (nat ((bits + 63) sdiv 64)) 0\<rparr>)"

definition ba_Size :: "bit_array option \<Rightarrow> int" where
  "ba_Size bA = (case bA of None \<Rightarrow> 0 | Some b \<Rightarrow> Bits b)"

definition shl1 :: "int \<Rightarrow> 64 word" where
  \<comment> \<open>uint64(1) << uint(s): a negative s converts to a shift of at least 64\<close>
  "shl1 s = (if s < 0 then 0 else push_bit (nat s) 1)"

definition bit_mask :: "int \<Rightarrow> 64 word" where
  "bit_mask i = shl1 (i smod 64)"

definition getIndex :: "bit_array \<Rightarrow> int \<Rightarrow> ('e, bool) outcome" where
  "getIndex b i =
     (if i \<ge> Bits b then Return False
      else bind_o (nth_go (Elems b) (i sdiv 64)) (\<lambda>e. Return (e AND bit_mask i > 0)))"

definition GetIndex :: "bit_array option \<Rightarrow> int \<Rightarrow> ('e, bool) outcome" where
  "GetIndex bA i = (case bA of None \<Rightarrow> Return False | Some b \<Rightarrow> getIndex b i)"

definition setIndex :: "bit_array \<Rightarrow> int \<Rightarrow> bool \<Rightarrow> ('e, bool \<times> bit_array) outcome" where
  "setIndex b i v =
     (if i \<ge> Bits b then Return (False, b)
      else bind_o (nth_go (Elems b) (i sdiv 64)) (\<lambda>e.
           bind_o (upd_go (Elems b) (i sdiv 64)
                     (if v then e OR bit_mask i else e AND NOT (bit_mask i))) (\<lambda>es.
           Return (True, b\<lparr>Elems := es\<rparr>))))"

definition SetIndex ::
    "bit_array option \<Rightarrow> int \<Rightarrow> bool \<Rightarrow> ('e, bool \<times> bit_array option) outcome" where
  "SetIndex bA i v =
     (case bA of None \<Rightarrow> Return (False, None)
      | Some b \<Rightarrow> map_outcome_val (\<lambda>(r, b'). (r, Some b')) (setIndex b i v))"

definition copyBits :: "bit_array \<Rightarrow> int \<Rightarrow> ('e, bit_array) outcome" where
  \<comment> \<open>make panics on a negative length; copy moves min(len(dst), len(src)) elements\<close>
  "copyBits b bits =
     (let n = (bits + 63) sdiv 64
      in if n < 0 then Panic
         else Return \<lparr>Bits = bits,
                Elems = take (nat n) (Elems b) @ replicate (nat n - length (Elems b)) 0\<rparr>)"

fun zip_prefix :: "('a \<Rightarrow> 'b \<Rightarrow> 'a) \<Rightarrow> 'a list \<Rightarrow> 'b list \<Rightarrow> 'a list" where
  \<comment> \<open>the loop that combines the common prefix and leaves the rest of the first slice\<close>
  "zip_prefix f (x # xs) (y # ys) = f x y # zip_prefix f xs ys"
| "zip_prefix f xs _ = xs"

definition ba_Or :: "bit_array option \<Rightarrow> bit_array option \<Rightarrow> ('e, bit_array option) outcome" where
  "ba_Or bA ob =
     (case (bA, ob) of
        (None, None) \<Rightarrow> Return None
      | (None, Some o') \<Rightarrow> Return (Some o')
      | (Some b, None) \<Rightarrow> Return (Some b)
      | (Some b, Some o') \<Rightarrow>
          bind_o (copyBits b (max (Bits b) (Bits o'))) (\<lambda>c.
            let smaller = min (length (Elems b)) (length (Elems o'))
            in Return (Some (c\<lparr>Elems := zip_prefix (OR) (Elems c) (take smaller (Elems o'))\<rparr>))))"

fun and_loop :: "64 word list \<Rightarrow> 64 word list \<Rightarrow> ('e, 64 word list) outcome" where
  \<comment> \<open>for i < len(c.Elems): c.Elems[i] &= o.Elems[i], which panics past the end of o\<close>
  "and_loop [] ys = Return []"
| "and_loop (x # xs) [] = Panic"
| "and_loop (x # xs) (y # ys) = bind_o (and_loop xs ys) (\<lambda>r. Return ((x AND y) # r))"

definition ba_And :: "bit_array option \<Rightarrow> bit_array option \<Rightarrow> ('e, bit_array option) outcome" where
  "ba_And bA ob =
     (case (bA, ob) of
        (Some b, Some o') \<Rightarrow>
          bind_o (copyBits b (min (Bits b) (Bits o'))) (\<lambda>c.
          bind_o (and_loop (Elems c) (Elems o')) (\<lambda>es. Return (Some (c\<lparr>Elems := es\<rparr>))))
      | _ \<Rightarrow> Return None)"

definition ba_Not :: "bit_array option \<Rightarrow> bit_array option" where
  "ba_Not bA = map_option (\<lambda>b. b\<lparr>Elems := map (\<lambda>e. NOT e) (Elems b)\<rparr>) bA"

definition ba_Sub :: "bit_array option \<Rightarrow> bit_array option \<Rightarrow> ('e, bit_array option) outcome" where
  "ba_Sub bA ob =
     (case (bA, ob) of
        (Some b, Some o') \<Rightarrow>
          bind_o (copyBits b (Bits b)) (\<lambda>c.
            let smaller = min (length (Elems b)) (length (Elems o'))
            in Return (Some (c\<lparr>Elems :=
                 zip_prefix (\<lambda>x y. x AND NOT y) (Elems c) (take smaller (Elems o'))\<rparr>)))
      | _ \<Rightarrow> Return None)"

definition IsEmpty :: "bit_array option \<Rightarrow> bool" where
  "IsEmpty bA = (case bA of None \<Rightarrow> True | Some b \<Rightarrow> list_all (\<lambda>e. \<not> e > 0) (Elems b))"

definition IsFull :: "bit_array option \<Rightarrow> ('e, bool) outcome" where
  \<comment> \<open>slicing Elems[:len-1] and Elems[len-1] panic on an empty slice\<close>
  "IsFull bA =
     (case bA of None \<Rightarrow> Return True
      | Some b \<Rightarrow>
          if Elems b = [] then Panic
          else if \<not> list_all (\<lambda>e. NOT e = 0) (butlast (Elems b)) then Return False
          else let lastElemBits = (Bits b + 63) smod 64 + 1;
                   lastElem = last (Elems b)
               in Return ((lastElem + 1) AND (shl1 lastElemBits - 1) = 0))"

definition word_indices :: "64 word \<Rightarrow> nat \<Rightarrow> int \<Rightarrow> int list" where
  \<comment> \<open>the inner loop of getTrueIndices: bits 0..n-1 of one word, numbered from curBit\<close>
  "word_indices e n curBit =
     map (\<lambda>j. curBit + int j) (filter (\<lambda>j. e AND push_bit j 1 > 0) [0..<n])"

fun true_indices_loop :: "64 word list \<Rightarrow> int \<Rightarrow> int list" where
  "true_indices_loop [] curBit = []"
| "true_indices_loop (e # es) curBit =
     (if e = 0 then [] else word_indices e 64 curBit) @ true_indices_loop es (curBit + 64)"

definition getTrueIndices :: "bit_array \<Rightarrow> ('e, int list) outcome" where
  "getTrueIndices b =
     (if Elems b = [] then Panic
      else let full = butlast (Elems b);
               curBit = 64 * int (length full)
           in Return (true_indices_loop full 0
                      @ word_indices (last (Elems b)) (nat (Bits b - curBit)) curBit))"

definition PickRandom :: "(int \<Rightarrow> int) \<Rightarrow> bit_array option \<Rightarrow> ('e, int \<times> bool) outcome" where
  \<comment> \<open>tmrand.Intn is the parameter: a value in [0, n)\<close>
  "PickRandom Intn bA =
     (case bA of None \<Rightarrow> Return (0, False)
      | Some b \<Rightarrow>
          bind_o (getTrueIndices b) (\<lambda>is.
            if is = [] then Return (0, False)
            else bind_o (nth_go is (Intn (int (length is)))) (\<lambda>i. Return (i, True))))"

definition ba_Update :: "bit_array option \<Rightarrow> bit_array option \<Rightarrow> bit_array option" where
  "ba_Update bA ob =
     (case (bA, ob) of
        (Some b, Some o') \<Rightarrow>
          Some (b\<lparr>Elems := take (length (Elems b)) (Elems o') @ drop (length (Elems o')) (Elems b)\<rparr>)
      | _ \<Rightarrow> bA)"

definition le_bytes64 :: "64 word \<Rightarrow> bytes" where
  \<comment> \<open>binary.LittleEndian.PutUint64\<close>
  "le_bytes64 w = map (\<lambda>k. ucast (drop_bit (8 * k) w)) [0..<8]"

fun bytes_loop :: "64 word list \<Rightarrow> nat \<Rightarrow> bytes \<Rightarrow> ('e, bytes) outcome" where
  \<comment> \<open>copy(bytes[i*8:], elemBytes): the slice expression panics past the end\<close>
  "bytes_loop [] i out = Return out"
| "bytes_loop (e # es) i out =
     (if i * 8 > length out then Panic
      else bytes_loop es (Suc i)
             (take (i * 8) out @ take (length out - i * 8) (le_bytes64 e)
              @ drop (i * 8 + 8) out))"

definition ba_Bytes :: "bit_array \<Rightarrow> ('e, bytes) outcome" where
  "ba_Bytes b =
     (if (Bits b + 7) sdiv 8 < 0 then Panic
      else bytes_loop (Elems b) 0 (replicate (nat ((Bits b + 7) sdiv 8)) 0))"

datatype bits_error = BadJSONFormat

fun marshal_loop :: "bit_array \<Rightarrow> nat list \<Rightarrow> ('e, string) outcome" where
  "marshal_loop b [] = Return []"
| "marshal_loop b (i # is) =
     bind_o (getIndex b (int i)) (\<lambda>v.
     bind_o (marshal_loop b is) (\<lambda>s. Return ((if v then CHR ''x'' else CHR ''_'') # s)))"

definition MarshalJSON :: "bit_array option \<Rightarrow> ('e, string) outcome" where
  "MarshalJSON bA =
     (case bA of None \<Rightarrow> Return ''null''
      | Some b \<Rightarrow> bind_o (marshal_loop b [0..<nat (Bits b)])
                    (\<lambda>s. Return (CHR 0x22 # s @ [CHR 0x22])))"

definition json_match :: "string \<Rightarrow> string option" where
  \<comment> \<open>the regular expression of a quoted run of underscores and x, and its submatch\<close>
  "json_match s =
     (if length s \<ge> 2 \<and> hd s = CHR 0x22 \<and> last s = CHR 0x22
         \<and> list_all (\<lambda>c. c = CHR ''_'' \<or> c = CHR ''x'') (butlast (tl s))
      then Some (butlast (tl s)) else None)"

fun unmarshal_json_loop :: "string \<Rightarrow> int \<Rightarrow> bit_array option \<Rightarrow> ('e, bit_array option) outcome" where
  "unmarshal_json_loop [] i bA = Return bA"
| "unmarshal_json_loop (c # cs) i bA =
     (if c = CHR ''x'' then bind_o (SetIndex bA i True) (\<lambda>(_, bA'). unmarshal_json_loop cs (i + 1) bA')
      else unmarshal_json_loop cs (i + 1) bA)"

definition UnmarshalJSON :: "string \<Rightarrow> (bits_error, bit_array) outcome" where
  \<comment> \<open>the new contents of the receiver; copying from a nil array dereferences nil\<close>
  "UnmarshalJSON s =
     (if s = ''null'' then Return \<lparr>Bits = 0, Elems = []\<rparr>
      else case json_match s of
        None \<Rightarrow> Error BadJSONFormat
      | Some bits \<Rightarrow>
          bind_o (unmarshal_json_loop bits 0 (NewBitArray (int (length bits)))) (\<lambda>bA2.
            case bA2 of None \<Rightarrow> Panic | Some b \<Rightarrow> Return b))"

record pb_bit_array =
  pb_Bits :: int
  pb_Elems :: "64 word list"

definition ba_ToProto :: "bit_array option \<Rightarrow> pb_bit_array option" where
  "ba_ToProto bA =
     (case bA of None \<Rightarrow> None
      | Some b \<Rightarrow> if Elems b = [] then None else Some \<lparr>pb_Bits = Bits b, pb_Elems = Elems b\<rparr>)"

definition ba_FromProto :: "bit_array \<Rightarrow> pb_bit_array option \<Rightarrow> bit_array" where
  \<comment> \<open>the receiver after the call; the assignment bA = nil only changes the local pointer\<close>
  "ba_FromProto b p =
     (case p of None \<Rightarrow> b
      | Some q \<Rightarrow>
          let b1 = b\<lparr>Bits := pb_Bits q\<rparr>
          in if pb_Elems q \<noteq> [] then b1\<lparr>Elems := pb_Elems q\<rparr> else b1)"

section \<open>Reading a bit array\<close>

definition ba_wf :: "bit_array \<Rightarrow> bool" where
  "ba_wf b \<longleftrightarrow> 0 < Bits b \<and> length (Elems b) = nat ((Bits b + 63) div 64)"

definition ba_get :: "bit_array \<Rightarrow> nat \<Rightarrow> bool" where
  "ba_get b i = bit (Elems b ! (i div 64)) (i mod 64)"

definition ba_list :: "bit_array \<Rightarrow> bool list" where
  "ba_list b = map (ba_get b) [0..<nat (Bits b)]"

lemma sdiv_int_nat [simp]: "int i sdiv 64 = int (i div 64)"
  by (cases "i = 0") (simp_all add: signed_divide_int_def sgn_if zdiv_int)

lemma smod_int_nat [simp]: "int i smod 64 = int (i mod 64)"
  by (cases "i = 0") (simp_all add: signed_modulo_int_def zmod_int)

lemma ba_wf_index:
  assumes "ba_wf b" "i < nat (Bits b)"
  shows "i div 64 < length (Elems b)"
proof -
  have "int i < Bits b" using assms(2) by linarith
  then have "int i div 64 < (Bits b + 63) div 64" by linarith
  then show ?thesis using assms(1) by (simp add: ba_wf_def zdiv_int nat_less_iff zless_nat_eq_int_zless)
qed

lemma word_gt_0_bit_AND: "k < 64 \<Longrightarrow> (e AND push_bit k (1::64 word) > 0) = bit e k"
proof -
  assume k: "k < 64"
  have "(e AND push_bit k (1::64 word) > 0) \<longleftrightarrow> (e AND push_bit k 1 \<noteq> 0)"
    by (simp add: word_gt_0)
  also have "\<dots> \<longleftrightarrow> bit e k"
  proof
    have "e AND push_bit k 1 = 0" if "\<not> bit e k"
      by (rule bit_eqI) (use that in \<open>auto simp: bit_and_iff bit_exp_iff\<close>)
    then show "e AND push_bit k 1 \<noteq> 0 \<Longrightarrow> bit e k" by blast
  next
    assume "bit e k"
    then have "bit (e AND push_bit k 1) k" using k by (simp add: bit_and_iff bit_exp_iff)
    then show "e AND push_bit k 1 \<noteq> 0" by fastforce
  qed
  finally show ?thesis .
qed

lemma bit_mask_nat: "bit_mask (int i) = push_bit (i mod 64) 1"
  by (simp add: bit_mask_def shl1_def)

lemma getIndex_in:
  assumes "ba_wf b" "i < nat (Bits b)"
  shows "getIndex b (int i) = Return (ba_get b i)"
proof -
  have "\<not> Bits b \<le> int i" using assms(2) by linarith
  then show ?thesis using ba_wf_index [OF assms] word_gt_0_bit_AND [of "i mod 64"]
    by (simp add: getIndex_def ba_get_def bit_mask_nat)
qed

lemma getIndex_out: "int i \<ge> Bits b \<Longrightarrow> getIndex b (int i) = Return False"
  by (simp add: getIndex_def)

lemma ba_list_simps [simp]:
  "length (ba_list b) = nat (Bits b)"
  "i < nat (Bits b) \<Longrightarrow> ba_list b ! i = ba_get b i"
  by (simp_all add: ba_list_def)

definition put_bit :: "bit_array \<Rightarrow> nat \<Rightarrow> bool \<Rightarrow> bit_array" where
  "put_bit b i v =
     b\<lparr>Elems := (Elems b)[i div 64 := (let e = Elems b ! (i div 64); m = push_bit (i mod 64) 1
                                       in if v then e OR m else e AND NOT m)]\<rparr>"

lemma put_bit_keeps [simp]: "Bits (put_bit b i v) = Bits b" "ba_wf (put_bit b i v) = ba_wf b"
  by (simp_all add: put_bit_def ba_wf_def)

lemma setIndex_in:
  assumes "ba_wf b" "i < nat (Bits b)"
  shows "setIndex b (int i) v = Return (True, put_bit b i v)"
proof -
  have "\<not> Bits b \<le> int i" using assms(2) by linarith
  then show ?thesis using ba_wf_index [OF assms]
    by (simp add: setIndex_def put_bit_def bit_mask_nat Let_def)
qed

lemma setIndex_out: "int i \<ge> Bits b \<Longrightarrow> setIndex b (int i) v = Return (False, b)"
  by (simp add: setIndex_def)

lemma div_mod_64_eq: "(i::nat) div 64 = j div 64 \<Longrightarrow> i mod 64 = j mod 64 \<Longrightarrow> i = j"
  by (metis div_mult_mod_eq)

lemma ba_get_put_bit:
  assumes "ba_wf b" "i < nat (Bits b)"
  shows "ba_get (put_bit b i v) j = (if j = i then v else ba_get b j)"
proof (cases "j div 64 = i div 64")
  case True
  have len: "i div 64 < length (Elems b)" using assms by (rule ba_wf_index)
  have m: "j mod 64 < 64" by simp
  show ?thesis
  proof (cases "j = i")
    case True
    then show ?thesis using len m
      by (simp add: ba_get_def put_bit_def Let_def bit_or_iff bit_and_iff bit_not_iff bit_exp_iff)
  next
    case False
    then have "i mod 64 \<noteq> j mod 64" using True div_mod_64_eq by metis
    then show ?thesis using False True len m
      by (simp add: ba_get_def put_bit_def Let_def bit_or_iff bit_and_iff bit_not_iff bit_exp_iff)
  qed
next
  case False
  then show ?thesis by (auto simp: ba_get_def put_bit_def)
qed

lemma ba_list_put_bit:
  assumes "ba_wf b" "i < nat (Bits b)"
  shows "ba_list (put_bit b i v) = (ba_list b)[i := v]"
  by (rule nth_equalityI) (auto simp: ba_get_put_bit [OF assms] nth_list_update)

subsection \<open>The interface the vote sets use\<close>

locale bit_vector =
  fixes len :: "'b \<Rightarrow> nat"
    and get :: "'b \<Rightarrow> nat \<Rightarrow> bool"
    and put :: "'b \<Rightarrow> nat \<Rightarrow> bool \<Rightarrow> 'b"
    and ok :: "'b \<Rightarrow> bool"
  assumes ok_put: "ok b \<Longrightarrow> i < len b \<Longrightarrow> ok (put b i v)"
    and len_put: "ok b \<Longrightarrow> i < len b \<Longrightarrow> len (put b i v) = len b"
    and get_put: "ok b \<Longrightarrow> i < len b \<Longrightarrow> get (put b i v) j = (if j = i then v else get b j)"
begin

lemma fold_put_ok:
  "ok b \<Longrightarrow> set is \<subseteq> {..<len b} \<Longrightarrow>
     ok (fold (\<lambda>i b. put b i v) is b) \<and> len (fold (\<lambda>i b. put b i v) is b) = len b"
  by (induction "is" arbitrary: b) (auto simp: ok_put len_put)

lemma get_fold_put:
  "ok b \<Longrightarrow> set is \<subseteq> {..<len b} \<Longrightarrow>
     get (fold (\<lambda>i b. put b i v) is b) j = (if j \<in> set is then v else get b j)"
  by (induction "is" arbitrary: b) (auto simp: ok_put len_put get_put)

end

interpretation bav: bit_vector "\<lambda>b. nat (Bits b)" ba_get put_bit ba_wf
  by unfold_locales (simp_all add: ba_get_put_bit)

lemma NewBitArray_spec:
  assumes "0 < n"
  obtains b where "NewBitArray n = Some b" "ba_wf b" "Bits b = n" "\<And>i. i < nat n \<Longrightarrow> \<not> ba_get b i"
proof -
  define b where "b = \<lparr>Bits = n, Elems = replicate (nat ((n + 63) sdiv 64)) (0::64 word)\<rparr>"
  have sd: "(n + 63) sdiv 64 = (n + 63) div 64"
    using assms sdiv_int_nat [of "nat (n + 63)"] by (simp add: zdiv_int)
  have wf: "ba_wf b" using assms by (simp add: b_def ba_wf_def sd)
  have "\<not> ba_get b i" if "i < nat n" for i
  proof -
    have "i div 64 < length (Elems b)" using ba_wf_index [OF wf] that by (simp add: b_def)
    then show ?thesis by (simp add: ba_get_def b_def)
  qed
  then show thesis using assms wf that by (simp add: NewBitArray_def b_def)
qed

section \<open>What the operations compute\<close>

subsection \<open>Bitwise operations\<close>

lemma length_zip_prefix [simp]: "length (zip_prefix f xs ys) = length xs"
  by (induction f xs ys rule: zip_prefix.induct) auto

lemma nth_zip_prefix:
  "i < length xs \<Longrightarrow> zip_prefix f xs ys ! i = (if i < length ys then f (xs ! i) (ys ! i) else xs ! i)"
proof (induction f xs ys arbitrary: i rule: zip_prefix.induct)
  case (1 f x xs y ys)
  then show ?case by (cases i) auto
qed auto

lemma and_loop_ok:
  "length xs \<le> length ys \<Longrightarrow> and_loop xs ys = Return (map2 (AND) xs ys)"
  by (induction xs ys rule: and_loop.induct) auto

lemma copyBits_ok:
  assumes "0 < n"
  shows "copyBits b n = Return \<lparr>Bits = n, Elems = take (nat ((n + 63) div 64)) (Elems b)
           @ replicate (nat ((n + 63) div 64) - length (Elems b)) 0\<rparr>"
proof -
  have "(n + 63) sdiv 64 = (n + 63) div 64"
    using assms sdiv_int_nat [of "nat (n + 63)"] by (simp add: zdiv_int)
  then show ?thesis using assms by (simp add: copyBits_def Let_def)
qed

lemma ba_wf_len: "ba_wf b \<Longrightarrow> length (Elems b) = nat ((Bits b + 63) div 64)"
  by (simp add: ba_wf_def)

lemma ba_And_spec:
  assumes "ba_wf a" "ba_wf b"
  obtains c where "ba_And (Some a) (Some b) = Return (Some c)" "ba_wf c"
    "Bits c = min (Bits a) (Bits b)"
    "\<And>i. i < nat (Bits c) \<Longrightarrow> ba_get c i = (ba_get a i \<and> ba_get b i)"
proof -
  define n where "n = min (Bits a) (Bits b)"
  define k where "k = nat ((n + 63) div 64)"
  have n: "0 < n" and ka: "k \<le> length (Elems a)" and kb: "k \<le> length (Elems b)"
    using assms by (auto simp: n_def k_def ba_wf_def intro!: nat_mono zdiv_mono1)
  define c where "c = \<lparr>Bits = n, Elems = map2 (AND) (take k (Elems a)) (Elems b)\<rparr>"
  have e: "ba_And (Some a) (Some b) = Return (Some c)"
    using ka kb by (simp add: ba_And_def copyBits_ok [OF n, folded k_def] n_def [symmetric]
        and_loop_ok c_def)
  have wf: "ba_wf c" using n ka kb by (simp add: ba_wf_def c_def k_def)
  have "ba_get c i = (ba_get a i \<and> ba_get b i)" if "i < nat (Bits c)" for i
    using ba_wf_index [OF wf that] ka kb by (simp add: ba_get_def c_def bit_and_iff)
  then show thesis using that [OF e wf] by (simp add: c_def n_def)
qed

lemma ba_Or_spec:
  assumes "ba_wf a" "ba_wf b"
  obtains c where "ba_Or (Some a) (Some b) = Return (Some c)" "ba_wf c"
    "Bits c = max (Bits a) (Bits b)"
    "\<And>i. i < nat (Bits c) \<Longrightarrow> ba_get c i =
       (i div 64 < length (Elems a) \<and> (ba_get a i \<or> (i div 64 < length (Elems b) \<and> ba_get b i)))"
proof -
  define n where "n = max (Bits a) (Bits b)"
  define k where "k = nat ((n + 63) div 64)"
  have n: "0 < n" and ka: "length (Elems a) \<le> k" and kb: "length (Elems b) \<le> k"
    using assms by (auto simp: n_def k_def ba_wf_def intro!: nat_mono zdiv_mono1)
  define es where "es = Elems a @ replicate (k - length (Elems a)) 0"
  define c where "c = \<lparr>Bits = n, Elems = zip_prefix (OR) es
      (take (min (length (Elems a)) (length (Elems b))) (Elems b))\<rparr>"
  have e: "ba_Or (Some a) (Some b) = Return (Some c)"
    using ka by (simp add: ba_Or_def copyBits_ok [OF n, folded k_def] n_def [symmetric] c_def es_def)
  have wf: "ba_wf c" using n ka by (simp add: ba_wf_def c_def es_def k_def)
  have "ba_get c i = (i div 64 < length (Elems a) \<and>
      (ba_get a i \<or> (i div 64 < length (Elems b) \<and> ba_get b i)))" if "i < nat (Bits c)" for i
    using ba_wf_index [OF wf that] ka
    by (auto simp: ba_get_def c_def es_def bit_or_iff nth_zip_prefix nth_append)
  then show thesis using that [OF e wf] by (simp add: c_def n_def)
qed

lemma ba_Sub_spec:
  assumes "ba_wf a" "ba_wf b"
  obtains c where "ba_Sub (Some a) (Some b) = Return (Some c)" "ba_wf c" "Bits c = Bits a"
    "\<And>i. i < nat (Bits c) \<Longrightarrow> ba_get c i =
       (ba_get a i \<and> \<not> (i div 64 < length (Elems b) \<and> ba_get b i))"
proof -
  have n: "0 < Bits a" using assms by (simp add: ba_wf_def)
  define c where "c = \<lparr>Bits = Bits a, Elems = zip_prefix (\<lambda>x y. x AND NOT y) (Elems a)
      (take (min (length (Elems a)) (length (Elems b))) (Elems b))\<rparr>"
  have e: "ba_Sub (Some a) (Some b) = Return (Some c)"
    by (simp add: ba_Sub_def copyBits_ok [OF n] ba_wf_len [OF assms(1), symmetric] c_def)
  have wf: "ba_wf c" using assms(1) by (simp add: ba_wf_def c_def)
  have "ba_get c i = (ba_get a i \<and> \<not> (i div 64 < length (Elems b) \<and> ba_get b i))"
    if "i < nat (Bits c)" for i
    using ba_wf_index [OF wf that]
    by (auto simp: ba_get_def c_def bit_and_iff bit_not_iff nth_zip_prefix)
  then show thesis using that [OF e wf] by (simp add: c_def)
qed

lemma ba_Not_spec:
  assumes "ba_wf a"
  obtains c where "ba_Not (Some a) = Some c" "ba_wf c" "Bits c = Bits a"
    "\<And>i. i < nat (Bits a) \<Longrightarrow> ba_get c i = (\<not> ba_get a i)"
  using assms ba_wf_index [OF assms]
  by (auto simp: ba_Not_def ba_wf_def ba_get_def bit_not_iff intro!: that)

subsection \<open>Enumerating the true bits\<close>

lemma div_mod_64_block:
  assumes "64 * k \<le> (i::nat)" "i < 64 * k + 64"
  shows "i div 64 = k" "i mod 64 = i - 64 * k"
proof -
  obtain j where "i = 64 * k + j" "j < 64" using assms by (metis add_less_cancel_left le_Suc_ex)
  then show "i div 64 = k" "i mod 64 = i - 64 * k" by simp_all
qed

lemma word_indices_eq:
  assumes "n \<le> 64"
  shows "word_indices e n (int c) = map int (filter (\<lambda>i. bit e (i - c)) [c..<c + n])"
proof -
  have f: "filter (\<lambda>j. e AND push_bit j 1 > 0) [0..<n] = filter (bit e) [0..<n]"
    by (rule filter_cong) (use assms word_gt_0_bit_AND [of _ e] in auto)
  have "[c..<c + n] = map (\<lambda>i. i + c) [0..<n]" by (simp add: map_add_upt add.commute)
  then show ?thesis unfolding word_indices_def f by (simp add: filter_map o_def add.commute)
qed

lemma true_indices_loop_eq:
  "true_indices_loop es (int (64 * k)) =
     map int (filter (\<lambda>i. bit (es ! (i div 64 - k)) (i mod 64)) [64 * k..<64 * (k + length es)])"
proof (induction es arbitrary: k)
  case Nil
  then show ?case by simp
next
  case (Cons e es)
  let ?P = "\<lambda>i. bit ((e # es) ! (i div 64 - k)) (i mod 64)"
  have split: "[64 * k..<64 * (k + length (e # es))] =
      [64 * k..<64 * k + 64] @ [64 * Suc k..<64 * (Suc k + length es)]"
    using upt_add_eq_append [of "64 * k" "64 * k + 64" "64 * length es"] by (simp add: algebra_simps)
  have hd: "(if e = 0 then [] else word_indices e 64 (int (64 * k))) =
      map int (filter ?P [64 * k..<64 * k + 64])"
  proof -
    have "(if e = 0 then [] else word_indices e 64 (int (64 * k))) =
        map int (filter (\<lambda>i. bit e (i - 64 * k)) [64 * k..<64 * k + 64])"
      using word_indices_eq [of 64 e "64 * k"] by simp
    also have "filter (\<lambda>i. bit e (i - 64 * k)) [64 * k..<64 * k + 64] =
        filter ?P [64 * k..<64 * k + 64]"
    proof (rule filter_cong)
      fix i assume "i \<in> set [64 * k..<64 * k + 64]"
      then have "i div 64 = k" "i mod 64 = i - 64 * k" using div_mod_64_block [of k i] by auto
      then show "bit e (i - 64 * k) = ?P i" by simp
    qed simp
    finally show ?thesis .
  qed
  have tl: "true_indices_loop es (int (64 * k) + 64) =
      map int (filter ?P [64 * Suc k..<64 * (Suc k + length es)])"
  proof -
    have "filter (\<lambda>i. bit (es ! (i div 64 - Suc k)) (i mod 64)) [64 * Suc k..<64 * (Suc k + length es)]
        = filter ?P [64 * Suc k..<64 * (Suc k + length es)]"
    proof (rule filter_cong)
      fix i assume "i \<in> set [64 * Suc k..<64 * (Suc k + length es)]"
      then have "Suc k \<le> i div 64" by (auto simp: less_eq_div_iff_mult_less_eq)
      then have "i div 64 - k = Suc (i div 64 - Suc k)" by simp
      then show "bit (es ! (i div 64 - Suc k)) (i mod 64) = ?P i" by simp
    qed simp
    then show ?thesis using Cons.IH [of "Suc k"] by (simp add: algebra_simps)
  qed
  show ?case unfolding split true_indices_loop.simps hd tl by simp
qed

lemma ba_wf_last:
  assumes "ba_wf b"
  obtains m r where "Elems b \<noteq> []" "length (Elems b) = Suc m" "1 \<le> r" "r \<le> 64"
    "nat (Bits b) = 64 * m + r" "int r = (Bits b + 63) mod 64 + 1"
proof -
  define q where "q = (Bits b - 1) div 64"
  define s where "s = (Bits b - 1) mod 64"
  have b: "0 < Bits b" "length (Elems b) = nat ((Bits b + 63) div 64)"
    using assms by (auto simp: ba_wf_def)
  have qs: "Bits b - 1 = 64 * q + s" "0 \<le> s" "s < 64" "0 \<le> q"
    using b(1) by (auto simp: q_def s_def pos_imp_zdiv_nonneg_iff)
  have "Bits b + 63 = 64 * (q + 1) + s" using qs by simp
  then have dm: "(Bits b + 63) div 64 = q + 1" "(Bits b + 63) mod 64 = s"
    using qs int_div_pos_eq [of "Bits b + 63" 64 "q + 1" s]
      int_mod_pos_eq [of "Bits b + 63" 64 "q + 1" s] by simp_all
  show thesis
    by (rule that [of "nat q" "nat (s + 1)"]) (use b dm qs in auto)
qed

lemma getTrueIndices_eq:
  assumes "ba_wf b"
  shows "getTrueIndices b = Return (map int (filter (ba_get b) [0..<nat (Bits b)]))"
proof -
  obtain m r where ne: "Elems b \<noteq> []" and len: "length (Elems b) = Suc m" and r: "1 \<le> r" "r \<le> 64"
    and n: "nat (Bits b) = 64 * m + r" using ba_wf_last [OF assms] by metis
  have lb: "length (butlast (Elems b)) = m" using len by simp
  have c: "nat (Bits b - 64 * int m) = r" using n r by linarith
  have "filter (\<lambda>i. bit (butlast (Elems b) ! (i div 64 - 0)) (i mod 64)) [64 * 0..<64 * (0 + m)]
      = filter (ba_get b) [0..<64 * m]"
  proof (rule filter_cong)
    fix i assume "i \<in> set [0..<64 * m]"
    then have "i div 64 < length (butlast (Elems b))"
      unfolding lb by (simp add: less_mult_imp_div_less mult.commute)
    then show "bit (butlast (Elems b) ! (i div 64 - 0)) (i mod 64) = ba_get b i"
      by (simp add: ba_get_def nth_butlast)
  qed simp
  then have full: "true_indices_loop (butlast (Elems b)) 0 = map int (filter (ba_get b) [0..<64 * m])"
    using true_indices_loop_eq [of "butlast (Elems b)" 0] lb by simp
  have "filter (\<lambda>i. bit (last (Elems b)) (i - 64 * m)) [64 * m..<64 * m + r]
      = filter (ba_get b) [64 * m..<64 * m + r]"
  proof (rule filter_cong)
    fix i assume "i \<in> set [64 * m..<64 * m + r]"
    then have "i div 64 = m" "i mod 64 = i - 64 * m" using r div_mod_64_block [of m i] by auto
    then show "bit (last (Elems b)) (i - 64 * m) = ba_get b i"
      using ne len by (simp add: ba_get_def last_conv_nth)
  qed simp
  then have lst: "word_indices (last (Elems b)) r (64 * int m) =
      map int (filter (ba_get b) [64 * m..<64 * m + r])"
    using word_indices_eq [OF r(2), of "last (Elems b)" "64 * m"] by simp
  have "[0..<nat (Bits b)] = [0..<64 * m] @ [64 * m..<64 * m + r]"
    unfolding n using upt_add_eq_append [of 0 "64 * m" r] by simp
  then show ?thesis using ne by (simp add: getTrueIndices_def len c full lst Let_def)
qed

subsection \<open>Fullness\<close>

lemma NOT_eq_0_all_bits: "NOT (e::64 word) = 0 \<longleftrightarrow> (\<forall>j<64. bit e j)"
proof
  assume "NOT e = 0"
  then have "e = - 1" by (metis bit.double_compl bit.compl_zero)
  then show "\<forall>j<64. bit e j" by simp
next
  assume *: "\<forall>j<64. bit e j"
  show "NOT e = 0" by (rule bit_eqI) (use * in \<open>simp add: bit_not_iff\<close>)
qed

lemma take_bit_Suc_mask:
  "r \<le> 64 \<Longrightarrow> take_bit r ((e::64 word) + 1) = 0 \<longleftrightarrow> take_bit r e = mask r"
  by transfer (simp add: min_def take_bit_eq_mask_iff)

lemma low_bits_full:
  assumes "1 \<le> r" "r \<le> 64"
  shows "((e::64 word) + 1) AND (shl1 (int r) - 1) = 0 \<longleftrightarrow> (\<forall>j<r. bit e j)"
proof -
  have m: "shl1 (int r) - 1 = mask r" by (simp add: shl1_def mask_eq_exp_minus_1)
  have "(e + 1) AND mask r = 0 \<longleftrightarrow> take_bit r (e + 1) = 0" by (simp add: take_bit_eq_mask)
  also have "\<dots> \<longleftrightarrow> take_bit r e = mask r" using assms(2) by (rule take_bit_Suc_mask)
  also have "\<dots> \<longleftrightarrow> (\<forall>j<r. bit e j)"
  proof
    assume *: "take_bit r e = mask r"
    show "\<forall>j<r. bit e j"
    proof (intro allI impI)
      fix j assume "j < r"
      then have "bit (mask r :: 64 word) j" using assms by (simp add: bit_mask_iff)
      then show "bit e j" unfolding * [symmetric] by (simp add: bit_take_bit_iff)
    qed
  next
    assume "\<forall>j<r. bit e j"
    then show "take_bit r e = mask r" by (auto intro!: bit_eqI simp: bit_take_bit_iff bit_mask_iff)
  qed
  finally show ?thesis unfolding m .
qed

lemma ba_full_split:
  assumes n: "nat (Bits b) = 64 * m + r" and len: "length (Elems b) = Suc m" and r: "1 \<le> r" "r \<le> 64"
  shows "(\<forall>i<nat (Bits b). ba_get b i) \<longleftrightarrow>
    (\<forall>k<m. \<forall>j<64. bit (Elems b ! k) j) \<and> (\<forall>j<r. bit (Elems b ! m) j)" (is "?L \<longleftrightarrow> ?R")
proof
  assume L: ?L
  have "bit (Elems b ! k) j" if "k < m" "j < 64" for k j
  proof -
    have "64 * k + j < nat (Bits b)" using n that by linarith
    then show ?thesis using L that by (auto simp: ba_get_def dest!: spec [of _ "64 * k + j"])
  qed
  moreover have "bit (Elems b ! m) j" if "j < r" for j
  proof -
    have "64 * m + j < nat (Bits b)" "j < 64" using n r that by linarith+
    then show ?thesis using L by (auto simp: ba_get_def dest!: spec [of _ "64 * m + j"])
  qed
  ultimately show ?R by blast
next
  assume R: ?R
  show ?L
  proof (intro allI impI)
    fix i assume i: "i < nat (Bits b)"
    show "ba_get b i"
    proof (cases "i < 64 * m")
      case True
      then show ?thesis using R by (simp add: ba_get_def less_mult_imp_div_less mult.commute)
    next
      case False
      then have "i div 64 = m" "i mod 64 < r" using div_mod_64_block [of m i] i n r by auto
      then show ?thesis using R by (simp add: ba_get_def)
    qed
  qed
qed

lemma IsFull_eq:
  assumes "ba_wf b"
  shows "IsFull (Some b) = Return (\<forall>i<nat (Bits b). ba_get b i)"
proof -
  obtain m r where ne: "Elems b \<noteq> []" and len: "length (Elems b) = Suc m" and r: "1 \<le> r" "r \<le> 64"
    and n: "nat (Bits b) = 64 * m + r" and rr: "int r = (Bits b + 63) mod 64 + 1"
    using ba_wf_last [OF assms] by metis
  have sm: "(Bits b + 63) smod 64 + 1 = int r"
    using assms smod_int_nat [of "nat (Bits b + 63)"] rr by (simp add: ba_wf_def zmod_int)
  have bl: "list_all (\<lambda>e. NOT e = 0) (butlast (Elems b)) \<longleftrightarrow> (\<forall>k<m. \<forall>j<64. bit (Elems b ! k) j)"
    using len by (simp add: list_all_length nth_butlast NOT_eq_0_all_bits)
  have "last (Elems b) = Elems b ! m" using ne len by (simp add: last_conv_nth)
  then show ?thesis using ne low_bits_full [OF r, of "Elems b ! m"]
    by (simp add: IsFull_def bl sm ba_full_split [OF n len r] Let_def)
qed

subsection \<open>The JSON form\<close>

lemma marshal_loop_eq:
  "ba_wf b \<Longrightarrow> set is \<subseteq> {..<nat (Bits b)} \<Longrightarrow>
     marshal_loop b is = Return (map (\<lambda>i. if ba_get b i then CHR ''x'' else CHR ''_'') is)"
  by (induction "is") (auto simp: getIndex_in)

lemma unmarshal_loop_eq:
  "ba_wf b \<Longrightarrow> i + length cs \<le> nat (Bits b) \<Longrightarrow>
     unmarshal_json_loop cs (int i) (Some b) =
       (Return :: _ \<Rightarrow> ('e, _) outcome) (Some (fold (\<lambda>j b. put_bit b j True)
                       (filter (\<lambda>j. cs ! (j - i) = CHR ''x'') [i..<i + length cs]) b))"
proof (induction cs arbitrary: i b)
  case Nil
  then show ?case by simp
next
  case (Cons c cs)
  have i: "i < nat (Bits b)" using Cons.prems by simp
  have up: "[i..<i + length (c # cs)] = i # [Suc i..<Suc i + length cs]"
    using upt_conv_Cons [of i "Suc (i + length cs)"] by simp
  have f: "filter (\<lambda>j. (c # cs) ! (j - i) = CHR ''x'') [Suc i..<Suc i + length cs] =
      filter (\<lambda>j. cs ! (j - Suc i) = CHR ''x'') [Suc i..<Suc i + length cs]"
    by (rule filter_cong) (auto simp: nth_Cons')
  have ih: "unmarshal_json_loop cs (int i + 1) (Some b') =
      (Return :: _ \<Rightarrow> ('e, _) outcome) (Some (fold (\<lambda>j b. put_bit b j True)
                 (filter (\<lambda>j. cs ! (j - Suc i) = CHR ''x'') [Suc i..<Suc i + length cs]) b'))"
    if "ba_wf b'" "Bits b' = Bits b" for b'
    using Cons.IH [of b' "Suc i"] Cons.prems that by (simp add: add.commute [of _ 1] del: upt_Suc)
  show ?case using Cons.prems(1) i
    by (simp only: up filter.simps f)
       (auto simp: ih SetIndex_def setIndex_in)
qed

lemma json_roundtrip_obtain:
  assumes "ba_wf b"
  obtains s b' where "MarshalJSON (Some b) = (Return s :: (bits_error, string) outcome)"
    "UnmarshalJSON s = Return b'" "Bits b' = Bits b" "ba_wf b'" "ba_list b' = ba_list b"
proof -
  define cs where "cs = map (\<lambda>i. if ba_get b i then CHR ''x'' else CHR ''_'') [0..<nat (Bits b)]"
  define s where "s = CHR 0x22 # cs @ [CHR 0x22]"
  have n: "0 < Bits b" using assms by (simp add: ba_wf_def)
  have m: "MarshalJSON (Some b) = Return s"
    by (simp add: MarshalJSON_def s_def cs_def atLeast0LessThan marshal_loop_eq [OF assms])
  have j: "s \<noteq> ''null''" "json_match s = Some cs"
    by (auto simp: s_def json_match_def cs_def list_all_iff butlast_append)
  obtain z where z: "NewBitArray (Bits b) = Some z" "ba_wf z" "Bits z = Bits b"
      "\<And>i. i < nat (Bits b) \<Longrightarrow> \<not> ba_get z i" using NewBitArray_spec [OF n] by metis
  define xs where "xs = filter (\<lambda>j. cs ! (j - 0) = CHR ''x'') [0..<0 + length cs]"
  define b' where "b' = fold (\<lambda>j b. put_bit b j True) xs z"
  have xs: "set xs \<subseteq> {..<nat (Bits z)}" "\<And>i. i < nat (Bits b) \<Longrightarrow> i \<in> set xs \<longleftrightarrow> ba_get b i"
    using z by (auto simp: xs_def cs_def split: if_splits)
  have len: "length cs = nat (Bits b)" by (simp add: cs_def)
  have "unmarshal_json_loop cs 0 (Some z) = (Return (Some b') :: (bits_error, bit_array option) outcome)"
    using unmarshal_loop_eq [OF z(2), of 0 cs] z(3) by (simp add: len b'_def xs_def)
  then have u: "UnmarshalJSON s = Return b'" using j z(1) n by (simp add: UnmarshalJSON_def len)
  have k: "ba_wf b'" "Bits b' = Bits b"
    using bav.fold_put_ok [OF z(2) xs(1), of True] z(3) n by (auto simp: b'_def ba_wf_def)
  have "ba_list b' = ba_list b"
    using k(2) z xs bav.get_fold_put [OF z(2) xs(1), of True]
    by (intro nth_equalityI) (simp_all add: b'_def)
  then show thesis using that m u k by blast
qed

lemma UnmarshalJSON_empty: "UnmarshalJSON [CHR 0x22, CHR 0x22] = Panic"
  by (simp add: UnmarshalJSON_def json_match_def NewBitArray_def)

section \<open>Properties\<close>

text \<open>
  \<open>getTrueIndices\<close> of a well-formed array returns exactly the indices below the length whose
  bit is set, in increasing order; bits past the length in the last word are never reported.
\<close>

theorem getTrueIndices_exact:
  assumes "ba_wf b"
  shows "getTrueIndices b = Return (map int (filter (\<lambda>i. getIndex b (int i) = (Return True :: (unit, bool) outcome)) [0..<nat (Bits b)]))"
proof -
  have "filter (ba_get b) [0..<nat (Bits b)] =
      filter (\<lambda>i. getIndex b (int i) = (Return True :: (unit, bool) outcome)) [0..<nat (Bits b)]"
    by (rule filter_cong) (simp_all add: getIndex_in [OF assms])
  then show ?thesis using getTrueIndices_eq [OF assms] by simp
qed

theorem getTrueIndices_exact_witness:
  "getTrueIndices \<lparr>Bits = 3, Elems = [13]\<rparr> = (Return [0, 2] :: (unit, int list) outcome)"
proof -
  have "ba_wf \<lparr>Bits = 3, Elems = [13]\<rparr>" by code_simp
  from getTrueIndices_exact [OF this]
  have "getTrueIndices \<lparr>Bits = 3, Elems = [13]\<rparr> =
    (Return (map int (filter (\<lambda>i. getIndex \<lparr>Bits = 3, Elems = [13]\<rparr> (int i) =
       (Return True :: (unit, bool) outcome)) [0..<nat (Bits \<lparr>Bits = 3, Elems = [13]\<rparr>)])) :: (unit, int list) outcome)" .
  moreover have "map int (filter (\<lambda>i. getIndex \<lparr>Bits = 3, Elems = [13]\<rparr> (int i) =
       (Return True :: (unit, bool) outcome)) [0..<nat (Bits \<lparr>Bits = 3, Elems = [13]\<rparr>)]) = [0, 2]"
    by code_simp
  ultimately show ?thesis by simp
qed

text \<open>
  The bitwise or of two well-formed arrays has the larger of the two lengths, and bit i is
  the disjunction of the two bits as long as i lies in a word of the receiver.  In the words the
  receiver does not have, every bit of the result is 0, whatever the argument holds there.
\<close>

theorem Or_drops_words_past_receiver:
  assumes "ba_wf a" "ba_wf b"
  shows "\<exists>c. ba_Or (Some a) (Some b) = (Return (Some c) :: (unit, bit_array option) outcome)
    \<and> Bits c = max (Bits a) (Bits b) \<and> ba_wf c
    \<and> (\<forall>i < nat (Bits c). ba_get c i =
         (i div 64 < length (Elems a) \<and> (ba_get a i \<or> (i div 64 < length (Elems b) \<and> ba_get b i))))"
  using ba_Or_spec [OF assms] by metis

theorem Or_drops_words_past_receiver_witness:
  "\<exists>c. ba_Or (Some \<lparr>Bits = 1, Elems = [0]\<rparr>) (Some \<lparr>Bits = 65, Elems = [1, 1]\<rparr>)
         = (Return (Some c) :: (unit, bit_array option) outcome)
    \<and> Bits c = 65 \<and> ba_get c 0 \<and> \<not> ba_get c 64 \<and> ba_get \<lparr>Bits = 65, Elems = [1, 1]\<rparr> 64"
proof -
  have "ba_wf \<lparr>Bits = 1, Elems = [0]\<rparr>" "ba_wf \<lparr>Bits = 65, Elems = [1, 1]\<rparr>" by code_simp+
  from Or_drops_words_past_receiver [OF this] obtain c where
    c: "ba_Or (Some \<lparr>Bits = 1, Elems = [0]\<rparr>) (Some \<lparr>Bits = 65, Elems = [1, 1]\<rparr>)
         = (Return (Some c) :: (unit, bit_array option) outcome)"
    and n: "Bits c = 65"
    and g: "\<And>i. i < nat (Bits c) \<Longrightarrow> ba_get c i =
      (i div 64 < 1 \<and> (ba_get \<lparr>Bits = 1, Elems = [0]\<rparr> i
        \<or> (i div 64 < Suc (Suc 0) \<and> ba_get \<lparr>Bits = 65, Elems = [1, 1]\<rparr> i)))"
    by auto
  show ?thesis using c n g [of 0] g [of 64] by (intro exI [of _ c]) (simp add: ba_get_def)
qed

text \<open>
  Writing a well-formed array of n > 0 bits as JSON and reading it back gives an array with
  the same length and the same bits.
\<close>

theorem bits_json_roundtrip:
  assumes "ba_wf b"
  shows "\<exists>s b'. MarshalJSON (Some b) = (Return s :: (bits_error, string) outcome)
    \<and> UnmarshalJSON s = Return b' \<and> ba_wf b' \<and> Bits b' = Bits b \<and> ba_list b' = ba_list b"
  using json_roundtrip_obtain [OF assms] by metis

theorem bits_json_roundtrip_witness:
  "\<exists>s b'. MarshalJSON (Some \<lparr>Bits = 3, Elems = [13]\<rparr>) = (Return s :: (bits_error, string) outcome)
    \<and> UnmarshalJSON s = Return b' \<and> ba_wf b' \<and> ba_list b' = [True, False, True]"
proof -
  have "ba_wf \<lparr>Bits = 3, Elems = [13]\<rparr>" by code_simp
  moreover have "ba_list \<lparr>Bits = 3, Elems = [13]\<rparr> = [True, False, True]" by code_simp
  ultimately show ?thesis using bits_json_roundtrip [of "\<lparr>Bits = 3, Elems = [13]\<rparr>"] by metis
qed

text \<open>
  \<open>IsFull\<close> of a well-formed array holds exactly when every bit below the length is set.
\<close>

theorem IsFull_iff_all_set:
  assumes "ba_wf b"
  shows "IsFull (Some b) = (Return (list_all id (ba_list b)) :: (unit, bool) outcome)"
  using IsFull_eq [OF assms] by (simp add: list_all_length)

theorem IsFull_iff_all_set_witness:
  "IsFull (Some \<lparr>Bits = 3, Elems = [15]\<rparr>) = (Return True :: (unit, bool) outcome)"
proof -
  have "ba_wf \<lparr>Bits = 3, Elems = [15]\<rparr>" "list_all id (ba_list \<lparr>Bits = 3, Elems = [15]\<rparr>)" by code_simp+
  then show ?thesis using IsFull_iff_all_set [of "\<lparr>Bits = 3, Elems = [15]\<rparr>"] by simp
qed

end
