(* ===== verification/SafeMath.thy ===== *)
theory SafeMath
  imports Prelude
begin

text \<open>
  Checked integer arithmetic: libs/math/safemath.go and libs/math/fraction.go, and the
  overflow-aware helpers at the end of types/validator_set.go.  The lemmas relate every
  helper to exact arithmetic on the integers.
\<close>

section \<open>libs/math/safemath.go\<close>

datatype math_error = ErrOverflowUint8 | ErrOverflowInt8

definition SafeAddInt32 :: "int \<Rightarrow> int \<Rightarrow> ('e, int) outcome" where
  "SafeAddInt32 a b =
     (if b > 0 \<and> a > MaxInt32 - b then Panic
      else if b < 0 \<and> a < MinInt32 - b then Panic
      else Return (i32 (a + b)))"

definition SafeSubInt32 :: "int \<Rightarrow> int \<Rightarrow> ('e, int) outcome" where
  "SafeSubInt32 a b =
     (if b > 0 \<and> a < MinInt32 + b then Panic
      else if b < 0 \<and> a > MaxInt32 + b then Panic
      else Return (i32 (a - b)))"

definition SafeConvertInt32 :: "int \<Rightarrow> ('e, int) outcome" where
  "SafeConvertInt32 a =
     (if a > MaxInt32 then Panic else if a < MinInt32 then Panic else Return (i32 a))"

definition SafeConvertUint8 :: "int \<Rightarrow> (math_error, int) outcome" where
  "SafeConvertUint8 a =
     (if a > 255 then Error ErrOverflowUint8
      else if a < 0 then Error ErrOverflowUint8
      else Return (a mod 256))"

definition SafeConvertInt8 :: "int \<Rightarrow> (math_error, int) outcome" where
  "SafeConvertInt8 a =
     (if a > 127 then Error ErrOverflowInt8
      else if a < - 128 then Error ErrOverflowInt8
      else Return ((a + 128) mod 256 - 128))"

section \<open>Overflow-aware int64 arithmetic (types/validator\_set.go)\<close>

definition safeAdd :: "int \<Rightarrow> int \<Rightarrow> int \<times> bool" where
  "safeAdd a b =
     (if b > 0 \<and> a > MaxInt64 - b then (- 1, True)
      else if b < 0 \<and> a < MinInt64 - b then (- 1, True)
      else (i64 (a + b), False))"

definition safeSub :: "int \<Rightarrow> int \<Rightarrow> int \<times> bool" where
  "safeSub a b =
     (if b > 0 \<and> a < MinInt64 + b then (- 1, True)
      else if b < 0 \<and> a > MaxInt64 + b then (- 1, True)
      else (i64 (a - b), False))"

definition safeAddClip :: "int \<Rightarrow> int \<Rightarrow> int" where
  "safeAddClip a b =
     (let (c, overflow) = safeAdd a b
      in if overflow then (if b < 0 then MinInt64 else MaxInt64) else c)"

definition safeSubClip :: "int \<Rightarrow> int \<Rightarrow> int" where
  "safeSubClip a b =
     (let (c, overflow) = safeSub a b
      in if overflow then (if b > 0 then MinInt64 else MaxInt64) else c)"

definition safeMul :: "int \<Rightarrow> int \<Rightarrow> int \<times> bool" where
  \<comment> \<open>-b and -a wrap around at the smallest int64\<close>
  "safeMul a b =
     (if a = 0 \<or> b = 0 then (0, False)
      else let absOfB = (if b < 0 then i64 (- b) else b);
               absOfA = (if a < 0 then i64 (- a) else a)
           in if absOfA > MaxInt64 sdiv absOfB then (0, True)
              else (i64 (a * b), False))"

section \<open>libs/math/fraction.go\<close>

record Fraction =
  Numerator :: nat
  Denominator :: nat

fun split_slash :: "string \<Rightarrow> string list" where
  \<comment> \<open>strings.Split with a one-character separator\<close>
  "split_slash [] = [[]]"
| "split_slash (c # cs) =
     (if c = CHR ''/'' then [] # split_slash cs
      else case split_slash cs of [] \<Rightarrow> [[c]] | w # ws \<Rightarrow> (c # w) # ws)"

definition digit_val :: "char \<Rightarrow> nat option" where
  "digit_val c = (let n = of_char c :: nat in if 48 \<le> n \<and> n \<le> 57 then Some (n - 48) else None)"

fun parse_digits :: "string \<Rightarrow> nat \<Rightarrow> nat option" where
  \<comment> \<open>the loop of strconv.ParseUint in base 10 with bit size 64\<close>
  "parse_digits [] n = Some n"
| "parse_digits (c # cs) n =
     (case digit_val c of None \<Rightarrow> None
      | Some d \<Rightarrow> if n * 10 + d \<ge> 2 ^ 64 then None else parse_digits cs (n * 10 + d))"

definition ParseUint :: "string \<Rightarrow> nat option" where
  "ParseUint s = (if s = [] then None else parse_digits s 0)"

datatype fraction_error = BadSlash | BadNumber | ZeroDenominator | FractionOverflow

definition ParseFraction :: "string \<Rightarrow> (fraction_error, Fraction) outcome" where
  "ParseFraction f =
     (case split_slash f of
        [a, b] \<Rightarrow>
          (case ParseUint a of None \<Rightarrow> Error BadNumber
           | Some numerator \<Rightarrow>
               (case ParseUint b of None \<Rightarrow> Error BadNumber
                | Some denominator \<Rightarrow>
                    if denominator = 0 then Error ZeroDenominator
                    else if int numerator > MaxInt64 \<or> int denominator > MaxInt64
                    then Error FractionOverflow
                    else Return \<lparr>Numerator = numerator, Denominator = denominator\<rparr>))
      | _ \<Rightarrow> Error BadSlash)"

fun show_nat :: "nat \<Rightarrow> string" where
  \<comment> \<open>the decimal form fmt prints for \<open>%d\<close>\<close>
  "show_nat n = (if n < 10 then [char_of (48 + n)] else show_nat (n div 10) @ [char_of (48 + n mod 10)])"

declare show_nat.simps [simp del]

definition fraction_String :: "Fraction \<Rightarrow> string" where
  "fraction_String fr = show_nat (Numerator fr) @ ''/'' @ show_nat (Denominator fr)"

section \<open>Exactness\<close>

lemma SafeAddInt32_spec:
  "is_i32 a \<Longrightarrow> is_i32 b \<Longrightarrow> SafeAddInt32 a b = (if is_i32 (a + b) then Return (a + b) else Panic)"
  by (auto simp: SafeAddInt32_def is_i32_def i32_def)

lemma SafeSubInt32_spec:
  "is_i32 a \<Longrightarrow> is_i32 b \<Longrightarrow> SafeSubInt32 a b = (if is_i32 (a - b) then Return (a - b) else Panic)"
  by (auto simp: SafeSubInt32_def is_i32_def i32_def)

lemma SafeConvertInt32_spec: "SafeConvertInt32 a = (if is_i32 a then Return a else Panic)"
  by (auto simp: SafeConvertInt32_def is_i32_def i32_def)

lemma SafeConvertUint8_spec:
  "SafeConvertUint8 a = (if 0 \<le> a \<and> a \<le> 255 then Return a else Error ErrOverflowUint8)"
  by (auto simp: SafeConvertUint8_def)

lemma SafeConvertInt8_spec:
  "SafeConvertInt8 a = (if - 128 \<le> a \<and> a \<le> 127 then Return a else Error ErrOverflowInt8)"
  by (auto simp: SafeConvertInt8_def)

lemma safeAdd_spec:
  "is_i64 a \<Longrightarrow> is_i64 b \<Longrightarrow> safeAdd a b = (if is_i64 (a + b) then (a + b, False) else (- 1, True))"
  by (auto simp: safeAdd_def is_i64_def i64_def)

lemma safeSub_spec:
  "is_i64 a \<Longrightarrow> is_i64 b \<Longrightarrow> safeSub a b = (if is_i64 (a - b) then (a - b, False) else (- 1, True))"
  by (auto simp: safeSub_def is_i64_def i64_def)

definition clamp64 :: "int \<Rightarrow> int" where
  "clamp64 x = max MinInt64 (min MaxInt64 x)"

lemma clamp64_id [simp]: "is_i64 x \<Longrightarrow> clamp64 x = x"
  by (auto simp: clamp64_def is_i64_def)

lemma is_i64_clamp64 [simp, intro]: "is_i64 (clamp64 x)"
  by (simp add: clamp64_def is_i64_def)

lemma safeAddClip_eq: "is_i64 a \<Longrightarrow> is_i64 b \<Longrightarrow> safeAddClip a b = clamp64 (a + b)"
  by (auto simp: safeAddClip_def safeAdd_spec clamp64_def is_i64_def)

lemma safeSubClip_eq: "is_i64 a \<Longrightarrow> is_i64 b \<Longrightarrow> safeSubClip a b = clamp64 (a - b)"
  by (auto simp: safeSubClip_def safeSub_spec clamp64_def is_i64_def)

lemma sdiv_pos: "0 \<le> a \<Longrightarrow> 0 < b \<Longrightarrow> a sdiv b = a div (b::int)"
  by (cases "a = 0") (simp_all add: signed_divide_int_def sgn_if)

lemma sdiv_nonneg_neg: "0 \<le> a \<Longrightarrow> b < 0 \<Longrightarrow> a sdiv b = - (a div (- b :: int))"
  by (cases "a = 0") (simp_all add: signed_divide_int_def sgn_if)

lemma le_div_int_iff:
  assumes "0 < (b::int)"
  shows "a \<le> n div b \<longleftrightarrow> a * b \<le> n"
proof
  assume "a \<le> n div b"
  then have "a * b \<le> n div b * b" using assms by (simp add: mult_right_mono)
  also have "\<dots> \<le> n" using assms by (simp add: minus_mod_eq_div_mult [symmetric])
  finally show "a * b \<le> n" .
next
  assume "a * b \<le> n"
  then have "a * b div b \<le> n div b" using assms by (rule zdiv_mono1)
  then show "a \<le> n div b" using assms by simp
qed

lemma safeMul_eq:
  assumes a: "is_i64 a" "a \<noteq> MinInt64" and b: "is_i64 b"
  shows "safeMul a b = (if \<bar>a * b\<bar> \<le> MaxInt64 then (a * b, False) else (0, True))"
proof (cases "a = 0 \<or> b = 0")
  case True
  then show ?thesis by (auto simp: safeMul_def)
next
  case nz: False
  have absa: "(if a < 0 then i64 (- a) else a) = \<bar>a\<bar>"
    using a by (auto simp: is_i64_def)
  show ?thesis
  proof (cases "b = MinInt64")
    case True
    have "\<not> \<bar>a\<bar> * 9223372036854775808 \<le> MaxInt64" using nz by linarith
    moreover have "i64 9223372036854775808 = MinInt64" by (simp add: i64_def)
    moreover have "MaxInt64 sdiv MinInt64 = 0" by (simp add: sdiv_nonneg_neg)
    ultimately show ?thesis using nz absa True
      by (simp add: safeMul_def Let_def abs_mult)
  next
    case False
    have absb: "(if b < 0 then i64 (- b) else b) = \<bar>b\<bar>"
      using b False by (auto simp: is_i64_def)
    have pos: "0 < \<bar>b\<bar>" using nz by simp
    have "\<bar>a\<bar> > MaxInt64 sdiv \<bar>b\<bar> \<longleftrightarrow> \<not> \<bar>a\<bar> \<le> MaxInt64 div \<bar>b\<bar>"
      using pos by (simp add: sdiv_pos not_le)
    also have "\<bar>a\<bar> \<le> MaxInt64 div \<bar>b\<bar> \<longleftrightarrow> \<bar>a\<bar> * \<bar>b\<bar> \<le> MaxInt64"
      using pos by (rule le_div_int_iff)
    finally have g: "\<bar>a\<bar> > MaxInt64 sdiv \<bar>b\<bar> \<longleftrightarrow> \<not> \<bar>a * b\<bar> \<le> MaxInt64" by (simp add: abs_mult)
    have "i64 (a * b) = a * b" if "\<bar>a * b\<bar> \<le> MaxInt64" using that by (intro i64_id is_i64I) auto
    then show ?thesis using nz g unfolding safeMul_def Let_def absa absb by simp
  qed
qed

section \<open>Parsing what was printed\<close>

lemma digit_val_char: "d < 10 \<Longrightarrow> digit_val (char_of (48 + d)) = Some d"
  by (simp add: digit_val_def Let_def)

lemma show_nat_no_slash: "CHR ''/'' \<notin> set (show_nat n)"
proof (induction n rule: show_nat.induct)
  case (1 n)
  have slash: "char_of (48 + d) \<noteq> CHR ''/''" if "d < 10" for d :: nat
  proof
    assume "char_of (48 + d) = CHR ''/''"
    then have "(of_char (char_of (48 + d) :: char) :: nat) = of_char (CHR ''/'')" by simp
    then show False using that by simp
  qed
  show ?case
  proof (cases "n < 10")
    case True
    then show ?thesis using slash [of n] by (simp add: show_nat.simps)
  next
    case False
    then show ?thesis using 1 slash [of "n mod 10"] by (subst show_nat.simps) simp
  qed
qed

lemma parse_digits_append:
  "parse_digits (s @ t) n = (case parse_digits s n of None \<Rightarrow> None | Some m \<Rightarrow> parse_digits t m)"
  by (induction s arbitrary: n) (auto split: option.splits)

lemma parse_digits_show:
  "n < 2 ^ 64 \<Longrightarrow> parse_digits (show_nat n) 0 = Some n"
proof (induction n rule: show_nat.induct)
  case (1 n)
  show ?case
  proof (cases "n < 10")
    case True
    then show ?thesis using digit_val_char [of n] by (subst show_nat.simps) simp
  next
    case False
    have "parse_digits (show_nat (n div 10)) 0 = Some (n div 10)"
      by (rule 1) (use False 1 in auto)
    moreover have "n div 10 * 10 + n mod 10 = n" by simp
    ultimately show ?thesis using False 1(2) digit_val_char [of "n mod 10"]
      by (subst show_nat.simps) (simp add: parse_digits_append)
  qed
qed

lemma show_nat_ne: "show_nat n \<noteq> []"
  by (subst show_nat.simps) simp

lemma split_slash_no: "CHR ''/'' \<notin> set s \<Longrightarrow> split_slash s = [s]"
  by (induction s) auto

lemma split_slash_app: "CHR ''/'' \<notin> set s \<Longrightarrow> split_slash (s @ CHR ''/'' # t) = s # split_slash t"
  by (induction s) auto

lemma ParseUint_show: "n < 2 ^ 64 \<Longrightarrow> ParseUint (show_nat n) = Some n"
  by (simp add: ParseUint_def show_nat_ne parse_digits_show)

section \<open>Properties\<close>

text \<open>
  Parsing the printed form of a fraction gives the fraction back exactly when its denominator
  is not zero and both parts fit into an int64; otherwise the parser reports which of the two fails.
\<close>

theorem fraction_roundtrip:
  assumes "Numerator fr < 2 ^ 64" "Denominator fr < 2 ^ 64"
  shows "ParseFraction (fraction_String fr) =
    (if Denominator fr = 0 then Error ZeroDenominator
     else if int (Numerator fr) > MaxInt64 \<or> int (Denominator fr) > MaxInt64 then Error FractionOverflow
     else Return fr)"
proof -
  have "split_slash (fraction_String fr) = [show_nat (Numerator fr), show_nat (Denominator fr)]"
    by (simp add: fraction_String_def split_slash_app split_slash_no show_nat_no_slash)
  then show ?thesis using assms by (simp add: ParseFraction_def ParseUint_show)
qed

theorem fraction_roundtrip_witness:
  "ParseFraction (fraction_String \<lparr>Numerator = 2, Denominator = 3\<rparr>) = Return \<lparr>Numerator = 2, Denominator = 3\<rparr>"
  using fraction_roundtrip [of "\<lparr>Numerator = 2, Denominator = 3\<rparr>"] by simp

text \<open>
  \<open>safeMul\<close> returns the exact product, or reports an overflow, whenever its first argument is
  not the smallest int64; at that argument its check does not fire and the wrapped product is
  returned as if it were exact.
\<close>

theorem safeMul_exact_except_min:
  "(\<forall>a b. is_i64 a \<and> a \<noteq> MinInt64 \<and> is_i64 b \<longrightarrow>
      safeMul a b = (if \<bar>a * b\<bar> \<le> MaxInt64 then (a * b, False) else (0, True)))
   \<and> safeMul MinInt64 2 = (0, False)"
proof
  show "\<forall>a b. is_i64 a \<and> a \<noteq> MinInt64 \<and> is_i64 b \<longrightarrow>
      safeMul a b = (if \<bar>a * b\<bar> \<le> MaxInt64 then (a * b, False) else (0, True))"
    using safeMul_eq by blast
  show "safeMul MinInt64 2 = (0, False)" by (simp add: safeMul_def i64_def sdiv_pos)
qed

theorem safeMul_exact_except_min_witness:
  "safeMul 3 (- 5) = (- 15, False) \<and> safeMul MaxInt64 2 = (0, True)"
  using safeMul_exact_except_min [THEN conjunct1, rule_format, of 3 "- 5"]
    safeMul_exact_except_min [THEN conjunct1, rule_format, of MaxInt64 2]
  by (simp add: is_i64_def)

end
