(* ===== verification/Rotation.thy ===== *)
theory Rotation
  imports Prelude
begin

text \<open>
  The arithmetic of weighted proposer rotation, on plain integer lists.  In one step every entry
  \<open>p i\<close> grows by its weight \<open>w i\<close>, and the total weight \<open>T\<close> is taken from one entry that is
  then largest.  The entries never leave \<open>[-2T, T (H n + 1)]\<close> once they start in
  \<open>[-2T, 2T]\<close> with a nonnegative sum, however many steps are made: for every set of k indices the
  average of its entries stays at most \<open>2T + T (H n - H k)\<close>, where \<open>H\<close> are the harmonic
  numbers.
\<close>

definition harmonic :: "nat \<Rightarrow> real" where
  "harmonic n = (\<Sum>k = 1..n. 1 / real k)"

lemma harmonic_Suc: "harmonic (Suc n) = harmonic n + 1 / real (Suc n)"
  by (simp add: harmonic_def)

lemma harmonic_0 [simp]: "harmonic 0 = 0" and harmonic_1 [simp]: "harmonic (Suc 0) = 1"
  by (simp_all add: harmonic_def)

lemma harmonic_mono: "m \<le> n \<Longrightarrow> harmonic m \<le> harmonic n"
  unfolding harmonic_def by (intro sum_mono2) auto

lemma harmonic_nonneg: "0 \<le> harmonic n"
  by (simp add: harmonic_def sum_nonneg)

definition rot_step :: "int list \<Rightarrow> int list \<Rightarrow> nat \<Rightarrow> int list \<Rightarrow> bool" where
  "rot_step ws ps m ps' \<longleftrightarrow>
     m < length ps \<and> length ws = length ps
     \<and> (\<forall>j < length ps. ps ! j + ws ! j \<le> ps ! m + ws ! m)
     \<and> ps' = (map2 (+) ps ws)[m := ps ! m + ws ! m - sum_list ws]"

definition avg_bound :: "nat \<Rightarrow> int \<Rightarrow> nat \<Rightarrow> real" where
  "avg_bound n T k = 2 * real_of_int T + real_of_int T * (harmonic n - harmonic k)"

definition top_inv :: "int list \<Rightarrow> int list \<Rightarrow> bool" where
  "top_inv ws ps \<longleftrightarrow>
     (\<forall>K \<subseteq> {..<length ps}. K \<noteq> {} \<longrightarrow>
        real_of_int (\<Sum>i\<in>K. ps ! i) \<le> real (card K) * avg_bound (length ps) (sum_list ws) (card K))"

lemma avg_bound_Suc:
  "avg_bound n T k = avg_bound n T (Suc k) + real_of_int T / real (Suc k)"
  by (simp add: avg_bound_def harmonic_Suc algebra_simps)

lemma sum_subset_le_sum_list:
  fixes ws :: "int list"
  assumes "\<forall>w \<in> set ws. 0 \<le> w" "K \<subseteq> {..<length ws}"
  shows "(\<Sum>i\<in>K. ws ! i) \<le> sum_list ws"
proof -
  have "(\<Sum>i\<in>K. ws ! i) \<le> (\<Sum>i<length ws. ws ! i)"
    using assms by (intro sum_mono2) (auto simp: all_set_conv_all_nth)
  then show ?thesis by (simp add: sum_list_sum_nth atLeast0LessThan)
qed

lemma rot_step_nth:
  assumes "rot_step ws ps m ps'" "i < length ps"
  shows "ps' ! i = ps ! i + ws ! i - (if i = m then sum_list ws else 0)"
  using assms by (auto simp: rot_step_def nth_list_update)

lemma rot_step_length: "rot_step ws ps m ps' \<Longrightarrow> length ps' = length ps"
  by (auto simp: rot_step_def)

lemma top_inv_init:
  assumes "\<forall>i < length ps. ps ! i \<le> 2 * sum_list ws" "0 \<le> sum_list ws"
  shows "top_inv ws ps"
  unfolding top_inv_def
proof (intro allI impI)
  fix K assume K: "K \<subseteq> {..<length ps}" "K \<noteq> {}"
  have fin: "finite K" using K(1) finite_subset by blast
  have "(\<Sum>i\<in>K. ps ! i) \<le> (\<Sum>i\<in>K. 2 * sum_list ws)" using assms K by (intro sum_mono) auto
  then have "(\<Sum>i\<in>K. ps ! i) \<le> int (card K) * (2 * sum_list ws)" by simp
  then have "real_of_int (\<Sum>i\<in>K. ps ! i) \<le> real_of_int (int (card K) * (2 * sum_list ws))"
    by linarith
  also have "\<dots> = real (card K) * (2 * real_of_int (sum_list ws))" by simp
  also have "\<dots> \<le> real (card K) * avg_bound (length ps) (sum_list ws) (card K)"
  proof (rule mult_left_mono)
    have "card K \<le> length ps" using card_mono [OF _ K(1)] by simp
    then have "0 \<le> harmonic (length ps) - harmonic (card K)" using harmonic_mono by simp
    then show "2 * real_of_int (sum_list ws) \<le> avg_bound (length ps) (sum_list ws) (card K)"
      using assms(2) by (simp add: avg_bound_def)
  qed simp
  finally show "real_of_int (\<Sum>i\<in>K. ps ! i)
      \<le> real (card K) * avg_bound (length ps) (sum_list ws) (card K)" .
qed

lemma sum_rot_step:
  assumes st: "rot_step ws ps m ps'" and K: "K \<subseteq> {..<length ps}"
  shows "(\<Sum>i\<in>K. ps' ! i) = (\<Sum>i\<in>K. ps ! i) + (\<Sum>i\<in>K. ws ! i) - (if m \<in> K then sum_list ws else 0)"
proof -
  have fin: "finite K" using K finite_subset by blast
  have "(\<Sum>i\<in>K. ps' ! i) = (\<Sum>i\<in>K. ps ! i + ws ! i - (if i = m then sum_list ws else 0))"
    using K by (intro sum.cong) (auto simp: rot_step_nth [OF st])
  then show ?thesis using fin by (simp add: sum.distrib sum_subtractf sum.delta)
qed

lemma largest_average:
  fixes f :: "nat \<Rightarrow> int"
  assumes "finite K" "m \<notin> K" "\<forall>j\<in>K. f j \<le> f m"
  shows "real (Suc (card K)) * real_of_int (\<Sum>i\<in>K. f i)
    \<le> real (card K) * real_of_int (\<Sum>i\<in>insert m K. f i)"
proof -
  have "(\<Sum>i\<in>K. f i) \<le> (\<Sum>i\<in>K. f m)" using assms(3) by (intro sum_mono) auto
  then have "(\<Sum>i\<in>K. f i) \<le> int (card K) * f m" by simp
  then have "real_of_int (\<Sum>i\<in>K. f i) \<le> real_of_int (int (card K) * f m)" by linarith
  then have "real_of_int (\<Sum>i\<in>K. f i) \<le> real (card K) * real_of_int (f m)" by simp
  then show ?thesis using assms(1,2) by (simp add: algebra_simps)
qed

lemma top_inv_step:
  assumes inv: "top_inv ws ps" and st: "rot_step ws ps m ps'" and w: "\<forall>w \<in> set ws. 0 \<le> w"
  shows "top_inv ws ps'"
  unfolding top_inv_def rot_step_length [OF st]
proof (intro allI impI)
  fix K assume K: "K \<subseteq> {..<length ps}" "K \<noteq> {}"
  let ?T = "sum_list ws" and ?n = "length ps"
  have fin: "finite K" using K(1) finite_subset by blast
  have len: "length ws = ?n" and m: "m < ?n" using st by (auto simp: rot_step_def)
  have inv': "real_of_int (\<Sum>i\<in>J. ps ! i) \<le> real (card J) * avg_bound ?n ?T (card J)"
    if "J \<subseteq> {..<?n}" "J \<noteq> {}" for J using inv that by (simp add: top_inv_def)
  show "real_of_int (\<Sum>i\<in>K. ps' ! i) \<le> real (card K) * avg_bound ?n ?T (card K)"
  proof (cases "m \<in> K")
    case True
    have "(\<Sum>i\<in>K. ps' ! i) \<le> (\<Sum>i\<in>K. ps ! i)"
      using True sum_rot_step [OF st K(1)] sum_subset_le_sum_list [OF w] K(1) len by simp
    then show ?thesis using inv' [OF K] by (meson of_int_le_iff order_trans)
  next
    case False
    let ?q = "\<lambda>i. ps ! i + ws ! i"
    let ?k = "card K"
    have J: "insert m K \<subseteq> {..<?n}" using K m by simp
    have cJ: "card (insert m K) = Suc ?k" using False fin by simp
    have "(\<Sum>i\<in>insert m K. ?q i) \<le> (\<Sum>i\<in>insert m K. ps ! i) + ?T"
      using sum_subset_le_sum_list [OF w] J len by (simp add: sum.distrib)
    then have "real_of_int (\<Sum>i\<in>insert m K. ?q i)
        \<le> real_of_int (\<Sum>i\<in>insert m K. ps ! i) + real_of_int ?T" by linarith
    also have "\<dots> \<le> real (Suc ?k) * avg_bound ?n ?T (Suc ?k) + real_of_int ?T"
      using inv' [OF J] cJ by simp
    also have "\<dots> = real (Suc ?k) * avg_bound ?n ?T ?k"
      using avg_bound_Suc [of ?n ?T ?k] by (simp add: distrib_left)
    finally have up: "real_of_int (\<Sum>i\<in>insert m K. ?q i) \<le> real (Suc ?k) * avg_bound ?n ?T ?k" .
    have "real (Suc ?k) * real_of_int (\<Sum>i\<in>K. ?q i) \<le> real ?k * real_of_int (\<Sum>i\<in>insert m K. ?q i)"
      using st K by (intro largest_average fin False) (auto simp: rot_step_def)
    also have "\<dots> \<le> real ?k * (real (Suc ?k) * avg_bound ?n ?T ?k)" using up by (intro mult_left_mono) auto
    finally have "real (Suc ?k) * real_of_int (\<Sum>i\<in>K. ?q i)
        \<le> real (Suc ?k) * (real ?k * avg_bound ?n ?T ?k)" by (simp add: mult.left_commute)
    then have "real_of_int (\<Sum>i\<in>K. ?q i) \<le> real ?k * avg_bound ?n ?T ?k"
      by (rule mult_left_le_imp_le) simp
    then show ?thesis using False sum_rot_step [OF st K(1)] by (simp add: sum.distrib)
  qed
qed

lemma top_inv_upper:
  assumes "top_inv ws ps" "i < length ps"
  shows "real_of_int (ps ! i) \<le> real_of_int (sum_list ws) * (harmonic (length ps) + 1)"
proof -
  have "real_of_int (\<Sum>j\<in>{i}. ps ! j) \<le> real (card {i}) * avg_bound (length ps) (sum_list ws) (card {i})"
    using assms unfolding top_inv_def by blast
  then show ?thesis by (simp add: avg_bound_def algebra_simps)
qed

definition rot_inv :: "int list \<Rightarrow> int list \<Rightarrow> bool" where
  "rot_inv ws ps \<longleftrightarrow>
     length ws = length ps \<and> (\<forall>w \<in> set ws. 0 \<le> w) \<and> top_inv ws ps
     \<and> (\<forall>i < length ps. - 2 * sum_list ws \<le> ps ! i) \<and> 0 \<le> sum_list ps"

lemma sum_list_rot_step:
  assumes "rot_step ws ps m ps'"
  shows "sum_list ps' = sum_list ps"
proof -
  have "length ws = length ps" "m < length ps" using assms by (auto simp: rot_step_def)
  then show ?thesis using sum_rot_step [OF assms order_refl] rot_step_length [OF assms]
    by (simp add: sum_list_sum_nth atLeast0LessThan)
qed

lemma rot_step_largest_nonneg:
  assumes st: "rot_step ws ps m ps'" and w: "\<forall>w \<in> set ws. 0 \<le> w" and s: "0 \<le> sum_list ps"
  shows "0 \<le> ps ! m + ws ! m"
proof (rule ccontr)
  assume neg: "\<not> 0 \<le> ps ! m + ws ! m"
  have len: "length ws = length ps" and m: "m < length ps" using st by (auto simp: rot_step_def)
  have "(\<Sum>i<length ps. ps ! i + ws ! i) < (\<Sum>i<length ps. 0)"
    using st neg m by (intro sum_strict_mono) (fastforce simp: rot_step_def)+
  moreover have "(\<Sum>i<length ps. ps ! i + ws ! i) = sum_list ps + sum_list ws"
    using len by (simp add: sum.distrib sum_list_sum_nth atLeast0LessThan)
  moreover have "0 \<le> sum_list ws" using w by (simp add: sum_list_nonneg)
  ultimately show False using s by simp
qed

lemma rot_inv_step:
  assumes inv: "rot_inv ws ps" and st: "rot_step ws ps m ps'"
  shows "rot_inv ws ps'"
proof -
  have w: "\<forall>w \<in> set ws. 0 \<le> w" and len: "length ws = length ps" and s: "0 \<le> sum_list ps"
    and low: "\<forall>i < length ps. - 2 * sum_list ws \<le> ps ! i" and top: "top_inv ws ps"
    using inv by (auto simp: rot_inv_def)
  have T: "0 \<le> sum_list ws" using w by (simp add: sum_list_nonneg)
  have "- 2 * sum_list ws \<le> ps' ! i" if i: "i < length ps" for i
  proof (cases "i = m")
    case True
    then show ?thesis using rot_step_nth [OF st i] rot_step_largest_nonneg [OF st w s] T by simp
  next
    case False
    have "0 \<le> ws ! i" using w i len by simp
    then show ?thesis using False rot_step_nth [OF st i] low i by fastforce
  qed
  then show ?thesis using w len s top_inv_step [OF top st w] rot_step_length [OF st]
    by (simp add: rot_inv_def sum_list_rot_step [OF st])
qed

lemma rot_inv_init:
  assumes "length ws = length ps" "\<forall>w \<in> set ws. 0 \<le> w" "0 \<le> sum_list ps"
    "\<forall>i < length ps. \<bar>ps ! i\<bar> \<le> 2 * sum_list ws"
  shows "rot_inv ws ps"
  using assms top_inv_init [of ps ws]
  by (fastforce simp: rot_inv_def sum_list_nonneg abs_le_iff)

lemma rot_inv_bounds:
  assumes "rot_inv ws ps" "i < length ps"
  shows "- 2 * sum_list ws \<le> ps ! i"
    "real_of_int (ps ! i) \<le> real_of_int (sum_list ws) * (harmonic (length ps) + 1)"
    "real_of_int (ps ! i + ws ! i) \<le> real_of_int (sum_list ws) * (harmonic (length ps) + 2)"
proof -
  show lo: "- 2 * sum_list ws \<le> ps ! i" using assms by (simp add: rot_inv_def)
  show up: "real_of_int (ps ! i) \<le> real_of_int (sum_list ws) * (harmonic (length ps) + 1)"
    using assms top_inv_upper by (simp add: rot_inv_def)
  have "ws ! i \<le> sum_list ws" using sum_subset_le_sum_list [of ws "{i}"] assms
    by (simp add: rot_inv_def)
  then have "real_of_int (ws ! i) \<le> real_of_int (sum_list ws)" by simp
  then show "real_of_int (ps ! i + ws ! i) \<le> real_of_int (sum_list ws) * (harmonic (length ps) + 2)"
    using up by (simp add: algebra_simps)
qed

inductive rot_steps :: "int list \<Rightarrow> int list \<Rightarrow> nat list \<Rightarrow> int list \<Rightarrow> bool" where
  rot_refl: "rot_steps ws ps [] ps"
| rot_more: "rot_step ws ps m ps1 \<Longrightarrow> rot_steps ws ps1 ms ps2 \<Longrightarrow> rot_steps ws ps (m # ms) ps2"

lemma rot_steps_inv: "rot_steps ws ps ms ps' \<Longrightarrow> rot_inv ws ps \<Longrightarrow> rot_inv ws ps'"
  by (induction rule: rot_steps.induct) (auto intro: rot_inv_step)

lemma rot_steps_sum: "rot_steps ws ps ms ps' \<Longrightarrow> sum_list ps' = sum_list ps \<and> length ps' = length ps"
  by (induction rule: rot_steps.induct) (auto simp: sum_list_rot_step rot_step_length)

lemma rot_steps_count:
  "rot_steps ws ps ms ps' \<Longrightarrow> i < length ps \<Longrightarrow>
     ps' ! i = ps ! i + int (length ms) * ws ! i - int (count_list ms i) * sum_list ws"
proof (induction rule: rot_steps.induct)
  case (rot_refl ws ps)
  then show ?case by simp
next
  case (rot_more ws ps m ps1 ms ps2)
  then show ?case using rot_step_nth [OF rot_more.hyps(1) rot_more.prems] rot_step_length [OF rot_more.hyps(1)]
    by (auto simp: algebra_simps)
qed

text \<open>How often an index is chosen is its share of the weight, up to a constant.\<close>

lemma rot_steps_fair:
  assumes st: "rot_steps ws ps ms ps'" and inv: "rot_inv ws ps" and i: "i < length ps"
  shows "\<bar>real_of_int (int (count_list ms i) * sum_list ws - int (length ms) * ws ! i)\<bar>
    \<le> real_of_int (sum_list ws) * (harmonic (length ps) + 3)"
proof -
  have len: "length ps' = length ps" using rot_steps_sum [OF st] by simp
  have eq: "real_of_int (int (count_list ms i) * sum_list ws - int (length ms) * ws ! i)
      = real_of_int (ps ! i) - real_of_int (ps' ! i)"
    using rot_steps_count [OF st i] by simp
  have "real_of_int (- 2 * sum_list ws) \<le> real_of_int (ps ! i)" using rot_inv_bounds(1) [OF inv i]
    by linarith
  moreover have "real_of_int (- 2 * sum_list ws) \<le> real_of_int (ps' ! i)"
    using rot_inv_bounds(1) [OF rot_steps_inv [OF st inv]] i len by (metis of_int_le_iff)
  moreover note rot_inv_bounds(2) [OF inv i] rot_inv_bounds(2) [OF rot_steps_inv [OF st inv], of i]
  ultimately show ?thesis unfolding eq using i len by (simp add: algebra_simps abs_le_iff)
qed

text \<open>An integer upper bound of a harmonic number, for concrete sizes.\<close>

definition harmonic_ceil :: "int \<Rightarrow> int \<Rightarrow> int" where
  "harmonic_ceil N n = sum_list (map (\<lambda>k. N div k + 1) [1..n])"

lemma harmonic_le_ceil: "real_of_int N * harmonic n \<le> real_of_int (harmonic_ceil N (int n))"
proof (induction n)
  case 0
  then show ?case by (simp add: harmonic_ceil_def)
next
  case (Suc n)
  have "real_of_int N / real (Suc n) \<le> real_of_int (N div int (Suc n) + 1)"
    using floor_divide_of_int_eq [of N "int (Suc n)", where ?'a = real]
      floor_correct [of "real_of_int N / real (Suc n)"] by simp
  moreover have "harmonic_ceil N (int (Suc n)) = harmonic_ceil N (int n) + (N div int (Suc n) + 1)"
    using upto_rec2 [of 1 "int (Suc n)"] by (simp add: harmonic_ceil_def)
  ultimately show ?case using Suc by (simp add: harmonic_Suc distrib_left)
qed

lemma harmonic_226: "harmonic 226 \<le> 6"
proof -
  have "harmonic_ceil 100000000 226 \<le> 600000000" by code_simp
  then show ?thesis using harmonic_le_ceil [of 100000000 226] by simp
qed

end
