(* ===== verification/Validators.thy ===== *)
theory Validators
  imports SafeMath Rotation
begin

text \<open>
  Validators and proposer rotation: types/validator.go and the rotation half of
  types/validator_set.go.

  A \<open>[]*Validator\<close> is a list of \<open>validator\<close> records, in the order of the slice; the places
  where the code keeps a pointer into the slice to change it (the validator with the highest
  priority) keep the index.  \<open>Proposer\<close> holds the value the pointer had when it was assigned; the
  code may later change the priority behind that pointer, so nothing is stated about the
  priority of \<open>Proposer\<close> across calls.  The cached total is the field \<open>totalVotingPower\<close>,
  where 0 means \<^emph>\<open>not computed\<close>, and the operations that may fill the cache return the changed
  set.
\<close>

section \<open>types/validator.go\<close>

type_synonym address = bytes
type_synonym pubkey = bytes

record validator =
  Address :: address
  PubKey :: "pubkey option"
  VotingPower :: int
  ProposerPriority :: int

definition AddressSize :: nat where
  "AddressSize = 20"

definition NewValidator :: "(pubkey \<Rightarrow> address) \<Rightarrow> pubkey \<Rightarrow> int \<Rightarrow> validator" where
  "NewValidator address_of pubKey votingPower =
     \<lparr>Address = address_of pubKey, PubKey = Some pubKey, VotingPower = votingPower,
      ProposerPriority = 0\<rparr>"

datatype validator_error =
    NilValidator
  | NoPublicKey
  | NegativeVotingPower
  | WrongAddressSize

definition validator_ValidateBasic :: "validator option \<Rightarrow> validator_error option" where
  "validator_ValidateBasic ov =
     (case ov of None \<Rightarrow> Some NilValidator
      | Some v \<Rightarrow>
          if PubKey v = None then Some NoPublicKey
          else if VotingPower v < 0 then Some NegativeVotingPower
          else if length (Address v) \<noteq> AddressSize then Some WrongAddressSize
          else None)"

definition bytes_Compare :: "bytes \<Rightarrow> bytes \<Rightarrow> int" where
  \<comment> \<open>bytes.Compare: lexicographic, a proper prefix first\<close>
  "bytes_Compare a b = (if a < b then - 1 else if a = b then 0 else 1)"

definition receiver_wins :: "validator \<Rightarrow> validator \<Rightarrow> ('e, bool) outcome" where
  \<comment> \<open>which of the two pointers CompareProposerPriority returns\<close>
  "receiver_wins v other =
     (if ProposerPriority v > ProposerPriority other then Return True
      else if ProposerPriority v < ProposerPriority other then Return False
      else if bytes_Compare (Address v) (Address other) < 0 then Return True
      else if bytes_Compare (Address v) (Address other) > 0 then Return False
      else Panic)"

definition CompareProposerPriority ::
    "validator option \<Rightarrow> validator \<Rightarrow> ('e, validator) outcome" where
  "CompareProposerPriority v other =
     (case v of None \<Rightarrow> Return other
      | Some x \<Rightarrow> map_outcome_val (\<lambda>w. if w then x else other) (receiver_wins x other))"

section \<open>The validator set\<close>

abbreviation MaxTotalVotingPower :: int where
  "MaxTotalVotingPower \<equiv> 1152921504606846975"

definition PriorityWindowSizeFactor :: int where
  "PriorityWindowSizeFactor = 2"

record validator_set =
  Validators :: "validator list"
  Proposer :: "validator option"
  totalVotingPower :: int

definition IsNilOrEmpty :: "validator_set option \<Rightarrow> bool" where
  "IsNilOrEmpty vals = (case vals of None \<Rightarrow> True | Some s \<Rightarrow> Validators s = [])"

fun sum_power_loop :: "validator list \<Rightarrow> int \<Rightarrow> ('e, int) outcome" where
  "sum_power_loop [] s = Return s"
| "sum_power_loop (val # vals) s =
     (let sum' = safeAddClip s (VotingPower val)
      in if sum' > MaxTotalVotingPower then Panic else sum_power_loop vals sum')"

definition updateTotalVotingPower :: "validator_set \<Rightarrow> ('e, validator_set) outcome" where
  "updateTotalVotingPower vals =
     bind_o (sum_power_loop (Validators vals) 0) (\<lambda>s. Return (vals\<lparr>totalVotingPower := s\<rparr>))"

definition TotalVotingPower :: "validator_set \<Rightarrow> ('e, int \<times> validator_set) outcome" where
  "TotalVotingPower vals =
     bind_o (if totalVotingPower vals = 0 then updateTotalVotingPower vals else Return vals)
       (\<lambda>vals'. Return (totalVotingPower vals', vals'))"

definition computeMaxMinPriorityDiff :: "validator_set \<Rightarrow> ('e, int) outcome" where
  "computeMaxMinPriorityDiff vals =
     (if Validators vals = [] then Panic
      else let (mx, mn) = fold (\<lambda>v (mx, mn).
                 ((if ProposerPriority v > mx then ProposerPriority v else mx),
                  (if ProposerPriority v < mn then ProposerPriority v else mn)))
                 (Validators vals) (MinInt64, MaxInt64);
               diff = i64 (mx - mn)
           in Return (if diff < 0 then i64 (- diff) else diff))"

definition RescalePriorities :: "validator_set \<Rightarrow> int \<Rightarrow> ('e, validator_set) outcome" where
  \<comment> \<open>dividing by a ratio of 0 panics\<close>
  "RescalePriorities vals diffMax =
     (if Validators vals = [] then Panic
      else if diffMax \<le> 0 then Return vals
      else bind_o (computeMaxMinPriorityDiff vals) (\<lambda>diff.
           let ratio = i64 (i64 (diff + diffMax) - 1) sdiv diffMax
           in if diff > diffMax
              then (if ratio = 0 then Panic
                    else Return (vals\<lparr>Validators :=
                      map (\<lambda>v. v\<lparr>ProposerPriority := i64 (ProposerPriority v sdiv ratio)\<rparr>)
                        (Validators vals)\<rparr>))
              else Return vals))"

definition computeAvgProposerPriority :: "validator_set \<Rightarrow> ('e, int) outcome" where
  \<comment> \<open>big.Int addition, and Div, which rounds down for a positive divisor\<close>
  "computeAvgProposerPriority vals =
     (let n = int (length (Validators vals));
          sum = sum_list (map ProposerPriority (Validators vals))
      in if n = 0 then Panic
         else let avg = sum div n in if is_i64 avg then Return avg else Panic)"

definition shiftByAvgProposerPriority :: "validator_set \<Rightarrow> ('e, validator_set) outcome" where
  "shiftByAvgProposerPriority vals =
     (if Validators vals = [] then Panic
      else bind_o (computeAvgProposerPriority vals) (\<lambda>avg.
           Return (vals\<lparr>Validators :=
             map (\<lambda>v. v\<lparr>ProposerPriority := safeSubClip (ProposerPriority v) avg\<rparr>)
               (Validators vals)\<rparr>)))"

fun most_loop ::
    "validator list \<Rightarrow> nat \<Rightarrow> (nat \<times> validator) option \<Rightarrow> ('e, (nat \<times> validator) option) outcome" where
  "most_loop [] i res = Return res"
| "most_loop (val # vals) i res =
     (case res of None \<Rightarrow> most_loop vals (Suc i) (Some (i, val))
      | Some (j, x) \<Rightarrow>
          bind_o (receiver_wins x val) (\<lambda>w.
            most_loop vals (Suc i) (Some (if w then (j, x) else (i, val)))))"

definition getValWithMostPriority :: "validator_set \<Rightarrow> ('e, (nat \<times> validator) option) outcome" where
  "getValWithMostPriority vals = most_loop (Validators vals) 0 None"

definition incrementProposerPriority ::
    "validator_set \<Rightarrow> ('e, nat \<times> validator \<times> validator_set) outcome" where
  \<comment> \<open>the index of the returned pointer, the validator there, and the set\<close>
  "incrementProposerPriority vals =
     (let vals1 = vals\<lparr>Validators :=
            map (\<lambda>v. v\<lparr>ProposerPriority := safeAddClip (ProposerPriority v) (VotingPower v)\<rparr>)
              (Validators vals)\<rparr>
      in bind_o (getValWithMostPriority vals1) (\<lambda>res.
         case res of None \<Rightarrow> Panic
         | Some (j, mostest) \<Rightarrow>
             bind_o (TotalVotingPower vals1) (\<lambda>(total, vals2).
             let mostest' = mostest\<lparr>ProposerPriority := safeSubClip (ProposerPriority mostest) total\<rparr>
             in Return (j, mostest', vals2\<lparr>Validators := (Validators vals2)[j := mostest']\<rparr>))))"

fun increment_loop ::
    "nat \<Rightarrow> validator_set \<Rightarrow> validator option \<Rightarrow> ('e, validator option \<times> validator_set) outcome" where
  "increment_loop 0 vals proposer = Return (proposer, vals)"
| "increment_loop (Suc k) vals proposer =
     bind_o (incrementProposerPriority vals) (\<lambda>(_, proposer', vals').
       increment_loop k vals' (Some proposer'))"

definition IncrementProposerPriority :: "validator_set \<Rightarrow> int \<Rightarrow> ('e, validator_set) outcome" where
  "IncrementProposerPriority vals times' =
     (if Validators vals = [] then Panic
      else if times' \<le> 0 then Panic
      else bind_o (TotalVotingPower vals) (\<lambda>(total, vals1).
           bind_o (RescalePriorities vals1 (i64 (PriorityWindowSizeFactor * total))) (\<lambda>vals2.
           bind_o (shiftByAvgProposerPriority vals2) (\<lambda>vals3.
           bind_o (increment_loop (nat times') vals3 None) (\<lambda>(proposer, vals4).
           Return (vals4\<lparr>Proposer := proposer\<rparr>))))))"

definition CopyIncrementProposerPriority :: "validator_set \<Rightarrow> int \<Rightarrow> ('e, validator_set) outcome" where
  "CopyIncrementProposerPriority vals times' = IncrementProposerPriority vals times'"

fun find_proposer_loop :: "validator list \<Rightarrow> validator option \<Rightarrow> ('e, validator option) outcome" where
  "find_proposer_loop [] proposer = Return proposer"
| "find_proposer_loop (val # vals) proposer =
     (if (case proposer of None \<Rightarrow> True | Some p \<Rightarrow> Address val \<noteq> Address p)
      then bind_o (CompareProposerPriority proposer val) (\<lambda>p. find_proposer_loop vals (Some p))
      else find_proposer_loop vals proposer)"

definition findProposer :: "validator_set \<Rightarrow> ('e, validator option) outcome" where
  "findProposer vals = find_proposer_loop (Validators vals) None"

definition GetProposer :: "validator_set \<Rightarrow> ('e, validator option \<times> validator_set) outcome" where
  \<comment> \<open>Copy of a nil proposer would panic; findProposer of a nonempty set is never nil\<close>
  "GetProposer vals =
     (if Validators vals = [] then Return (None, vals)
      else bind_o (case Proposer vals of
                     None \<Rightarrow> bind_o (findProposer vals) (\<lambda>p. Return (vals\<lparr>Proposer := p\<rparr>))
                   | Some _ \<Rightarrow> Return vals)
             (\<lambda>vals'. case Proposer vals' of None \<Rightarrow> Panic | Some p \<Rightarrow> Return (Some p, vals')))"

fun find_previous_loop :: "validator list \<Rightarrow> validator option \<Rightarrow> ('e, validator option) outcome" where
  "find_previous_loop [] prev = Return prev"
| "find_previous_loop (val # vals) prev =
     (case prev of None \<Rightarrow> find_previous_loop vals (Some val)
      | Some p \<Rightarrow> bind_o (receiver_wins p val) (\<lambda>w. find_previous_loop vals (Some (if w then val else p))))"

definition findPreviousProposer :: "validator_set \<Rightarrow> ('e, validator option) outcome" where
  "findPreviousProposer vals = find_previous_loop (Validators vals) None"

fun get_by_address_loop :: "validator list \<Rightarrow> nat \<Rightarrow> address \<Rightarrow> int \<times> validator option" where
  "get_by_address_loop [] idx a = (- 1, None)"
| "get_by_address_loop (val # vals) idx a =
     (if Address val = a then (i32 (int idx), Some val) else get_by_address_loop vals (Suc idx) a)"

definition GetByAddress :: "validator_set \<Rightarrow> address \<Rightarrow> int \<times> validator option" where
  "GetByAddress vals a = get_by_address_loop (Validators vals) 0 a"

definition HasAddress :: "validator_set \<Rightarrow> address \<Rightarrow> bool" where
  "HasAddress vals a = list_ex (\<lambda>v. Address v = a) (Validators vals)"

definition GetByIndex :: "validator_set \<Rightarrow> int \<Rightarrow> (address \<times> validator) option" where
  "GetByIndex vals index =
     (if index < 0 \<or> index \<ge> int (length (Validators vals)) then None
      else let val = Validators vals ! nat index in Some (Address val, val))"

definition vals_Size :: "validator_set \<Rightarrow> int" where
  "vals_Size vals = int (length (Validators vals))"

datatype valset_error =
    EmptyValidatorSet
  | InvalidValidator nat validator_error
  | InvalidProposer validator_error

fun validate_loop :: "validator list \<Rightarrow> nat \<Rightarrow> valset_error option" where
  "validate_loop [] idx = None"
| "validate_loop (val # vals) idx =
     (case validator_ValidateBasic (Some val) of
        Some e \<Rightarrow> Some (InvalidValidator idx e)
      | None \<Rightarrow> validate_loop vals (Suc idx))"

definition valset_ValidateBasic :: "validator_set option \<Rightarrow> valset_error option" where
  "valset_ValidateBasic ovals =
     (case ovals of None \<Rightarrow> Some EmptyValidatorSet
      | Some vals \<Rightarrow>
          if Validators vals = [] then Some EmptyValidatorSet
          else case validate_loop (Validators vals) 0 of
            Some e \<Rightarrow> Some e
          | None \<Rightarrow> map_option InvalidProposer (validator_ValidateBasic (Proposer vals)))"

section \<open>Well-formed sets\<close>

abbreviation pws :: "validator_set \<Rightarrow> int list" where
  "pws vals \<equiv> map VotingPower (Validators vals)"

abbreviation prs :: "validator_set \<Rightarrow> int list" where
  "prs vals \<equiv> map ProposerPriority (Validators vals)"

definition vals_wf :: "validator_set \<Rightarrow> bool" where
  "vals_wf vals \<longleftrightarrow>
     Validators vals \<noteq> [] \<and> distinct (map Address (Validators vals))
     \<and> (\<forall>v \<in> set (Validators vals). 0 < VotingPower v \<and> is_i64 (ProposerPriority v))
     \<and> sum_list (pws vals) \<le> MaxTotalVotingPower
     \<and> (totalVotingPower vals = 0 \<or> totalVotingPower vals = sum_list (pws vals))"

lemma vals_wf_power:
  assumes "vals_wf vals"
  shows "0 < sum_list (pws vals)" "sum_list (pws vals) \<le> MaxTotalVotingPower"
    "\<forall>w \<in> set (pws vals). 0 \<le> w" "is_i64 (sum_list (pws vals))"
proof -
  obtain v vs where vs: "Validators vals = v # vs"
    using assms by (auto simp: vals_wf_def neq_Nil_conv)
  have nn: "\<forall>w \<in> set (pws vals). 0 \<le> w" using assms by (auto simp: vals_wf_def)
  then have "0 \<le> sum_list (map VotingPower vs)" using vs by (intro sum_list_nonneg) auto
  then show pos: "0 < sum_list (pws vals)" using assms vs by (simp add: vals_wf_def)
  show le: "sum_list (pws vals) \<le> MaxTotalVotingPower" using assms by (simp add: vals_wf_def)
  show "\<forall>w \<in> set (pws vals). 0 \<le> w" by (rule nn)
  show "is_i64 (sum_list (pws vals))" using pos le by (intro is_i64I) auto
qed

lemma sum_power_loop_eq:
  assumes "\<forall>v \<in> set vs. 0 \<le> VotingPower v" "0 \<le> acc"
    "acc + sum_list (map VotingPower vs) \<le> MaxTotalVotingPower"
  shows "sum_power_loop vs acc = Return (acc + sum_list (map VotingPower vs))"
  using assms
proof (induction vs arbitrary: acc)
  case Nil
  then show ?case by simp
next
  case (Cons v vs)
  have s: "0 \<le> sum_list (map VotingPower vs)" using Cons.prems by (intro sum_list_nonneg) auto
  have "safeAddClip acc (VotingPower v) = acc + VotingPower v"
    using Cons.prems s by (subst safeAddClip_eq) (auto intro!: is_i64I clamp64_id)
  then show ?case using Cons.IH [of "acc + VotingPower v"] Cons.prems s by (simp add: Let_def)
qed

lemma TotalVotingPower_wf:
  assumes "vals_wf vals"
  shows "TotalVotingPower vals =
    (Return :: _ \<Rightarrow> ('e, _) outcome) (sum_list (pws vals), vals\<lparr>totalVotingPower := sum_list (pws vals)\<rparr>)"
proof (cases "totalVotingPower vals = 0")
  case True
  have "sum_power_loop (Validators vals) 0 = (Return (0 + sum_list (pws vals)) :: ('e, int) outcome)"
    using assms by (intro sum_power_loop_eq) (auto simp: vals_wf_def order.strict_implies_order)
  then show ?thesis using True by (simp add: TotalVotingPower_def updateTotalVotingPower_def)
next
  case False
  then have "totalVotingPower vals = sum_list (pws vals)" using assms by (simp add: vals_wf_def)
  then show ?thesis using False by (simp add: TotalVotingPower_def)
qed

section \<open>Rescaling and centring\<close>

lemma max_min_fold:
  "fold (\<lambda>v (mx, mn).
      ((if ProposerPriority v > mx then ProposerPriority v else mx),
       (if ProposerPriority v < mn then ProposerPriority v else mn))) vs (a, b) =
   (fold max (map ProposerPriority vs) a, fold min (map ProposerPriority vs) b)"
  by (induction vs arbitrary: a b) (auto simp: max_def min_def)

lemma fold_max_bot:
  assumes "xs \<noteq> []" "\<forall>x \<in> set xs. (b::int) \<le> x"
  shows "fold max xs b = Max (set xs)"
proof -
  have "fold max xs b = Max (insert b (set xs))" by (metis Max.set_eq_fold list.set(2))
  also have "\<dots> = max b (Max (set xs))" using assms(1) by simp
  also have "\<dots> = Max (set xs)" using assms by (intro max_absorb2) simp
  finally show ?thesis .
qed

lemma fold_min_top:
  assumes "xs \<noteq> []" "\<forall>x \<in> set xs. x \<le> (b::int)"
  shows "fold min xs b = Min (set xs)"
proof -
  have "fold min xs b = Min (insert b (set xs))" by (metis Min.set_eq_fold list.set(2))
  also have "\<dots> = min b (Min (set xs))" using assms(1) by simp
  also have "\<dots> = Min (set xs)" using assms by (intro min_absorb2) simp
  finally show ?thesis .
qed

lemma computeMaxMinPriorityDiff_eq:
  assumes ne: "Validators vals \<noteq> []" and i64: "\<forall>v \<in> set (Validators vals). is_i64 (ProposerPriority v)"
    and mx: "mx = Max (set (prs vals))" and mn: "mn = Min (set (prs vals))" and d: "mx - mn \<le> MaxInt64"
  shows "computeMaxMinPriorityDiff vals = Return (mx - mn)" "mn \<le> mx"
proof -
  have ne': "prs vals \<noteq> []" using ne by simp
  have "\<forall>x \<in> set (prs vals). MinInt64 \<le> x \<and> x \<le> MaxInt64" using i64 by (auto dest: is_i64D)
  then have f: "fold max (prs vals) MinInt64 = mx" "fold min (prs vals) MaxInt64 = mn"
    unfolding mx mn using fold_max_bot [OF ne'] fold_min_top [OF ne'] by blast+
  show le: "mn \<le> mx" unfolding mx mn
    using ne' by (meson List.finite_set Max_ge Min_in order_refl set_empty)
  then have "i64 (mx - mn) = mx - mn" using d by (intro i64_id is_i64I) auto
  then show "computeMaxMinPriorityDiff vals = Return (mx - mn)"
    using ne f le by (simp add: computeMaxMinPriorityDiff_def max_min_fold Let_def)
qed

lemma sdiv_diff_le:
  assumes "0 < (r::int)" "0 \<le> d" "a - b \<le> r * d"
  shows "a sdiv r - b sdiv r \<le> d"
proof -
  have neg: "x sdiv r = - ((- x) div r)" if "x < 0" for x
    using that assms(1) by (simp add: signed_divide_int_def sgn_if)
  have add: "x div r \<le> y div r + d" if "x \<le> y + r * d" for x y
    using zdiv_mono1 [OF that assms(1)] assms(1) by simp
  consider "0 \<le> a" "0 \<le> b" | "0 \<le> a" "b < 0" | "a < 0" "0 \<le> b" | "a < 0" "b < 0" by linarith
  then show ?thesis
  proof cases
    case 1
    then show ?thesis using add [of a b] assms by (simp add: sdiv_pos)
  next
    case 2
    have "r * (a div r + (- b) div r) \<le> a - b"
      using assms(1) mult_div_mod_eq [of r a] mult_div_mod_eq [of r "- b"]
        pos_mod_sign [of r a] pos_mod_sign [of r "- b"] unfolding distrib_left by linarith
    then have "r * (a div r + (- b) div r) \<le> r * d" using assms(3) by linarith
    then show ?thesis using 2 assms(1) neg by (simp add: sdiv_pos)
  next
    case 3
    then have "0 \<le> (- a) div r" "0 \<le> b div r" using assms(1) by (simp_all add: pos_imp_zdiv_nonneg_iff)
    then show ?thesis using 3 assms neg [of a] sdiv_pos [of b r] by linarith
  next
    case 4
    then show ?thesis using add [of "- b" "- a"] assms(3) neg [of a] neg [of b] by simp
  qed
qed

lemma sdiv_abs_le: "0 < (r::int) \<Longrightarrow> \<bar>a sdiv r\<bar> \<le> \<bar>a\<bar>"
  using zdiv_mono2 [of "\<bar>a\<bar>" 1 r]
  by (cases "a = 0") (auto simp: signed_divide_int_def abs_mult pos_imp_zdiv_nonneg_iff)

lemma is_i64_sdiv: "0 < r \<Longrightarrow> is_i64 a \<Longrightarrow> is_i64 (a sdiv r)"
proof -
  assume r: "0 < r" and a: "is_i64 a"
  show ?thesis
  proof (cases "0 \<le> a")
    case True
    then have "0 \<le> a sdiv r" "a sdiv r \<le> a"
      using r sdiv_abs_le [OF r, of a] by (simp_all add: sdiv_pos pos_imp_zdiv_nonneg_iff)
    then show ?thesis using a by (auto simp: is_i64_def)
  next
    case False
    then have "a sdiv r \<le> 0" using r by (simp add: signed_divide_int_def sgn_if pos_imp_zdiv_nonneg_iff)
    then show ?thesis using a sdiv_abs_le [OF r, of a] False by (auto simp: is_i64_def)
  qed
qed

definition same_validators :: "validator_set \<Rightarrow> validator_set \<Rightarrow> bool" where
  \<comment> \<open>the same validators in the same order, priorities aside\<close>
  "same_validators vals vals' \<longleftrightarrow>
     map (\<lambda>v. v\<lparr>ProposerPriority := 0\<rparr>) (Validators vals) =
     map (\<lambda>v. v\<lparr>ProposerPriority := 0\<rparr>) (Validators vals')"

lemma same_validators_refl [simp]: "same_validators vals vals"
  by (simp add: same_validators_def)

lemma same_validators_trans:
  "same_validators a b \<Longrightarrow> same_validators b c \<Longrightarrow> same_validators a c"
  by (simp add: same_validators_def)

lemma same_validators_fields:
  assumes "same_validators vals vals'"
  shows "pws vals' = pws vals" "map Address (Validators vals') = map Address (Validators vals)"
    "length (Validators vals') = length (Validators vals)"
proof -
  have c: "VotingPower = VotingPower \<circ> (\<lambda>v. v\<lparr>ProposerPriority := 0\<rparr>)"
    "Address = Address \<circ> (\<lambda>v. v\<lparr>ProposerPriority := 0\<rparr>)" by auto
  show "pws vals' = pws vals" using assms unfolding same_validators_def
    by (subst (1 2) c(1)) (metis map_map)
  show "map Address (Validators vals') = map Address (Validators vals)"
    using assms unfolding same_validators_def by (subst (1 2) c(2)) (metis map_map)
  show "length (Validators vals') = length (Validators vals)"
    using assms unfolding same_validators_def by (metis length_map)
qed

lemma same_validators_map [simp]:
  "same_validators vals (vals\<lparr>Validators := map (\<lambda>v. v\<lparr>ProposerPriority := f v\<rparr>) (Validators vals)\<rparr>)"
  "same_validators vals (vals\<lparr>totalVotingPower := T\<rparr>)"
  "same_validators vals (vals\<lparr>Proposer := P\<rparr>)"
  by (simp_all add: same_validators_def)

lemma prs_map: "map ProposerPriority (map (\<lambda>v. v\<lparr>ProposerPriority := f v\<rparr>) vs) = map f vs"
  by simp

definition spread :: "int \<Rightarrow> validator_set \<Rightarrow> bool" where
  "spread D vals \<longleftrightarrow>
     (\<forall>u \<in> set (Validators vals). \<forall>v \<in> set (Validators vals).
        ProposerPriority u - ProposerPriority v \<le> D)"

lemma ceil_div_mult: "0 < d \<Longrightarrow> x \<le> (x + d - 1) div d * (d::int)"
  using mult_div_mod_eq [of d "x + d - 1"] pos_mod_bound [of d "x + d - 1"]
  unfolding mult.commute [of _ d] by linarith

lemma RescalePriorities_spread:
  assumes ne: "Validators vals \<noteq> []" and i64: "\<forall>v \<in> set (Validators vals). is_i64 (ProposerPriority v)"
    and d: "0 < d" and D: "spread D vals" "D + d - 1 \<le> MaxInt64"
  obtains vals' where "RescalePriorities vals d = (Return vals' :: ('e, validator_set) outcome)"
    "same_validators vals vals'"
    "spread d vals'" "\<forall>v \<in> set (Validators vals'). is_i64 (ProposerPriority v)"
    "totalVotingPower vals' = totalVotingPower vals"
proof -
  define mx where "mx = Max (set (prs vals))"
  define mn where "mn = Min (set (prs vals))"
  have ne': "set (prs vals) \<noteq> {}" using ne by simp
  have "mx \<in> set (prs vals)" "mn \<in> set (prs vals)" unfolding mx_def mn_def using ne' Max_in Min_in by blast+
  then have mD: "mx - mn \<le> D" using D(1) by (auto simp: spread_def)
  have in_mm: "mn \<le> ProposerPriority v" "ProposerPriority v \<le> mx" if "v \<in> set (Validators vals)" for v
    using that unfolding mx_def mn_def by (simp_all add: Max_ge Min_le)
  have diff: "computeMaxMinPriorityDiff vals = (Return (mx - mn) :: ('e, int) outcome)" and le: "mn \<le> mx"
    using computeMaxMinPriorityDiff_eq [OF ne i64 mx_def mn_def] mD D d by auto
  have sp: "spread (mx - mn) vals" using in_mm by (force simp: spread_def)
  show thesis
  proof (cases "mx - mn > d")
    case False
    then have "RescalePriorities vals d = (Return vals :: ('e, validator_set) outcome)" using ne d diff
      by (simp add: RescalePriorities_def Let_def)
    moreover have "spread d vals" using sp False by (fastforce simp: spread_def)
    ultimately show thesis using that i64 by auto
  next
    case True
    define r where "r = (mx - mn + d - 1) div d"
    have "i64 (i64 (mx - mn + d) - 1) = mx - mn + d - 1"
      using mD D le d i64_i64_add [of "mx - mn + d" "- 1"]
      by (simp add: is_i64_def)
    then have ratio: "i64 (i64 (mx - mn + d) - 1) sdiv d = r"
      using d le by (simp add: r_def sdiv_pos)
    have rd: "mx - mn \<le> r * d" using ceil_div_mult [OF d, of "mx - mn"] by (simp add: r_def)
    have r: "0 < r"
    proof (rule ccontr)
      assume "\<not> 0 < r"
      then have "r * d \<le> 0" using d by (simp add: mult_nonpos_nonneg)
      then show False using rd True d by linarith
    qed
    define vals' where "vals' = vals\<lparr>Validators :=
        map (\<lambda>v. v\<lparr>ProposerPriority := i64 (ProposerPriority v sdiv r)\<rparr>) (Validators vals)\<rparr>"
    have e: "RescalePriorities vals d = (Return vals' :: ('e, validator_set) outcome)"
      using ne d diff True r by (simp add: RescalePriorities_def Let_def ratio vals'_def)
    have p: "i64 (ProposerPriority v sdiv r) = ProposerPriority v sdiv r" if "v \<in> set (Validators vals)" for v
      using that i64 r by (intro i64_id is_i64_sdiv) auto
    have "spread d vals'" unfolding spread_def
    proof (intro ballI)
      fix x y assume "x \<in> set (Validators vals')" "y \<in> set (Validators vals')"
      then obtain u v where uv: "u \<in> set (Validators vals)" "v \<in> set (Validators vals)"
        "x = u\<lparr>ProposerPriority := i64 (ProposerPriority u sdiv r)\<rparr>"
        "y = v\<lparr>ProposerPriority := i64 (ProposerPriority v sdiv r)\<rparr>" by (auto simp: vals'_def)
      have "ProposerPriority u - ProposerPriority v \<le> r * d" using sp rd uv(1,2) by (fastforce simp: spread_def)
      then show "ProposerPriority x - ProposerPriority y \<le> d"
        using uv p r d sdiv_diff_le by simp
    qed
    then show thesis using that [OF e] i64 r by (auto simp: vals'_def)
  qed
qed

lemma shiftByAvg_centred:
  assumes ne: "Validators vals \<noteq> []" and i64: "\<forall>v \<in> set (Validators vals). is_i64 (ProposerPriority v)"
    and d: "spread d vals" "d \<le> MaxInt64"
  obtains vals' where "shiftByAvgProposerPriority vals = (Return vals' :: ('e, validator_set) outcome)"
    "same_validators vals vals'" "\<forall>v \<in> set (Validators vals'). \<bar>ProposerPriority v\<bar> \<le> d"
    "0 \<le> sum_list (prs vals')" "sum_list (prs vals') < int (length (Validators vals'))"
    "totalVotingPower vals' = totalVotingPower vals"
proof -
  let ?n = "int (length (Validators vals))"
  define S where "S = sum_list (prs vals)"
  define avg where "avg = S div ?n"
  have n: "0 < ?n" using ne by simp
  have S_ge: "?n * m \<le> S" if "\<forall>v \<in> set (Validators vals). m \<le> ProposerPriority v" for m
    using sum_list_mono [of "Validators vals" "\<lambda>_. m" ProposerPriority] that
    by (simp add: S_def sum_list_triv)
  have S_le: "S \<le> ?n * m" if "\<forall>v \<in> set (Validators vals). ProposerPriority v \<le> m" for m
    using sum_list_mono [of "Validators vals" ProposerPriority "\<lambda>_. m"] that
    by (simp add: S_def sum_list_triv)
  have lo: "m \<le> avg" if "\<forall>v \<in> set (Validators vals). m \<le> ProposerPriority v" for m
    using le_div_int_iff [OF n, of m S] S_ge [OF that] by (simp add: avg_def mult.commute)
  have hi: "avg \<le> m" if "\<forall>v \<in> set (Validators vals). ProposerPriority v \<le> m" for m
    using zdiv_mono1 [OF S_le [OF that] n] n by (simp add: avg_def)
  have avg64: "is_i64 avg" using lo [of MinInt64] hi [of MaxInt64] i64 by (auto simp: is_i64_def)
  have near: "\<bar>ProposerPriority v - avg\<bar> \<le> d" if v: "v \<in> set (Validators vals)" for v
  proof -
    have "\<forall>u \<in> set (Validators vals). ProposerPriority v - d \<le> ProposerPriority u"
      "\<forall>u \<in> set (Validators vals). ProposerPriority u \<le> ProposerPriority v + d"
      using d(1) v by (force simp: spread_def)+
    from lo [OF this(1)] hi [OF this(2)] show ?thesis by linarith
  qed
  have sub: "safeSubClip (ProposerPriority v) avg = ProposerPriority v - avg"
    if "v \<in> set (Validators vals)" for v
    using near [OF that] d(2) i64 avg64 that
    by (subst safeSubClip_eq) (auto intro!: clamp64_id simp: is_i64_def)
  define vals' where "vals' = vals\<lparr>Validators :=
     map (\<lambda>v. v\<lparr>ProposerPriority := safeSubClip (ProposerPriority v) avg\<rparr>) (Validators vals)\<rparr>"
  have e: "shiftByAvgProposerPriority vals = (Return vals' :: ('e, validator_set) outcome)"
    using ne n avg64 by (simp add: shiftByAvgProposerPriority_def computeAvgProposerPriority_def
        Let_def vals'_def S_def [symmetric] avg_def [symmetric])
  have "prs vals' = map (\<lambda>v. ProposerPriority v - avg) (Validators vals)"
    using sub by (simp add: vals'_def)
  then have "sum_list (prs vals') = S - ?n * avg"
    by (simp add: S_def sum_list_subtractf sum_list_triv)
  also have "\<dots> = S mod ?n" by (simp add: avg_def minus_mult_div_eq_mod)
  finally have sum': "sum_list (prs vals') = S mod ?n" .
  have bd: "\<forall>v \<in> set (Validators vals'). \<bar>ProposerPriority v\<bar> \<le> d"
    using near sub by (auto simp: vals'_def)
  have sm: "0 \<le> sum_list (prs vals')" "sum_list (prs vals') < int (length (Validators vals'))"
    unfolding sum' using n by (simp_all add: vals'_def)
  have "same_validators vals vals'" "totalVotingPower vals' = totalVotingPower vals"
    by (simp_all add: vals'_def)
  then show thesis using that [OF e _ bd sm] by simp
qed

section \<open>Choosing the proposer\<close>

definition ranks_below :: "validator \<Rightarrow> validator \<Rightarrow> bool" where
  "ranks_below u v \<longleftrightarrow>
     ProposerPriority u < ProposerPriority v
     \<or> (ProposerPriority u = ProposerPriority v \<and> Address v \<le> Address u)"

lemma receiver_wins_eq:
  "Address x \<noteq> Address y \<Longrightarrow> receiver_wins x y = Return (ranks_below y x)"
  by (simp add: receiver_wins_def ranks_below_def bytes_Compare_def not_less antisym_conv3 order.strict_implies_order)

lemma ranks_below_trans: "ranks_below a b \<Longrightarrow> ranks_below b c \<Longrightarrow> ranks_below a c"
  by (auto simp: ranks_below_def)

lemma ranks_below_total: "ranks_below a b \<or> ranks_below b a"
  by (auto simp: ranks_below_def)

lemma ranks_below_refl [simp]: "ranks_below a a"
  by (simp add: ranks_below_def)

lemma distinct_snoc_address:
  assumes "distinct (map Address (pre @ v # vs))" "j < length pre"
  shows "Address (pre ! j) \<noteq> Address v"
  using assms
  by (metis append_Cons disjoint_iff distinct_append length_map list.set_intros(1) list.simps(9)
      map_append nth_map nth_mem)

lemma most_loop_top:
  assumes "distinct (map Address (pre @ vs))" "j < length pre" "\<forall>u \<in> set pre. ranks_below u (pre ! j)"
  shows "\<exists>k < length (pre @ vs). most_loop vs (length pre) (Some (j, pre ! j)) = (Return :: _ \<Rightarrow> ('e, _) outcome) (Some (k, (pre @ vs) ! k))
    \<and> (\<forall>u \<in> set (pre @ vs). ranks_below u ((pre @ vs) ! k))"
  using assms
proof (induction vs arbitrary: pre j)
  case Nil
  then show ?case by (intro exI [of _ j]) simp
next
  case (Cons v vs)
  have ne: "Address (pre ! j) \<noteq> Address v"
    using Cons.prems(1,2) by (rule distinct_snoc_address)
  define j' where "j' = (if ranks_below v (pre ! j) then j else length pre)"
  have nth: "(pre @ [v]) ! j' = (if ranks_below v (pre ! j) then pre ! j else v)"
    using Cons.prems(2) by (simp add: j'_def nth_append)
  have step: "most_loop (v # vs) (length pre) (Some (j, pre ! j)) =
      (most_loop :: _ \<Rightarrow> _ \<Rightarrow> _ \<Rightarrow> ('e, _) outcome) vs (length (pre @ [v])) (Some (j', (pre @ [v]) ! j'))"
    unfolding nth by (simp add: receiver_wins_eq [OF ne] j'_def)
  have "\<forall>u \<in> set (pre @ [v]). ranks_below u ((pre @ [v]) ! j')"
  proof (cases "ranks_below v (pre ! j)")
    case True
    then show ?thesis unfolding nth using Cons.prems(3) by simp
  next
    case False
    then have "ranks_below (pre ! j) v" using ranks_below_total by blast
    then have "ranks_below u v" if "u \<in> set pre" for u using Cons.prems(3) that ranks_below_trans by blast
    then show ?thesis unfolding nth using False by simp
  qed
  moreover have "j' < length (pre @ [v])" using Cons.prems(2) by (simp add: j'_def)
  ultimately show ?case using Cons.IH [of "pre @ [v]" j'] Cons.prems(1) step by simp
qed

lemma getValWithMostPriority_top:
  assumes "Validators vals \<noteq> []" "distinct (map Address (Validators vals))"
  shows "\<exists>k < length (Validators vals).
    getValWithMostPriority vals = Return (Some (k, Validators vals ! k))
    \<and> (\<forall>u \<in> set (Validators vals). ranks_below u (Validators vals ! k))"
proof -
  obtain v vs where "Validators vals = [v] @ vs" using assms(1) by (auto simp: neq_Nil_conv)
  then show ?thesis using most_loop_top [of "[v]" vs 0] assms(2)
    by (simp add: getValWithMostPriority_def)
qed

section \<open>One round of rotation\<close>

definition rounds_fit :: "validator_set \<Rightarrow> bool" where
  \<comment> \<open>the priorities that rotation can reach fit into an int64\<close>
  "rounds_fit vals \<longleftrightarrow>
     real_of_int (sum_list (pws vals)) * (harmonic (length (Validators vals)) + 2) \<le> real_of_int MaxInt64"

lemma rounds_fit_same: "same_validators vals vals' \<Longrightarrow> rounds_fit vals' = rounds_fit vals"
  by (simp add: rounds_fit_def same_validators_fields)

lemma prs_nth [simp]: "i < length (Validators vals) \<Longrightarrow> prs vals ! i = ProposerPriority (Validators vals ! i)"
  by simp

lemma rot_add_exact:
  assumes wf: "vals_wf vals" and fit: "rounds_fit vals" and inv: "rot_inv (pws vals) (prs vals)"
    and v: "v \<in> set (Validators vals)"
  shows "safeAddClip (ProposerPriority v) (VotingPower v) = ProposerPriority v + VotingPower v"
    "is_i64 (ProposerPriority v + VotingPower v)"
proof -
  obtain i where i: "i < length (Validators vals)" "Validators vals ! i = v"
    using v by (auto simp: in_set_conv_nth)
  have up: "real_of_int (ProposerPriority v + VotingPower v) \<le> real_of_int MaxInt64"
    using rot_inv_bounds(3) [OF inv, of i] i fit by (simp add: rounds_fit_def)
  have lo: "- 2 * sum_list (pws vals) \<le> ProposerPriority v" using rot_inv_bounds(1) [OF inv, of i] i by simp
  have w: "0 < VotingPower v" "VotingPower v \<le> sum_list (pws vals)"
    using wf v sum_subset_le_sum_list [of "pws vals" "{i}"] vals_wf_power(3) [OF wf] i
    by (auto simp: vals_wf_def)
  show q: "is_i64 (ProposerPriority v + VotingPower v)"
    using up lo w vals_wf_power(2) [OF wf] by (auto simp: is_i64_def simp flip: of_int_add)
  show "safeAddClip (ProposerPriority v) (VotingPower v) = ProposerPriority v + VotingPower v"
    using q wf v w vals_wf_power(2) [OF wf]
    by (subst safeAddClip_eq) (auto simp: vals_wf_def is_i64_def)
qed

lemma prs_update: "j < length vs \<Longrightarrow> ProposerPriority (vs ! j) = p \<Longrightarrow>
    (map ProposerPriority vs)[j := q] = map ProposerPriority (vs[j := (vs ! j)\<lparr>ProposerPriority := q\<rparr>])"
  by (simp add: map_update)

lemma same_validators_update:
  "j < length (Validators vals) \<Longrightarrow>
     same_validators vals (vals\<lparr>Validators := (Validators vals)[j := (Validators vals ! j)\<lparr>ProposerPriority := q\<rparr>]\<rparr>)"
  by (simp add: same_validators_def map_update list_update_same_conv [THEN iffD2])

lemma vals_wf_same:
  assumes "vals_wf vals" "same_validators vals vals'"
    "\<forall>v \<in> set (Validators vals'). is_i64 (ProposerPriority v)"
    "totalVotingPower vals' = 0 \<or> totalVotingPower vals' = sum_list (pws vals)"
  shows "vals_wf vals'"
proof -
  note f = same_validators_fields [OF assms(2)]
  have "\<forall>w \<in> set (pws vals). 0 < w" using assms(1) by (simp add: vals_wf_def)
  then have "\<forall>v \<in> set (Validators vals'). 0 < VotingPower v" unfolding f(1) [symmetric] by simp
  moreover have "Validators vals' \<noteq> []" using f(3) assms(1) by (auto simp: vals_wf_def)
  ultimately show ?thesis using assms f by (simp add: vals_wf_def)
qed

lemma is_i64_rot_inv:
  assumes wf: "vals_wf vals" and fit: "rounds_fit vals" and same: "same_validators vals vals'"
    and inv: "rot_inv (pws vals) (prs vals')"
  shows "\<forall>v \<in> set (Validators vals'). is_i64 (ProposerPriority v)"
proof
  fix v assume "v \<in> set (Validators vals')"
  then obtain i where i: "i < length (Validators vals')" "Validators vals' ! i = v"
    by (auto simp: in_set_conv_nth)
  have T: "0 < sum_list (pws vals)" "sum_list (pws vals) \<le> MaxTotalVotingPower"
    using vals_wf_power [OF wf] by auto
  have "real_of_int (ProposerPriority v) \<le> real_of_int (sum_list (pws vals)) * (harmonic (length (Validators vals)) + 1)"
    using rot_inv_bounds(2) [OF inv, of i] i same_validators_fields(3) [OF same] by simp
  also have "\<dots> \<le> real_of_int (sum_list (pws vals)) * (harmonic (length (Validators vals)) + 2)"
    using T by (intro mult_left_mono) auto
  also have "\<dots> \<le> real_of_int MaxInt64" using fit by (simp add: rounds_fit_def)
  finally have "ProposerPriority v \<le> MaxInt64" by linarith
  moreover have "- 2 * sum_list (pws vals) \<le> ProposerPriority v"
    using rot_inv_bounds(1) [OF inv, of i] i by simp
  ultimately show "is_i64 (ProposerPriority v)" using T by (intro is_i64I) auto
qed

lemma incrementProposerPriority_step:
  assumes wf: "vals_wf vals" and fit: "rounds_fit vals" and inv: "rot_inv (pws vals) (prs vals)"
  obtains j vals' where
    "incrementProposerPriority vals = (Return (j, Validators vals' ! j, vals') :: ('e, _) outcome)"
    "rot_step (pws vals) (prs vals) j (prs vals')" "same_validators vals vals'" "vals_wf vals'"
    "j < length (Validators vals')"
proof -
  let ?T = "sum_list (pws vals)"
  define vals1 where "vals1 = vals\<lparr>Validators :=
     map (\<lambda>v. v\<lparr>ProposerPriority := safeAddClip (ProposerPriority v) (VotingPower v)\<rparr>) (Validators vals)\<rparr>"
  note add = rot_add_exact [OF wf fit inv]
  have same1: "same_validators vals vals1" by (simp add: vals1_def)
  note f1 = same_validators_fields [OF same1]
  have prs1: "prs vals1 = map2 (+) (prs vals) (pws vals)"
    by (rule nth_equalityI) (use add in \<open>auto simp: vals1_def\<close>)
  have wf1: "vals_wf vals1"
    using wf same1 add by (intro vals_wf_same [OF wf same1]) (auto simp: vals1_def vals_wf_def)
  obtain j where j: "j < length (Validators vals1)"
      "getValWithMostPriority vals1 = (Return (Some (j, Validators vals1 ! j)) :: ('e, _) outcome)"
      "\<forall>u \<in> set (Validators vals1). ranks_below u (Validators vals1 ! j)"
    using getValWithMostPriority_top [of vals1] wf1 by (auto simp: vals_wf_def)
  have top: "\<forall>i < length (prs vals). prs vals ! i + pws vals ! i \<le> prs vals ! j + pws vals ! j"
  proof (intro allI impI)
    fix i assume i: "i < length (prs vals)"
    then have i': "i < length (Validators vals1)" using f1(3) by simp
    then have "ranks_below (Validators vals1 ! i) (Validators vals1 ! j)" using j(3) by simp
    then have "prs vals1 ! i \<le> prs vals1 ! j" using i' j(1) by (auto simp: ranks_below_def)
    then show "prs vals ! i + pws vals ! i \<le> prs vals ! j + pws vals ! j"
      unfolding prs1 using i j(1) f1(3) by simp
  qed
  have pj: "ProposerPriority (Validators vals1 ! j) = prs vals ! j + pws vals ! j"
    using arg_cong [OF prs1, of "\<lambda>l. l ! j"] j(1) f1(3) by simp
  have rs: "rot_step (pws vals) (prs vals) j
      ((map2 (+) (prs vals) (pws vals))[j := prs vals ! j + pws vals ! j - ?T])"
    using top j(1) f1(3) by (simp add: rot_step_def)
  have sum0: "0 \<le> sum_list (prs vals)" using inv by (simp add: rot_inv_def)
  have q: "0 \<le> prs vals ! j + pws vals ! j"
    by (rule rot_step_largest_nonneg [OF rs vals_wf_power(3) [OF wf] sum0])
  have i64j: "is_i64 (prs vals ! j + pws vals ! j)"
    unfolding pj [symmetric] using wf1 j(1) by (simp add: vals_wf_def)
  have sub: "safeSubClip (prs vals ! j + pws vals ! j) ?T = prs vals ! j + pws vals ! j - ?T"
    using q i64j vals_wf_power [OF wf] by (subst safeSubClip_eq) (auto simp: is_i64_def)
  define m where "m = (Validators vals1 ! j)\<lparr>ProposerPriority := prs vals ! j + pws vals ! j - ?T\<rparr>"
  define vals' where "vals' = vals1\<lparr>totalVotingPower := ?T, Validators := (Validators vals1)[j := m]\<rparr>"
  have e: "incrementProposerPriority vals = (Return (j, Validators vals' ! j, vals') :: ('e, _) outcome)"
    using j(1,2) f1(1) sub
    by (simp add: incrementProposerPriority_def vals1_def [symmetric] Let_def pj m_def vals'_def
        TotalVotingPower_wf [OF wf1])
  have prs': "prs vals' = (map2 (+) (prs vals) (pws vals))[j := prs vals ! j + pws vals ! j - ?T]"
    by (simp add: vals'_def m_def map_update prs1 [symmetric])
  have same': "same_validators vals vals'"
    using same1 same_validators_update [OF j(1)] by (simp add: same_validators_def vals'_def m_def)
  have rs': "rot_step (pws vals) (prs vals) j (prs vals')" using rs unfolding prs' .
  have "vals_wf vals'"
    by (rule vals_wf_same [OF wf same' is_i64_rot_inv [OF wf fit same' rot_inv_step [OF inv rs']]])
       (simp add: vals'_def)
  then show thesis using that [OF e rs' same'] j(1) by (simp add: vals'_def)
qed

section \<open>Many rounds\<close>

fun run_rounds :: "nat \<Rightarrow> validator_set \<Rightarrow> ('e, nat list \<times> validator_set) outcome" where
  \<comment> \<open>the indices chosen by k calls of incrementProposerPriority in a row\<close>
  "run_rounds 0 vals = Return ([], vals)"
| "run_rounds (Suc k) vals =
     bind_o (incrementProposerPriority vals) (\<lambda>(j, _, vals').
     bind_o (run_rounds k vals') (\<lambda>(js, vals''). Return (j # js, vals'')))"

lemma run_rounds_steps:
  assumes "vals_wf vals" "rounds_fit vals" "rot_inv (pws vals) (prs vals)"
  obtains js vals' where "run_rounds k vals = (Return (js, vals') :: ('e, _) outcome)" "length js = k"
    "rot_steps (pws vals) (prs vals) js (prs vals')" "same_validators vals vals'" "vals_wf vals'"
    "set js \<subseteq> {..<length (Validators vals)}"
    "\<And>p. increment_loop k vals p = (Return (if js = [] then p else Some (Validators vals' ! last js), vals') :: ('e, _) outcome)"
  using assms
proof (induction k arbitrary: vals thesis)
  case 0
  show ?case by (rule "0.prems"(1) [of "[]" vals]) (auto intro: rot_refl simp: "0.prems")
next
  case (Suc k)
  obtain j v1 where st: "incrementProposerPriority vals = (Return (j, Validators v1 ! j, v1) :: ('e, _) outcome)"
      "rot_step (pws vals) (prs vals) j (prs v1)" "same_validators vals v1" "vals_wf v1"
      "j < length (Validators v1)"
    using incrementProposerPriority_step [OF Suc.prems(2-4)] by metis
  note f = same_validators_fields [OF st(3)]
  have fit1: "rounds_fit v1" using Suc.prems(3) rounds_fit_same [OF st(3)] by simp
  have inv1: "rot_inv (pws v1) (prs v1)" using rot_inv_step [OF Suc.prems(4) st(2)] f(1) by simp
  obtain js v2 where r: "run_rounds k v1 = (Return (js, v2) :: ('e, _) outcome)" "length js = k"
    "rot_steps (pws v1) (prs v1) js (prs v2)" "same_validators v1 v2" "vals_wf v2"
    "set js \<subseteq> {..<length (Validators v1)}"
    and loop: "\<And>p. increment_loop k v1 p = (Return (if js = [] then p else Some (Validators v2 ! last js), v2) :: ('e, _) outcome)"
    using Suc.IH [OF _ st(4) fit1 inv1] by blast
  have k0: "js = [] \<Longrightarrow> v2 = v1" using r(1,2) by auto
  show ?case
  proof (rule Suc.prems(1) [of "j # js" v2])
    show "run_rounds (Suc k) vals = (Return (j # js, v2) :: ('e, _) outcome)" using st(1) r(1) by simp
    show "length (j # js) = Suc k" using r(2) by simp
    show "rot_steps (pws vals) (prs vals) (j # js) (prs v2)" using rot_more [OF st(2)] r(3) f(1) by simp
    show "same_validators vals v2" using st(3) r(4) by (rule same_validators_trans)
    show "vals_wf v2" by (rule r(5))
    show "set (j # js) \<subseteq> {..<length (Validators vals)}" using r(6) f(3) st(5) by simp
    show "increment_loop (Suc k) vals p =
        (Return (if j # js = [] then p else Some (Validators v2 ! last (j # js)), v2) :: ('e, _) outcome)" for p
      using st(1) loop k0 by simp
  qed
qed

text \<open>Rescaling and centring put a well-formed set into the range from which rotation starts.\<close>

lemma rescale_and_centre:
  assumes wf: "vals_wf vals" and sp: "spread D vals" "D + 2 * sum_list (pws vals) - 1 \<le> MaxInt64"
  obtains v2 v3 where
    "RescalePriorities vals (i64 (PriorityWindowSizeFactor * sum_list (pws vals))) = (Return v2 :: ('e, _) outcome)"
    "shiftByAvgProposerPriority v2 = (Return v3 :: ('e, _) outcome)"
    "same_validators vals v3" "vals_wf v3" "rot_inv (pws vals) (prs v3)"
    "totalVotingPower v3 = totalVotingPower vals"
    "\<forall>v \<in> set (Validators v3). \<bar>ProposerPriority v\<bar> \<le> 2 * sum_list (pws vals)"
    "sum_list (prs v3) < int (length (Validators v3))"
proof -
  let ?T = "sum_list (pws vals)"
  note T = vals_wf_power [OF wf]
  have i2: "i64 (PriorityWindowSizeFactor * ?T) = 2 * ?T"
    using T unfolding PriorityWindowSizeFactor_def by (intro i64_id is_i64I) auto
  have d: "0 < 2 * ?T" "2 * ?T \<le> MaxInt64" using T by auto
  have ne: "Validators vals \<noteq> []" and i64: "\<forall>v \<in> set (Validators vals). is_i64 (ProposerPriority v)"
    using wf by (auto simp: vals_wf_def)
  obtain v2 where r: "RescalePriorities vals (2 * ?T) = (Return v2 :: ('e, _) outcome)"
      "same_validators vals v2" "spread (2 * ?T) v2" "\<forall>v \<in> set (Validators v2). is_i64 (ProposerPriority v)"
      "totalVotingPower v2 = totalVotingPower vals"
    using RescalePriorities_spread [OF ne i64 d(1) sp] by metis
  have ne2: "Validators v2 \<noteq> []" using same_validators_fields(3) [OF r(2)] ne by auto
  obtain v3 where s: "shiftByAvgProposerPriority v2 = (Return v3 :: ('e, _) outcome)" "same_validators v2 v3"
      "\<forall>v \<in> set (Validators v3). \<bar>ProposerPriority v\<bar> \<le> 2 * ?T" "0 \<le> sum_list (prs v3)"
      "sum_list (prs v3) < int (length (Validators v3))" "totalVotingPower v3 = totalVotingPower v2"
    using shiftByAvg_centred [OF ne2 r(4) r(3) d(2)] by metis
  have same: "same_validators vals v3" using r(2) s(2) by (rule same_validators_trans)
  have wf3: "vals_wf v3"
  proof (rule vals_wf_same [OF wf same])
    show "\<forall>v \<in> set (Validators v3). is_i64 (ProposerPriority v)"
      using s(3) d(2) by (fastforce simp: is_i64_def abs_le_iff)
    show "totalVotingPower v3 = 0 \<or> totalVotingPower v3 = ?T" using wf r(5) s(6) by (simp add: vals_wf_def)
  qed
  have inv: "rot_inv (pws vals) (prs v3)"
    using same_validators_fields [OF same] T(3) s(3,4) by (intro rot_inv_init) auto
  show thesis using that [OF _ s(1) same wf3 inv _ s(3,5)] r(1,5) s(6) i2 by simp
qed

lemma IncrementProposerPriority_steps:
  assumes wf: "vals_wf vals" and fit: "rounds_fit vals" and t: "0 < times'"
    and sp: "spread D vals" "D + 2 * sum_list (pws vals) - 1 \<le> MaxInt64"
  obtains p0 js vals' where
    "IncrementProposerPriority vals times' = (Return vals' :: ('e, _) outcome)"
    "rot_inv (pws vals) p0" "rot_steps (pws vals) p0 js (prs vals')" "length js = nat times'"
    "same_validators vals vals'" "vals_wf vals'" "last js < length (Validators vals')"
    "Proposer vals' = Some (Validators vals' ! last js)"
proof -
  let ?T = "sum_list (pws vals)"
  let ?v1 = "vals\<lparr>totalVotingPower := ?T\<rparr>"
  have same1: "same_validators vals ?v1" by simp
  have wf1: "vals_wf ?v1" by (rule vals_wf_same [OF wf same1]) (use wf in \<open>auto simp: vals_wf_def\<close>)
  have sp1: "spread D ?v1" "D + 2 * sum_list (pws ?v1) - 1 \<le> MaxInt64" using sp by (auto simp: spread_def)
  obtain v2 v3 where v23:
      "RescalePriorities ?v1 (i64 (PriorityWindowSizeFactor * ?T)) = (Return v2 :: ('e, _) outcome)"
      "shiftByAvgProposerPriority v2 = (Return v3 :: ('e, _) outcome)"
      "same_validators ?v1 v3" "vals_wf v3" "rot_inv (pws vals) (prs v3)"
    by (rule rescale_and_centre [OF wf1 sp1, where 'e = 'e]) auto
  have same3: "same_validators vals v3" using same1 v23(3) by (rule same_validators_trans)
  note f3 = same_validators_fields [OF same3]
  have fit3: "rounds_fit v3" and inv3: "rot_inv (pws v3) (prs v3)"
    using fit rounds_fit_same [OF same3] v23(5) f3 by auto
  obtain js v4 where r: "length js = nat times'" "rot_steps (pws v3) (prs v3) js (prs v4)"
      "same_validators v3 v4" "vals_wf v4" "set js \<subseteq> {..<length (Validators v3)}"
      and loop: "\<And>p. increment_loop (nat times') v3 p =
        (Return (if js = [] then p else Some (Validators v4 ! last js), v4) :: ('e, _) outcome)"
    using run_rounds_steps [OF v23(4) fit3 inv3, of "nat times'"] by metis
  have ne: "Validators vals \<noteq> []" and js: "js \<noteq> []" using wf t r(1) by (auto simp: vals_wf_def)
  have e: "IncrementProposerPriority vals times' =
      (Return (v4\<lparr>Proposer := Some (Validators v4 ! last js)\<rparr>) :: ('e, _) outcome)"
    using ne t v23(1,2) js
    by (simp add: IncrementProposerPriority_def TotalVotingPower_wf [OF wf] loop)
  have l: "last js < length (Validators v4)"
    using subsetD [OF r(5) last_in_set [OF js]] same_validators_fields(3) [OF r(3)] by simp
  have wf4: "vals_wf (v4\<lparr>Proposer := P\<rparr>)" for P using r(4) by (simp add: vals_wf_def)
  have same4: "same_validators vals (v4\<lparr>Proposer := P\<rparr>)" for P
    using same_validators_trans [OF same3 r(3)] by (simp add: same_validators_def)
  show thesis using that [OF e v23(5), of js] r(1,2) f3 same4 wf4 l by simp
qed

section \<open>Properties\<close>

definition rotation_ok :: "validator_set \<Rightarrow> bool" where
  \<comment> \<open>a well-formed set whose reachable priorities, and the sums formed when they are rescaled,
      fit into an int64\<close>
  "rotation_ok vals \<longleftrightarrow>
     vals_wf vals
     \<and> real_of_int (sum_list (pws vals)) * (harmonic (length (Validators vals)) + 5) \<le> real_of_int MaxInt64
     \<and> spread (MaxInt64 + 1 - 2 * sum_list (pws vals)) vals"

lemma rotation_ok_fit: "rotation_ok vals \<Longrightarrow> rounds_fit vals"
proof -
  assume ok: "rotation_ok vals"
  then have "0 < sum_list (pws vals)" using vals_wf_power(1) by (auto simp: rotation_ok_def)
  then have "real_of_int (sum_list (pws vals)) * (harmonic (length (Validators vals)) + 2)
      \<le> real_of_int (sum_list (pws vals)) * (harmonic (length (Validators vals)) + 5)"
    by (intro mult_left_mono) auto
  then show ?thesis using ok by (simp add: rotation_ok_def rounds_fit_def)
qed

lemma rotation_ok_again:
  assumes ok: "rotation_ok vals" and same: "same_validators vals vals'" and wf': "vals_wf vals'"
    and inv: "rot_inv (pws vals) (prs vals')"
  shows "rotation_ok vals'"
proof -
  let ?T = "sum_list (pws vals)" and ?H = "harmonic (length (Validators vals))"
  note f = same_validators_fields [OF same]
  have "ProposerPriority u - ProposerPriority v \<le> MaxInt64 + 1 - 2 * ?T"
    if u: "u \<in> set (Validators vals')" and v: "v \<in> set (Validators vals')" for u v
  proof -
    obtain i where i: "i < length (Validators vals')" "Validators vals' ! i = u"
      using u by (auto simp: in_set_conv_nth)
    obtain j where j: "j < length (Validators vals')" "Validators vals' ! j = v"
      using v by (auto simp: in_set_conv_nth)
    have "real_of_int (ProposerPriority u) \<le> real_of_int ?T * (?H + 1)"
      using rot_inv_bounds(2) [OF inv, of i] f(3) i by simp
    moreover have "- 2 * ?T \<le> ProposerPriority v" using rot_inv_bounds(1) [OF inv, of j] j by simp
    then have "- 2 * real_of_int ?T \<le> real_of_int (ProposerPriority v)" by linarith
    moreover have "real_of_int ?T * (?H + 5) \<le> real_of_int MaxInt64" using ok by (simp add: rotation_ok_def)
    ultimately have "real_of_int (ProposerPriority u) - real_of_int (ProposerPriority v)
        \<le> real_of_int MaxInt64 + 1 - 2 * real_of_int ?T"
      unfolding distrib_left by linarith
    then show ?thesis by linarith
  qed
  then show ?thesis using ok f wf' by (simp add: rotation_ok_def spread_def)
qed

text \<open>
  C37: on a well-formed validator set of n validators with total power T, where T (H(n) + 5) fits into
  an int64 and no two priorities differ by more than \<open>2^63 - 2T\<close>,
  \<open>IncrementProposerPriority\<close> with any positive number of rounds returns, never clips a priority
  and leaves a set of the same kind: the validators are the same, the proposer is one of them, every
  priority lies between -2T and T (H(n) + 1), and the rounds are exactly the additions of the voting
  powers and one subtraction of the total power from a validator with the highest priority.
\<close>

theorem IncrementProposerPriority_never_clips:
  assumes ok: "rotation_ok vals" and t: "0 < times'"
  shows "\<exists>vals' p0 js. IncrementProposerPriority vals times' = (Return vals' :: (unit, _) outcome)
    \<and> rotation_ok vals' \<and> same_validators vals vals'
    \<and> Proposer vals' = Some (Validators vals' ! last js) \<and> last js < length (Validators vals')
    \<and> length js = nat times' \<and> rot_steps (pws vals) p0 js (prs vals')
    \<and> list_all (\<lambda>v. - 2 * sum_list (pws vals) \<le> ProposerPriority v
         \<and> real_of_int (ProposerPriority v)
            \<le> real_of_int (sum_list (pws vals)) * (harmonic (length (Validators vals)) + 1)) (Validators vals')"
proof -
  have wf: "vals_wf vals" and sp: "spread (MaxInt64 + 1 - 2 * sum_list (pws vals)) vals"
    using ok by (auto simp: rotation_ok_def)
  obtain p0 js vals' where r:
      "IncrementProposerPriority vals times' = (Return vals' :: (unit, _) outcome)"
      "rot_inv (pws vals) p0" "rot_steps (pws vals) p0 js (prs vals')" "length js = nat times'"
      "same_validators vals vals'" "vals_wf vals'" "last js < length (Validators vals')"
      "Proposer vals' = Some (Validators vals' ! last js)"
    by (rule IncrementProposerPriority_steps [OF wf rotation_ok_fit [OF ok] t sp, where 'e = unit]) auto
  have inv: "rot_inv (pws vals) (prs vals')" by (rule rot_steps_inv [OF r(3,2)])
  have "list_all (\<lambda>v. - 2 * sum_list (pws vals) \<le> ProposerPriority v
         \<and> real_of_int (ProposerPriority v)
            \<le> real_of_int (sum_list (pws vals)) * (harmonic (length (Validators vals)) + 1)) (Validators vals')"
    using rot_inv_bounds [OF inv] same_validators_fields(3) [OF r(5)] by (simp add: list_all_length)
  then show ?thesis using r rotation_ok_again [OF ok r(5,6) inv] by blast
qed

definition example_vals :: validator_set where
  "example_vals = \<lparr>Validators =
      [\<lparr>Address = [1], PubKey = None, VotingPower = 3, ProposerPriority = 0\<rparr>,
       \<lparr>Address = [2], PubKey = None, VotingPower = 1, ProposerPriority = 0\<rparr>],
     Proposer = None, totalVotingPower = 0\<rparr>"

lemma example_vals_ok: "rotation_ok example_vals"
  by (simp add: rotation_ok_def example_vals_def vals_wf_def spread_def is_i64_def harmonic_def)

theorem IncrementProposerPriority_never_clips_witness:
  "\<exists>vals'. IncrementProposerPriority example_vals 5 = (Return vals' :: (unit, _) outcome)
    \<and> rotation_ok vals' \<and> same_validators example_vals vals'"
  using IncrementProposerPriority_never_clips [OF example_vals_ok, of 5] by auto

text \<open>
  C38: over any number k of consecutive rounds, without rescaling in between, the number of times a
  validator is chosen as proposer differs from its share k w / T by at most H(n) + 3.  The rounds start
  from priorities between -2T and 2T with a sum that is not negative, and T leaves room for them in
  an int64.
\<close>

theorem proposer_selection_is_proportional:
  assumes "vals_wf vals" "rounds_fit vals"
    "list_all (\<lambda>v. \<bar>ProposerPriority v\<bar> \<le> 2 * sum_list (pws vals)) (Validators vals)"
    "0 \<le> sum_list (prs vals)" "i < length (Validators vals)"
  shows "\<exists>js vals'. run_rounds k vals = (Return (js, vals') :: (unit, _) outcome) \<and> length js = k
    \<and> \<bar>real_of_int (int (count_list js i) * sum_list (pws vals) - int k * VotingPower (Validators vals ! i))\<bar>
       \<le> real_of_int (sum_list (pws vals)) * (harmonic (length (Validators vals)) + 3)"
proof -
  have inv: "rot_inv (pws vals) (prs vals)"
    using assms vals_wf_power(3) by (intro rot_inv_init) (auto simp: list_all_length)
  obtain js vals' where "run_rounds k vals = (Return (js, vals') :: (unit, _) outcome)" "length js = k"
      "rot_steps (pws vals) (prs vals) js (prs vals')"
    by (rule run_rounds_steps [OF assms(1,2) inv, where 'e = unit]) auto
  then show ?thesis using rot_steps_fair [OF _ inv, of js "prs vals'" i] assms(5) by auto
qed

theorem proposer_selection_is_proportional_witness:
  "\<exists>js vals'. run_rounds 8 example_vals = (Return (js, vals') :: (unit, _) outcome) \<and> length js = 8
    \<and> \<bar>real_of_int (int (count_list js 0) * 4 - 24)\<bar> \<le> 18"
  using proposer_selection_is_proportional
    [OF _ rotation_ok_fit [OF example_vals_ok], of 0 8] example_vals_ok
  by (simp add: example_vals_def rotation_ok_def harmonic_def)

lemma fits_226:
  assumes "vals_wf vals" "length (Validators vals) \<le> 226"
  shows "rounds_fit vals"
proof -
  have T: "0 < sum_list (pws vals)" "sum_list (pws vals) \<le> MaxTotalVotingPower"
    using vals_wf_power [OF assms(1)] by auto
  have "harmonic (length (Validators vals)) \<le> 6" using harmonic_mono [OF assms(2)] harmonic_226 by linarith
  then have "real_of_int (sum_list (pws vals)) * (harmonic (length (Validators vals)) + 2)
      \<le> real_of_int MaxTotalVotingPower * 8"
    using T harmonic_nonneg [of "length (Validators vals)"] by (intro mult_mono) auto
  then show ?thesis by (simp add: rounds_fit_def)
qed

text \<open>
  With at most 226 validators every well-formed set, whatever its total power up to
  \<open>MaxTotalVotingPower\<close>, has priorities that rotation keeps inside the int64 range.
\<close>

theorem up_to_226_validators_fit:
  assumes "vals_wf vals" "length (Validators vals) \<le> 226"
  shows "rounds_fit vals"
  using assms by (rule fits_226)

theorem up_to_226_validators_fit_witness: "rounds_fit example_vals"
  using up_to_226_validators_fit [of example_vals] example_vals_ok
  by (simp add: rotation_ok_def example_vals_def)

end
