(* ===== verification/ValidatorUpdates.thy ===== *)
theory ValidatorUpdates
  imports Validators
begin

text \<open>
  Changing a validator set: processChanges, verifyUpdates, computeNewPriorities, applyUpdates,
  verifyRemovals, applyRemovals, updateWithChangeSet and the constructors of
  types/validator_set.go.

  \<open>sort.Sort\<close> with one of the two orders is \<open>sort_key\<close>.  The sorts by address and by voting
  power are only relied upon for lists with distinct addresses, where the sorted list is unique;
  for changes with a repeated address the scan that follows reports an error whatever order the
  equal entries have.  On an error the caller's set is unchanged, the cached total aside.
\<close>

section \<open>Operations\<close>

datatype change_error =
    DuplicateEntry
  | NegativePower
  | PowerTooHigh
  | DeletesNotAllowed
  | EmptyResult
  | MissingValidator address
  | ErrTotalVotingPowerOverflow

definition sort_by_address :: "validator list \<Rightarrow> validator list" where
  "sort_by_address = sort_key Address"

definition sort_by_voting_power :: "validator list \<Rightarrow> validator list" where
  "sort_by_voting_power = sort_key (\<lambda>v. (- VotingPower v, Address v))"

fun process_loop ::
    "validator list \<Rightarrow> address \<Rightarrow> validator list \<Rightarrow> validator list
      \<Rightarrow> (change_error, validator list \<times> validator list) outcome" where
  "process_loop [] prevAddr updates removals = Return (updates, removals)"
| "process_loop (c # cs) prevAddr updates removals =
     (if Address c = prevAddr then Error DuplicateEntry
      else if VotingPower c < 0 then Error NegativePower
      else if VotingPower c > MaxTotalVotingPower then Error PowerTooHigh
      else if VotingPower c = 0 then process_loop cs (Address c) updates (removals @ [c])
      else process_loop cs (Address c) (updates @ [c]) removals)"

definition processChanges ::
    "validator list \<Rightarrow> (change_error, validator list \<times> validator list) outcome" where
  \<comment> \<open>the nil previous address equals an empty address\<close>
  "processChanges origChanges = process_loop (sort_by_address origChanges) [] [] []"

definition update_delta :: "validator_set \<Rightarrow> validator \<Rightarrow> int" where
  "update_delta vals update =
     (case snd (GetByAddress vals (Address update)) of
        Some val \<Rightarrow> i64 (VotingPower update - VotingPower val)
      | None \<Rightarrow> VotingPower update)"

fun verify_updates_loop :: "validator_set \<Rightarrow> validator list \<Rightarrow> int \<Rightarrow> (change_error, int) outcome" where
  "verify_updates_loop vals [] tvp = Return tvp"
| "verify_updates_loop vals (upd # upds) tvp =
     (let tvp' = i64 (tvp + update_delta vals upd)
      in if tvp' > MaxTotalVotingPower then Error ErrTotalVotingPowerOverflow
         else verify_updates_loop vals upds tvp')"

definition verifyUpdates ::
    "validator list \<Rightarrow> validator_set \<Rightarrow> int \<Rightarrow> (change_error, int \<times> validator_set) outcome" where
  "verifyUpdates updates vals removedPower =
     bind_o (TotalVotingPower vals) (\<lambda>(total, vals').
     bind_o (verify_updates_loop vals' (sort_key (update_delta vals') updates) (i64 (total - removedPower)))
       (\<lambda>tvpAfterRemovals. Return (i64 (tvpAfterRemovals + removedPower), vals')))"

definition numNewValidators :: "validator list \<Rightarrow> validator_set \<Rightarrow> nat" where
  "numNewValidators updates vals = length (filter (\<lambda>u. \<not> HasAddress vals (Address u)) updates)"

definition computeNewPriorities :: "validator list \<Rightarrow> validator_set \<Rightarrow> int \<Rightarrow> validator list" where
  "computeNewPriorities updates vals updatedTotalVotingPower =
     map (\<lambda>u. case snd (GetByAddress vals (Address u)) of
                None \<Rightarrow> u\<lparr>ProposerPriority :=
                  i64 (- i64 (updatedTotalVotingPower + updatedTotalVotingPower div 8))\<rparr>
              | Some val \<Rightarrow> u\<lparr>ProposerPriority := ProposerPriority val\<rparr>) updates"

fun merge_updates :: "validator list \<Rightarrow> validator list \<Rightarrow> validator list" where
  "merge_updates (e # es) (u # us) =
     (if bytes_Compare (Address e) (Address u) < 0 then e # merge_updates es (u # us)
      else u # (if Address e = Address u then merge_updates es us else merge_updates (e # es) us))"
| "merge_updates [] us = us"
| "merge_updates es [] = es"

definition applyUpdates :: "validator_set \<Rightarrow> validator list \<Rightarrow> validator_set" where
  "applyUpdates vals updates =
     vals\<lparr>Validators := merge_updates (sort_by_address (Validators vals)) updates\<rparr>"

fun verify_removals_loop :: "validator_set \<Rightarrow> validator list \<Rightarrow> int \<Rightarrow> (change_error, int) outcome" where
  "verify_removals_loop vals [] removed = Return removed"
| "verify_removals_loop vals (d # ds) removed =
     (case snd (GetByAddress vals (Address d)) of
        None \<Rightarrow> Error (MissingValidator (Address d))
      | Some val \<Rightarrow> verify_removals_loop vals ds (i64 (removed + VotingPower val)))"

definition verifyRemovals :: "validator list \<Rightarrow> validator_set \<Rightarrow> (change_error, int) outcome" where
  "verifyRemovals deletes vals =
     bind_o (verify_removals_loop vals deletes 0) (\<lambda>removed.
       if length deletes > length (Validators vals) then Panic else Return removed)"

fun removals_loop ::
    "validator list \<Rightarrow> validator list \<Rightarrow> nat \<Rightarrow> validator list \<Rightarrow> ('e, validator list) outcome" where
  \<comment> \<open>merged has room for cap entries; writing past them, or reading from an empty slice, panics\<close>
  "removals_loop existing [] cap merged =
     (if length merged + length existing > cap then Panic else Return (merged @ existing))"
| "removals_loop [] (d # ds) cap merged = Panic"
| "removals_loop (e # es) (d # ds) cap merged =
     (if Address e = Address d then removals_loop es ds cap merged
      else if length merged \<ge> cap then Panic
      else removals_loop es (d # ds) cap (merged @ [e]))"

definition applyRemovals :: "validator_set \<Rightarrow> validator list \<Rightarrow> ('e, validator_set) outcome" where
  "applyRemovals vals deletes =
     (if length (Validators vals) < length deletes then Panic
      else bind_o (removals_loop (Validators vals) deletes (length (Validators vals) - length deletes) [])
             (\<lambda>merged. Return (vals\<lparr>Validators := merged\<rparr>)))"

definition updateWithChangeSet ::
    "validator_set \<Rightarrow> validator list \<Rightarrow> bool \<Rightarrow> (change_error, validator_set) outcome" where
  "updateWithChangeSet vals changes allowDeletes =
     (if changes = [] then Return vals
      else bind_o (processChanges changes) (\<lambda>(updates, deletes).
        if \<not> allowDeletes \<and> deletes \<noteq> [] then Error DeletesNotAllowed
        else if numNewValidators updates vals = 0 \<and> length (Validators vals) = length deletes
        then Error EmptyResult
        else bind_o (verifyRemovals deletes vals) (\<lambda>removedVotingPower.
             bind_o (verifyUpdates updates vals removedVotingPower) (\<lambda>(tvp, vals0).
             let updates' = computeNewPriorities updates vals0 tvp;
                 vals1 = applyUpdates vals0 updates'
             in bind_o (applyRemovals vals1 deletes) (\<lambda>vals2.
                bind_o (updateTotalVotingPower vals2) (\<lambda>vals3.
                bind_o (TotalVotingPower vals3) (\<lambda>(total, vals4).
                bind_o (RescalePriorities vals4 (i64 (PriorityWindowSizeFactor * total))) (\<lambda>vals5.
                bind_o (shiftByAvgProposerPriority vals5) (\<lambda>vals6.
                Return (vals6\<lparr>Validators := sort_by_voting_power (Validators vals6)\<rparr>))))))))))"

definition UpdateWithChangeSet ::
    "validator_set \<Rightarrow> validator list \<Rightarrow> (change_error, validator_set) outcome" where
  "UpdateWithChangeSet vals changes = updateWithChangeSet vals changes True"

definition empty_vals :: validator_set where
  "empty_vals = \<lparr>Validators = [], Proposer = None, totalVotingPower = 0\<rparr>"

definition NewValidatorSet :: "validator list \<Rightarrow> ('e, validator_set) outcome" where
  "NewValidatorSet valz =
     (case updateWithChangeSet empty_vals valz False of
        Return vals \<Rightarrow> if valz \<noteq> [] then IncrementProposerPriority vals 1 else Return vals
      | _ \<Rightarrow> Panic)"

definition ValidatorSetFromExistingValidators ::
    "validator list \<Rightarrow> (valset_error, validator_set) outcome" where
  "ValidatorSetFromExistingValidators valz =
     (if valz = [] then Error EmptyValidatorSet
      else case validate_loop valz 0 of Some e \<Rightarrow> Error e
      | None \<Rightarrow>
          let vals = \<lparr>Validators = valz, Proposer = None, totalVotingPower = 0\<rparr>
          in bind_o (findPreviousProposer vals) (\<lambda>p.
             bind_o (updateTotalVotingPower (vals\<lparr>Proposer := p\<rparr>)) (\<lambda>vals'.
             Return (vals'\<lparr>Validators := sort_by_voting_power (Validators vals')\<rparr>))))"

section \<open>Looking up by address\<close>

definition find_addr :: "validator list \<Rightarrow> address \<Rightarrow> validator option" where
  "find_addr vs a = find (\<lambda>v. Address v = a) vs"

lemma GetByAddress_find: "snd (GetByAddress vals a) = find_addr (Validators vals) a"
proof -
  have "snd (get_by_address_loop vs i a) = find_addr vs a" for vs i
    by (induction vs arbitrary: i) (auto simp: find_addr_def)
  then show ?thesis by (simp add: GetByAddress_def)
qed

lemma find_addr_None: "find_addr vs a = None \<longleftrightarrow> a \<notin> Address ` set vs"
  by (auto simp: find_addr_def find_None_iff)

lemma find_addr_Some:
  assumes "distinct (map Address vs)"
  shows "find_addr vs a = Some v \<longleftrightarrow> v \<in> set vs \<and> Address v = a"
  using assms
proof (induction vs)
  case Nil
  then show ?case by (simp add: find_addr_def)
next
  case (Cons x vs)
  then show ?case by (auto simp: find_addr_def)
qed

lemma HasAddress_iff: "HasAddress vals a \<longleftrightarrow> a \<in> Address ` set (Validators vals)"
  by (auto simp: HasAddress_def list_ex_iff)

section \<open>Splitting the changes\<close>

lemma distinct_map_sort_key: "distinct (map f (sort_key k xs)) = distinct (map f xs)"
proof -
  have "distinct (map f ys) \<longleftrightarrow> card (f ` set ys) = length ys" for ys
    using distinct_card [of "map f ys"] card_distinct [of "map f ys"] by auto
  then show ?thesis by simp
qed

definition change_ok :: "validator \<Rightarrow> bool" where
  "change_ok c \<longleftrightarrow> 0 \<le> VotingPower c \<and> VotingPower c \<le> MaxTotalVotingPower"

lemma process_loop_eq:
  assumes "sorted_wrt (\<le>) (prev # map Address cs)"
  shows "if sorted_wrt (<) (prev # map Address cs) \<and> list_all change_ok cs
    then process_loop cs prev us ds =
      Return (us @ filter (\<lambda>c. VotingPower c \<noteq> 0) cs, ds @ filter (\<lambda>c. VotingPower c = 0) cs)
    else \<exists>e. process_loop cs prev us ds = Error e"
  using assms
proof (induction cs arbitrary: prev us ds)
  case Nil
  then show ?case by simp
next
  case (Cons c cs)
  have s: "sorted_wrt (\<le>) (Address c # map Address cs)" and le: "prev \<le> Address c" using Cons.prems by auto
  have lt: "sorted_wrt (<) (prev # map Address (c # cs)) \<longleftrightarrow>
      prev < Address c \<and> sorted_wrt (<) (Address c # map Address cs)"
    by (auto intro: order.strict_trans)
  note ih = Cons.IH [OF s]
  consider "Address c = prev" | "prev < Address c" "\<not> change_ok c" | "prev < Address c" "change_ok c"
    using le by fastforce
  then show ?case
  proof cases
    case 1
    then show ?thesis unfolding lt by simp
  next
    case 2
    then show ?thesis unfolding lt by (auto simp: change_ok_def)
  next
    case 3
    then have "process_loop (c # cs) prev us ds =
        (if VotingPower c = 0 then process_loop cs (Address c) us (ds @ [c])
         else process_loop cs (Address c) (us @ [c]) ds)"
      by (auto simp: change_ok_def)
    then show ?thesis unfolding lt using 3 ih [of us "ds @ [c]"] ih [of "us @ [c]" ds]
      by (auto split: if_splits)
  qed
qed

lemma sort_by_address_simps [simp]:
  "set (sort_by_address vs) = set vs" "length (sort_by_address vs) = length vs"
  "sorted (map Address (sort_by_address vs))"
  "distinct (map Address (sort_by_address vs)) = distinct (map Address vs)"
proof -
  show "distinct (map Address (sort_by_address vs)) = distinct (map Address vs)"
    unfolding sort_by_address_def by (rule distinct_map_sort_key)
qed (simp_all add: sort_by_address_def)

lemma strict_sorted_addresses:
  "sorted_wrt (<) (map Address vs) \<longleftrightarrow> sorted (map Address vs) \<and> distinct (map Address vs)"
  by (rule strict_sorted_iff)

lemma processChanges_Return:
  assumes "processChanges cs = Return (us, ds)"
  shows "sorted_wrt (<) (map Address us)" "sorted_wrt (<) (map Address ds)"
    "set us = {c \<in> set cs. VotingPower c \<noteq> 0}" "set ds = {c \<in> set cs. VotingPower c = 0}"
    "\<forall>c \<in> set cs. change_ok c" "distinct (map Address cs)"
proof -
  let ?s = "sort_by_address cs"
  have "sorted_wrt (\<le>) ([] # map Address ?s)" by (simp add: Nil_le_Cons) 
  from process_loop_eq [OF this, of "[]" "[]"] assms
  have ok: "sorted_wrt (<) (map Address ?s)" "list_all change_ok ?s"
    and eq: "us = filter (\<lambda>c. VotingPower c \<noteq> 0) ?s" "ds = filter (\<lambda>c. VotingPower c = 0) ?s"
    by (auto simp: processChanges_def split: if_splits)
  show "sorted_wrt (<) (map Address us)" "sorted_wrt (<) (map Address ds)"
    using ok(1) unfolding eq sorted_wrt_map by (simp_all add: sorted_wrt_filter)
  show "set us = {c \<in> set cs. VotingPower c \<noteq> 0}" "set ds = {c \<in> set cs. VotingPower c = 0}"
    by (auto simp: eq)
  show "\<forall>c \<in> set cs. change_ok c" using ok(2) by (simp add: list_all_iff)
  show "distinct (map Address cs)" using ok(1) strict_sorted_addresses [of ?s] by simp
qed

section \<open>Merging and removing\<close>

lemma merge_updates_spec:
  assumes "sorted_wrt (<) (map Address es)" "sorted_wrt (<) (map Address us)"
  shows "sorted_wrt (<) (map Address (merge_updates es us))
    \<and> set (merge_updates es us) = set us \<union> {e \<in> set es. Address e \<notin> Address ` set us}"
  using assms
proof (induction es us rule: merge_updates.induct)
  case (1 e es u us)
  consider "Address e < Address u" | "Address e = Address u" | "Address u < Address e" by fastforce
  then show ?case
  proof cases
    case 1
    have ih: "sorted_wrt (<) (map Address (merge_updates es (u # us)))"
      "set (merge_updates es (u # us)) = set (u # us) \<union> {x \<in> set es. Address x \<notin> Address ` set (u # us)}"
      using "1.IH"(1) "1.prems" 1 by (auto simp: bytes_Compare_def)
    have "Address e \<notin> Address ` set (u # us)" using 1 "1.prems"(2) by auto
    moreover have "\<forall>x \<in> set (merge_updates es (u # us)). Address e < Address x"
      using 1 "1.prems" unfolding ih(2) by (auto intro: order.strict_trans)
    ultimately show ?thesis using 1 ih by (auto simp: bytes_Compare_def)
  next
    case 2
    have ih: "sorted_wrt (<) (map Address (merge_updates es us))"
      "set (merge_updates es us) = set us \<union> {x \<in> set es. Address x \<notin> Address ` set us}"
      using "1.IH"(2) "1.prems" 2 by (auto simp: bytes_Compare_def)
    have "\<forall>x \<in> set (merge_updates es us). Address u < Address x"
      using 2 "1.prems" unfolding ih(2) by auto
    moreover have "\<forall>x \<in> set es. Address x \<noteq> Address u" using 2 "1.prems"(1) by auto
    ultimately show ?thesis using 2 ih by (auto simp: bytes_Compare_def)
  next
    case 3
    have nc: "\<not> bytes_Compare (Address e) (Address u) < 0" "Address e \<noteq> Address u"
      using 3 by (auto simp: bytes_Compare_def)
    have ih: "sorted_wrt (<) (map Address (merge_updates (e # es) us))"
      "set (merge_updates (e # es) us) = set us \<union> {x \<in> set (e # es). Address x \<notin> Address ` set us}"
      using "1.IH"(3) [OF nc] "1.prems" by auto
    have "\<forall>x \<in> set (merge_updates (e # es) us). Address u < Address x"
      using 3 "1.prems" unfolding ih(2) by (auto intro: order.strict_trans)
    moreover have "\<forall>x \<in> set (e # es). Address x \<noteq> Address u"
      using 3 "1.prems"(1) by (auto dest: order.strict_trans)
    ultimately show ?thesis using nc ih by auto
  qed
qed auto

lemma removals_loop_eq:
  assumes "sorted_wrt (<) (map Address es)" "sorted_wrt (<) (map Address ds)"
    "Address ` set ds \<subseteq> Address ` set es" "length es + length merged = cap + length ds"
  shows "removals_loop es ds cap merged =
    Return (merged @ filter (\<lambda>e. Address e \<notin> Address ` set ds) es)"
  using assms
proof (induction es ds cap merged rule: removals_loop.induct)
  case (1 existing cap merged)
  then show ?case by simp
next
  case (2 d ds cap merged)
  then show ?case by simp
next
  case (3 e es d ds cap merged)
  show ?case
  proof (cases "Address e = Address d")
    case True
    have ne: "\<forall>x \<in> set es. Address x \<noteq> Address d" using True "3.prems"(1) by auto
    have sub: "Address ` set ds \<subseteq> Address ` set es"
    proof
      fix a assume a: "a \<in> Address ` set ds"
      then have "a \<in> Address ` set (e # es)" using "3.prems"(3) by auto
      moreover have "a \<noteq> Address e" using a True "3.prems"(2) by auto
      ultimately show "a \<in> Address ` set es" by auto
    qed
    have "filter (\<lambda>x. Address x \<notin> Address ` set (d # ds)) es = filter (\<lambda>x. Address x \<notin> Address ` set ds) es"
      by (rule filter_cong) (use ne in auto)
    then show ?thesis using "3.IH"(1) [OF True] "3.prems" sub True by simp
  next
    case False
    have d: "Address d \<in> Address ` set es" using "3.prems"(3) False by auto
    then have lt: "Address e < Address d" using "3.prems"(1) by auto
    then have e: "Address e \<notin> Address ` set (d # ds)" using "3.prems"(2) by auto
    have "Address ` set (d # ds) \<subseteq> insert (Address e) (Address ` set es)"
      using "3.prems"(3) by (simp only: list.set image_insert)
    then have sub: "Address ` set (d # ds) \<subseteq> Address ` set es" using subset_insert [OF e] by simp
    have "card (Address ` set (d # ds)) \<le> card (Address ` set es)" using sub by (rule card_mono [rotated]) simp
    moreover have "card (Address ` set (d # ds)) = length (d # ds)"
      using "3.prems"(2) strict_sorted_addresses [of "d # ds"] distinct_card by (metis length_map set_map)
    moreover have "card (Address ` set es) \<le> length es" by (metis card_length length_map set_map)
    ultimately have cap: "\<not> cap \<le> length merged" using "3.prems"(4) by simp
    then show ?thesis using "3.IH"(2) [OF False cap] "3.prems" sub False e by simp
  qed
qed

section \<open>Accounting for voting power\<close>

definition pw_of :: "validator list \<Rightarrow> address \<Rightarrow> int" where
  "pw_of vs a = (case find_addr vs a of None \<Rightarrow> 0 | Some v \<Rightarrow> VotingPower v)"

lemma pw_of_in: "distinct (map Address vs) \<Longrightarrow> v \<in> set vs \<Longrightarrow> pw_of vs (Address v) = VotingPower v"
  using find_addr_Some [of vs "Address v" v] by (simp add: pw_of_def)

lemma pw_of_out: "a \<notin> Address ` set vs \<Longrightarrow> pw_of vs a = 0"
  using find_addr_None [of vs a] by (simp add: pw_of_def)

lemma sum_powers_set:
  assumes "distinct (map Address vs)"
  shows "sum_list (map f vs) = (\<Sum>v\<in>set vs. f v)"
  using assms by (simp add: sum_list_distinct_conv_sum_set distinct_map)

lemma sum_over_addresses:
  assumes "distinct (map Address vs)"
  shows "(\<Sum>v\<in>set vs. f (Address v)) = (\<Sum>a\<in>Address ` set vs. f a)"
  using assms by (simp add: sum.reindex distinct_map)

lemma sum_powers_pw:
  assumes "distinct (map Address vs)"
  shows "sum_list (map VotingPower vs) = (\<Sum>a\<in>Address ` set vs. pw_of vs a)"
  using assms by (simp add: sum_powers_set sum_over_addresses [symmetric] pw_of_in)

definition powers_ok :: "validator_set \<Rightarrow> bool" where
  \<comment> \<open>\<^const>\<open>vals_wf\<close> without priorities and for the empty set, too\<close>
  "powers_ok vals \<longleftrightarrow>
     distinct (map Address (Validators vals))
     \<and> (\<forall>v \<in> set (Validators vals). 0 < VotingPower v)
     \<and> sum_list (pws vals) \<le> MaxTotalVotingPower
     \<and> (totalVotingPower vals = 0 \<or> totalVotingPower vals = sum_list (pws vals))"

lemma powers_ok_pw:
  assumes "powers_ok vals"
  shows "0 \<le> pw_of (Validators vals) a" "pw_of (Validators vals) a \<le> MaxTotalVotingPower"
    "0 \<le> sum_list (pws vals)"
proof -
  have d: "distinct (map Address (Validators vals))" using assms by (simp add: powers_ok_def)
  have nn: "0 \<le> pw_of (Validators vals) a" for a
    using assms find_addr_Some [OF d] by (fastforce simp: pw_of_def powers_ok_def split: option.split)
  then show "0 \<le> pw_of (Validators vals) a" .
  show "0 \<le> sum_list (pws vals)" using assms by (intro sum_list_nonneg) (auto simp: powers_ok_def)
  show "pw_of (Validators vals) a \<le> MaxTotalVotingPower"
  proof (cases "a \<in> Address ` set (Validators vals)")
    case True
    have "pw_of (Validators vals) a \<le> (\<Sum>a\<in>Address ` set (Validators vals). pw_of (Validators vals) a)"
      by (rule member_le_sum) (use True nn in auto)
    then show ?thesis using assms sum_powers_pw [OF d] by (simp add: powers_ok_def)
  qed (simp add: pw_of_out)
qed

lemma TotalVotingPower_ok:
  assumes "powers_ok vals"
  shows "TotalVotingPower vals =
    (Return :: _ \<Rightarrow> ('e, _) outcome) (sum_list (pws vals), vals\<lparr>totalVotingPower := sum_list (pws vals)\<rparr>)"
proof (cases "totalVotingPower vals = 0")
  case True
  have "sum_power_loop (Validators vals) 0 = (Return (0 + sum_list (pws vals)) :: ('e, int) outcome)"
    using assms by (intro sum_power_loop_eq) (auto simp: powers_ok_def order.strict_implies_order)
  then show ?thesis using True by (simp add: TotalVotingPower_def updateTotalVotingPower_def)
next
  case False
  then have "totalVotingPower vals = sum_list (pws vals)" using assms by (simp add: powers_ok_def)
  then show ?thesis using False by (simp add: TotalVotingPower_def)
qed

lemma verify_removals_loop_Return:
  assumes "verify_removals_loop vals ds acc = Return r" "0 \<le> acc"
    "\<And>a. 0 \<le> pw_of (Validators vals) a"
    "acc + sum_list (map (\<lambda>d. pw_of (Validators vals) (Address d)) ds) \<le> MaxInt64"
  shows "Address ` set ds \<subseteq> Address ` set (Validators vals)
    \<and> r = acc + sum_list (map (\<lambda>d. pw_of (Validators vals) (Address d)) ds)"
  using assms
proof (induction ds arbitrary: acc)
  case Nil
  then show ?case by simp
next
  case (Cons d ds)
  obtain v where v: "find_addr (Validators vals) (Address d) = Some v"
    using Cons.prems(1) by (auto simp: GetByAddress_find split: option.splits)
  have mem: "Address d \<in> Address ` set (Validators vals)" using v find_addr_None by (metis option.distinct(1))
  have pw: "pw_of (Validators vals) (Address d) = VotingPower v" by (simp add: pw_of_def v)
  have rest: "0 \<le> sum_list (map (\<lambda>d. pw_of (Validators vals) (Address d)) ds)"
    using Cons.prems(3) by (intro sum_list_nonneg) auto
  have i: "i64 (acc + VotingPower v) = acc + VotingPower v"
    using Cons.prems pw Cons.prems(3) [of "Address d"] rest by (intro i64_id is_i64I) auto
  have "verify_removals_loop vals ds (acc + VotingPower v) = Return r"
    using Cons.prems(1) v i by (simp add: GetByAddress_find)
  from Cons.IH [OF this] show ?case
    using Cons.prems Cons.prems(3) [of "Address d"] pw mem by (auto simp: add.assoc)
qed

lemma verify_updates_loop_Return:
  assumes ok: "powers_ok vals" and r: "verify_updates_loop vals us acc = Return r"
    and u: "\<forall>u \<in> set us. change_ok u" and acc: "acc \<le> MaxTotalVotingPower"
    and low: "sum_list (map (\<lambda>u. pw_of (Validators vals) (Address u)) us) \<le> acc"
  shows "r = acc + sum_list (map (\<lambda>u. VotingPower u - pw_of (Validators vals) (Address u)) us)
    \<and> r \<le> MaxTotalVotingPower"
  using r u acc low
proof (induction us arbitrary: acc)
  case Nil
  then show ?case by simp
next
  case (Cons u us)
  let ?p = "pw_of (Validators vals) (Address u)"
  have p: "0 \<le> ?p" "?p \<le> MaxTotalVotingPower" using powers_ok_pw [OF ok] by auto
  have w: "0 \<le> VotingPower u" "VotingPower u \<le> MaxTotalVotingPower" using Cons.prems(2) by (auto simp: change_ok_def)
  have "i64 (VotingPower u - ?p) = VotingPower u - ?p" using p w by (intro i64_id is_i64I) auto
  then have d: "update_delta vals u = VotingPower u - ?p"
    by (auto simp: update_delta_def GetByAddress_find pw_of_def split: option.splits)
  have rest: "0 \<le> sum_list (map (\<lambda>u. pw_of (Validators vals) (Address u)) us)"
    using powers_ok_pw [OF ok] by (intro sum_list_nonneg) auto
  have i: "i64 (acc + update_delta vals u) = acc + (VotingPower u - ?p)"
    unfolding d using p w Cons.prems(3,4) rest by (intro i64_id is_i64I) auto
  have "verify_updates_loop vals us (acc + (VotingPower u - ?p)) = Return r"
    "acc + (VotingPower u - ?p) \<le> MaxTotalVotingPower"
    using Cons.prems(1) unfolding verify_updates_loop.simps i by (auto simp: Let_def split: if_splits)
  from Cons.IH [OF this(1) _ this(2)] show ?case using Cons.prems(2,4) w by simp
qed

section \<open>The updated set\<close>

definition changed_power :: "validator list \<Rightarrow> validator list \<Rightarrow> address \<Rightarrow> int" where
  \<comment> \<open>what the voting power at an address should be after the changes; 0 is absence\<close>
  "changed_power vs cs a = (case find_addr cs a of None \<Rightarrow> pw_of vs a | Some c \<Rightarrow> VotingPower c)"

definition updated_list :: "validator list \<Rightarrow> validator list \<Rightarrow> validator list \<Rightarrow> validator list" where
  "updated_list vs us ds =
     filter (\<lambda>e. Address e \<notin> Address ` set ds) (merge_updates (sort_by_address vs) us)"

lemma computeNewPriorities_keeps:
  "map Address (computeNewPriorities us vals tvp) = map Address us"
  "map VotingPower (computeNewPriorities us vals tvp) = map VotingPower us"
  by (auto simp: computeNewPriorities_def split: option.split)

definition change_split ::
    "validator list \<Rightarrow> validator list \<Rightarrow> validator list \<Rightarrow> validator list \<Rightarrow> validator list \<Rightarrow> bool" where
  \<comment> \<open>changes cs of the validators vs, split into updates us and deletes ds; us' are the updates
      with their priorities set\<close>
  "change_split vs cs us us' ds \<longleftrightarrow>
     distinct (map Address vs) \<and> distinct (map Address cs)
     \<and> sorted_wrt (<) (map Address us) \<and> set us = {c \<in> set cs. VotingPower c \<noteq> 0}
     \<and> sorted_wrt (<) (map Address ds) \<and> set ds = {c \<in> set cs. VotingPower c = 0}
     \<and> map Address us' = map Address us \<and> map VotingPower us' = map VotingPower us
     \<and> Address ` set ds \<subseteq> Address ` set vs"

lemma change_splitD:
  assumes "change_split vs cs us us' ds"
  shows "distinct (map Address vs)" "distinct (map Address cs)"
    "sorted_wrt (<) (map Address us)" "set us = {c \<in> set cs. VotingPower c \<noteq> 0}"
    "sorted_wrt (<) (map Address ds)" "set ds = {c \<in> set cs. VotingPower c = 0}"
    "map Address us' = map Address us" "map VotingPower us' = map VotingPower us"
    "Address ` set ds \<subseteq> Address ` set vs" "Address ` set us' = Address ` set us"
proof -
  note a = assms [unfolded change_split_def]
  show "distinct (map Address vs)" "distinct (map Address cs)"
    "sorted_wrt (<) (map Address us)" "set us = {c \<in> set cs. VotingPower c \<noteq> 0}"
    "sorted_wrt (<) (map Address ds)" "set ds = {c \<in> set cs. VotingPower c = 0}"
    "map Address us' = map Address us" "map VotingPower us' = map VotingPower us"
    "Address ` set ds \<subseteq> Address ` set vs" using a by blast+
  have "map Address us' = map Address us" using a by blast
  from arg_cong [OF this, of set] show "Address ` set us' = Address ` set us" by simp
qed

lemma us'_powers:
  assumes "change_split vs cs us us' ds"
  shows "(\<lambda>u. (Address u, VotingPower u)) ` set us' = (\<lambda>u. (Address u, VotingPower u)) ` set us"
proof -
  have "map (\<lambda>u. (Address u, VotingPower u)) us = zip (map Address us) (map VotingPower us)"
    "map (\<lambda>u. (Address u, VotingPower u)) us' = zip (map Address us') (map VotingPower us')"
    by (simp_all add: zip_map_map zip_same_conv_map)
  then have "map (\<lambda>u. (Address u, VotingPower u)) us' = map (\<lambda>u. (Address u, VotingPower u)) us"
    using change_splitD [OF assms] by simp
  from arg_cong [OF this, of set] show ?thesis by simp
qed

lemma merged_spec:
  assumes cs: "change_split vs cs us us' ds"
  shows "sorted_wrt (<) (map Address (merge_updates (sort_by_address vs) us'))"
  "set (merge_updates (sort_by_address vs) us') = set us' \<union> {e \<in> set vs. Address e \<notin> Address ` set us}"
  using merge_updates_spec [of "sort_by_address vs" us'] change_splitD(1,3,7,10) [OF cs]
    strict_sorted_addresses [of "sort_by_address vs"] by simp_all

lemma disjoint_changes:
  assumes cs: "change_split vs cs us us' ds"
  shows "Address ` set us \<inter> Address ` set ds = {}"
  using change_splitD(2) [OF cs] unfolding change_splitD(4,6) [OF cs] by (auto simp: distinct_map inj_on_def)

lemma updated_list_set:
  assumes cs: "change_split vs cs us us' ds"
  shows "set (updated_list vs us' ds) =
     set us' \<union> {e \<in> set vs. Address e \<notin> Address ` set us \<and> Address e \<notin> Address ` set ds}"
proof -
  have "Address u \<notin> Address ` set ds" if "u \<in> set us'" for u
    using that change_splitD(10) [OF cs] disjoint_changes [OF cs] by blast
  then show ?thesis unfolding updated_list_def using merged_spec(2) [OF cs] by auto
qed

lemma updated_list_sorted:
  assumes cs: "change_split vs cs us us' ds"
  shows "sorted_wrt (<) (map Address (updated_list vs us' ds))"
  using merged_spec(1) [OF cs] unfolding updated_list_def sorted_wrt_map by (rule sorted_wrt_filter)

lemma updated_list_distinct:
  assumes cs: "change_split vs cs us us' ds"
  shows "distinct (map Address (updated_list vs us' ds))"
  using updated_list_sorted [OF cs] strict_sorted_addresses by blast

lemma updated_power:
  assumes cs: "change_split vs cs us us' ds"
  shows "pw_of (updated_list vs us' ds) a = changed_power vs cs a"
proof (cases "a \<in> Address ` set cs")
  case True
  then obtain c where c: "c \<in> set cs" "Address c = a" by auto
  then have f: "find_addr cs a = Some c" using find_addr_Some [OF change_splitD(2) [OF cs]] by simp
  show ?thesis
  proof (cases "VotingPower c = 0")
    case True
    then have "a \<in> Address ` set ds" using c change_splitD(6) [OF cs] by auto
    then have "a \<notin> Address ` set (updated_list vs us' ds)" unfolding updated_list_def set_filter by blast
    then show ?thesis using True f by (simp add: pw_of_out changed_power_def)
  next
    case False
    then have "(Address c, VotingPower c) \<in> (\<lambda>u. (Address u, VotingPower u)) ` set us'"
      unfolding us'_powers [OF cs] using c change_splitD(4) [OF cs] by auto
    then obtain u where u: "u \<in> set us'" "Address u = a" "VotingPower u = VotingPower c" using c by auto
    then have "pw_of (updated_list vs us' ds) (Address u) = VotingPower u"
      using pw_of_in [OF updated_list_distinct [OF cs]] updated_list_set [OF cs] by blast
    then show ?thesis using u f by (simp add: changed_power_def)
  qed
next
  case False
  then have f: "find_addr cs a = None" by (simp add: find_addr_None)
  have nu: "a \<notin> Address ` set us" "a \<notin> Address ` set ds" using False change_splitD(4,6) [OF cs] by auto
  show ?thesis
  proof (cases "a \<in> Address ` set vs")
    case True
    then obtain e where e: "e \<in> set vs" "Address e = a" by auto
    then have "e \<in> set (updated_list vs us' ds)" using updated_list_set [OF cs] nu by auto
    then show ?thesis using pw_of_in [OF updated_list_distinct [OF cs], of e] pw_of_in [OF change_splitD(1) [OF cs] e(1)] e f
      by (simp add: changed_power_def)
  next
    case False
    then have "a \<notin> Address ` set (updated_list vs us' ds)" using updated_list_set [OF cs] change_splitD(10) [OF cs] nu by auto
    then show ?thesis using False f by (simp add: pw_of_out changed_power_def)
  qed
qed

lemma updated_total:
  assumes cs: "change_split vs cs us us' ds"
  shows "sum_list (map VotingPower (updated_list vs us' ds)) =
     sum_list (map VotingPower vs) - sum_list (map (\<lambda>d. pw_of vs (Address d)) ds)
       + sum_list (map (\<lambda>u. VotingPower u - pw_of vs (Address u)) us)"
proof -
  let ?A = "Address ` set vs" and ?U = "Address ` set us" and ?D = "Address ` set ds"
  have vs: "distinct (map Address vs)" by (rule change_splitD(1) [OF cs])
  have du: "distinct (map Address us)" "distinct (map Address ds)" "distinct (map Address us')"
    using change_splitD(3,5,7) [OF cs] strict_sorted_addresses [of us] strict_sorted_addresses [of ds] by simp_all
  have "sum_list (map VotingPower (updated_list vs us' ds)) = (\<Sum>v\<in>set (updated_list vs us' ds). VotingPower v)"
    by (rule sum_powers_set [OF updated_list_distinct [OF cs]])
  also have "\<dots> = (\<Sum>v\<in>set us'. VotingPower v) +
      (\<Sum>v\<in>{e \<in> set vs. Address e \<notin> ?U \<and> Address e \<notin> ?D}. VotingPower v)"
    unfolding updated_list_set [OF cs] by (rule sum.union_disjoint) (use change_splitD(10) [OF cs] in auto)
  also have "(\<Sum>v\<in>set us'. VotingPower v) = sum_list (map VotingPower us)"
    using sum_powers_set [OF du(3), of VotingPower] change_splitD(8) [OF cs] by simp
  also have "(\<Sum>v\<in>{e \<in> set vs. Address e \<notin> ?U \<and> Address e \<notin> ?D}. VotingPower v) =
      (\<Sum>a\<in>?A - ?U - ?D. pw_of vs a)"
    using vs by (intro sum.reindex_cong [of Address, symmetric]) (auto simp: distinct_map inj_on_def pw_of_in)
  also have "(\<Sum>a\<in>?A - ?U - ?D. pw_of vs a) =
      (\<Sum>a\<in>?A. pw_of vs a) - (\<Sum>a\<in>?U. pw_of vs a) - (\<Sum>a\<in>?D. pw_of vs a)"
  proof -
    have "(\<Sum>a\<in>?U. pw_of vs a) = (\<Sum>a\<in>?A \<inter> ?U. pw_of vs a)"
      by (rule sum.mono_neutral_right) (use pw_of_out in blast)+
    moreover have "(\<Sum>a\<in>?A - ?U. pw_of vs a) = (\<Sum>a\<in>?A. pw_of vs a) - (\<Sum>a\<in>?A \<inter> ?U. pw_of vs a)"
      using sum.Int_Diff [of ?A "pw_of vs" ?U] by simp
    moreover have "(\<Sum>a\<in>?A - ?U - ?D. pw_of vs a) = (\<Sum>a\<in>?A - ?U. pw_of vs a) - (\<Sum>a\<in>?D. pw_of vs a)"
      using change_splitD(9) [OF cs] disjoint_changes [OF cs] by (intro sum_diff) auto
    ultimately show ?thesis by simp
  qed
  also have "(\<Sum>a\<in>?A. pw_of vs a) = sum_list (map VotingPower vs)" using sum_powers_pw [OF vs] by simp
  also have "(\<Sum>a\<in>?U. pw_of vs a) = sum_list (map (\<lambda>u. pw_of vs (Address u)) us)"
    using sum_over_addresses [OF du(1), of "pw_of vs"] sum_powers_set [OF du(1), of "\<lambda>u. pw_of vs (Address u)"] by simp
  also have "(\<Sum>a\<in>?D. pw_of vs a) = sum_list (map (\<lambda>d. pw_of vs (Address d)) ds)"
    using sum_over_addresses [OF du(2), of "pw_of vs"] sum_powers_set [OF du(2), of "\<lambda>u. pw_of vs (Address u)"] by simp
  finally show ?thesis by (simp add: sum_list_subtractf)
qed

definition prios_small :: "validator_set \<Rightarrow> bool" where
  "prios_small vals \<longleftrightarrow>
     (\<forall>v \<in> set (Validators vals). \<bar>ProposerPriority v\<bar> \<le> 2 * MaxTotalVotingPower)"

lemma new_priority_bounds:
  assumes "prios_small vals" "0 \<le> tvp" "tvp \<le> 2 * MaxTotalVotingPower" "u' \<in> set (computeNewPriorities us vals tvp)"
  shows "- 2594073385365405694 \<le> ProposerPriority u' \<and> ProposerPriority u' \<le> 2 * MaxTotalVotingPower"
proof -
  obtain u where u: "u' = (case find_addr (Validators vals) (Address u) of
        None \<Rightarrow> u\<lparr>ProposerPriority := i64 (- i64 (tvp + tvp div 8))\<rparr>
      | Some val \<Rightarrow> u\<lparr>ProposerPriority := ProposerPriority val\<rparr>)"
    using assms(4) by (auto simp: computeNewPriorities_def GetByAddress_find)
  show ?thesis
  proof (cases "find_addr (Validators vals) (Address u)")
    case None
    have b: "0 \<le> tvp + tvp div 8" "tvp + tvp div 8 \<le> 2594073385365405694" using assms(2,3) by linarith+
    then have "i64 (tvp + tvp div 8) = tvp + tvp div 8" by (intro i64_id is_i64I) auto
    moreover have "i64 (- (tvp + tvp div 8)) = - (tvp + tvp div 8)" using b by (intro i64_id is_i64I) auto
    ultimately have "ProposerPriority u' = - (tvp + tvp div 8)" using u None by simp
    then show ?thesis using b by simp
  next
    case (Some val)
    then have "val \<in> set (Validators vals)" by (auto simp: find_addr_def find_Some_iff)
    then have "\<bar>ProposerPriority val\<bar> \<le> 2 * MaxTotalVotingPower" using assms(1) by (auto simp: prios_small_def)
    then show ?thesis using u Some by auto
  qed
qed

lemma sort_by_voting_power_simps [simp]:
  "set (sort_by_voting_power vs) = set vs"
  "distinct (map Address (sort_by_voting_power vs)) = distinct (map Address vs)"
  "sorted (map (\<lambda>v. (- VotingPower v, Address v)) (sort_by_voting_power vs))"
  "sort_by_voting_power vs = [] \<longleftrightarrow> vs = []"
proof -
  show "distinct (map Address (sort_by_voting_power vs)) = distinct (map Address vs)"
    unfolding sort_by_voting_power_def by (rule distinct_map_sort_key)
  show "sort_by_voting_power vs = [] \<longleftrightarrow> vs = []"
    using length_sort [of "\<lambda>v. (- VotingPower v, Address v)" vs]
    unfolding sort_by_voting_power_def length_0_conv [symmetric] by simp
qed (simp_all add: sort_by_voting_power_def)

lemma vals_wf_sort:
  assumes "vals_wf vals"
  shows "vals_wf (vals\<lparr>Validators := sort_by_voting_power (Validators vals)\<rparr>)"
proof -
  have d: "distinct (map Address (Validators vals))" using assms by (simp add: vals_wf_def)
  have "sum_list (map VotingPower (sort_by_voting_power (Validators vals))) = sum_list (pws vals)"
    using d by (simp add: sum_powers_set)
  then show ?thesis using assms by (simp add: vals_wf_def)
qed

lemma pw_of_cong:
  assumes "distinct (map Address vs)" "distinct (map Address vs')"
    "(\<lambda>v. (Address v, VotingPower v)) ` set vs = (\<lambda>v. (Address v, VotingPower v)) ` set vs'"
  shows "pw_of vs a = pw_of vs' a"
proof (cases "a \<in> Address ` set vs")
  case True
  then obtain v where v: "v \<in> set vs" "Address v = a" by auto
  have "(Address v, VotingPower v) \<in> (\<lambda>v. (Address v, VotingPower v)) ` set vs'"
    unfolding assms(3) [symmetric] using v(1) by (rule imageI)
  then obtain v' where v': "v' \<in> set vs'" "Address v' = a" "VotingPower v' = VotingPower v"
    using v(2) by auto
  show ?thesis using pw_of_in [OF assms(1) v(1)] pw_of_in [OF assms(2) v'(1)] v v' by simp
next
  case False
  have "Address ` set vs = fst ` (\<lambda>v. (Address v, VotingPower v)) ` set vs" by (simp add: image_image)
  also have "\<dots> = Address ` set vs'" unfolding assms(3) by (simp add: image_image)
  finally have "a \<notin> Address ` set vs'" using False by simp
  then show ?thesis using False by (simp add: pw_of_out)
qed

lemma same_validators_pairs:
  assumes "same_validators a b"
  shows "(\<lambda>v. (Address v, VotingPower v)) ` set (Validators b) = (\<lambda>v. (Address v, VotingPower v)) ` set (Validators a)"
proof -
  have "zip (map Address (Validators b)) (pws b) = zip (map Address (Validators a)) (pws a)"
    using same_validators_fields [OF assms] by simp
  then have "map (\<lambda>v. (Address v, VotingPower v)) (Validators b) = map (\<lambda>v. (Address v, VotingPower v)) (Validators a)"
    by (simp add: zip_map_map zip_same_conv_map o_def)
  from arg_cong [OF this, of set] show ?thesis by simp
qed

section \<open>updateWithChangeSet\<close>

lemma sum_list_sort_key:
  fixes f :: "validator \<Rightarrow> int"
  assumes "distinct (map Address us)"
  shows "sum_list (map f (sort_key k us)) = sum_list (map f us)"
proof -
  have "distinct us" "distinct (sort_key k us)" using assms by (simp_all add: distinct_map)
  then show ?thesis by (simp add: sum_list_distinct_conv_sum_set)
qed

lemma removed_power_bounds:
  assumes ok: "powers_ok vals" and sub: "Address ` set ds \<subseteq> Address ` set (Validators vals)"
    and us: "Address ` set us \<inter> Address ` set ds = {}"
    and d: "distinct (map Address us)" "distinct (map Address ds)"
  shows "sum_list (map (\<lambda>u. pw_of (Validators vals) (Address u)) us)
      + sum_list (map (\<lambda>d. pw_of (Validators vals) (Address d)) ds) \<le> sum_list (pws vals)"
proof -
  let ?p = "pw_of (Validators vals)" and ?A = "Address ` set (Validators vals)"
  have dv: "distinct (map Address (Validators vals))" using ok by (simp add: powers_ok_def)
  have "(\<Sum>a\<in>Address ` set us. ?p a) = (\<Sum>a\<in>?A \<inter> Address ` set us. ?p a)"
    by (rule sum.mono_neutral_right) (use pw_of_out in blast)+
  then have "(\<Sum>a\<in>Address ` set us. ?p a) + (\<Sum>a\<in>Address ` set ds. ?p a) =
      (\<Sum>a\<in>(?A \<inter> Address ` set us) \<union> Address ` set ds. ?p a)"
    using us by (subst sum.union_disjoint) auto
  also have "\<dots> \<le> (\<Sum>a\<in>?A. ?p a)" using sub powers_ok_pw [OF ok] by (intro sum_mono2) auto
  finally show ?thesis
    using sum_powers_pw [OF dv] sum_over_addresses [OF d(1), of ?p] sum_over_addresses [OF d(2), of ?p]
      sum_powers_set [OF d(1), of "\<lambda>u. ?p (Address u)"] sum_powers_set [OF d(2), of "\<lambda>u. ?p (Address u)"]
    by simp
qed

lemma change_set_split:
  assumes ok: "powers_ok vals" and pc: "processChanges cs = Return (us, ds)"
    and vr: "verifyRemovals ds vals = Return removed"
    and vu: "verifyUpdates us vals removed = Return (tvp, v0)"
  shows "change_split (Validators vals) cs us (computeNewPriorities us v0 tvp) ds"
    "v0 = vals\<lparr>totalVotingPower := sum_list (pws vals)\<rparr>"
    "sum_list (map VotingPower (updated_list (Validators vals) (computeNewPriorities us v0 tvp) ds))
       \<le> MaxTotalVotingPower"
    "0 \<le> tvp" "tvp \<le> 2 * MaxTotalVotingPower"
proof -
  note p = processChanges_Return [OF pc]
  let ?pw = "\<lambda>d. pw_of (Validators vals) (Address d)" and ?T = "sum_list (pws vals)"
  have dv: "distinct (map Address (Validators vals))" using ok by (simp add: powers_ok_def)
  have du: "distinct (map Address us)" "distinct (map Address ds)"
    using p(1,2) strict_sorted_addresses by blast+
  have dj: "Address ` set us \<inter> Address ` set ds = {}"
    using p(6) unfolding p(3,4) by (auto simp: distinct_map inj_on_def)
  have loop: "verify_removals_loop vals ds 0 = Return removed"
    using vr by (auto simp: verifyRemovals_def bind_o_Return_iff split: if_splits)
  have "sum_list (map ?pw ds) \<le> (\<Sum>a\<in>Address ` set ds. pw_of (Validators vals) a)"
    using sum_over_addresses [OF du(2), of "pw_of (Validators vals)"] sum_powers_set [OF du(2), of ?pw] by simp
  also have "\<dots> = (\<Sum>a\<in>Address ` set (Validators vals) \<inter> Address ` set ds. pw_of (Validators vals) a)"
    by (rule sum.mono_neutral_right) (use pw_of_out in blast)+
  also have "\<dots> \<le> (\<Sum>a\<in>Address ` set (Validators vals). pw_of (Validators vals) a)"
    using powers_ok_pw [OF ok] by (intro sum_mono2) auto
  finally have "sum_list (map ?pw ds) \<le> MaxTotalVotingPower"
    using sum_powers_pw [OF dv] ok by (simp add: powers_ok_def)
  then have rem: "Address ` set ds \<subseteq> Address ` set (Validators vals)" "removed = sum_list (map ?pw ds)"
    using verify_removals_loop_Return [OF loop] powers_ok_pw [OF ok] by simp_all
  note low = removed_power_bounds [OF ok rem(1) dj du]
  have nn: "0 \<le> sum_list (map ?pw ds)" "0 \<le> sum_list (map ?pw us)"
    using powers_ok_pw [OF ok] by (auto intro!: sum_list_nonneg)
  have T: "?T \<le> MaxTotalVotingPower" using ok by (simp add: powers_ok_def)
  let ?v0 = "vals\<lparr>totalVotingPower := ?T\<rparr>"
  have i: "i64 (?T - removed) = ?T - removed" using low nn T rem(2) by (intro i64_id is_i64I) auto
  obtain r where r: "verify_updates_loop ?v0 (sort_key (update_delta ?v0) us) (?T - removed) = Return r"
      "tvp = i64 (r + removed)" and v0: "v0 = ?v0"
    using vu by (auto simp: verifyUpdates_def TotalVotingPower_ok [OF ok] bind_o_Return_iff i)
  show "v0 = ?v0" by (rule v0)
  have ok0: "powers_ok ?v0" using ok by (simp add: powers_ok_def)
  have rr: "r = ?T - removed + sum_list (map (\<lambda>u. VotingPower u - ?pw u) us)" "r \<le> MaxTotalVotingPower"
    using verify_updates_loop_Return [OF ok0 r(1)] p(3,5) low nn rem(2) T
    by (simp_all add: sum_list_sort_key [OF du(1)])
  have "0 \<le> sum_list (map VotingPower us)"
    using p(3,5) by (intro sum_list_nonneg) (auto simp: change_ok_def)
  then have "0 \<le> r" unfolding rr(1) rem(2) sum_list_subtractf using low by linarith
  then have t: "tvp = r + removed" "0 \<le> removed" "removed \<le> MaxTotalVotingPower"
    using r(2) rr(2) nn low T rem(2) by (auto intro!: i64_id is_i64I)
  show "0 \<le> tvp" "tvp \<le> 2 * MaxTotalVotingPower" using t rr(2) \<open>0 \<le> r\<close> by auto
  show cs: "change_split (Validators vals) cs us (computeNewPriorities us v0 tvp) ds"
    unfolding change_split_def
    by (intro conjI) (fact dv p(6) p(1) p(3) p(2) p(4) computeNewPriorities_keeps rem(1))+
  show "sum_list (map VotingPower (updated_list (Validators vals) (computeNewPriorities us v0 tvp) ds))
       \<le> MaxTotalVotingPower"
    unfolding updated_total [OF cs] using rr rem(2) by simp
qed

lemma updated_list_nonempty:
  assumes cs: "change_split (Validators vals) cs us us' ds"
    and ne: "\<not> (numNewValidators us vals = 0 \<and> length (Validators vals) = length ds)"
  shows "updated_list (Validators vals) us' ds \<noteq> []"
proof (cases "us = []")
  case False
  then have "set us' \<noteq> {}" using change_splitD(10) [OF cs] by auto
  then show ?thesis using updated_list_set [OF cs] by auto
next
  case True
  have dd: "distinct (map Address ds)" using change_splitD(5) [OF cs] strict_sorted_addresses by blast
  have "length ds \<noteq> length (Validators vals)" using ne True by (auto simp: numNewValidators_def)
  then have "card (Address ` set ds) \<noteq> card (Address ` set (Validators vals))"
    using distinct_card [OF dd] distinct_card [OF change_splitD(1) [OF cs]] by simp
  then have "\<not> Address ` set (Validators vals) \<subseteq> Address ` set ds"
    using change_splitD(9) [OF cs] by (metis subset_antisym)
  then obtain v where "v \<in> set (Validators vals)" "Address v \<notin> Address ` set ds" by blast
  then have "v \<in> set (updated_list (Validators vals) us' ds)" using updated_list_set [OF cs] True by simp
  then show ?thesis by auto
qed

lemma changed_set_wf:
  assumes ok: "powers_ok vals" and small: "prios_small vals" and pc: "processChanges cs = Return (us, ds)"
    and ne: "\<not> (numNewValidators us vals = 0 \<and> length (Validators vals) = length ds)"
    and vr: "verifyRemovals ds vals = Return removed"
    and vu: "verifyUpdates us vals removed = Return (tvp, v0)"
    and us': "us' = computeNewPriorities us v0 tvp"
    and F: "F = updated_list (Validators vals) us' ds"
    and v3: "v3 = vals\<lparr>Validators := F, totalVotingPower := sum_list (map VotingPower F)\<rparr>"
  shows "vals_wf v3" "spread 4899916394579099644 v3"
proof -
  note c = change_set_split [OF ok pc vr vu, folded us']
  have mem: "v \<in> set us' \<or> v \<in> set (Validators vals)" if "v \<in> set F" for v
    using that updated_list_set [OF c(1)] by (auto simp: F)
  have pow: "0 < VotingPower v" if "v \<in> set F" for v
  proof (cases "v \<in> set us'")
    case True
    then have "VotingPower v \<in> set (map VotingPower us)"
      using change_splitD(8) [OF c(1)] by (metis image_eqI list.set_map)
    then obtain u where "u \<in> set us" "VotingPower u = VotingPower v" by auto
    then show ?thesis using processChanges_Return(3,5) [OF pc] by (auto simp: change_ok_def)
  next
    case False
    then show ?thesis using mem [OF that] ok by (auto simp: powers_ok_def)
  qed
  have small0: "prios_small v0" using small by (simp add: c(2) prios_small_def)
  have pri: "- 2594073385365405694 \<le> ProposerPriority v \<and> ProposerPriority v \<le> 2 * MaxTotalVotingPower"
    if v: "v \<in> set F" for v
  proof (cases "v \<in> set us'")
    case True
    then show ?thesis using new_priority_bounds [OF small0 c(4,5)] us' by simp
  next
    case False
    then have "\<bar>ProposerPriority v\<bar> \<le> 2 * MaxTotalVotingPower"
      using mem [OF v] small by (auto simp: prios_small_def)
    then show ?thesis by auto
  qed
  have i: "is_i64 (ProposerPriority v)" if "v \<in> set F" for v using pri [OF that] by (intro is_i64I) auto
  show "vals_wf v3"
    using updated_list_nonempty [OF c(1) ne] updated_list_distinct [OF c(1)] c(3) pow i
    by (simp add: vals_wf_def v3 F)
  show "spread 4899916394579099644 v3" unfolding spread_def
  proof (intro ballI)
    fix x y assume "x \<in> set (Validators v3)" "y \<in> set (Validators v3)"
    then have "x \<in> set F" "y \<in> set F" by (simp_all add: v3)
    from pri [OF this(1)] pri [OF this(2)]
    show "ProposerPriority x - ProposerPriority y \<le> 4899916394579099644" by linarith
  qed
qed

lemma applied_changes:
  assumes ok: "powers_ok vals" and pc: "processChanges cs = Return (us, ds)"
    and vr: "verifyRemovals ds vals = Return removed"
    and vu: "verifyUpdates us vals removed = Return (tvp, v0)"
    and us': "us' = computeNewPriorities us v0 tvp"
  shows "applyRemovals (applyUpdates v0 us') ds =
    (Return :: _ \<Rightarrow> ('e, _) outcome) (v0\<lparr>Validators := updated_list (Validators vals) us' ds\<rparr>)"
proof -
  note c = change_set_split [OF ok pc vr vu, folded us']
  let ?m = "merge_updates (sort_by_address (Validators vals)) us'"
  have sub: "Address ` set ds \<subseteq> Address ` set ?m"
  proof
    fix a assume a: "a \<in> Address ` set ds"
    then obtain v where v: "v \<in> set (Validators vals)" "Address v = a" using change_splitD(9) [OF c(1)] by auto
    moreover have "a \<notin> Address ` set us" using a disjoint_changes [OF c(1)] by blast
    ultimately show "a \<in> Address ` set ?m" unfolding merged_spec(2) [OF c(1)] by blast
  qed
  have dd: "distinct (map Address ds)" using change_splitD(5) [OF c(1)] strict_sorted_addresses by blast
  have "length ds = card (Address ` set ds)" using distinct_card [OF dd] by simp
  also have "\<dots> \<le> card (Address ` set ?m)" using sub by (rule card_mono [rotated]) simp
  also have "\<dots> \<le> length ?m" by (metis card_length length_map list.set_map)
  finally have len: "length ds \<le> length ?m" .
  have val: "Validators (applyUpdates v0 us') = ?m" by (simp add: applyUpdates_def c(2))
  have "removals_loop ?m ds (length ?m - length ds) [] =
      (Return :: _ \<Rightarrow> ('e, _) outcome) ([] @ filter (\<lambda>e. Address e \<notin> Address ` set ds) ?m)"
    by (rule removals_loop_eq [OF merged_spec(1) [OF c(1)] change_splitD(5) [OF c(1)] sub]) (use len in simp)
  then show ?thesis using len unfolding applyRemovals_def val
    by (simp add: updated_list_def applyUpdates_def)
qed

lemma verify_removals_loop_no_panic: "verify_removals_loop vals ds acc \<noteq> Panic"
  by (induction ds arbitrary: acc) (auto split: option.splits)

lemma verify_removals_loop_found:
  "verify_removals_loop vals ds acc = Return r \<Longrightarrow> Address ` set ds \<subseteq> Address ` set (Validators vals)"
proof (induction ds arbitrary: acc)
  case (Cons d ds)
  then show ?case using find_addr_None [of "Validators vals" "Address d"]
    by (auto simp: GetByAddress_find split: option.splits)
qed simp

lemma verifyRemovals_no_panic:
  assumes ok: "powers_ok vals" and pc: "processChanges cs = Return (us, ds)"
  shows "verifyRemovals ds vals \<noteq> Panic"
proof (cases "verify_removals_loop vals ds 0")
  case (Return r)
  have dd: "distinct (map Address ds)" using processChanges_Return(2) [OF pc] strict_sorted_addresses by blast
  have "length ds = card (Address ` set ds)" using distinct_card [OF dd] by simp
  also have "\<dots> \<le> card (Address ` set (Validators vals))"
    using verify_removals_loop_found [OF Return] by (rule card_mono [rotated]) simp
  also have "\<dots> \<le> length (Validators vals)" using card_length [of "map Address (Validators vals)"] by simp
  finally show ?thesis using Return by (simp add: verifyRemovals_def)
next
  case Panic
  then show ?thesis using verify_removals_loop_no_panic by blast
qed (simp add: verifyRemovals_def)

lemma verify_updates_loop_no_panic: "verify_updates_loop vals us acc \<noteq> Panic"
  by (induction us arbitrary: acc) (auto simp: Let_def)

lemma verifyUpdates_no_panic:
  assumes "powers_ok vals"
  shows "verifyUpdates us vals removed \<noteq> Panic"
proof -
  have "bind_o (verify_updates_loop v l t) (\<lambda>x. Return (f x, v)) \<noteq> Panic" for v l t and f :: "int \<Rightarrow> int"
    using verify_updates_loop_no_panic [of v l t] by (cases "verify_updates_loop v l t") auto
  then show ?thesis by (simp add: verifyUpdates_def TotalVotingPower_ok [OF assms])
qed

lemma prios_small_sort: "prios_small (vals\<lparr>Validators := sort_by_voting_power (Validators vals)\<rparr>) = prios_small vals"
  by (simp add: prios_small_def)

definition changes_applied :: "validator list \<Rightarrow> validator list \<Rightarrow> validator_set \<Rightarrow> bool" where
  \<comment> \<open>the set has exactly the voting powers the changes ask for, in the order of the code\<close>
  "changes_applied vs cs vals' \<longleftrightarrow>
     vals_wf vals' \<and> prios_small vals'
     \<and> (\<forall>a. pw_of (Validators vals') a = changed_power vs cs a)
     \<and> sorted (map (\<lambda>v. (- VotingPower v, Address v)) (Validators vals'))"

lemma finish_change_set:
  assumes wf: "vals_wf v3" and sp: "spread 4899916394579099644 v3"
    and tot: "totalVotingPower v3 = sum_list (pws v3)"
    and pw: "\<And>a. pw_of (Validators v3) a = changed_power vs cs a"
  obtains v5 v6 where
    "TotalVotingPower v3 = (Return (sum_list (pws v3), v3) :: ('e, _) outcome)"
    "RescalePriorities v3 (i64 (PriorityWindowSizeFactor * sum_list (pws v3))) = (Return v5 :: ('e, _) outcome)"
    "shiftByAvgProposerPriority v5 = (Return v6 :: ('e, _) outcome)"
    "changes_applied vs cs (v6\<lparr>Validators := sort_by_voting_power (Validators v6)\<rparr>)"
proof -
  note T = vals_wf_power [OF wf]
  have D: "4899916394579099644 + 2 * sum_list (pws v3) - 1 \<le> MaxInt64" using T(2) by linarith
  obtain v5 v6 where r: "RescalePriorities v3 (i64 (PriorityWindowSizeFactor * sum_list (pws v3))) = (Return v5 :: ('e, _) outcome)"
      "shiftByAvgProposerPriority v5 = (Return v6 :: ('e, _) outcome)" "same_validators v3 v6" "vals_wf v6"
      "\<forall>v \<in> set (Validators v6). \<bar>ProposerPriority v\<bar> \<le> 2 * sum_list (pws v3)"
    by (rule rescale_and_centre [OF wf sp D, where 'e = 'e]) auto
  let ?v = "v6\<lparr>Validators := sort_by_voting_power (Validators v6)\<rparr>"
  have d: "distinct (map Address (Validators v3))" "distinct (map Address (Validators v6))"
    using wf r(4) by (auto simp: vals_wf_def)
  have p6: "pw_of (Validators ?v) a = changed_power vs cs a" for a
    using pw_of_cong [OF _ d(1), of "Validators ?v" a] same_validators_pairs [OF r(3)] d(2) pw by simp
  have "prios_small v6" using r(5) T(2) by (fastforce simp: prios_small_def)
  then have "changes_applied vs cs ?v"
    using vals_wf_sort [OF r(4)] p6 by (simp add: changes_applied_def prios_small_sort)
  moreover have "TotalVotingPower v3 = (Return (sum_list (pws v3), v3) :: ('e, _) outcome)"
    using TotalVotingPower_wf [OF wf, where 'e = 'e] tot by simp
  ultimately show thesis using that r(1,2) by blast
qed

lemma updateWithChangeSet_spec:
  assumes ok: "powers_ok vals" and small: "prios_small vals" and cs: "cs \<noteq> []"
  shows "case updateWithChangeSet vals cs allow of
      Return vals' \<Rightarrow> changes_applied (Validators vals) cs vals' | Error e \<Rightarrow> True | Panic \<Rightarrow> False"
proof (cases "processChanges cs")
  case (Error e)
  then show ?thesis using cs by (simp add: updateWithChangeSet_def)
next
  case Panic
  have "sorted_wrt (\<le>) ([] # map Address (sort_by_address cs))" by (simp add: Nil_le_Cons)
  from process_loop_eq [OF this, of "[]" "[]"] Panic show ?thesis
    by (auto simp: processChanges_def split: if_splits)
next
  case (Return ud)
  then obtain us ds where pc: "processChanges cs = Return (us, ds)" by (cases ud) auto
  show ?thesis
  proof (cases "(\<not> allow \<and> ds \<noteq> []) \<or> (numNewValidators us vals = 0 \<and> length (Validators vals) = length ds)")
    case True
    then show ?thesis using cs pc by (auto simp: updateWithChangeSet_def)
  next
    case False
    note F = this
    show ?thesis
    proof (cases "verifyRemovals ds vals")
      case (Error e)
      then show ?thesis using cs pc F by (auto simp: updateWithChangeSet_def)
    next
      case Panic
      then show ?thesis using verifyRemovals_no_panic [OF ok pc] by simp
    next
      case (Return removed)
      note vr = this
      show ?thesis
      proof (cases "verifyUpdates us vals removed")
        case (Error e)
        then show ?thesis using cs pc F vr by (auto simp: updateWithChangeSet_def)
      next
        case Panic
        then show ?thesis using verifyUpdates_no_panic [OF ok] by simp
      next
        case (Return tv)
        then obtain tvp v0 where vu: "verifyUpdates us vals removed = Return (tvp, v0)" by (cases tv) auto
        define us' where "us' = computeNewPriorities us v0 tvp"
        define L where "L = updated_list (Validators vals) us' ds"
        define v3 where "v3 = vals\<lparr>Validators := L, totalVotingPower := sum_list (map VotingPower L)\<rparr>"
        have ne: "\<not> (numNewValidators us vals = 0 \<and> length (Validators vals) = length ds)" using F by simp
        note c = change_set_split [OF ok pc vr vu, folded us'_def L_def]
        note w = changed_set_wf [OF ok small pc ne vr vu us'_def L_def v3_def]
        have pw: "pw_of (Validators v3) a = changed_power (Validators vals) cs a" for a
          using updated_power [OF c(1)] by (simp add: v3_def L_def)
        have tot: "totalVotingPower v3 = sum_list (pws v3)" by (simp add: v3_def)
        have "sum_power_loop L 0 = (Return (0 + sum_list (map VotingPower L)) :: (change_error, _) outcome)"
          using w(1) by (intro sum_power_loop_eq) (auto simp: vals_wf_def v3_def order.strict_implies_order)
        then have upd: "updateTotalVotingPower (v0\<lparr>Validators := L\<rparr>) = (Return v3 :: (change_error, _) outcome)"
          by (simp add: updateTotalVotingPower_def v3_def c(2))
        obtain v5 v6 where fin:
            "TotalVotingPower v3 = (Return (sum_list (pws v3), v3) :: (change_error, _) outcome)"
            "RescalePriorities v3 (i64 (PriorityWindowSizeFactor * sum_list (pws v3))) = (Return v5 :: (change_error, _) outcome)"
            "shiftByAvgProposerPriority v5 = (Return v6 :: (change_error, _) outcome)"
            "changes_applied (Validators vals) cs (v6\<lparr>Validators := sort_by_voting_power (Validators v6)\<rparr>)"
          by (rule finish_change_set [OF w tot pw, where 'e = change_error])
        have "updateWithChangeSet vals cs allow = Return (v6\<lparr>Validators := sort_by_voting_power (Validators v6)\<rparr>)"
          using cs pc F vr vu applied_changes [OF ok pc vr vu us'_def, where 'e = change_error] upd fin(1-3)
          unfolding updateWithChangeSet_def us'_def [symmetric] L_def [symmetric] by (simp add: Let_def us'_def [symmetric])
        then show ?thesis using fin(4) by simp
      qed
    qed
  qed
qed

section \<open>Valid changes are accepted\<close>

definition changes_valid :: "validator_set \<Rightarrow> validator list \<Rightarrow> bool \<Rightarrow> bool" where
  "changes_valid vals cs allow \<longleftrightarrow>
     distinct (map Address cs) \<and> [] \<notin> Address ` set cs \<and> list_all change_ok cs
     \<and> (allow \<or> list_all (\<lambda>c. VotingPower c \<noteq> 0) cs)
     \<and> list_all (\<lambda>c. VotingPower c = 0 \<longrightarrow> HasAddress vals (Address c)) cs
     \<and> list_ex (\<lambda>v. changed_power (Validators vals) cs (Address v) \<noteq> 0) (Validators vals @ cs)
     \<and> (\<Sum>a\<in>Address ` set (Validators vals @ cs). changed_power (Validators vals) cs a) \<le> MaxTotalVotingPower"

lemma processChanges_complete:
  assumes "distinct (map Address cs)" "[] \<notin> Address ` set cs" "list_all change_ok cs"
  obtains us ds where "processChanges cs = Return (us, ds)"
proof -
  let ?s = "sort_by_address cs"
  have "[] < Address c" if "c \<in> set cs" for c
    using assms(2) that by (cases "Address c") force+
  then have "sorted_wrt (<) ([] # map Address ?s)"
    using assms strict_sorted_addresses [of ?s] by simp
  moreover have "list_all change_ok ?s" using assms(3) by (simp add: list_all_iff)
  moreover have "sorted_wrt (\<le>) ([] # map Address ?s)" by (simp add: Nil_le_Cons)
  ultimately show thesis using process_loop_eq [of "[]" ?s "[]" "[]"] that by (simp add: processChanges_def)
qed

lemma verify_removals_loop_complete:
  "Address ` set ds \<subseteq> Address ` set (Validators vals) \<Longrightarrow> \<exists>r. verify_removals_loop vals ds acc = Return r"
proof (induction ds arbitrary: acc)
  case (Cons d ds)
  then have "find_addr (Validators vals) (Address d) \<noteq> None" by (simp add: find_addr_None)
  then show ?case using Cons by (auto simp: GetByAddress_find)
qed simp

lemma verify_updates_loop_complete:
  assumes ok: "powers_ok vals" and sorted: "sorted (map (update_delta vals) us)"
    and u: "\<forall>u \<in> set us. change_ok u" and acc: "acc \<le> MaxTotalVotingPower"
    and low: "sum_list (map (\<lambda>u. pw_of (Validators vals) (Address u)) us) \<le> acc"
    and fin: "acc + sum_list (map (\<lambda>u. VotingPower u - pw_of (Validators vals) (Address u)) us) \<le> MaxTotalVotingPower"
  shows "\<exists>r. verify_updates_loop vals us acc = Return r"
  using sorted u acc low fin
proof (induction us arbitrary: acc)
  case Nil
  then show ?case by simp
next
  case (Cons u us)
  let ?p = "\<lambda>u. pw_of (Validators vals) (Address u)"
  have d: "update_delta vals x = VotingPower x - ?p x" if "x \<in> set (u # us)" for x
  proof -
    have "i64 (VotingPower x - ?p x) = VotingPower x - ?p x"
      using that Cons.prems(2) powers_ok_pw(1,2) [OF ok, of "Address x"]
      by (intro i64_id is_i64I) (auto simp: change_ok_def)
    then show ?thesis by (auto simp: update_delta_def GetByAddress_find pw_of_def split: option.splits)
  qed
  have rest: "0 \<le> sum_list (map ?p us)" using powers_ok_pw [OF ok] by (intro sum_list_nonneg) auto
  have p: "0 \<le> ?p u" "?p u \<le> MaxTotalVotingPower" "0 \<le> VotingPower u" "VotingPower u \<le> MaxTotalVotingPower"
    using powers_ok_pw [OF ok] Cons.prems(2) by (auto simp: change_ok_def)
  have i: "i64 (acc + update_delta vals u) = acc + (VotingPower u - ?p u)"
    using d [of u] p Cons.prems(3,4) rest by (intro i64_id [THEN trans] is_i64I) auto
  have le: "acc + (VotingPower u - ?p u) \<le> MaxTotalVotingPower"
  proof (cases "VotingPower u - ?p u \<le> 0")
    case False
    have "0 \<le> VotingPower x - ?p x" if "x \<in> set us" for x
      using Cons.prems(1) that d [of u] d [of x] False by auto
    then have "0 \<le> sum_list (map (\<lambda>u. VotingPower u - ?p u) us)" by (intro sum_list_nonneg) auto
    then show ?thesis using Cons.prems(5) by simp
  qed (use Cons.prems(3) in simp)
  have "\<exists>r. verify_updates_loop vals us (acc + (VotingPower u - ?p u)) = Return r"
    using Cons.prems p le by (intro Cons.IH) auto
  then show ?case unfolding verify_updates_loop.simps i Let_def using le by auto
qed

lemma changed_total:
  assumes cs: "change_split vs cs us us' ds"
  shows "sum_list (map VotingPower (updated_list vs us' ds)) = (\<Sum>a\<in>Address ` set (vs @ cs). changed_power vs cs a)"
proof -
  let ?L = "updated_list vs us' ds"
  have "Address ` set ?L \<subseteq> Address ` set (vs @ cs)"
    using updated_list_set [OF cs] change_splitD(4,10) [OF cs] by auto
  then have "(\<Sum>a\<in>Address ` set ?L. changed_power vs cs a) = (\<Sum>a\<in>Address ` set (vs @ cs). changed_power vs cs a)"
    by (rule sum.mono_neutral_left [rotated])
       (use pw_of_out updated_power [OF cs, symmetric] in \<open>simp_all\<close>)
  then show ?thesis using sum_powers_pw [OF updated_list_distinct [OF cs]] updated_power [OF cs] by simp
qed

lemma verifyUpdates_complete:
  assumes ok: "powers_ok vals" and pc: "processChanges cs = Return (us, ds)"
    and sub: "Address ` set ds \<subseteq> Address ` set (Validators vals)"
    and rem: "verify_removals_loop vals ds 0 = Return removed"
    and tot: "(\<Sum>a\<in>Address ` set (Validators vals @ cs). changed_power (Validators vals) cs a) \<le> MaxTotalVotingPower"
  shows "\<exists>x. verifyUpdates us vals removed = Return x"
proof -
  note p = processChanges_Return [OF pc]
  let ?pw = "\<lambda>d. pw_of (Validators vals) (Address d)" and ?T = "sum_list (pws vals)"
  let ?v0 = "vals\<lparr>totalVotingPower := ?T\<rparr>"
  have cs: "change_split (Validators vals) cs us us ds"
    using ok p sub by (simp add: change_split_def powers_ok_def)
  have du: "distinct (map Address us)" "distinct (map Address ds)" using p(1,2) strict_sorted_addresses by blast+
  note low = removed_power_bounds [OF ok sub disjoint_changes [OF cs] du]
  have nn: "0 \<le> sum_list (map ?pw ds)" "0 \<le> sum_list (map ?pw us)"
    using powers_ok_pw [OF ok] by (auto intro!: sum_list_nonneg)
  have T: "?T \<le> MaxTotalVotingPower" using ok by (simp add: powers_ok_def)
  have r: "removed = sum_list (map ?pw ds)"
    using verify_removals_loop_Return [OF rem] powers_ok_pw [OF ok] low nn T by simp
  have i: "i64 (?T - removed) = ?T - removed" using low nn T r by (intro i64_id is_i64I) auto
  have ok0: "powers_ok ?v0" using ok by (simp add: powers_ok_def)
  have "\<exists>t. verify_updates_loop ?v0 (sort_key (update_delta ?v0) us) (?T - removed) = Return t"
    using p(3,5) low nn T r tot changed_total [OF cs] updated_total [OF cs]
    by (intro verify_updates_loop_complete [OF ok0]) (simp_all add: sum_list_sort_key [OF du(1)])
  then show ?thesis by (auto simp: verifyUpdates_def TotalVotingPower_ok [OF ok] i)
qed

lemma no_empty_result:
  assumes pc: "processChanges cs = Return (us, ds)" and v: "changes_valid vals cs allow"
    and d: "distinct (map Address (Validators vals))"
  shows "\<not> (numNewValidators us vals = 0 \<and> length (Validators vals) = length ds)"
proof
  note p = processChanges_Return [OF pc]
  assume a: "numNewValidators us vals = 0 \<and> length (Validators vals) = length ds"
  have sub: "Address ` set ds \<subseteq> Address ` set (Validators vals)"
    using v p(4) by (auto simp: changes_valid_def list_all_iff HasAddress_iff)
  have dd: "distinct (map Address ds)" using p(2) strict_sorted_addresses by blast
  have eq: "Address ` set ds = Address ` set (Validators vals)"
    using a distinct_card [OF dd] distinct_card [OF d] by (intro card_subset_eq sub) auto
  have cs: "change_split (Validators vals) cs us us ds" using d p sub by (simp add: change_split_def)
  have "Address ` set us \<subseteq> Address ` set (Validators vals)"
    using a by (auto simp: numNewValidators_def filter_empty_conv HasAddress_iff)
  then have "us = []" using disjoint_changes [OF cs] eq by (cases us) auto
  then have "set (updated_list (Validators vals) us ds) = {}" using updated_list_set [OF cs] eq by auto
  then have "changed_power (Validators vals) cs x = 0" for x
    using updated_power [OF cs, of x] by (simp add: pw_of_def find_addr_def)
  then show False using v by (auto simp: changes_valid_def list_ex_iff)
qed

lemma updateWithChangeSet_complete:
  assumes ok: "powers_ok vals" and small: "prios_small vals" and ne: "cs \<noteq> []"
    and v: "changes_valid vals cs allow"
  obtains vals' where "updateWithChangeSet vals cs allow = Return vals'"
    "changes_applied (Validators vals) cs vals'"
proof -
  obtain us ds where pc: "processChanges cs = Return (us, ds)"
    using processChanges_complete [of cs] v by (auto simp: changes_valid_def)
  note p = processChanges_Return [OF pc]
  have sub: "Address ` set ds \<subseteq> Address ` set (Validators vals)"
    using v p(4) by (auto simp: changes_valid_def list_all_iff HasAddress_iff)
  have "allow \<or> set ds = {}" unfolding p(4) using v by (auto simp: changes_valid_def list_all_iff)
  then have al: "allow \<or> ds = []" by simp
  have d: "distinct (map Address (Validators vals))" using ok by (simp add: powers_ok_def)
  obtain removed where rem: "verify_removals_loop vals ds 0 = Return removed"
    using verify_removals_loop_complete [OF sub] by blast
  have vr: "verifyRemovals ds vals = Return removed"
    using verifyRemovals_no_panic [OF ok pc] rem by (auto simp: verifyRemovals_def)
  obtain tvp v0 where vu: "verifyUpdates us vals removed = Return (tvp, v0)"
    using verifyUpdates_complete [OF ok pc sub rem] v by (force simp: changes_valid_def)
  have "updateWithChangeSet vals cs allow \<noteq> Error e" for e
  proof
    assume e: "updateWithChangeSet vals cs allow = Error e"
    let ?us = "computeNewPriorities us v0 tvp"
    let ?L = "updated_list (Validators vals) ?us ds"
    note c = change_set_split [OF ok pc vr vu]
    note w = changed_set_wf [OF ok small pc no_empty_result [OF pc v d] vr vu refl refl refl]
    have "sum_power_loop ?L 0 = (Return (0 + sum_list (map VotingPower ?L)) :: (change_error, _) outcome)"
      using w(1) by (intro sum_power_loop_eq) (auto simp: vals_wf_def order.strict_implies_order)
    then have upd: "updateTotalVotingPower (v0\<lparr>Validators := ?L\<rparr>) =
        (Return (vals\<lparr>Validators := ?L, totalVotingPower := sum_list (map VotingPower ?L)\<rparr>) :: (change_error, _) outcome)"
      by (simp add: updateTotalVotingPower_def c(2))
    show False
      by (rule finish_change_set [OF w, where 'e = change_error])
         (use e ne pc al no_empty_result [OF pc v d] vr vu upd updated_power [OF c(1)]
            applied_changes [OF ok pc vr vu refl, where 'e = change_error]
          in \<open>auto simp: updateWithChangeSet_def Let_def\<close>)
  qed
  then show thesis
    using updateWithChangeSet_spec [OF ok small ne, of allow] that
    by (cases "updateWithChangeSet vals cs allow") auto
qed

lemma applied_size:
  assumes "changes_applied [] cs vals'"
  shows "length (Validators vals') \<le> length cs"
proof -
  have wf: "vals_wf vals'" and pw: "\<And>a. pw_of (Validators vals') a = changed_power [] cs a"
    using assms by (auto simp: changes_applied_def)
  have d: "distinct (map Address (Validators vals'))" using wf by (simp add: vals_wf_def)
  have "Address ` set (Validators vals') \<subseteq> Address ` set cs"
  proof
    fix a assume "a \<in> Address ` set (Validators vals')"
    then obtain v where v: "v \<in> set (Validators vals')" "Address v = a" by auto
    then have "0 < pw_of (Validators vals') a" using wf pw_of_in [OF d v(1)] by (auto simp: vals_wf_def)
    then have "changed_power [] cs a \<noteq> 0" using pw by simp
    then show "a \<in> Address ` set cs"
      using find_addr_None [of cs a] by (auto simp: changed_power_def pw_of_def find_addr_def [of "[]"])
  qed
  then have "card (Address ` set (Validators vals')) \<le> card (Address ` set cs)" by (rule card_mono [rotated]) simp
  moreover have "card (Address ` set cs) \<le> length cs" using card_length [of "map Address cs"] by simp
  ultimately show ?thesis using distinct_card [OF d] by simp
qed

lemma empty_vals_ok: "powers_ok empty_vals" "prios_small empty_vals"
  by (simp_all add: powers_ok_def prios_small_def empty_vals_def)

section \<open>Properties\<close>

text \<open>
  C39: changing a validator set never panics: it either reports an error or returns a well-formed
  set, ordered by voting power and address, in which every address has exactly the power the changes
  give it, or its old power when the changes do not name it; an address with power 0 is not a member.
\<close>

theorem updateWithChangeSet_sound:
  assumes "powers_ok vals" "prios_small vals" "cs \<noteq> []"
  shows "case updateWithChangeSet vals cs allow of
      Return vals' \<Rightarrow> vals_wf vals' \<and> prios_small vals'
        \<and> (\<forall>a. pw_of (Validators vals') a = changed_power (Validators vals) cs a)
        \<and> sorted (map (\<lambda>v. (- VotingPower v, Address v)) (Validators vals'))
    | Error e \<Rightarrow> True | Panic \<Rightarrow> False"
  using updateWithChangeSet_spec [OF assms, of allow, unfolded changes_applied_def] .

definition example_changes :: "validator list" where
  "example_changes =
     [\<lparr>Address = [3], PubKey = None, VotingPower = 7, ProposerPriority = 0\<rparr>,
      \<lparr>Address = [1], PubKey = None, VotingPower = 0, ProposerPriority = 0\<rparr>]"

lemma example_vals_update:
  "powers_ok example_vals" "prios_small example_vals"
  by (simp_all add: example_vals_def powers_ok_def prios_small_def)

theorem updateWithChangeSet_sound_witness:
  "case updateWithChangeSet example_vals example_changes True of
      Return vals' \<Rightarrow> pw_of (Validators vals') [3] = 7 \<and> pw_of (Validators vals') [1] = 0
        \<and> pw_of (Validators vals') [2] = 1
    | Error e \<Rightarrow> True | Panic \<Rightarrow> False"
proof -
  have "changed_power (Validators example_vals) example_changes [3] = 7"
    "changed_power (Validators example_vals) example_changes [1] = 0"
    "changed_power (Validators example_vals) example_changes [2] = 1" by code_simp+
  moreover have "example_changes \<noteq> []" by (simp add: example_changes_def)
  ultimately show ?thesis
    using updateWithChangeSet_sound [OF example_vals_update, of example_changes True]
    by (auto split: outcome.splits)
qed

text \<open>
  C40: valid changes are accepted.  When the changed addresses are distinct and not empty, the powers
  are between 0 and the maximum, only members are deleted (and only if deletes are allowed), and the
  resulting set is not empty and has a total power within the maximum, the update returns a set.
\<close>

theorem updateWithChangeSet_accepts_valid:
  assumes "powers_ok vals" "prios_small vals" "cs \<noteq> []" "changes_valid vals cs allow"
  shows "\<exists>vals'. updateWithChangeSet vals cs allow = Return vals'"
  using updateWithChangeSet_complete [OF assms] by metis

theorem updateWithChangeSet_accepts_valid_witness:
  "\<exists>vals'. updateWithChangeSet example_vals example_changes True = Return vals'"
proof -
  have "changes_valid example_vals example_changes True" by code_simp
  moreover have "example_changes \<noteq> []" by (simp add: example_changes_def)
  ultimately show ?thesis
    using updateWithChangeSet_accepts_valid [OF example_vals_update, of example_changes True] by simp
qed

text \<open>
  \<open>NewValidatorSet\<close> on at most 226 valid validators returns a well-formed set with exactly the
  given powers, and the proposer is one of its members.
\<close>

theorem NewValidatorSet_returns:
  assumes "cs \<noteq> []" "changes_valid empty_vals cs False" "length cs \<le> 226"
  shows "\<exists>vals' p. NewValidatorSet cs = (Return vals' :: (unit, _) outcome) \<and> vals_wf vals'
    \<and> (\<forall>a. pw_of (Validators vals') a = changed_power [] cs a)
    \<and> Proposer vals' = Some p \<and> p \<in> set (Validators vals')"
proof -
  obtain vals where u: "updateWithChangeSet empty_vals cs False = Return vals" "changes_applied [] cs vals"
    using updateWithChangeSet_complete [OF empty_vals_ok assms(1,2)] by (auto simp: empty_vals_def)
  have wf: "vals_wf vals" and small: "prios_small vals"
    and pw: "\<And>a. pw_of (Validators vals) a = changed_power [] cs a"
    using u(2) by (auto simp: changes_applied_def)
  have fit: "rounds_fit vals" using wf applied_size [OF u(2)] assms(3) by (intro fits_226) auto
  have sp: "spread (4 * MaxTotalVotingPower) vals"
    using small unfolding spread_def prios_small_def by (auto simp: abs_le_iff) (smt (verit, best))
  have D: "4 * MaxTotalVotingPower + 2 * sum_list (pws vals) - 1 \<le> MaxInt64"
    using vals_wf_power(2) [OF wf] by linarith
  obtain js vals' where r: "IncrementProposerPriority vals 1 = (Return vals' :: (unit, _) outcome)"
      "same_validators vals vals'" "vals_wf vals'" "last js < length (Validators vals')"
      "Proposer vals' = Some (Validators vals' ! last js)"
    by (rule IncrementProposerPriority_steps [OF wf fit _ sp D, of 1, where 'e = unit]) auto
  have "NewValidatorSet cs = (Return vals' :: (unit, _) outcome)"
    using u(1) assms(1) r(1) by (simp add: NewValidatorSet_def)
  moreover have "pw_of (Validators vals') a = changed_power [] cs a" for a
    using pw_of_cong [of "Validators vals'" "Validators vals" a] same_validators_pairs [OF r(2)] wf r(3) pw
    by (simp add: vals_wf_def)
  ultimately show ?thesis using r(3-5) by (intro exI conjI) (auto intro: nth_mem)
qed

theorem NewValidatorSet_returns_witness:
  "\<exists>vals' p. NewValidatorSet (Validators example_vals) = (Return vals' :: (unit, _) outcome)
    \<and> Proposer vals' = Some p \<and> p \<in> set (Validators vals')"
proof -
  have "changes_valid empty_vals (Validators example_vals) False" by code_simp
  moreover have "Validators example_vals \<noteq> []" "length (Validators example_vals) \<le> 226"
    by (simp_all add: example_vals_def)
  ultimately show ?thesis using NewValidatorSet_returns [of "Validators example_vals"] by metis
qed

end
