(* ===== verification/Blocks.thy ===== *)
theory Blocks
  imports Validators
begin

text \<open>
  The signed consensus data of types/block.go, types/part_set.go, types/vote.go, types/proposal.go
  and types/canonical.go: block identifiers, votes, proposals and commits with their basic
  validation, their protobuf images and what is signed.

  Timestamps are integers, 0 being the zero \<open>time.Time\<close>.  Signature verification, the address of
  a public key and the encoding of the canonical messages are the fields of the record \<open>crypto_env\<close>,
  which every definition that needs them takes as an argument.  The encoders fail on a timestamp
  that has no protobuf image; the theory \<open>Canonical\<close> gives the encoders of the source.
\<close>

section \<open>Parameters\<close>

type_synonym hash = bytes
type_synonym timestamp = int

datatype SignedMsgType = UnknownType | PrevoteType | PrecommitType | ProposalType

section \<open>Block identifiers\<close>

definition tmhash_Size :: nat where
  "tmhash_Size = 32"

definition MaxSignatureSize :: nat where
  "MaxSignatureSize = 64"

record PartSetHeader =
  psh_Total :: "32 word"
  psh_Hash :: hash

record BlockID =
  bid_Hash :: hash
  bid_Parts :: PartSetHeader

definition ValidateHash :: "bytes \<Rightarrow> bool" where
  \<comment> \<open>True: no error\<close>
  "ValidateHash h \<longleftrightarrow> \<not> (length h > 0 \<and> length h \<noteq> tmhash_Size)"

definition psh_IsZero :: "PartSetHeader \<Rightarrow> bool" where
  "psh_IsZero psh \<longleftrightarrow> psh_Total psh = 0 \<and> length (psh_Hash psh) = 0"

definition psh_Equals :: "PartSetHeader \<Rightarrow> PartSetHeader \<Rightarrow> bool" where
  "psh_Equals psh other \<longleftrightarrow> psh_Total psh = psh_Total other \<and> psh_Hash psh = psh_Hash other"

definition psh_ValidateBasic :: "PartSetHeader \<Rightarrow> bool" where
  "psh_ValidateBasic psh = ValidateHash (psh_Hash psh)"

fun encodeVarint :: "nat \<Rightarrow> bytes" where
  "encodeVarint v =
     (if v \<ge> 128 then word_of_nat (v mod 128 + 128) # encodeVarint (v div 128) else [word_of_nat v])"

declare encodeVarint.simps [simp del]

definition psh_Marshal :: "PartSetHeader \<Rightarrow> bytes" where
  \<comment> \<open>the generated encoder: total as field 1, hash as field 2, both omitted when empty\<close>
  "psh_Marshal m =
     (if psh_Total m \<noteq> 0 then 0x8 # encodeVarint (unat (psh_Total m)) else [])
     @ (if length (psh_Hash m) > 0
        then 0x12 # encodeVarint (length (psh_Hash m)) @ psh_Hash m else [])"

definition bid_Equals :: "BlockID \<Rightarrow> BlockID \<Rightarrow> bool" where
  "bid_Equals b other \<longleftrightarrow> bid_Hash b = bid_Hash other \<and> psh_Equals (bid_Parts b) (bid_Parts other)"

definition bid_Key :: "BlockID \<Rightarrow> bytes" where
  "bid_Key b = bid_Hash b @ psh_Marshal (bid_Parts b)"

definition bid_ValidateBasic :: "BlockID \<Rightarrow> bool" where
  "bid_ValidateBasic b \<longleftrightarrow> ValidateHash (bid_Hash b) \<and> psh_ValidateBasic (bid_Parts b)"

definition bid_IsZero :: "BlockID \<Rightarrow> bool" where
  "bid_IsZero b \<longleftrightarrow> length (bid_Hash b) = 0 \<and> psh_IsZero (bid_Parts b)"

definition bid_IsComplete :: "BlockID \<Rightarrow> bool" where
  "bid_IsComplete b \<longleftrightarrow>
     length (bid_Hash b) = tmhash_Size \<and> psh_Total (bid_Parts b) > 0
     \<and> length (psh_Hash (bid_Parts b)) = tmhash_Size"

definition zero_bid :: BlockID where
  "zero_bid = \<lparr>bid_Hash = [], bid_Parts = \<lparr>psh_Total = 0, psh_Hash = []\<rparr>\<rparr>"

section \<open>Votes and proposals\<close>

record Vote =
  v_Type :: SignedMsgType
  v_Height :: int
  v_Round :: int
  v_BlockID :: BlockID
  v_Timestamp :: timestamp
  v_ValidatorAddress :: address
  v_ValidatorIndex :: int
  v_Signature :: bytes

record Proposal =
  p_Type :: SignedMsgType
  p_Height :: int
  p_Round :: int
  p_POLRound :: int
  p_BlockID :: BlockID
  p_Timestamp :: timestamp
  p_Signature :: bytes

record CanonicalVote =
  cv_Type :: SignedMsgType
  cv_Height :: int
  cv_Round :: int
  cv_BlockID :: "BlockID option"
  cv_Timestamp :: timestamp
  cv_ChainID :: string

record CanonicalProposal =
  cp_Type :: SignedMsgType
  cp_Height :: int
  cp_Round :: int
  cp_POLRound :: int
  cp_BlockID :: "BlockID option"
  cp_Timestamp :: timestamp
  cp_ChainID :: string

record crypto_env =
  marshal_vote :: "CanonicalVote \<Rightarrow> bytes option"
  marshal_proposal :: "CanonicalProposal \<Rightarrow> bytes option"
  verify_sig :: "pubkey \<Rightarrow> bytes \<Rightarrow> bytes \<Rightarrow> bool"
  address_of :: "pubkey \<Rightarrow> address"

definition CanonicalizeBlockID :: "BlockID \<Rightarrow> ('e, BlockID option) outcome" where
  \<comment> \<open>panics when a hash has a wrong length; the nil block has no canonical id\<close>
  "CanonicalizeBlockID b =
     (if \<not> bid_ValidateBasic b then Panic
      else if bid_IsZero b then Return None else Return (Some b))"

definition CanonicalizeVote :: "string \<Rightarrow> Vote \<Rightarrow> ('e, CanonicalVote) outcome" where
  "CanonicalizeVote chainID vote =
     bind_o (CanonicalizeBlockID (v_BlockID vote)) (\<lambda>b.
       Return \<lparr>cv_Type = v_Type vote, cv_Height = v_Height vote, cv_Round = v_Round vote,
               cv_BlockID = b, cv_Timestamp = v_Timestamp vote, cv_ChainID = chainID\<rparr>)"

definition CanonicalizeProposal :: "string \<Rightarrow> Proposal \<Rightarrow> ('e, CanonicalProposal) outcome" where
  "CanonicalizeProposal chainID p =
     bind_o (CanonicalizeBlockID (p_BlockID p)) (\<lambda>b.
       Return \<lparr>cp_Type = ProposalType, cp_Height = p_Height p, cp_Round = p_Round p,
               cp_POLRound = p_POLRound p, cp_BlockID = b, cp_Timestamp = p_Timestamp p,
               cp_ChainID = chainID\<rparr>)"

definition VoteSignBytes :: "crypto_env \<Rightarrow> string \<Rightarrow> Vote \<Rightarrow> ('e, bytes) outcome" where
  "VoteSignBytes env chainID vote =
     bind_o (CanonicalizeVote chainID vote) (\<lambda>pb.
     case marshal_vote env pb of None \<Rightarrow> Panic | Some bz \<Rightarrow> Return bz)"

definition ProposalSignBytes :: "crypto_env \<Rightarrow> string \<Rightarrow> Proposal \<Rightarrow> ('e, bytes) outcome" where
  "ProposalSignBytes env chainID p =
     bind_o (CanonicalizeProposal chainID p) (\<lambda>pb.
     case marshal_proposal env pb of None \<Rightarrow> Panic | Some bz \<Rightarrow> Return bz)"

datatype vote_error =
    ErrVoteUnexpectedStep
  | ErrVoteInvalidValidatorIndex
  | ErrVoteInvalidValidatorAddress
  | ErrVoteInvalidSignature
  | ErrVoteNonDeterministicSignature
  | ErrVoteNil
  | ErrVoteConflictingVotes Vote Vote
  | InvalidType
  | NegativeHeight
  | NegativeRound
  | WrongBlockID
  | IncompleteBlockID
  | WrongValidatorAddressSize
  | NegativeValidatorIndex
  | SignatureMissing
  | SignatureTooBig
  | NegativePOLRound

definition vote_Verify :: "crypto_env \<Rightarrow> string \<Rightarrow> Vote \<Rightarrow> pubkey \<Rightarrow> ('e, vote_error option) outcome" where
  "vote_Verify env chainID vote pubKey =
     (if address_of env pubKey \<noteq> v_ValidatorAddress vote
      then Return (Some ErrVoteInvalidValidatorAddress)
      else bind_o (VoteSignBytes env chainID vote) (\<lambda>bz.
           Return (if verify_sig env pubKey bz (v_Signature vote) then None
                   else Some ErrVoteInvalidSignature)))"

definition IsVoteTypeValid :: "SignedMsgType \<Rightarrow> bool" where
  "IsVoteTypeValid t = (case t of PrevoteType \<Rightarrow> True | PrecommitType \<Rightarrow> True | _ \<Rightarrow> False)"

definition vote_ValidateBasic :: "Vote \<Rightarrow> vote_error option" where
  "vote_ValidateBasic vote =
     (if \<not> IsVoteTypeValid (v_Type vote) then Some InvalidType
      else if v_Height vote < 0 then Some NegativeHeight
      else if v_Round vote < 0 then Some NegativeRound
      else if \<not> bid_ValidateBasic (v_BlockID vote) then Some WrongBlockID
      else if \<not> bid_IsZero (v_BlockID vote) \<and> \<not> bid_IsComplete (v_BlockID vote)
      then Some IncompleteBlockID
      else if length (v_ValidatorAddress vote) \<noteq> AddressSize then Some WrongValidatorAddressSize
      else if v_ValidatorIndex vote < 0 then Some NegativeValidatorIndex
      else if length (v_Signature vote) = 0 then Some SignatureMissing
      else if length (v_Signature vote) > MaxSignatureSize then Some SignatureTooBig
      else None)"

definition proposal_ValidateBasic :: "Proposal \<Rightarrow> vote_error option" where
  "proposal_ValidateBasic p =
     (if p_Type p \<noteq> ProposalType then Some InvalidType
      else if p_Height p < 0 then Some NegativeHeight
      else if p_Round p < 0 then Some NegativeRound
      else if p_POLRound p < - 1 then Some NegativePOLRound
      else if \<not> bid_ValidateBasic (p_BlockID p) then Some WrongBlockID
      else if \<not> bid_IsComplete (p_BlockID p) then Some IncompleteBlockID
      else if length (p_Signature p) = 0 then Some SignatureMissing
      else if length (p_Signature p) > MaxSignatureSize then Some SignatureTooBig
      else None)"

section \<open>Commits\<close>

type_synonym BlockIDFlag = "8 word"

abbreviation BlockIDFlagAbsent :: BlockIDFlag where "BlockIDFlagAbsent \<equiv> 1"
abbreviation BlockIDFlagCommit :: BlockIDFlag where "BlockIDFlagCommit \<equiv> 2"
abbreviation BlockIDFlagNil :: BlockIDFlag where "BlockIDFlagNil \<equiv> 3"

record CommitSig =
  cs_BlockIDFlag :: BlockIDFlag
  cs_ValidatorAddress :: address
  cs_Timestamp :: timestamp
  cs_Signature :: bytes

record Commit =
  c_Height :: int
  c_Round :: int
  c_BlockID :: BlockID
  c_Signatures :: "CommitSig list"

definition NewCommitSigForBlock :: "bytes \<Rightarrow> address \<Rightarrow> timestamp \<Rightarrow> CommitSig" where
  "NewCommitSigForBlock signature valAddr ts =
     \<lparr>cs_BlockIDFlag = BlockIDFlagCommit, cs_ValidatorAddress = valAddr, cs_Timestamp = ts,
      cs_Signature = signature\<rparr>"

definition NewCommitSigAbsent :: CommitSig where
  "NewCommitSigAbsent =
     \<lparr>cs_BlockIDFlag = BlockIDFlagAbsent, cs_ValidatorAddress = [], cs_Timestamp = 0, cs_Signature = []\<rparr>"

definition cs_ForBlock :: "CommitSig \<Rightarrow> bool" where
  "cs_ForBlock cs \<longleftrightarrow> cs_BlockIDFlag cs = BlockIDFlagCommit"

definition cs_Absent :: "CommitSig \<Rightarrow> bool" where
  "cs_Absent cs \<longleftrightarrow> cs_BlockIDFlag cs = BlockIDFlagAbsent"

definition cs_BlockID :: "CommitSig \<Rightarrow> BlockID \<Rightarrow> ('e, BlockID) outcome" where
  "cs_BlockID cs commitBlockID =
     (if cs_BlockIDFlag cs = BlockIDFlagAbsent then Return zero_bid
      else if cs_BlockIDFlag cs = BlockIDFlagCommit then Return commitBlockID
      else if cs_BlockIDFlag cs = BlockIDFlagNil then Return zero_bid
      else Panic)"

datatype commit_error =
    UnknownBlockIDFlag
  | AddressPresent
  | TimePresent
  | SignaturePresent
  | CommitSigAddressSize
  | CommitSigMissing
  | CommitSigTooBig
  | CommitNegativeHeight
  | CommitNegativeRound
  | CommitForNil
  | NoSignatures
  | WrongCommitSig nat commit_error
  | CommitWrongBlockID
  | NilCommit

definition cs_ValidateBasic :: "CommitSig \<Rightarrow> commit_error option" where
  "cs_ValidateBasic cs =
     (if cs_BlockIDFlag cs \<noteq> BlockIDFlagAbsent \<and> cs_BlockIDFlag cs \<noteq> BlockIDFlagCommit
         \<and> cs_BlockIDFlag cs \<noteq> BlockIDFlagNil
      then Some UnknownBlockIDFlag
      else if cs_BlockIDFlag cs = BlockIDFlagAbsent
      then (if length (cs_ValidatorAddress cs) \<noteq> 0 then Some AddressPresent
            else if cs_Timestamp cs \<noteq> 0 then Some TimePresent
            else if length (cs_Signature cs) \<noteq> 0 then Some SignaturePresent
            else None)
      else (if length (cs_ValidatorAddress cs) \<noteq> AddressSize then Some CommitSigAddressSize
            else if length (cs_Signature cs) = 0 then Some CommitSigMissing
            else if length (cs_Signature cs) > MaxSignatureSize then Some CommitSigTooBig
            else None))"

definition vote_CommitSig :: "Vote option \<Rightarrow> ('e, CommitSig) outcome" where
  "vote_CommitSig ov =
     (case ov of None \<Rightarrow> Return NewCommitSigAbsent
      | Some vote \<Rightarrow>
          let mk = (\<lambda>flag. Return \<lparr>cs_BlockIDFlag = flag, cs_ValidatorAddress = v_ValidatorAddress vote,
                     cs_Timestamp = v_Timestamp vote, cs_Signature = v_Signature vote\<rparr>)
          in if bid_IsComplete (v_BlockID vote) then mk BlockIDFlagCommit
             else if bid_IsZero (v_BlockID vote) then mk BlockIDFlagNil
             else Panic)"

definition commit_GetVote :: "Commit \<Rightarrow> int \<Rightarrow> ('e, Vote) outcome" where
  "commit_GetVote commit valIdx =
     bind_o (nth_go (c_Signatures commit) valIdx) (\<lambda>cs.
     bind_o (cs_BlockID cs (c_BlockID commit)) (\<lambda>b.
     Return \<lparr>v_Type = PrecommitType, v_Height = c_Height commit, v_Round = c_Round commit,
             v_BlockID = b, v_Timestamp = cs_Timestamp cs,
             v_ValidatorAddress = cs_ValidatorAddress cs, v_ValidatorIndex = valIdx,
             v_Signature = cs_Signature cs\<rparr>))"

definition commit_VoteSignBytes :: "crypto_env \<Rightarrow> Commit \<Rightarrow> string \<Rightarrow> int \<Rightarrow> ('e, bytes) outcome" where
  "commit_VoteSignBytes env commit chainID valIdx =
     bind_o (commit_GetVote commit valIdx) (VoteSignBytes env chainID)"

definition commit_IsCommit :: "Commit \<Rightarrow> bool" where
  "commit_IsCommit commit \<longleftrightarrow> length (c_Signatures commit) \<noteq> 0"

fun commit_sigs_validate :: "CommitSig list \<Rightarrow> nat \<Rightarrow> commit_error option" where
  "commit_sigs_validate [] i = None"
| "commit_sigs_validate (cs # css) i =
     (case cs_ValidateBasic cs of Some e \<Rightarrow> Some (WrongCommitSig i e)
      | None \<Rightarrow> commit_sigs_validate css (Suc i))"

definition commit_ValidateBasic :: "Commit \<Rightarrow> commit_error option" where
  "commit_ValidateBasic commit =
     (if c_Height commit < 0 then Some CommitNegativeHeight
      else if c_Round commit < 0 then Some CommitNegativeRound
      else if c_Height commit \<ge> 1
      then (if bid_IsZero (c_BlockID commit) then Some CommitForNil
            else if length (c_Signatures commit) = 0 then Some NoSignatures
            else commit_sigs_validate (c_Signatures commit) 0)
      else None)"

section \<open>Protobuf images\<close>

record pb_PartSetHeader =
  pb_psh_Total :: "32 word"
  pb_psh_Hash :: hash

record pb_BlockID =
  pb_bid_Hash :: hash
  pb_bid_Parts :: pb_PartSetHeader

record pb_Vote =
  pb_v_Type :: SignedMsgType
  pb_v_Height :: int
  pb_v_Round :: int
  pb_v_BlockID :: pb_BlockID
  pb_v_Timestamp :: timestamp
  pb_v_ValidatorAddress :: address
  pb_v_ValidatorIndex :: int
  pb_v_Signature :: bytes

record pb_CommitSig =
  pb_cs_BlockIDFlag :: int
  pb_cs_ValidatorAddress :: address
  pb_cs_Timestamp :: timestamp
  pb_cs_Signature :: bytes

record pb_Commit =
  pb_c_Height :: int
  pb_c_Round :: int
  pb_c_BlockID :: pb_BlockID
  pb_c_Signatures :: "pb_CommitSig list"

definition psh_ToProto :: "PartSetHeader \<Rightarrow> pb_PartSetHeader" where
  "psh_ToProto psh = \<lparr>pb_psh_Total = psh_Total psh, pb_psh_Hash = psh_Hash psh\<rparr>"

definition PartSetHeaderFromProto :: "pb_PartSetHeader \<Rightarrow> PartSetHeader \<times> bool" where
  "PartSetHeaderFromProto p =
     (let psh = \<lparr>psh_Total = pb_psh_Total p, psh_Hash = pb_psh_Hash p\<rparr> in (psh, psh_ValidateBasic psh))"

definition bid_ToProto :: "BlockID \<Rightarrow> pb_BlockID" where
  "bid_ToProto b = \<lparr>pb_bid_Hash = bid_Hash b, pb_bid_Parts = psh_ToProto (bid_Parts b)\<rparr>"

definition BlockIDFromProto :: "pb_BlockID \<Rightarrow> BlockID option" where
  \<comment> \<open>None: an error, from the header or from the validation of the result\<close>
  "BlockIDFromProto p =
     (let (psh, ok) = PartSetHeaderFromProto (pb_bid_Parts p);
          b = \<lparr>bid_Hash = pb_bid_Hash p, bid_Parts = psh\<rparr>
      in if \<not> ok then None else if bid_ValidateBasic b then Some b else None)"

definition vote_ToProto :: "Vote \<Rightarrow> pb_Vote" where
  "vote_ToProto v =
     \<lparr>pb_v_Type = v_Type v, pb_v_Height = v_Height v, pb_v_Round = v_Round v,
      pb_v_BlockID = bid_ToProto (v_BlockID v), pb_v_Timestamp = v_Timestamp v,
      pb_v_ValidatorAddress = v_ValidatorAddress v, pb_v_ValidatorIndex = v_ValidatorIndex v,
      pb_v_Signature = v_Signature v\<rparr>"

definition VoteFromProto :: "pb_Vote option \<Rightarrow> (vote_error, Vote) outcome" where
  "VoteFromProto opv =
     (case opv of None \<Rightarrow> Error ErrVoteNil
      | Some pv \<Rightarrow>
          (case BlockIDFromProto (pb_v_BlockID pv) of None \<Rightarrow> Error WrongBlockID
           | Some b \<Rightarrow>
               let vote = \<lparr>v_Type = pb_v_Type pv, v_Height = pb_v_Height pv, v_Round = pb_v_Round pv,
                     v_BlockID = b, v_Timestamp = pb_v_Timestamp pv,
                     v_ValidatorAddress = pb_v_ValidatorAddress pv,
                     v_ValidatorIndex = pb_v_ValidatorIndex pv, v_Signature = pb_v_Signature pv\<rparr>
               in case vote_ValidateBasic vote of None \<Rightarrow> Return vote | Some e \<Rightarrow> Error e))"

definition cs_ToProto :: "CommitSig \<Rightarrow> pb_CommitSig" where
  "cs_ToProto cs =
     \<lparr>pb_cs_BlockIDFlag = uint (cs_BlockIDFlag cs), pb_cs_ValidatorAddress = cs_ValidatorAddress cs,
      pb_cs_Timestamp = cs_Timestamp cs, pb_cs_Signature = cs_Signature cs\<rparr>"

definition cs_FromProto :: "pb_CommitSig \<Rightarrow> (commit_error, CommitSig) outcome" where
  \<comment> \<open>BlockIDFlag is a byte: the conversion keeps the low 8 bits\<close>
  "cs_FromProto p =
     (let cs = \<lparr>cs_BlockIDFlag = word_of_int (pb_cs_BlockIDFlag p),
          cs_ValidatorAddress = pb_cs_ValidatorAddress p, cs_Timestamp = pb_cs_Timestamp p,
          cs_Signature = pb_cs_Signature p\<rparr>
      in case cs_ValidateBasic cs of None \<Rightarrow> Return cs | Some e \<Rightarrow> Error e)"

fun cs_list_FromProto :: "pb_CommitSig list \<Rightarrow> (commit_error, CommitSig list) outcome" where
  "cs_list_FromProto [] = Return []"
| "cs_list_FromProto (p # ps) =
     bind_o (cs_FromProto p) (\<lambda>cs. bind_o (cs_list_FromProto ps) (\<lambda>css. Return (cs # css)))"

definition commit_ToProto :: "Commit \<Rightarrow> pb_Commit" where
  "commit_ToProto c =
     \<lparr>pb_c_Height = c_Height c, pb_c_Round = c_Round c, pb_c_BlockID = bid_ToProto (c_BlockID c),
      pb_c_Signatures = map cs_ToProto (c_Signatures c)\<rparr>"

definition CommitFromProto :: "pb_Commit option \<Rightarrow> (commit_error, Commit) outcome" where
  "CommitFromProto ocp =
     (case ocp of None \<Rightarrow> Error NilCommit
      | Some cp \<Rightarrow>
          (case BlockIDFromProto (pb_c_BlockID cp) of None \<Rightarrow> Error CommitWrongBlockID
           | Some bi \<Rightarrow>
               bind_o (cs_list_FromProto (pb_c_Signatures cp)) (\<lambda>sigs.
               let commit = \<lparr>c_Height = pb_c_Height cp, c_Round = pb_c_Round cp, c_BlockID = bi,
                     c_Signatures = sigs\<rparr>
               in case commit_ValidateBasic commit of None \<Rightarrow> Return commit | Some e \<Rightarrow> Error e)))"

section \<open>Block identifiers and their keys\<close>

lemma psh_Equals_iff: "psh_Equals a b \<longleftrightarrow> a = b"
  by (cases a; cases b) (auto simp: psh_Equals_def)

lemma bid_Equals_iff [simp]: "bid_Equals a b \<longleftrightarrow> a = b"
  by (cases a; cases b) (auto simp: bid_Equals_def psh_Equals_iff)

lemma word8_of_nat_eq: "m < 256 \<Longrightarrow> n < 256 \<Longrightarrow> (word_of_nat m :: byte) = word_of_nat n \<longleftrightarrow> m = n"
  by (simp add: word_of_nat_eq_iff take_bit_nat_eq_self)

lemma encodeVarint_prefix_free:
  "encodeVarint v @ xs = encodeVarint w @ ys \<Longrightarrow> v = w \<and> xs = ys"
proof (induction v arbitrary: w rule: encodeVarint.induct)
  case (1 v)
  have small: "(word_of_nat (a mod 128 + 128) :: byte) \<noteq> word_of_nat b" if "b < 128" for a b
  proof
    assume "(word_of_nat (a mod 128 + 128) :: byte) = word_of_nat b"
    then have "a mod 128 + 128 = b" using that by (subst (asm) word8_of_nat_eq) auto
    then show False using that by simp
  qed
  consider "v \<ge> 128" "w \<ge> 128" | "v \<ge> 128" "w < 128" | "v < 128" "w \<ge> 128" | "v < 128" "w < 128" by linarith
  then show ?case
  proof cases
    case 1
    then have hd: "(word_of_nat (v mod 128 + 128) :: byte) = word_of_nat (w mod 128 + 128)"
      and tl: "encodeVarint (v div 128) @ xs = encodeVarint (w div 128) @ ys"
      using "1.prems" by (subst (asm) (1 2) encodeVarint.simps, simp)+
    have "v mod 128 = w mod 128" using hd by (subst (asm) word8_of_nat_eq) auto
    moreover have "v div 128 = w div 128 \<and> xs = ys" using "1.IH" [OF 1(1) tl] .
    ultimately show ?thesis by (metis div_mult_mod_eq)
  next
    case 2
    then show ?thesis using "1.prems" small [of w v] by (subst (asm) (1 2) encodeVarint.simps) simp
  next
    case 3
    then show ?thesis using "1.prems" small [of v w] by (subst (asm) (1 2) encodeVarint.simps) (simp add: eq_commute)
  next
    case 4
    then show ?thesis using "1.prems" word8_of_nat_eq [of v w]
      by (subst (asm) (1 2) encodeVarint.simps) simp
  qed
qed

definition bid_ok :: "BlockID \<Rightarrow> bool" where
  \<comment> \<open>what the basic validation of a vote demands of its block id\<close>
  "bid_ok b \<longleftrightarrow> bid_IsZero b \<or> bid_IsComplete b"

lemma bid_ok_validate: "bid_ok b \<Longrightarrow> bid_ValidateBasic b"
  by (auto simp: bid_ok_def bid_IsZero_def bid_IsComplete_def bid_ValidateBasic_def ValidateHash_def
      psh_ValidateBasic_def psh_IsZero_def)

lemma bid_IsZero_iff: "bid_IsZero b \<longleftrightarrow> b = zero_bid"
  by (cases b; cases "bid_Parts b") (auto simp: bid_IsZero_def zero_bid_def psh_IsZero_def)

lemma complete_not_zero: "bid_IsComplete b \<Longrightarrow> \<not> bid_IsZero b"
  by (simp add: bid_IsComplete_def bid_IsZero_def tmhash_Size_def)

lemma bid_Key_complete:
  assumes "bid_IsComplete b"
  shows "bid_Key b = bid_Hash b @ 0x8 # encodeVarint (unat (psh_Total (bid_Parts b)))
    @ 0x12 # encodeVarint 32 @ psh_Hash (bid_Parts b)"
  using assms by (simp add: bid_Key_def psh_Marshal_def bid_IsComplete_def tmhash_Size_def word_gt_0)

lemma bid_Key_inj:
  assumes "bid_ok a" "bid_ok b" "bid_Key a = bid_Key b"
  shows "a = b"
proof -
  have zero: "bid_Key zero_bid = []" by (simp add: bid_Key_def zero_bid_def psh_Marshal_def)
  have ne: "bid_Key c \<noteq> []" if "bid_IsComplete c" for c
    using that by (simp add: bid_Key_complete)
  consider "bid_IsComplete a" "bid_IsComplete b" | "a = zero_bid" "b = zero_bid"
    using assms ne zero by (metis bid_IsZero_iff bid_ok_def)
  then show ?thesis
  proof cases
    case 1
    have "length (bid_Hash a) = length (bid_Hash b)" using 1 by (simp add: bid_IsComplete_def)
    then have h: "bid_Hash a = bid_Hash b"
      and r: "encodeVarint (unat (psh_Total (bid_Parts a))) @ 0x12 # encodeVarint 32 @ psh_Hash (bid_Parts a) =
        encodeVarint (unat (psh_Total (bid_Parts b))) @ 0x12 # encodeVarint 32 @ psh_Hash (bid_Parts b)"
      using assms(3) unfolding bid_Key_complete [OF 1(1)] bid_Key_complete [OF 1(2)] by auto
    have "unat (psh_Total (bid_Parts a)) = unat (psh_Total (bid_Parts b))"
      "psh_Hash (bid_Parts a) = psh_Hash (bid_Parts b)"
      using encodeVarint_prefix_free [OF r] by auto
    then have "bid_Equals a b" using h by (simp add: bid_Equals_def psh_Equals_def word_unat_eq_iff del: bid_Equals_iff)
    then show ?thesis by simp
  qed simp
qed

section \<open>Protobuf round trips\<close>

lemma bid_proto_roundtrip: "bid_ValidateBasic b \<Longrightarrow> BlockIDFromProto (bid_ToProto b) = Some b"
  by (cases b; cases "bid_Parts b")
     (auto simp: BlockIDFromProto_def bid_ToProto_def PartSetHeaderFromProto_def psh_ToProto_def
       bid_ValidateBasic_def)

lemma vote_proto_roundtrip: "vote_ValidateBasic v = None \<Longrightarrow> VoteFromProto (Some (vote_ToProto v)) = Return v"
proof -
  assume v: "vote_ValidateBasic v = None"
  then have "bid_ValidateBasic (v_BlockID v)" by (simp add: vote_ValidateBasic_def split: if_splits)
  then show ?thesis using v by (cases v) (simp add: VoteFromProto_def vote_ToProto_def bid_proto_roundtrip)
qed

lemma cs_proto_roundtrip: "cs_ValidateBasic cs = None \<Longrightarrow> cs_FromProto (cs_ToProto cs) = Return cs"
  by (cases cs) (simp add: cs_FromProto_def cs_ToProto_def)

lemma commit_sigs_validate_None:
  "commit_sigs_validate css i = None \<longleftrightarrow> (\<forall>cs \<in> set css. cs_ValidateBasic cs = None)"
  by (induction css arbitrary: i) (auto split: option.splits)

lemma cs_list_proto_roundtrip:
  "\<forall>cs \<in> set css. cs_ValidateBasic cs = None \<Longrightarrow> cs_list_FromProto (map cs_ToProto css) = Return css"
  by (induction css) (auto simp: cs_proto_roundtrip)

lemma commit_proto_roundtrip:
  assumes "commit_ValidateBasic c = None" "c_Height c \<ge> 1" "bid_ValidateBasic (c_BlockID c)"
  shows "CommitFromProto (Some (commit_ToProto c)) = Return c"
proof -
  have "\<forall>cs \<in> set (c_Signatures c). cs_ValidateBasic cs = None"
    using assms(1,2) by (simp add: commit_ValidateBasic_def commit_sigs_validate_None split: if_splits)
  then show ?thesis using assms
    by (cases c) (simp add: CommitFromProto_def commit_ToProto_def bid_proto_roundtrip cs_list_proto_roundtrip)
qed

lemma VoteSignBytes_cong:
  assumes "v_Type v = v_Type w" "v_Height v = v_Height w" "v_Round v = v_Round w"
    "v_BlockID v = v_BlockID w" "v_Timestamp v = v_Timestamp w"
  shows "VoteSignBytes env chainID v = VoteSignBytes env chainID w"
  using assms by (simp add: VoteSignBytes_def CanonicalizeVote_def)

definition canonical_vote :: "string \<Rightarrow> Vote \<Rightarrow> CanonicalVote" where
  "canonical_vote chainID v =
    \<lparr>cv_Type = v_Type v, cv_Height = v_Height v, cv_Round = v_Round v,
     cv_BlockID = (if bid_IsZero (v_BlockID v) then None else Some (v_BlockID v)),
     cv_Timestamp = v_Timestamp v, cv_ChainID = chainID\<rparr>"

definition vote_signable :: "crypto_env \<Rightarrow> string \<Rightarrow> Vote \<Rightarrow> bool" where
  \<comment> \<open>the vote has sign bytes: a nil or complete block id, and a timestamp the encoder accepts\<close>
  "vote_signable env chainID v \<longleftrightarrow> bid_ok (v_BlockID v) \<and> marshal_vote env (canonical_vote chainID v) \<noteq> None"

lemma VoteSignBytes_canonical:
  assumes "bid_ValidateBasic (v_BlockID v)"
  shows "VoteSignBytes env chainID v =
    (case marshal_vote env (canonical_vote chainID v) of None \<Rightarrow> Panic | Some bz \<Rightarrow> Return bz)"
  using assms by (simp add: VoteSignBytes_def CanonicalizeVote_def CanonicalizeBlockID_def canonical_vote_def)

lemma VoteSignBytes_ok:
  assumes "vote_signable env chainID v"
  shows "VoteSignBytes env chainID v = Return (the (marshal_vote env (canonical_vote chainID v)))"
proof -
  have "bid_ValidateBasic (v_BlockID v)" using assms bid_ok_validate by (simp add: vote_signable_def)
  then show ?thesis using assms by (auto simp: VoteSignBytes_canonical vote_signable_def)
qed

section \<open>Properties\<close>

text \<open>
  The map key of a block id identifies it.  Two block ids that are each the nil id or complete,
  as the basic validation of votes demands, have equal keys only if they are equal.
\<close>

theorem block_id_key_identifies:
  assumes "bid_IsZero a \<or> bid_IsComplete a" "bid_IsZero b \<or> bid_IsComplete b"
  shows "bid_Key a = bid_Key b \<longleftrightarrow> bid_Equals a b"
  using assms bid_Key_inj [of a b] by (auto simp: bid_ok_def)

definition example_bid :: "byte \<Rightarrow> BlockID" where
  "example_bid x = \<lparr>bid_Hash = replicate 32 x, bid_Parts = \<lparr>psh_Total = 1, psh_Hash = replicate 32 x\<rparr>\<rparr>"

lemma example_bid_complete: "bid_IsComplete (example_bid x)"
  by (simp add: example_bid_def bid_IsComplete_def tmhash_Size_def)

theorem block_id_key_identifies_witness:
  "bid_Key (example_bid 1) \<noteq> bid_Key (example_bid 2) \<and> bid_Key zero_bid \<noteq> bid_Key (example_bid 1)"
proof -
  have "\<not> bid_Equals (example_bid 1) (example_bid 2)" "\<not> bid_Equals zero_bid (example_bid 1)"
    by (simp_all add: example_bid_def zero_bid_def)
  then show ?thesis
    using block_id_key_identifies [of "example_bid 1" "example_bid 2"]
      block_id_key_identifies [of zero_bid "example_bid 1"] example_bid_complete
    by (simp add: bid_IsZero_iff)
qed

end
