(* ===== verification/VoteSets.thy ===== *)
theory VoteSets
  imports Blocks Bits
begin

text \<open>
  Vote counting: types/vote_set.go.  A \<open>VoteSet\<close> collects the votes of one height, round and
  type.  \<open>votes\<close> holds one vote per validator, \<open>votesByBlock\<close> the votes per block key, and
  \<open>maj23\<close> the first block id that more than two thirds of the voting power voted for.

  An operation that may change the set and report an error at once returns both: the result of
  \<open>addVote\<close> is whether the vote was added, the error, and the set afterwards.
\<close>

section \<open>Operations\<close>

record blockVotes =
  bv_peerMaj23 :: bool
  bv_bitArray :: "bit_array option"
  bv_votes :: "Vote option list"
  bv_sum :: int

record VoteSet =
  vs_chainID :: string
  vs_height :: int
  vs_round :: int
  vs_type :: SignedMsgType
  vs_valSet :: validator_set
  vs_bits :: "bit_array option"
  vs_votes :: "Vote option list"
  vs_sum :: int
  vs_maj23 :: "BlockID option"
  vs_byBlock :: "(bytes, blockVotes) gomap"
  vs_peerMaj23s :: "(string, BlockID) gomap"

definition NewVoteSet ::
    "string \<Rightarrow> int \<Rightarrow> int \<Rightarrow> SignedMsgType \<Rightarrow> validator_set \<Rightarrow> ('e, VoteSet) outcome" where
  "NewVoteSet chainID height rnd signedMsgType valSet =
     (if height = 0 then Panic
      else Return \<lparr>vs_chainID = chainID, vs_height = height, vs_round = rnd, vs_type = signedMsgType,
        vs_valSet = valSet, vs_bits = NewBitArray (vals_Size valSet),
        vs_votes = replicate (length (Validators valSet)) None, vs_sum = 0, vs_maj23 = None,
        vs_byBlock = [], vs_peerMaj23s = []\<rparr>)"

definition newBlockVotes :: "bool \<Rightarrow> int \<Rightarrow> blockVotes" where
  "newBlockVotes peerMaj23 numValidators =
     \<lparr>bv_peerMaj23 = peerMaj23, bv_bitArray = NewBitArray numValidators,
      bv_votes = replicate (nat numValidators) None, bv_sum = 0\<rparr>"

definition bv_addVerifiedVote :: "blockVotes \<Rightarrow> Vote \<Rightarrow> int \<Rightarrow> ('e, blockVotes) outcome" where
  "bv_addVerifiedVote bv vote votingPower =
     bind_o (nth_go (bv_votes bv) (v_ValidatorIndex vote)) (\<lambda>existing.
     case existing of
       Some _ \<Rightarrow> Return bv
     | None \<Rightarrow>
         bind_o (SetIndex (bv_bitArray bv) (v_ValidatorIndex vote) True) (\<lambda>(_, b).
         bind_o (upd_go (bv_votes bv) (v_ValidatorIndex vote) (Some vote)) (\<lambda>votes.
         Return (bv\<lparr>bv_bitArray := b, bv_votes := votes, bv_sum := i64 (bv_sum bv + votingPower)\<rparr>))))"

definition bv_getByIndex :: "blockVotes option \<Rightarrow> int \<Rightarrow> ('e, Vote option) outcome" where
  "bv_getByIndex obv index = (case obv of None \<Rightarrow> Return None | Some bv \<Rightarrow> nth_go (bv_votes bv) index)"

definition vs_getVote :: "VoteSet \<Rightarrow> int \<Rightarrow> bytes \<Rightarrow> ('e, Vote option) outcome" where
  "vs_getVote vs valIndex blockKey =
     bind_o (nth_go (vs_votes vs) valIndex) (\<lambda>existing.
     case existing of
       Some e \<Rightarrow> if bid_Key (v_BlockID e) = blockKey then Return (Some e)
                 else bv_getByIndex (gm_get (vs_byBlock vs) blockKey) valIndex
     | None \<Rightarrow> bv_getByIndex (gm_get (vs_byBlock vs) blockKey) valIndex)"

definition set_primary :: "VoteSet \<Rightarrow> Vote \<Rightarrow> ('e, VoteSet) outcome" where
  \<comment> \<open>voteSet.votes[valIndex] = vote and the bit of the index\<close>
  "set_primary vs vote =
     bind_o (upd_go (vs_votes vs) (v_ValidatorIndex vote) (Some vote)) (\<lambda>votes.
     bind_o (SetIndex (vs_bits vs) (v_ValidatorIndex vote) True) (\<lambda>(_, b).
     Return (vs\<lparr>vs_votes := votes, vs_bits := b\<rparr>)))"

definition primary_vote :: "VoteSet \<Rightarrow> Vote \<Rightarrow> bytes \<Rightarrow> int \<Rightarrow> ('e, Vote option \<times> VoteSet) outcome" where
  \<comment> \<open>the first half of addVerifiedVote: the conflicting vote, if any, and the set\<close>
  "primary_vote vs vote blockKey votingPower =
     bind_o (nth_go (vs_votes vs) (v_ValidatorIndex vote)) (\<lambda>existing.
     case existing of
       Some e \<Rightarrow>
         if bid_Equals (v_BlockID e) (v_BlockID vote) then Panic
         else if (case vs_maj23 vs of None \<Rightarrow> False | Some m \<Rightarrow> bid_Key m = blockKey)
         then bind_o (set_primary vs vote) (\<lambda>vs'. Return (Some e, vs'))
         else Return (Some e, vs)
     | None \<Rightarrow>
         bind_o (set_primary vs vote) (\<lambda>vs'.
         Return (None, vs'\<lparr>vs_sum := i64 (vs_sum vs' + votingPower)\<rparr>)))"

fun copy_votes :: "Vote option list \<Rightarrow> Vote option list \<Rightarrow> ('e, Vote option list) outcome" where
  \<comment> \<open>for i, vote := range src: if vote != nil then dst[i] = vote\<close>
  "copy_votes [] dst = Return dst"
| "copy_votes (None # src) [] = copy_votes src []"
| "copy_votes (Some v # src) [] = Panic"
| "copy_votes (None # src) (d # dst) = bind_o (copy_votes src dst) (\<lambda>r. Return (d # r))"
| "copy_votes (Some v # src) (d # dst) = bind_o (copy_votes src dst) (\<lambda>r. Return (Some v # r))"

definition addVerifiedVote ::
    "VoteSet \<Rightarrow> Vote \<Rightarrow> bytes \<Rightarrow> int \<Rightarrow> ('e, bool \<times> Vote option \<times> VoteSet) outcome" where
  "addVerifiedVote vs vote blockKey votingPower =
     bind_o (primary_vote vs vote blockKey votingPower) (\<lambda>(conflicting, vs1).
     let tracked = gm_get (vs_byBlock vs1) blockKey
     in if (case tracked of Some bv \<Rightarrow> conflicting \<noteq> None \<and> \<not> bv_peerMaj23 bv
                         | None \<Rightarrow> conflicting \<noteq> None)
        then Return (False, conflicting, vs1)
        else let bv = (case tracked of Some bv \<Rightarrow> bv
                       | None \<Rightarrow> newBlockVotes False (vals_Size (vs_valSet vs1)));
                 origSum = bv_sum bv
             in bind_o (TotalVotingPower (vs_valSet vs1)) (\<lambda>(total, valSet).
                let quorum = i64 (i64 (total * 2) sdiv 3 + 1)
                in bind_o (bv_addVerifiedVote bv vote votingPower) (\<lambda>bv'.
                let vs2 = vs1\<lparr>vs_valSet := valSet, vs_byBlock := gm_put blockKey bv' (vs_byBlock vs1)\<rparr>
                in if origSum < quorum \<and> quorum \<le> bv_sum bv' \<and> vs_maj23 vs2 = None
                   then bind_o (copy_votes (bv_votes bv') (vs_votes vs2)) (\<lambda>votes.
                        Return (True, conflicting, vs2\<lparr>vs_maj23 := Some (v_BlockID vote), vs_votes := votes\<rparr>))
                   else Return (True, conflicting, vs2))))"

definition addVote ::
    "crypto_env \<Rightarrow> VoteSet \<Rightarrow> Vote option \<Rightarrow> ('e, bool \<times> vote_error option \<times> VoteSet) outcome" where
  "addVote env vs ovote =
     (case ovote of None \<Rightarrow> Return (False, Some ErrVoteNil, vs)
      | Some vote \<Rightarrow>
          let valIndex = v_ValidatorIndex vote; valAddr = v_ValidatorAddress vote;
              blockKey = bid_Key (v_BlockID vote)
          in if valIndex < 0 then Return (False, Some ErrVoteInvalidValidatorIndex, vs)
             else if length valAddr = 0 then Return (False, Some ErrVoteInvalidValidatorAddress, vs)
             else if v_Height vote \<noteq> vs_height vs \<or> v_Round vote \<noteq> vs_round vs \<or> v_Type vote \<noteq> vs_type vs
             then Return (False, Some ErrVoteUnexpectedStep, vs)
             else case GetByIndex (vs_valSet vs) valIndex of
               None \<Rightarrow> Return (False, Some ErrVoteInvalidValidatorIndex, vs)
             | Some (lookupAddr, val) \<Rightarrow>
                 if valAddr \<noteq> lookupAddr then Return (False, Some ErrVoteInvalidValidatorAddress, vs)
                 else bind_o (vs_getVote vs valIndex blockKey) (\<lambda>known.
                   case known of
                     Some existing \<Rightarrow>
                       if v_Signature existing = v_Signature vote then Return (False, None, vs)
                       else Return (False, Some ErrVoteNonDeterministicSignature, vs)
                   | None \<Rightarrow>
                       (case PubKey val of None \<Rightarrow> Panic
                        | Some pk \<Rightarrow>
                            bind_o (vote_Verify env (vs_chainID vs) vote pk) (\<lambda>err.
                            case err of Some e \<Rightarrow> Return (False, Some e, vs)
                            | None \<Rightarrow>
                                bind_o (addVerifiedVote vs vote blockKey (VotingPower val)) (\<lambda>(added, conflicting, vs').
                                case conflicting of
                                  Some c \<Rightarrow> Return (added, Some (ErrVoteConflictingVotes c vote), vs')
                                | None \<Rightarrow> if \<not> added then Panic else Return (added, None, vs'))))))"

definition AddVote ::
    "crypto_env \<Rightarrow> VoteSet option \<Rightarrow> Vote option \<Rightarrow> ('e, bool \<times> vote_error option \<times> VoteSet) outcome" where
  "AddVote env ovs ovote = (case ovs of None \<Rightarrow> Panic | Some vs \<Rightarrow> addVote env vs ovote)"

definition SetPeerMaj23 :: "VoteSet \<Rightarrow> string \<Rightarrow> BlockID \<Rightarrow> bool \<times> VoteSet" where
  \<comment> \<open>True: no error\<close>
  "SetPeerMaj23 vs peerID blockID =
     (case gm_get (vs_peerMaj23s vs) peerID of
        Some existing \<Rightarrow> (bid_Equals existing blockID, vs)
      | None \<Rightarrow>
          let vs1 = vs\<lparr>vs_peerMaj23s := gm_put peerID blockID (vs_peerMaj23s vs)\<rparr>;
              blockKey = bid_Key blockID
          in case gm_get (vs_byBlock vs1) blockKey of
               Some bv \<Rightarrow>
                 if bv_peerMaj23 bv then (True, vs1)
                 else (True, vs1\<lparr>vs_byBlock := gm_put blockKey (bv\<lparr>bv_peerMaj23 := True\<rparr>) (vs_byBlock vs1)\<rparr>)
             | None \<Rightarrow>
                 (True, vs1\<lparr>vs_byBlock :=
                    gm_put blockKey (newBlockVotes True (vals_Size (vs_valSet vs1))) (vs_byBlock vs1)\<rparr>))"

section \<open>Queries\<close>

text \<open>A query may fill the cached total of the validator set, which no result depends on; the
  model of a query returns its answer only.\<close>

definition vs_BitArray :: "VoteSet option \<Rightarrow> bit_array option" where
  "vs_BitArray ovs = (case ovs of None \<Rightarrow> None | Some vs \<Rightarrow> vs_bits vs)"

definition BitArrayByBlockID :: "VoteSet option \<Rightarrow> BlockID \<Rightarrow> bit_array option" where
  "BitArrayByBlockID ovs blockID =
     (case ovs of None \<Rightarrow> None
      | Some vs \<Rightarrow> (case gm_get (vs_byBlock vs) (bid_Key blockID) of None \<Rightarrow> None | Some bv \<Rightarrow> bv_bitArray bv))"

definition vs_GetByIndex :: "VoteSet option \<Rightarrow> int \<Rightarrow> ('e, Vote option) outcome" where
  "vs_GetByIndex ovs valIndex = (case ovs of None \<Rightarrow> Return None | Some vs \<Rightarrow> nth_go (vs_votes vs) valIndex)"

definition vs_List :: "VoteSet option \<Rightarrow> Vote list" where
  "vs_List ovs = (case ovs of None \<Rightarrow> [] | Some vs \<Rightarrow> map the (filter (\<lambda>v. v \<noteq> None) (vs_votes vs)))"

definition vs_GetByAddress :: "VoteSet option \<Rightarrow> address \<Rightarrow> ('e, Vote option) outcome" where
  "vs_GetByAddress ovs a =
     (case ovs of None \<Rightarrow> Return None
      | Some vs \<Rightarrow>
          (case GetByAddress (vs_valSet vs) a of
             (_, None) \<Rightarrow> Panic
           | (valIndex, Some _) \<Rightarrow> nth_go (vs_votes vs) valIndex))"

definition HasTwoThirdsMajority :: "VoteSet option \<Rightarrow> bool" where
  "HasTwoThirdsMajority ovs = (case ovs of None \<Rightarrow> False | Some vs \<Rightarrow> vs_maj23 vs \<noteq> None)"

definition vs_IsCommit :: "VoteSet option \<Rightarrow> bool" where
  "vs_IsCommit ovs =
     (case ovs of None \<Rightarrow> False | Some vs \<Rightarrow> if vs_type vs \<noteq> PrecommitType then False else vs_maj23 vs \<noteq> None)"

definition HasTwoThirdsAny :: "VoteSet option \<Rightarrow> ('e, bool) outcome" where
  "HasTwoThirdsAny ovs =
     (case ovs of None \<Rightarrow> Return False
      | Some vs \<Rightarrow> bind_o (TotalVotingPower (vs_valSet vs)) (\<lambda>(total, _).
                    Return (vs_sum vs > i64 (total * 2) sdiv 3)))"

definition HasAll :: "VoteSet option \<Rightarrow> ('e, bool) outcome" where
  "HasAll ovs =
     (case ovs of None \<Rightarrow> Return False
      | Some vs \<Rightarrow> bind_o (TotalVotingPower (vs_valSet vs)) (\<lambda>(total, _). Return (vs_sum vs = total)))"

definition TwoThirdsMajority :: "VoteSet option \<Rightarrow> BlockID \<times> bool" where
  "TwoThirdsMajority ovs =
     (case ovs of None \<Rightarrow> (zero_bid, False)
      | Some vs \<Rightarrow> (case vs_maj23 vs of Some b \<Rightarrow> (b, True) | None \<Rightarrow> (zero_bid, False)))"

fun commit_sigs_loop :: "Vote option list \<Rightarrow> BlockID \<Rightarrow> ('e, CommitSig list) outcome" where
  "commit_sigs_loop [] maj = Return []"
| "commit_sigs_loop (v # vs) maj =
     bind_o (vote_CommitSig v) (\<lambda>cs.
     let cs' = (if cs_ForBlock cs \<and> (case v of None \<Rightarrow> False | Some w \<Rightarrow> \<not> bid_Equals (v_BlockID w) maj)
                then NewCommitSigAbsent else cs)
     in bind_o (commit_sigs_loop vs maj) (\<lambda>css. Return (cs' # css)))"

definition MakeCommit :: "VoteSet \<Rightarrow> ('e, Commit) outcome" where
  "MakeCommit vs =
     (if vs_type vs \<noteq> PrecommitType then Panic
      else case vs_maj23 vs of None \<Rightarrow> Panic
      | Some maj \<Rightarrow>
          bind_o (commit_sigs_loop (vs_votes vs) maj) (\<lambda>css.
          Return \<lparr>c_Height = vs_height vs, c_Round = vs_round vs, c_BlockID = maj, c_Signatures = css\<rparr>))"

section \<open>Power behind a list of votes\<close>

declare not_None_eq [iff del]

definition voted_power :: "validator list \<Rightarrow> Vote option list \<Rightarrow> int" where
  "voted_power vals votes = (\<Sum>i \<in> {i. i < length vals \<and> votes ! i \<noteq> None}. VotingPower (vals ! i))"

definition bits_rep :: "nat \<Rightarrow> bit_array option \<Rightarrow> Vote option list \<Rightarrow> bool" where
  \<comment> \<open>the bit array says which entries of the list are not nil\<close>
  "bits_rep n ob votes \<longleftrightarrow>
     (\<exists>b. ob = Some b \<and> ba_wf b \<and> Bits b = int n \<and> (\<forall>i<n. ba_get b i = (votes ! i \<noteq> None)))"

lemma voted_power_none [simp]: "voted_power vals (replicate (length vals) None) = 0"
proof -
  have "{i. i < length vals \<and> replicate (length vals) (None :: Vote option) ! i \<noteq> None} = {}" by auto
  then show ?thesis unfolding voted_power_def by (simp only: sum.empty)
qed

lemma voted_power_new:
  assumes "i < length vals" "length votes = length vals" "votes ! i = None"
  shows "voted_power vals (votes[i := Some v]) = voted_power vals votes + VotingPower (vals ! i)"
proof -
  have "{j. j < length vals \<and> votes[i := Some v] ! j \<noteq> None} = insert i {j. j < length vals \<and> votes ! j \<noteq> None}"
    using assms by (auto simp: nth_list_update)
  then show ?thesis using assms(3) by (simp add: voted_power_def)
qed

lemma voted_power_cong:
  assumes "\<And>j. j < length vals \<Longrightarrow> (votes ! j = None) = (votes' ! j = None)"
  shows "voted_power vals votes = voted_power vals votes'"
proof -
  have "{j. j < length vals \<and> votes ! j \<noteq> None} = {j. j < length vals \<and> votes' ! j \<noteq> None}"
    using assms by auto
  then show ?thesis by (simp add: voted_power_def)
qed

lemma voted_power_bounds:
  assumes "vals_wf vals"
  shows "0 \<le> voted_power (Validators vals) votes" "voted_power (Validators vals) votes \<le> sum_list (pws vals)"
proof -
  have nn: "0 \<le> VotingPower (Validators vals ! i)" if "i < length (Validators vals)" for i
    using assms nth_mem [OF that] by (auto simp: vals_wf_def intro: order.strict_implies_order)
  then show "0 \<le> voted_power (Validators vals) votes" unfolding voted_power_def by (intro sum_nonneg) auto
  have "voted_power (Validators vals) votes \<le> (\<Sum>i<length (Validators vals). VotingPower (Validators vals ! i))"
    unfolding voted_power_def using nn by (intro sum_mono2) auto
  then show "voted_power (Validators vals) votes \<le> sum_list (pws vals)"
    by (simp add: sum_list_sum_nth atLeast0LessThan)
qed

lemma voted_power_i64:
  assumes "vals_wf vals"
  shows "is_i64 (voted_power (Validators vals) votes)"
proof -
  note b = voted_power_bounds [OF assms, of votes] vals_wf_power(2) [OF assms]
  show ?thesis by (rule is_i64I) (use b in linarith)+
qed

lemma bits_rep_new:
  assumes "0 < n"
  shows "bits_rep n (NewBitArray (int n)) (replicate n None)"
proof -
  obtain b where "NewBitArray (int n) = Some b" "ba_wf b" "Bits b = int n" "\<And>i. i < nat (int n) \<Longrightarrow> \<not> ba_get b i"
    using NewBitArray_spec [of "int n"] assms by auto
  then show ?thesis by (auto simp: bits_rep_def)
qed

lemma bits_rep_set:
  assumes "bits_rep n ob votes" "i < n" "length votes = n"
  obtains b' where "SetIndex ob (int i) True = (Return (True, Some b') :: ('e, _) outcome)"
    "bits_rep n (Some b') (votes[i := Some v])"
proof -
  obtain b where b: "ob = Some b" "ba_wf b" "Bits b = int n" "\<forall>j<n. ba_get b j = (votes ! j \<noteq> None)"
    using assms(1) by (auto simp: bits_rep_def)
  have i: "i < nat (Bits b)" using b(3) assms(2) by simp
  have "SetIndex ob (int i) True = (Return (True, Some (put_bit b i True)) :: ('e, _) outcome)"
    by (simp add: SetIndex_def b(1) setIndex_in [OF b(2) i])
  moreover have "bits_rep n (Some (put_bit b i True)) (votes[i := Some v])"
    using b assms by (auto simp: bits_rep_def ba_get_put_bit [OF b(2) i] nth_list_update)
  ultimately show thesis by (rule that)
qed

lemma bits_rep_cong:
  "bits_rep n ob votes \<Longrightarrow> (\<And>j. j < n \<Longrightarrow> (votes ! j = None) = (votes' ! j = None)) \<Longrightarrow> bits_rep n ob votes'"
  by (auto simp: bits_rep_def)

section \<open>The invariant\<close>

definition valid_at :: "crypto_env \<Rightarrow> VoteSet \<Rightarrow> nat \<Rightarrow> Vote \<Rightarrow> bool" where
  \<comment> \<open>a vote of validator i for this height, round and type, with a valid signature\<close>
  "valid_at env vs i v \<longleftrightarrow>
     i < length (Validators (vs_valSet vs)) \<and> v_ValidatorIndex v = int i
     \<and> v_Height v = vs_height vs \<and> v_Round v = vs_round vs \<and> v_Type v = vs_type vs
     \<and> v_ValidatorAddress v = Address (Validators (vs_valSet vs) ! i) \<and> v_ValidatorAddress v \<noteq> [] \<and> bid_ok (v_BlockID v)
     \<and> (\<exists>pk. PubKey (Validators (vs_valSet vs) ! i) = Some pk
          \<and> vote_Verify env (vs_chainID vs) v pk = (Return None :: (unit, _) outcome))"

definition quorum_power :: "VoteSet \<Rightarrow> int" where
  "quorum_power vs = sum_list (pws (vs_valSet vs)) * 2 div 3 + 1"

definition bv_inv :: "crypto_env \<Rightarrow> VoteSet \<Rightarrow> bytes \<Rightarrow> blockVotes \<Rightarrow> bool" where
  "bv_inv env vs key bv \<longleftrightarrow>
     length (bv_votes bv) = length (Validators (vs_valSet vs))
     \<and> bits_rep (length (Validators (vs_valSet vs))) (bv_bitArray bv) (bv_votes bv)
     \<and> bv_sum bv = voted_power (Validators (vs_valSet vs)) (bv_votes bv)
     \<and> (\<forall>i v. i < length (bv_votes bv) \<and> bv_votes bv ! i = Some v \<longrightarrow>
          valid_at env vs i v \<and> bid_Key (v_BlockID v) = key)"

definition core_inv :: "crypto_env \<Rightarrow> VoteSet \<Rightarrow> bool" where
  "core_inv env vs \<longleftrightarrow>
     vals_wf (vs_valSet vs) \<and> (\<forall>v \<in> set (Validators (vs_valSet vs)). PubKey v \<noteq> None)
     \<and> length (vs_votes vs) = length (Validators (vs_valSet vs))
     \<and> bits_rep (length (Validators (vs_valSet vs))) (vs_bits vs) (vs_votes vs)
     \<and> vs_sum vs = voted_power (Validators (vs_valSet vs)) (vs_votes vs)
     \<and> (\<forall>i v. i < length (vs_votes vs) \<and> vs_votes vs ! i = Some v \<longrightarrow> valid_at env vs i v)
     \<and> (\<forall>key bv. gm_get (vs_byBlock vs) key = Some bv \<longrightarrow>
          bv_inv env vs key bv
          \<and> (\<forall>i < length (bv_votes bv). bv_votes bv ! i \<noteq> None \<longrightarrow> vs_votes vs ! i \<noteq> None))"

definition maj_inv :: "VoteSet \<Rightarrow> bool" where
  "maj_inv vs \<longleftrightarrow>
     (case vs_maj23 vs of
        None \<Rightarrow> \<forall>key bv. gm_get (vs_byBlock vs) key = Some bv \<longrightarrow> bv_sum bv < quorum_power vs
      | Some b \<Rightarrow>
          bid_ok b
          \<and> (\<exists>bv. gm_get (vs_byBlock vs) (bid_Key b) = Some bv \<and> quorum_power vs \<le> bv_sum bv
               \<and> (\<forall>i < length (bv_votes bv). bv_votes bv ! i \<noteq> None \<longrightarrow>
                    (\<exists>v. vs_votes vs ! i = Some v \<and> v_BlockID v = b))))"

definition vs_inv :: "crypto_env \<Rightarrow> VoteSet \<Rightarrow> bool" where
  "vs_inv env vs \<longleftrightarrow> core_inv env vs \<and> maj_inv vs"

definition same_step :: "VoteSet \<Rightarrow> VoteSet \<Rightarrow> bool" where
  \<comment> \<open>the same chain, height, round, type and validators\<close>
  "same_step vs vs' \<longleftrightarrow>
     vs_chainID vs' = vs_chainID vs \<and> vs_height vs' = vs_height vs \<and> vs_round vs' = vs_round vs
     \<and> vs_type vs' = vs_type vs \<and> Validators (vs_valSet vs') = Validators (vs_valSet vs)"

lemma valid_at_same: "same_step vs vs' \<Longrightarrow> valid_at env vs' i v = valid_at env vs i v"
  by (simp add: valid_at_def same_step_def)

lemma bv_inv_same: "same_step vs vs' \<Longrightarrow> bv_inv env vs' key bv = bv_inv env vs key bv"
  by (simp add: bv_inv_def valid_at_same) (simp add: same_step_def)

lemma quorum_same: "same_step vs vs' \<Longrightarrow> quorum_power vs' = quorum_power vs"
  by (simp add: quorum_power_def same_step_def)

section \<open>What the steps keep\<close>

lemma core_invD:
  assumes "core_inv env vs"
  shows "vals_wf (vs_valSet vs)" "\<forall>v \<in> set (Validators (vs_valSet vs)). PubKey v \<noteq> None"
    "length (vs_votes vs) = length (Validators (vs_valSet vs))"
    "bits_rep (length (Validators (vs_valSet vs))) (vs_bits vs) (vs_votes vs)"
    "vs_sum vs = voted_power (Validators (vs_valSet vs)) (vs_votes vs)"
    "i < length (vs_votes vs) \<Longrightarrow> vs_votes vs ! i = Some v \<Longrightarrow> valid_at env vs i v"
    "gm_get (vs_byBlock vs) key = Some bv \<Longrightarrow> bv_inv env vs key bv"
    "gm_get (vs_byBlock vs) key = Some bv \<Longrightarrow> i < length (bv_votes bv) \<Longrightarrow> bv_votes bv ! i \<noteq> None
       \<Longrightarrow> vs_votes vs ! i \<noteq> None"
  using assms unfolding core_inv_def by blast+

lemma bv_invD:
  assumes "bv_inv env vs key bv"
  shows "length (bv_votes bv) = length (Validators (vs_valSet vs))"
    "bits_rep (length (Validators (vs_valSet vs))) (bv_bitArray bv) (bv_votes bv)"
    "bv_sum bv = voted_power (Validators (vs_valSet vs)) (bv_votes bv)"
    "i < length (bv_votes bv) \<Longrightarrow> bv_votes bv ! i = Some v \<Longrightarrow> valid_at env vs i v \<and> bid_Key (v_BlockID v) = key"
  using assms unfolding bv_inv_def by blast+

lemma core_inv_votes:
  assumes inv: "core_inv env vs" and len: "length votes = length (Validators (vs_valSet vs))"
    and bits: "bits_rep (length (Validators (vs_valSet vs))) ob votes"
    and valid: "\<And>i v. i < length votes \<Longrightarrow> votes ! i = Some v \<Longrightarrow> valid_at env vs i v"
    and more: "\<And>i. i < length votes \<Longrightarrow> vs_votes vs ! i \<noteq> None \<Longrightarrow> votes ! i \<noteq> None"
    and vs': "vs' = vs\<lparr>vs_votes := votes, vs_bits := ob,
       vs_sum := voted_power (Validators (vs_valSet vs)) votes, vs_maj23 := m\<rparr>"
  shows "core_inv env vs'"
proof -
  have same: "same_step vs vs'" by (simp add: same_step_def vs')
  have bvs: "bv_inv env vs' key bv \<and> (\<forall>i < length (bv_votes bv). bv_votes bv ! i \<noteq> None \<longrightarrow> votes ! i \<noteq> None)"
    if "gm_get (vs_byBlock vs) key = Some bv" for key bv
  proof -
    have b: "bv_inv env vs key bv" by (rule core_invD(7) [OF inv that])
    moreover have "votes ! i \<noteq> None" if "i < length (bv_votes bv)" "bv_votes bv ! i \<noteq> None" for i
      using more [of i] core_invD(8) [OF inv \<open>gm_get (vs_byBlock vs) key = Some bv\<close> that] that
        bv_invD(1) [OF b] len by simp
    ultimately show ?thesis using bv_inv_same [OF same] by blast
  qed
  show ?thesis unfolding core_inv_def
    using core_invD(1,2) [OF inv] len bits valid bvs valid_at_same [OF same] by (simp add: vs')
qed

lemma core_inv_block:
  assumes inv: "core_inv env vs" and bv: "bv_inv env vs key bv"
    and sub: "\<And>i. i < length (bv_votes bv) \<Longrightarrow> bv_votes bv ! i \<noteq> None \<Longrightarrow> vs_votes vs ! i \<noteq> None"
    and vals: "vals_wf valSet" "Validators valSet = Validators (vs_valSet vs)"
    and vs': "vs' = vs\<lparr>vs_valSet := valSet, vs_byBlock := gm_put key bv (vs_byBlock vs)\<rparr>"
  shows "core_inv env vs'"
proof -
  have same: "same_step vs vs'" using vals by (simp add: same_step_def vs')
  have "bv_inv env vs' k b \<and> (\<forall>i < length (bv_votes b). bv_votes b ! i \<noteq> None \<longrightarrow> vs_votes vs ! i \<noteq> None)"
    if "gm_get (gm_put key bv (vs_byBlock vs)) k = Some b" for k b
  proof (cases "k = key")
    case True
    then show ?thesis using that bv sub bv_inv_same [OF same] by simp
  next
    case False
    then have "gm_get (vs_byBlock vs) k = Some b" using that by simp
    then show ?thesis using core_invD(7,8) [OF inv] bv_inv_same [OF same] by blast
  qed
  then show ?thesis unfolding core_inv_def
    using core_invD(1-6) [OF inv] vals valid_at_same [OF same] by (simp add: vs')
qed

lemma newBlockVotes_inv:
  assumes "vals_wf (vs_valSet vs)"
  shows "bv_inv env vs key (newBlockVotes p (vals_Size (vs_valSet vs)))"
    "bv_votes (newBlockVotes p (vals_Size (vs_valSet vs))) = replicate (length (Validators (vs_valSet vs))) None"
proof -
  have "0 < length (Validators (vs_valSet vs))" using assms by (simp add: vals_wf_def)
  from bits_rep_new [OF this]
  show "bv_inv env vs key (newBlockVotes p (vals_Size (vs_valSet vs)))"
    by (auto simp: bv_inv_def newBlockVotes_def vals_Size_def)
  show "bv_votes (newBlockVotes p (vals_Size (vs_valSet vs))) = replicate (length (Validators (vs_valSet vs))) None"
    by (simp add: newBlockVotes_def vals_Size_def)
qed

lemma bv_add_inv:
  assumes wf: "vals_wf (vs_valSet vs)" and bv: "bv_inv env vs key bv" and v: "valid_at env vs i v"
    and key: "bid_Key (v_BlockID v) = key" and none: "bv_votes bv ! i = None"
    and p: "p = VotingPower (Validators (vs_valSet vs) ! i)"
  obtains bv' where "bv_addVerifiedVote bv v p = (Return bv' :: ('e, _) outcome)" "bv_inv env vs key bv'"
    "bv_votes bv' = (bv_votes bv)[i := Some v]" "bv_sum bv' = bv_sum bv + p"
proof -
  note D = bv_invD [OF bv]
  have i: "i < length (Validators (vs_valSet vs))" "v_ValidatorIndex v = int i" using v by (auto simp: valid_at_def)
  obtain b' where b': "SetIndex (bv_bitArray bv) (int i) True = (Return (True, Some b') :: ('e, _) outcome)"
      "bits_rep (length (Validators (vs_valSet vs))) (Some b') ((bv_votes bv)[i := Some v])"
    by (rule bits_rep_set [OF D(2) i(1) D(1), where 'e = 'e])
  have vp: "voted_power (Validators (vs_valSet vs)) ((bv_votes bv)[i := Some v]) = bv_sum bv + p"
    using voted_power_new [OF i(1) D(1) none] D(3) p by simp
  have "is_i64 (bv_sum bv + p)" unfolding vp [symmetric]
    by (rule voted_power_i64 [OF wf])
  then have s: "i64 (bv_sum bv + p) = bv_sum bv + p" by simp
  define bv' where "bv' = bv\<lparr>bv_bitArray := Some b', bv_votes := (bv_votes bv)[i := Some v], bv_sum := bv_sum bv + p\<rparr>"
  have e: "bv_addVerifiedVote bv v p = (Return bv' :: ('e, _) outcome)"
    using i D(1) none b'(1) s by (simp add: bv_addVerifiedVote_def bv'_def)
  have "valid_at env vs j w \<and> bid_Key (v_BlockID w) = key"
    if "j < length (bv_votes bv)" "(bv_votes bv)[i := Some v] ! j = Some w" for j w
    using that D(4) [of j w] v key D(1) i by (cases "j = i") auto
  then have "bv_inv env vs key bv'" unfolding bv_inv_def using D(1) b'(2) vp by (auto simp: bv'_def)
  then show thesis using that [OF e] by (simp add: bv'_def)
qed

lemma copy_votes_eq:
  "length src = length dst \<Longrightarrow>
     copy_votes src dst = Return (map2 (\<lambda>s d. case s of None \<Rightarrow> d | Some v \<Rightarrow> Some v) src dst)"
  by (induction src dst rule: copy_votes.induct) auto

lemma set_primary_ok:
  assumes inv: "core_inv env vs" and v: "valid_at env vs i v"
  obtains b' where
    "set_primary vs v = (Return (vs\<lparr>vs_votes := (vs_votes vs)[i := Some v], vs_bits := Some b'\<rparr>) :: ('e, _) outcome)"
    "bits_rep (length (Validators (vs_valSet vs))) (Some b') ((vs_votes vs)[i := Some v])"
proof -
  note D = core_invD [OF inv]
  have i: "i < length (Validators (vs_valSet vs))" "v_ValidatorIndex v = int i" using v by (auto simp: valid_at_def)
  obtain b' where b': "SetIndex (vs_bits vs) (int i) True = (Return (True, Some b') :: ('e, _) outcome)"
      "bits_rep (length (Validators (vs_valSet vs))) (Some b') ((vs_votes vs)[i := Some v])"
    by (rule bits_rep_set [OF D(4) i(1) D(3), where 'e = 'e])
  have "set_primary vs v = (Return (vs\<lparr>vs_votes := (vs_votes vs)[i := Some v], vs_bits := Some b'\<rparr>) :: ('e, _) outcome)"
    using i D(3) b'(1) by (simp add: set_primary_def)
  then show thesis using that b'(2) by blast
qed

lemma core_inv_put:
  assumes inv: "core_inv env vs" and v: "valid_at env vs i v"
    and bits: "bits_rep (length (Validators (vs_valSet vs))) (Some b') ((vs_votes vs)[i := Some v])"
    and vs': "vs' = vs\<lparr>vs_votes := (vs_votes vs)[i := Some v], vs_bits := Some b',
       vs_sum := voted_power (Validators (vs_valSet vs)) ((vs_votes vs)[i := Some v])\<rparr>"
  shows "core_inv env vs'"
proof -
  note D = core_invD [OF inv]
  have i: "i < length (Validators (vs_valSet vs))" using v by (auto simp: valid_at_def)
  show ?thesis
  proof (rule core_inv_votes [OF inv _ bits])
    show "length ((vs_votes vs)[i := Some v]) = length (Validators (vs_valSet vs))" using D(3) by simp
    show "valid_at env vs j w" if "j < length ((vs_votes vs)[i := Some v])" "(vs_votes vs)[i := Some v] ! j = Some w" for j w
      using that D(6) [of j w] v D(3) i by (cases "j = i") auto
    show "(vs_votes vs)[i := Some v] ! j \<noteq> None" if "j < length ((vs_votes vs)[i := Some v])" "vs_votes vs ! j \<noteq> None" for j
      using that by (cases "j = i") auto
    show "vs' = vs\<lparr>vs_votes := (vs_votes vs)[i := Some v], vs_bits := Some b',
       vs_sum := voted_power (Validators (vs_valSet vs)) ((vs_votes vs)[i := Some v]), vs_maj23 := vs_maj23 vs\<rparr>"
      by (simp add: vs')
  qed
qed

text \<open>The primary list after the first half of \<open>addVerifiedVote\<close>, with the cases of the code.\<close>

lemma primary_vote_spec:
  assumes inv: "vs_inv env vs" and v: "valid_at env vs i v"
    and fresh: "\<And>e. vs_votes vs ! i = Some e \<Longrightarrow> bid_Key (v_BlockID e) \<noteq> bid_Key (v_BlockID v)"
    and p: "p = VotingPower (Validators (vs_valSet vs) ! i)"
  obtains c vs1 where "primary_vote vs v (bid_Key (v_BlockID v)) p = (Return (c, vs1) :: ('e, _) outcome)"
    "c = vs_votes vs ! i" "vs_inv env vs1" "same_step vs vs1" "vs_byBlock vs1 = vs_byBlock vs"
    "vs_maj23 vs1 = vs_maj23 vs" "vs_valSet vs1 = vs_valSet vs" "vs_votes vs1 ! i \<noteq> None"
    "c = None \<or> vs_maj23 vs = Some (v_BlockID v) \<Longrightarrow> vs_votes vs1 ! i = Some v"
    "\<And>j. j \<noteq> i \<Longrightarrow> vs_votes vs1 ! j = vs_votes vs ! j"
proof -
  have core: "core_inv env vs" and maj: "maj_inv vs" using inv by (auto simp: vs_inv_def)
  note D = core_invD [OF core]
  have i: "i < length (Validators (vs_valSet vs))" "v_ValidatorIndex v = int i" "bid_ok (v_BlockID v)"
    using v by (auto simp: valid_at_def)
  have nth: "nth_go (vs_votes vs) (v_ValidatorIndex v) = (Return (vs_votes vs ! i) :: ('e, _) outcome)"
    using i D(3) by simp
  obtain b' where sp: "set_primary vs v = (Return (vs\<lparr>vs_votes := (vs_votes vs)[i := Some v], vs_bits := Some b'\<rparr>) :: ('e, _) outcome)"
    and rep: "bits_rep (length (Validators (vs_valSet vs))) (Some b') ((vs_votes vs)[i := Some v])"
    by (rule set_primary_ok [OF core v, where 'e = 'e])
  define vs1 where "vs1 = vs\<lparr>vs_votes := (vs_votes vs)[i := Some v], vs_bits := Some b',
      vs_sum := voted_power (Validators (vs_valSet vs)) ((vs_votes vs)[i := Some v])\<rparr>"
  have core1: "core_inv env vs1" by (rule core_inv_put [OF core v rep vs1_def])
  have same1: "same_step vs vs1" by (simp add: same_step_def vs1_def)
  have maj1: "maj_inv vs1" if new: "vs_votes vs ! i = None \<or> vs_maj23 vs = Some (v_BlockID v)"
  proof (cases "vs_maj23 vs")
    case None
    then show ?thesis using maj quorum_same [OF same1] by (simp add: maj_inv_def vs1_def)
  next
    case (Some b)
    then obtain bv where bv: "bid_ok b" "gm_get (vs_byBlock vs) (bid_Key b) = Some bv" "quorum_power vs \<le> bv_sum bv"
        "\<forall>j < length (bv_votes bv). bv_votes bv ! j \<noteq> None \<longrightarrow> (\<exists>w. vs_votes vs ! j = Some w \<and> v_BlockID w = b)"
      using maj by (auto simp: maj_inv_def)
    have "\<exists>w. (vs_votes vs)[i := Some v] ! j = Some w \<and> v_BlockID w = b"
      if j: "j < length (bv_votes bv)" "bv_votes bv ! j \<noteq> None" for j
      using j bv(4) new Some i D(3) by (cases "j = i") auto
    then show ?thesis using Some bv quorum_same [OF same1] by (simp add: maj_inv_def vs1_def)
  qed
  show thesis
  proof (cases "vs_votes vs ! i")
    case None
    have "i64 (vs_sum vs + p) = voted_power (Validators (vs_valSet vs)) ((vs_votes vs)[i := Some v])"
      using voted_power_new [OF i(1) D(3) None, of v] voted_power_i64 [OF D(1), of "(vs_votes vs)[i := Some v]"] D(5) p
      by simp
    then have "primary_vote vs v (bid_Key (v_BlockID v)) p = (Return (None, vs1) :: ('e, _) outcome)"
      using nth None sp by (simp add: primary_vote_def vs1_def)
    then show thesis
      using that None core1 maj1 same1 i D(3) by (simp add: vs_inv_def vs1_def)
  next
    case (Some e)
    have ne: "v_BlockID e \<noteq> v_BlockID v" using fresh [OF Some] by auto
    show thesis
    proof (cases "vs_maj23 vs = Some (v_BlockID v)")
      case True
      have "voted_power (Validators (vs_valSet vs)) ((vs_votes vs)[i := Some v]) = vs_sum vs"
        unfolding D(5) using Some i(1) D(3) by (intro voted_power_cong) (auto simp: nth_list_update)
      then have "primary_vote vs v (bid_Key (v_BlockID v)) p = (Return (Some e, vs1) :: ('e, _) outcome)"
        using nth Some sp True ne by (simp add: primary_vote_def vs1_def)
      then show thesis
        using that Some core1 maj1 True same1 i D(3) by (simp add: vs_inv_def vs1_def)
    next
      case False
      have "\<not> (case vs_maj23 vs of None \<Rightarrow> False | Some m \<Rightarrow> bid_Key m = bid_Key (v_BlockID v))"
        using False maj i(3) bid_Key_inj by (auto simp: maj_inv_def split: option.splits)
      then have e: "primary_vote vs v (bid_Key (v_BlockID v)) p = (Return (Some e, vs) :: ('e, _) outcome)"
        using nth Some ne by (simp add: primary_vote_def)
      show thesis by (rule that [OF e]) (use Some inv False in \<open>simp_all add: same_step_def\<close>)
    qed
  qed
qed

lemma quorum_i64:
  assumes "vals_wf vals"
  shows "i64 (i64 (sum_list (pws vals) * 2) sdiv 3 + 1) = sum_list (pws vals) * 2 div 3 + 1"
proof -
  note T = vals_wf_power(1,2) [OF assms]
  have "i64 (sum_list (pws vals) * 2) = sum_list (pws vals) * 2" using T by (intro i64_id is_i64I) auto
  moreover have "(sum_list (pws vals) * 2) sdiv 3 = sum_list (pws vals) * 2 div 3" using T by (simp add: sdiv_pos)
  moreover have "i64 (sum_list (pws vals) * 2 div 3 + 1) = sum_list (pws vals) * 2 div 3 + 1"
    using T by (intro i64_id is_i64I) linarith+
  ultimately show ?thesis by simp
qed

lemma vals_wf_cached:
  "vals_wf vals \<Longrightarrow> vals_wf (vals\<lparr>totalVotingPower := sum_list (pws vals)\<rparr>)"
  by (simp add: vals_wf_def)

text \<open>Entering a vote into the tally of its block, and noticing that the tally is a majority.\<close>

lemma tally_spec:
  assumes inv: "vs_inv env vs1" and v: "valid_at env vs1 i v"
    and bv: "bv_inv env vs1 (bid_Key (v_BlockID v)) bv" "bv_votes bv ! i = None"
    and tr: "gm_get (vs_byBlock vs1) (bid_Key (v_BlockID v)) = Some bv
       \<or> (gm_get (vs_byBlock vs1) (bid_Key (v_BlockID v)) = None \<and> bv_votes bv = replicate (length (bv_votes bv)) None)"
    and pres: "vs_votes vs1 ! i \<noteq> None" "vs_maj23 vs1 = Some (v_BlockID v) \<Longrightarrow> vs_votes vs1 ! i = Some v"
    and p: "p = VotingPower (Validators (vs_valSet vs1) ! i)"
    and bv': "bv_addVerifiedVote bv v p = (Return bv' :: ('e, _) outcome)" "bv_inv env vs1 (bid_Key (v_BlockID v)) bv'"
      "bv_votes bv' = (bv_votes bv)[i := Some v]" "bv_sum bv' = bv_sum bv + p"
    and vs2: "vs2 = vs1\<lparr>vs_valSet := (vs_valSet vs1)\<lparr>totalVotingPower := sum_list (pws (vs_valSet vs1))\<rparr>,
       vs_byBlock := gm_put (bid_Key (v_BlockID v)) bv' (vs_byBlock vs1)\<rparr>"
  shows "core_inv env vs2" "vs_maj23 vs1 = Some b \<Longrightarrow> maj_inv vs2"
    "vs_maj23 vs1 = None \<Longrightarrow> bv_sum bv' < quorum_power vs1 \<Longrightarrow> maj_inv vs2"
    "same_step vs1 vs2"
proof -
  have core: "core_inv env vs1" and maj: "maj_inv vs1" using inv by (auto simp: vs_inv_def)
  note D = core_invD [OF core]
  let ?k = "bid_Key (v_BlockID v)"
  have sub: "vs_votes vs1 ! j \<noteq> None" if j: "j < length (bv_votes bv')" "bv_votes bv' ! j \<noteq> None" for j
  proof (cases "j = i")
    case False
    then have old: "bv_votes bv ! j \<noteq> None" "j < length (bv_votes bv)" using j bv'(3) by auto
    from tr show ?thesis
    proof
      assume "gm_get (vs_byBlock vs1) ?k = Some bv"
      then show ?thesis using D(8) old by blast
    next
      assume "gm_get (vs_byBlock vs1) ?k = None \<and> bv_votes bv = replicate (length (bv_votes bv)) None"
      then show ?thesis using old by (metis nth_replicate)
    qed
  qed (use pres in simp)
  show core2: "core_inv env vs2"
    by (rule core_inv_block [OF core bv'(2) sub vals_wf_cached [OF D(1)] _ vs2]) simp_all
  show same: "same_step vs1 vs2" by (simp add: same_step_def vs2)
  have q: "quorum_power vs2 = quorum_power vs1" by (rule quorum_same [OF same])
  have p0: "0 \<le> p"
    using D(1) v p nth_mem [of i "Validators (vs_valSet vs1)"] by (auto simp: vals_wf_def valid_at_def intro: order.strict_implies_order)
  show "maj_inv vs2" if m: "vs_maj23 vs1 = Some b"
  proof -
    obtain w where w: "bid_ok b" "gm_get (vs_byBlock vs1) (bid_Key b) = Some w" "quorum_power vs1 \<le> bv_sum w"
        "\<forall>j < length (bv_votes w). bv_votes w ! j \<noteq> None \<longrightarrow> (\<exists>x. vs_votes vs1 ! j = Some x \<and> v_BlockID x = b)"
      using maj m by (auto simp: maj_inv_def)
    show ?thesis
    proof (cases "bid_Key b = ?k")
      case True
      have b: "b = v_BlockID v" using True w(1) v bid_Key_inj by (simp add: valid_at_def)
      have wb: "w = bv" using tr w(2) True by auto
      have "\<exists>x. vs_votes vs1 ! j = Some x \<and> v_BlockID x = b"
        if "j < length (bv_votes bv')" "bv_votes bv' ! j \<noteq> None" for j
        using that w(4) pres(2) m b bv'(3) wb by (cases "j = i") auto
      then show ?thesis using True w b wb p0 bv'(4) m q by (simp add: maj_inv_def vs2)
    next
      case False
      then show ?thesis using w m q by (simp add: maj_inv_def vs2)
    qed
  qed
  show "maj_inv vs2" if "vs_maj23 vs1 = None" "bv_sum bv' < quorum_power vs1"
    using that maj q by (auto simp: maj_inv_def vs2 gm_get_put)
qed

lemma majority_spec:
  assumes core: "core_inv env vs2" and bv: "gm_get (vs_byBlock vs2) (bid_Key b) = Some bv'" and ok: "bid_ok b"
    and q: "quorum_power vs2 \<le> bv_sum bv'"
    and votes: "votes = map2 (\<lambda>s d. case s of None \<Rightarrow> d | Some v \<Rightarrow> Some v) (bv_votes bv') (vs_votes vs2)"
    and vs3: "vs3 = vs2\<lparr>vs_maj23 := Some b, vs_votes := votes\<rparr>"
  shows "vs_inv env vs3"
proof -
  note D = core_invD [OF core]
  have binv: "bv_inv env vs2 (bid_Key b) bv'" by (rule D(7) [OF bv])
  note B = bv_invD [OF binv]
  have len: "length votes = length (Validators (vs_valSet vs2))" using B(1) D(3) by (simp add: votes)
  have nth: "votes ! j = (case bv_votes bv' ! j of None \<Rightarrow> vs_votes vs2 ! j | Some v \<Rightarrow> Some v)"
    if "j < length votes" for j using that B(1) D(3) by (simp add: votes)
  have none: "(vs_votes vs2 ! j = None) = (votes ! j = None)" if "j < length votes" for j
    using nth [OF that] D(8) [OF bv, of j] that len B(1) by (auto split: option.splits)
  have core3: "core_inv env vs3"
  proof (rule core_inv_votes [OF core len, where ob = "vs_bits vs2" and m = "Some b"])
    show "bits_rep (length (Validators (vs_valSet vs2))) (vs_bits vs2) votes"
      using D(4) none len by (auto intro: bits_rep_cong)
    show "valid_at env vs2 j w" if "j < length votes" "votes ! j = Some w" for j w
      using that nth [OF that(1)] D(3) D(6) [of j w] B(1) B(4) [of j w] len by (auto split: option.splits)
    show "votes ! j \<noteq> None" if "j < length votes" "vs_votes vs2 ! j \<noteq> None" for j using none [OF that(1)] that by simp
    have "voted_power (Validators (vs_valSet vs2)) votes = vs_sum vs2"
      unfolding D(5) using none len by (intro voted_power_cong) auto
    then show "vs3 = vs2\<lparr>vs_votes := votes, vs_bits := vs_bits vs2,
       vs_sum := voted_power (Validators (vs_valSet vs2)) votes, vs_maj23 := Some b\<rparr>" by (simp add: vs3)
  qed
  have "\<exists>w. votes ! j = Some w \<and> v_BlockID w = b"
    if j: "j < length (bv_votes bv')" and w: "bv_votes bv' ! j \<noteq> None" for j
  proof -
    obtain x where x: "bv_votes bv' ! j = Some x" using w by (cases "bv_votes bv' ! j") auto
    have "valid_at env vs2 j x" "bid_Key (v_BlockID x) = bid_Key b" using B(4) [OF j x] by auto
    then have "v_BlockID x = b" using ok bid_Key_inj by (simp add: valid_at_def)
    then show ?thesis using nth [of j] x j B(1) len by simp
  qed
  moreover have "quorum_power vs3 = quorum_power vs2" by (rule quorum_same) (simp add: same_step_def vs3)
  ultimately have "maj_inv vs3" using bv ok q by (auto simp: maj_inv_def vs3)
  then show ?thesis using core3 by (simp add: vs_inv_def)
qed

section \<open>Adding a vote\<close>

lemma valid_at_signable:
  assumes "valid_at env vs i v"
  shows "vote_signable env (vs_chainID vs) v"
proof -
  obtain pk where ok: "bid_ok (v_BlockID v)" and v: "vote_Verify env (vs_chainID vs) v pk = (Return None :: (unit, _) outcome)"
    using assms by (auto simp: valid_at_def)
  have "VoteSignBytes env (vs_chainID vs) v \<noteq> (Panic :: (unit, _) outcome)"
    using v by (auto simp: vote_Verify_def split: if_splits)
  then show ?thesis
    using ok bid_ok_validate [OF ok] by (auto simp: vote_signable_def VoteSignBytes_canonical split: option.splits)
qed

lemma vote_Verify_any:
  assumes "vote_signable env c v"
  shows "\<exists>err. vote_Verify env c v pk = (Return err :: ('e, _) outcome)
    \<and> vote_Verify env c v pk = (Return err :: (unit, _) outcome)"
  by (simp add: vote_Verify_def VoteSignBytes_ok [OF assms])

definition fresh_step :: "VoteSet \<Rightarrow> nat \<Rightarrow> Vote \<Rightarrow> VoteSet \<Rightarrow> bool" where
  \<comment> \<open>what entering the first vote of validator i changes: its slot, the tally of its block, and the
     slots a new majority copies over\<close>
  "fresh_step vs i v vs' \<longleftrightarrow>
     (\<exists>bv bv' V.
        (gm_get (vs_byBlock vs) (bid_Key (v_BlockID v)) = Some bv
         \<or> (gm_get (vs_byBlock vs) (bid_Key (v_BlockID v)) = None \<and> bv_votes bv = replicate (length (bv_votes bv)) None))
        \<and> bv_votes bv' = (bv_votes bv)[i := Some v] \<and> i < length (bv_votes bv)
        \<and> vs_byBlock vs' = gm_put (bid_Key (v_BlockID v)) bv' (vs_byBlock vs)
        \<and> length V = length (bv_votes bv) \<and> V ! i = Some v \<and> (\<forall>j. j \<noteq> i \<longrightarrow> V ! j = vs_votes vs ! j)
        \<and> (vs_votes vs' = V
           \<or> vs_votes vs' = map2 (\<lambda>s d. case s of None \<Rightarrow> d | Some v \<Rightarrow> Some v) (bv_votes bv') V))"

lemma addVerifiedVote_spec:
  assumes inv: "vs_inv env vs" and v: "valid_at env vs i v"
    and fresh: "\<And>e. vs_votes vs ! i = Some e \<Longrightarrow> bid_Key (v_BlockID e) \<noteq> bid_Key (v_BlockID v)"
      "\<And>bv. gm_get (vs_byBlock vs) (bid_Key (v_BlockID v)) = Some bv \<Longrightarrow> bv_votes bv ! i = None"
    and p: "p = VotingPower (Validators (vs_valSet vs) ! i)"
  obtains added c vs' where
    "addVerifiedVote vs v (bid_Key (v_BlockID v)) p = (Return (added, c, vs') :: ('e, _) outcome)"
    "vs_inv env vs'" "same_step vs vs'" "c = None \<Longrightarrow> added" "c = vs_votes vs ! i"
    "vs_maj23 vs \<noteq> None \<Longrightarrow> vs_maj23 vs' = vs_maj23 vs" "c = None \<Longrightarrow> fresh_step vs i v vs'"
proof -
  let ?k = "bid_Key (v_BlockID v)"
  obtain c vs1 where r: "primary_vote vs v ?k p = (Return (c, vs1) :: ('e, _) outcome)"
    "c = vs_votes vs ! i" "vs_inv env vs1" "same_step vs vs1" "vs_byBlock vs1 = vs_byBlock vs"
    "vs_maj23 vs1 = vs_maj23 vs" "vs_valSet vs1 = vs_valSet vs" "vs_votes vs1 ! i \<noteq> None"
    "c = None \<or> vs_maj23 vs = Some (v_BlockID v) \<Longrightarrow> vs_votes vs1 ! i = Some v"
    "\<And>j. j \<noteq> i \<Longrightarrow> vs_votes vs1 ! j = vs_votes vs ! j"
    using primary_vote_spec [OF inv v fresh(1) p, where 'e = 'e] by metis
  have core1: "core_inv env vs1" using r(3) by (simp add: vs_inv_def)
  note D = core_invD [OF core1]
  have v1: "valid_at env vs1 i v" using v valid_at_same [OF r(4)] by simp
  define tracked where "tracked = gm_get (vs_byBlock vs1) ?k"
  define stop where "stop = (case tracked of Some bv \<Rightarrow> c \<noteq> None \<and> \<not> bv_peerMaj23 bv | None \<Rightarrow> c \<noteq> None)"
  show thesis
  proof (cases stop)
    case True
    then have e: "addVerifiedVote vs v ?k p = (Return (False, c, vs1) :: ('e, _) outcome)"
      using r(1) by (simp add: addVerifiedVote_def Let_def tracked_def stop_def)
    have "c \<noteq> None" using True by (auto simp: stop_def split: option.splits)
    then show thesis using that [OF e r(3,4)] r(2,6) by simp
  next
    case False
    define bv where "bv = (case tracked of Some bv \<Rightarrow> bv | None \<Rightarrow> newBlockVotes False (vals_Size (vs_valSet vs1)))"
    note nb = newBlockVotes_inv [OF D(1)]
    have n: "i < length (Validators (vs_valSet vs1))" using v1 by (simp add: valid_at_def)
    have bv: "bv_inv env vs1 ?k bv" "bv_votes bv ! i = None"
      using D(7) [of ?k] nb fresh(2) r(5) n by (auto simp: bv_def tracked_def split: option.splits)
    have tr: "gm_get (vs_byBlock vs1) ?k = Some bv
        \<or> (gm_get (vs_byBlock vs1) ?k = None \<and> bv_votes bv = replicate (length (bv_votes bv)) None)"
      using nb(2) by (auto simp: bv_def tracked_def split: option.splits)
    have p1: "p = VotingPower (Validators (vs_valSet vs1) ! i)" using p r(7) by simp
    obtain bv' where bv': "bv_addVerifiedVote bv v p = (Return bv' :: ('e, _) outcome)" "bv_inv env vs1 ?k bv'"
      "bv_votes bv' = (bv_votes bv)[i := Some v]" "bv_sum bv' = bv_sum bv + p"
      by (rule bv_add_inv [OF D(1) bv(1) v1 refl bv(2) p1, where 'e = 'e])
    define vs2 where "vs2 = vs1\<lparr>vs_valSet := (vs_valSet vs1)\<lparr>totalVotingPower := sum_list (pws (vs_valSet vs1))\<rparr>,
       vs_byBlock := gm_put ?k bv' (vs_byBlock vs1)\<rparr>"
    have pres: "vs_maj23 vs1 = Some (v_BlockID v) \<Longrightarrow> vs_votes vs1 ! i = Some v" using r(6,9) by simp
    note t = tally_spec [OF r(3) v1 bv tr r(8) pres p1 bv' vs2_def]
    have same2: "same_step vs vs2" using r(4) t(4) by (simp add: same_step_def)
    have q: "i64 (i64 (sum_list (pws (vs_valSet vs1)) * 2) sdiv 3 + 1) = quorum_power vs1"
      by (simp add: quorum_i64 [OF D(1)] quorum_power_def)
    have len: "length (bv_votes bv') = length (vs_votes vs2)" using bv_invD(1) [OF bv'(2)] D(3) by (simp add: vs2_def)
    have run: "addVerifiedVote vs v ?k p =
        (if bv_sum bv < quorum_power vs1 \<and> quorum_power vs1 \<le> bv_sum bv' \<and> vs_maj23 vs2 = None
         then bind_o (copy_votes (bv_votes bv') (vs_votes vs2)) (\<lambda>votes.
              Return (True, c, vs2\<lparr>vs_maj23 := Some (v_BlockID v), vs_votes := votes\<rparr>))
         else (Return (True, c, vs2) :: ('e, _) outcome))"
      using r(1) False bv'(1) q
      by (simp add: addVerifiedVote_def Let_def tracked_def [symmetric] stop_def bv_def TotalVotingPower_wf [OF D(1)] vs2_def)
    have step: "fresh_step vs i v w"
      if "c = None" "vs_byBlock w = vs_byBlock vs2"
        "vs_votes w = vs_votes vs2 \<or> vs_votes w = map2 (\<lambda>s d. case s of None \<Rightarrow> d | Some v \<Rightarrow> Some v) (bv_votes bv') (vs_votes vs2)" for w
      unfolding fresh_step_def
      by (rule exI [of _ bv], rule exI [of _ bv'], rule exI [of _ "vs_votes vs1"])
        (use that tr r(5,9,10) bv'(3) n bv_invD(1) [OF bv(1)] D(3) in \<open>simp add: vs2_def\<close>)
    show thesis
    proof (cases "vs_maj23 vs1 = None \<and> quorum_power vs1 \<le> bv_sum bv'")
      case True
      have "maj_inv vs1" using r(3) by (simp add: vs_inv_def)
      moreover have "bv_sum bv = 0" if "gm_get (vs_byBlock vs1) ?k = None"
        using that by (simp add: bv_def tracked_def newBlockVotes_def)
      moreover have "0 < quorum_power vs1" using vals_wf_power(1) [OF D(1)] by (simp add: quorum_power_def)
      ultimately have "bv_sum bv < quorum_power vs1" using True tr by (auto simp: maj_inv_def)
      then have e: "addVerifiedVote vs v ?k p = (Return (True, c, vs2\<lparr>vs_maj23 := Some (v_BlockID v),
            vs_votes := map2 (\<lambda>s d. case s of None \<Rightarrow> d | Some v \<Rightarrow> Some v) (bv_votes bv') (vs_votes vs2)\<rparr>) :: ('e, _) outcome)"
        using run True copy_votes_eq [OF len, where 'a = 'e] by (simp add: vs2_def)
      have "vs_inv env (vs2\<lparr>vs_maj23 := Some (v_BlockID v),
            vs_votes := map2 (\<lambda>s d. case s of None \<Rightarrow> d | Some v \<Rightarrow> Some v) (bv_votes bv') (vs_votes vs2)\<rparr>)"
        using True v1 quorum_same [OF t(4)]
        by (intro majority_spec [OF t(1) _ _ _ refl refl, of _ bv']) (auto simp: vs2_def valid_at_def)
      then show thesis using that [OF e] same2 r(2,6) True step by (simp add: same_step_def)
    next
      case False
      then have e: "addVerifiedVote vs v ?k p = (Return (True, c, vs2) :: ('e, _) outcome)"
        using run by (auto simp: vs2_def)
      have "maj_inv vs2" using t(2,3) False by (cases "vs_maj23 vs1") auto
      then have "vs_inv env vs2" using t(1) by (simp add: vs_inv_def)
      then show thesis using that [OF e] same2 r(2,6) step by (simp add: vs2_def)
    qed
  qed
qed

lemma same_step_refl: "same_step vs vs" by (simp add: same_step_def)

lemma same_step_trans: "same_step a b \<Longrightarrow> same_step b c \<Longrightarrow> same_step a c" by (simp add: same_step_def)

lemma vs_getVote_fresh:
  assumes inv: "vs_inv env vs" and i: "i < length (Validators (vs_valSet vs))"
  obtains known where "vs_getVote vs (int i) key = (Return known :: ('e, _) outcome)"
    "known = None \<Longrightarrow> (\<forall>e. vs_votes vs ! i = Some e \<longrightarrow> bid_Key (v_BlockID e) \<noteq> key)
       \<and> (\<forall>bv. gm_get (vs_byBlock vs) key = Some bv \<longrightarrow> bv_votes bv ! i = None)"
proof -
  have core: "core_inv env vs" using inv by (simp add: vs_inv_def)
  note D = core_invD [OF core]
  define by_block where "by_block = (case gm_get (vs_byBlock vs) key of None \<Rightarrow> None | Some bv \<Rightarrow> bv_votes bv ! i)"
  have b: "bv_getByIndex (gm_get (vs_byBlock vs) key) (int i) = (Return by_block :: ('e, _) outcome)"
    using D(7) [of key] i bv_invD(1) [of env vs key]
    by (auto simp: bv_getByIndex_def by_block_def split: option.splits)
  define known where "known = (case vs_votes vs ! i of
      Some e \<Rightarrow> if bid_Key (v_BlockID e) = key then Some e else by_block | None \<Rightarrow> by_block)"
  have "vs_getVote vs (int i) key = (Return known :: ('e, _) outcome)"
    using i D(3) by (auto simp: vs_getVote_def b known_def split: option.splits)
  then show thesis
    by (rule that) (auto simp: known_def by_block_def split: if_splits option.splits)
qed

lemma addVote_spec:
  assumes inv: "vs_inv env vs" and ok: "\<And>v. ov = Some v \<Longrightarrow> vote_signable env (vs_chainID vs) v"
  obtains added err vs' where "addVote env vs ov = (Return (added, err, vs') :: ('e, _) outcome)"
    "vs_inv env vs'" "same_step vs vs'" "vs_maj23 vs \<noteq> None \<Longrightarrow> vs_maj23 vs' = vs_maj23 vs"
proof (cases "\<exists>err. addVote env vs ov = (Return (False, err, vs) :: ('e, _) outcome)")
  case True
  then show thesis using that inv same_step_refl by blast
next
  case False
  note nf = this
  from nf obtain v where ov: "ov = Some v" by (cases ov) (auto simp: addVote_def)
  let ?k = "bid_Key (v_BlockID v)" and ?vals = "Validators (vs_valSet vs)"
  have g: "0 \<le> v_ValidatorIndex v" "v_ValidatorAddress v \<noteq> []" "v_Height v = vs_height vs"
    "v_Round v = vs_round vs" "v_Type v = vs_type vs" "v_ValidatorIndex v < int (length ?vals)"
    "v_ValidatorAddress v = Address (?vals ! nat (v_ValidatorIndex v))"
    using nf by (auto simp: addVote_def ov Let_def GetByIndex_def split: if_splits)
  define i where "i = nat (v_ValidatorIndex v)"
  have i: "v_ValidatorIndex v = int i" "i < length ?vals" using g by (auto simp: i_def)
  obtain known where known: "vs_getVote vs (int i) ?k = (Return known :: ('e, _) outcome)"
    "known = None \<Longrightarrow> (\<forall>e. vs_votes vs ! i = Some e \<longrightarrow> bid_Key (v_BlockID e) \<noteq> ?k)
       \<and> (\<forall>bv. gm_get (vs_byBlock vs) ?k = Some bv \<longrightarrow> bv_votes bv ! i = None)"
    by (rule vs_getVote_fresh [OF inv i(2), of ?k, where 'e = 'e]) blast
  have core: "core_inv env vs" using inv by (simp add: vs_inv_def)
  obtain pk where pk: "PubKey (?vals ! i) = Some pk"
    using core_invD(2) [OF core] nth_mem [OF i(2)] by (cases "PubKey (?vals ! i)") auto
  obtain err where err: "vote_Verify env (vs_chainID vs) v pk = (Return err :: ('e, _) outcome)"
    "vote_Verify env (vs_chainID vs) v pk = (Return err :: (unit, _) outcome)"
    using vote_Verify_any [OF ok [OF ov], of pk, where 'e = 'e] by blast
  have guards: "\<not> int i < 0" "length (v_ValidatorAddress v) \<noteq> 0"
    "\<not> (v_Height v \<noteq> vs_height vs \<or> v_Round v \<noteq> vs_round vs \<or> v_Type v \<noteq> vs_type vs)"
    "GetByIndex (vs_valSet vs) (int i) = Some (v_ValidatorAddress v, ?vals ! i)"
    using g i(2) by (auto simp: GetByIndex_def i_def Let_def)
  have run: "addVote env vs ov = (case known of
        Some e \<Rightarrow> Return (False, if v_Signature e = v_Signature v then None else Some ErrVoteNonDeterministicSignature, vs)
      | None \<Rightarrow> (case err of Some e \<Rightarrow> Return (False, Some e, vs)
         | None \<Rightarrow> bind_o (addVerifiedVote vs v ?k (VotingPower (?vals ! i))) (\<lambda>(added, conflicting, vs').
              case conflicting of
                Some c \<Rightarrow> Return (added, Some (ErrVoteConflictingVotes c v), vs')
              | None \<Rightarrow> if \<not> added then Panic else (Return (added, None, vs') :: ('e, _) outcome))))"
    unfolding addVote_def ov option.case Let_def i(1) guards if_not_P [OF guards(1)] if_not_P [OF guards(2)]
      if_not_P [OF guards(3)] prod.case known(1)
    by (simp add: pk err(1) split: option.split)
  have known_none: "known = None"
  proof (cases known)
    case (Some e)
    then have "\<exists>er. addVote env vs ov = (Return (False, er, vs) :: ('e, _) outcome)" unfolding run by simp
    with nf show ?thesis by blast
  qed
  have none: "err = None"
  proof (cases err)
    case (Some e)
    then have "\<exists>er. addVote env vs ov = (Return (False, er, vs) :: ('e, _) outcome)"
      unfolding run known_none by simp
    with nf show ?thesis by blast
  qed
  have valid: "valid_at env vs i v"
    using g i pk err(2) none ok [OF ov] by (simp add: valid_at_def vote_signable_def)
  obtain added c vs' where r:
    "addVerifiedVote vs v ?k (VotingPower (?vals ! i)) = (Return (added, c, vs') :: ('e, _) outcome)"
    "vs_inv env vs'" "same_step vs vs'" "c = None \<Longrightarrow> added"
    "vs_maj23 vs \<noteq> None \<Longrightarrow> vs_maj23 vs' = vs_maj23 vs"
    by (rule addVerifiedVote_spec [OF inv valid _ _ refl, where 'e = 'e]) (use known(2) known_none in blast)+
  have "\<exists>e. addVote env vs ov = (Return (added, e, vs') :: ('e, _) outcome)"
    using r(1,4) by (cases c) (auto simp: run none known_none)
  then show thesis using that r by blast
qed

lemma addVote_fresh:
  assumes inv: "vs_inv env vs" and v: "valid_at env vs i v" and none: "vs_votes vs ! i = None"
  obtains vs' where "addVote env vs (Some v) = (Return (True, None, vs') :: ('e, _) outcome)"
    "vs_inv env vs'" "same_step vs vs'" "fresh_step vs i v vs'"
proof -
  let ?k = "bid_Key (v_BlockID v)" and ?vals = "Validators (vs_valSet vs)"
  have core: "core_inv env vs" using inv by (simp add: vs_inv_def)
  obtain pk where g: "i < length ?vals" "v_ValidatorIndex v = int i" "v_Height v = vs_height vs" "v_Round v = vs_round vs"
    "v_Type v = vs_type vs" "v_ValidatorAddress v = Address (?vals ! i)" "v_ValidatorAddress v \<noteq> []" "bid_ok (v_BlockID v)"
    "PubKey (?vals ! i) = Some pk" "vote_Verify env (vs_chainID vs) v pk = (Return None :: (unit, _) outcome)"
    using v by (auto simp: valid_at_def)
  have verify: "vote_Verify env (vs_chainID vs) v pk = (Return None :: ('e, _) outcome)"
    using vote_Verify_any [OF valid_at_signable [OF v], of pk, where 'e = 'e] g(10) by auto
  have untallied: "bv_votes bv ! i = None" if "gm_get (vs_byBlock vs) ?k = Some bv" for bv
    using core_invD(8) [OF core that, of i] none bv_invD(1) [OF core_invD(7) [OF core that]] g(1) by (metis (no_types))
  have known: "vs_getVote vs (int i) ?k = (Return None :: ('e, _) outcome)"
    using none g(1) core_invD(3) [OF core] untallied bv_invD(1) [OF core_invD(7) [OF core]]
    by (auto simp: vs_getVote_def bv_getByIndex_def split: option.splits)
  obtain added c vs' where r:
    "addVerifiedVote vs v ?k (VotingPower (?vals ! i)) = (Return (added, c, vs') :: ('e, _) outcome)"
    "vs_inv env vs'" "same_step vs vs'" "c = None \<Longrightarrow> added" "c = vs_votes vs ! i" "c = None \<Longrightarrow> fresh_step vs i v vs'"
    by (rule addVerifiedVote_spec [OF inv v _ untallied refl, where 'e = 'e]) (use none in auto)
  have "addVote env vs (Some v) = (Return (True, None, vs') :: ('e, _) outcome)"
    using g(1-7,9) known verify r(1,4,5) none by (simp add: addVote_def Let_def GetByIndex_def)
  then show thesis by (rule that) (use r none in simp_all)
qed

lemma core_inv_peers: "core_inv env vs = core_inv env (vs\<lparr>vs_peerMaj23s := ps\<rparr>)"
  by (simp add: core_inv_def bv_inv_def valid_at_def)

lemma maj_inv_peers: "maj_inv vs = maj_inv (vs\<lparr>vs_peerMaj23s := ps\<rparr>)"
  by (cases "vs_maj23 vs") (simp_all add: maj_inv_def quorum_power_def)

lemma SetPeerMaj23_spec:
  assumes inv: "vs_inv env vs"
  shows "vs_inv env (snd (SetPeerMaj23 vs peer b))" "same_step vs (snd (SetPeerMaj23 vs peer b))"
    "vs_maj23 (snd (SetPeerMaj23 vs peer b)) = vs_maj23 vs"
proof -
  let ?k = "bid_Key b"
  have core: "core_inv env vs" and maj: "maj_inv vs" using inv by (auto simp: vs_inv_def)
  note D = core_invD [OF core]
  have keep: "vs_inv env (vs\<lparr>vs_peerMaj23s := ps, vs_byBlock := gm_put ?k bv (vs_byBlock vs)\<rparr>)"
    if bv: "bv_inv env vs ?k bv"
      and src: "(\<exists>bv0. gm_get (vs_byBlock vs) ?k = Some bv0 \<and> bv_votes bv = bv_votes bv0 \<and> bv_sum bv = bv_sum bv0)
        \<or> (gm_get (vs_byBlock vs) ?k = None \<and> bv_votes bv = replicate (length (bv_votes bv)) None \<and> bv_sum bv = 0)" for ps bv
  proof -
    have sub: "vs_votes vs ! i \<noteq> None" if i: "i < length (bv_votes bv)" "bv_votes bv ! i \<noteq> None" for i
      using src
    proof
      assume "\<exists>bv0. gm_get (vs_byBlock vs) ?k = Some bv0 \<and> bv_votes bv = bv_votes bv0 \<and> bv_sum bv = bv_sum bv0"
      then show ?thesis using D(8) i by metis
    next
      assume "gm_get (vs_byBlock vs) ?k = None \<and> bv_votes bv = replicate (length (bv_votes bv)) None \<and> bv_sum bv = 0"
      then show ?thesis using i by (metis nth_replicate)
    qed
    have c: "core_inv env (vs\<lparr>vs_valSet := vs_valSet vs, vs_byBlock := gm_put ?k bv (vs_byBlock vs)\<rparr>)"
      by (rule core_inv_block [OF core bv sub D(1) refl refl])
    have q: "0 < quorum_power vs" using vals_wf_power(1) [OF D(1)] by (simp add: quorum_power_def)
    have qs: "quorum_power (vs\<lparr>vs_byBlock := gm_put ?k bv (vs_byBlock vs)\<rparr>) = quorum_power vs"
      by (simp add: quorum_power_def)
    have m: "maj_inv (vs\<lparr>vs_byBlock := gm_put ?k bv (vs_byBlock vs)\<rparr>)"
    proof (cases "vs_maj23 vs")
      case None
      have "bv_sum b' < quorum_power vs" if "gm_get (gm_put ?k bv (vs_byBlock vs)) k' = Some b'" for k' b'
        using that maj src q None by (cases "k' = ?k") (auto simp: maj_inv_def)
      then show ?thesis using None by (simp add: maj_inv_def qs)
    next
      case (Some b0)
      then obtain bv1 where bv1: "bid_ok b0" "gm_get (vs_byBlock vs) (bid_Key b0) = Some bv1" "quorum_power vs \<le> bv_sum bv1"
        "\<forall>i < length (bv_votes bv1). bv_votes bv1 ! i \<noteq> None \<longrightarrow> (\<exists>v. vs_votes vs ! i = Some v \<and> v_BlockID v = b0)"
        using maj by (auto simp: maj_inv_def)
      show ?thesis
      proof (cases "bid_Key b0 = ?k")
        case True
        then have "bv_votes bv = bv_votes bv1" "bv_sum bv = bv_sum bv1" using src bv1(2) by auto
        then show ?thesis using Some bv1 True by (simp add: maj_inv_def qs)
      next
        case False
        then show ?thesis using Some bv1 by (simp add: maj_inv_def qs)
      qed
    qed
    let ?v1 = "vs\<lparr>vs_byBlock := gm_put ?k bv (vs_byBlock vs)\<rparr>"
    have "core_inv env ?v1 \<and> maj_inv ?v1" using c m by simp
    then have "vs_inv env (?v1\<lparr>vs_peerMaj23s := ps\<rparr>)"
      unfolding vs_inv_def using core_inv_peers [of env ?v1 ps] maj_inv_peers [of ?v1 ps] by blast
    moreover have "?v1\<lparr>vs_peerMaj23s := ps\<rparr> = vs\<lparr>vs_peerMaj23s := ps, vs_byBlock := gm_put ?k bv (vs_byBlock vs)\<rparr>"
      by (cases vs) simp
    ultimately show ?thesis by metis
  qed
  have old: "bv_inv env vs ?k (bv\<lparr>bv_peerMaj23 := True\<rparr>)" if "gm_get (vs_byBlock vs) ?k = Some bv" for bv
    using D(7) [OF that] by (simp add: bv_inv_def)
  have peer: "vs_inv env (vs\<lparr>vs_peerMaj23s := ps\<rparr>)" for ps
    using core maj core_inv_peers [of env vs ps] maj_inv_peers [of vs ps] by (simp add: vs_inv_def)
  show "vs_inv env (snd (SetPeerMaj23 vs peer b))"
  proof (cases "gm_get (vs_byBlock vs) ?k")
    case None
    let ?nb = "newBlockVotes True (vals_Size (vs_valSet vs))"
    have nb: "bv_inv env vs ?k ?nb" "bv_votes ?nb = replicate (length (bv_votes ?nb)) None" "bv_sum ?nb = 0"
      using newBlockVotes_inv [OF D(1), where p = True] by (simp_all add: newBlockVotes_def)
    show ?thesis using keep [OF nb(1)] nb(2,3) None inv
      by (cases "gm_get (vs_peerMaj23s vs) peer") (simp_all add: SetPeerMaj23_def Let_def)
  next
    case (Some bv)
    show ?thesis using keep [OF old [OF Some]] Some inv peer
      by (cases "gm_get (vs_peerMaj23s vs) peer") (simp_all add: SetPeerMaj23_def Let_def)
  qed
  show "same_step vs (snd (SetPeerMaj23 vs peer b))" "vs_maj23 (snd (SetPeerMaj23 vs peer b)) = vs_maj23 vs"
    by (auto simp: SetPeerMaj23_def Let_def same_step_def split: option.splits)
qed

section \<open>Runs of a vote set\<close>

inductive vs_run :: "crypto_env \<Rightarrow> VoteSet \<Rightarrow> VoteSet \<Rightarrow> bool" for env where
  start: "vs_run env vs vs"
| vote: "vs_run env vs vs1 \<Longrightarrow> vote_signable env (vs_chainID vs1) v
    \<Longrightarrow> addVote env vs1 (Some v) = (Return (added, err, vs2) :: (unit, _) outcome) \<Longrightarrow> vs_run env vs vs2"
| peer_maj: "vs_run env vs vs1 \<Longrightarrow> vs_run env vs (snd (SetPeerMaj23 vs1 peer b))"

lemma NewVoteSet_inv:
  assumes "h \<noteq> 0" "vals_wf vals" "\<forall>v \<in> set (Validators vals). PubKey v \<noteq> None"
  obtains vs where "NewVoteSet c h r t vals = (Return vs :: ('e, _) outcome)" "vs_inv env vs"
    "vs_chainID vs = c" "vs_height vs = h" "vs_round vs = r" "vs_type vs = t" "vs_valSet vs = vals" "vs_maj23 vs = None"
proof -
  define vs where "vs = \<lparr>vs_chainID = c, vs_height = h, vs_round = r, vs_type = t,
        vs_valSet = vals, vs_bits = NewBitArray (vals_Size vals),
        vs_votes = replicate (length (Validators vals)) None, vs_sum = 0, vs_maj23 = None,
        vs_byBlock = [], vs_peerMaj23s = []\<rparr>"
  have "0 < length (Validators vals)" using assms(2) by (simp add: vals_wf_def)
  then have "vs_inv env vs"
    using assms(2,3) bits_rep_new [of "length (Validators vals)"]
    by (auto simp: vs_def vs_inv_def core_inv_def maj_inv_def vals_Size_def gm_get_def)
  moreover have "NewVoteSet c h r t vals = (Return vs :: ('e, _) outcome)"
    using assms(1) by (simp add: NewVoteSet_def vs_def)
  ultimately show thesis using that by (simp add: vs_def)
qed

lemma NewVoteSet_start:
  assumes "NewVoteSet c h r t vals = (Return vs0 :: ('e, _) outcome)" "vals_wf vals"
    "\<forall>v \<in> set (Validators vals). PubKey v \<noteq> None"
  shows "vs_inv env vs0" "vs_valSet vs0 = vals"
proof -
  have "h \<noteq> 0" using assms(1) by (auto simp: NewVoteSet_def split: if_splits)
  then obtain vs where "NewVoteSet c h r t vals = (Return vs :: ('e, _) outcome)" "vs_inv env vs" "vs_valSet vs = vals"
    by (rule NewVoteSet_inv [OF _ assms(2,3), where 'e = 'e])
  then show "vs_inv env vs0" "vs_valSet vs0 = vals" using assms(1) by auto
qed

lemma vs_run_inv:
  assumes "vs_run env vs vs'" "vs_inv env vs"
  shows "vs_inv env vs' \<and> same_step vs vs' \<and> (vs_maj23 vs \<noteq> None \<longrightarrow> vs_maj23 vs' = vs_maj23 vs)"
  using assms
proof (induction rule: vs_run.induct)
  case (start vs)
  then show ?case by (simp add: same_step_refl)
next
  case (vote vs vs1 v added err vs2)
  obtain a' e' vs' where r: "addVote env vs1 (Some v) = (Return (a', e', vs') :: (unit, _) outcome)"
    "vs_inv env vs'" "same_step vs1 vs'" "vs_maj23 vs1 \<noteq> None \<Longrightarrow> vs_maj23 vs' = vs_maj23 vs1"
    by (rule addVote_spec [of env vs1 "Some v", where 'e = unit]) (use vote in auto)
  then have "vs' = vs2" using vote.hyps(3) by simp
  then show ?case using r vote same_step_trans by metis
next
  case (peer_maj vs vs1 peer b)
  then show ?case using SetPeerMaj23_spec [of env vs1 peer b] same_step_trans by metis
qed

lemma maj23_backed:
  assumes inv: "vs_inv env vs" and maj: "vs_maj23 vs = Some b"
  obtains S where "S \<subseteq> {..<length (Validators (vs_valSet vs))}"
    "2 * sum_list (pws (vs_valSet vs)) < 3 * (\<Sum>i\<in>S. VotingPower (Validators (vs_valSet vs) ! i))"
    "\<And>i. i \<in> S \<Longrightarrow> \<exists>v. vs_votes vs ! i = Some v \<and> v_BlockID v = b \<and> valid_at env vs i v"
proof -
  have core: "core_inv env vs" using inv by (simp add: vs_inv_def)
  obtain bv where bv: "gm_get (vs_byBlock vs) (bid_Key b) = Some bv" "quorum_power vs \<le> bv_sum bv"
    "\<forall>i < length (bv_votes bv). bv_votes bv ! i \<noteq> None \<longrightarrow> (\<exists>v. vs_votes vs ! i = Some v \<and> v_BlockID v = b)"
    using inv maj by (auto simp: vs_inv_def maj_inv_def)
  note B = bv_invD [OF core_invD(7) [OF core bv(1)]]
  define S where "S = {i. i < length (Validators (vs_valSet vs)) \<and> bv_votes bv ! i \<noteq> None}"
  have "2 * sum_list (pws (vs_valSet vs)) < 3 * (\<Sum>i\<in>S. VotingPower (Validators (vs_valSet vs) ! i))"
    using bv(2) B(3) by (simp add: S_def voted_power_def quorum_power_def)
  moreover have "\<exists>v. vs_votes vs ! i = Some v \<and> v_BlockID v = b \<and> valid_at env vs i v" if "i \<in> S" for i
    using that bv(3) B(1) core_invD(3,6) [OF core] by (auto simp: S_def)
  ultimately show thesis using that [of S] by (auto simp: S_def)
qed

lemma overlap_power:
  assumes "vals_wf vals" "A \<subseteq> {..<length (Validators vals)}" "B \<subseteq> {..<length (Validators vals)}"
    and "2 * sum_list (pws vals) < 3 * (\<Sum>i\<in>A. VotingPower (Validators vals ! i))"
    and "2 * sum_list (pws vals) < 3 * (\<Sum>i\<in>B. VotingPower (Validators vals ! i))"
  shows "sum_list (pws vals) < 3 * (\<Sum>i\<in>A \<inter> B. VotingPower (Validators vals ! i))"
proof -
  let ?w = "\<lambda>i. VotingPower (Validators vals ! i)"
  have fin: "finite A" "finite B" using assms(2,3) finite_subset by blast+
  have nn: "0 \<le> ?w i" if "i < length (Validators vals)" for i
    using assms(1) nth_mem [OF that] by (auto simp: vals_wf_def intro: order.strict_implies_order)
  have "sum ?w (A \<union> B) \<le> sum ?w {..<length (Validators vals)}"
    using assms(2,3) nn by (intro sum_mono2) auto
  moreover have "sum_list (pws vals) = sum ?w {..<length (Validators vals)}"
    by (simp add: sum_list_sum_nth atLeast0LessThan)
  ultimately show ?thesis using sum.union_inter [OF fin, of ?w] assms(4,5) by linarith
qed

section \<open>Properties\<close>

definition signed_both :: "crypto_env \<Rightarrow> VoteSet \<Rightarrow> BlockID \<Rightarrow> BlockID \<Rightarrow> nat \<Rightarrow> bool" where
  \<comment> \<open>validator i has validly signed a vote for each of the two block ids in this height, round and step\<close>
  "signed_both env vs b1 b2 i \<longleftrightarrow>
     (\<exists>v1 v2. valid_at env vs i v1 \<and> valid_at env vs i v2 \<and> v_BlockID v1 = b1 \<and> v_BlockID v2 = b2)"

text \<open>
  C13: a vote set for a well-formed validator set never panics on votes that have sign bytes (a nil
  or complete block id and an encodable timestamp), whatever votes of this kind (valid, conflicting,
  forged or misplaced) and whatever peer claims came before: every state it can reach keeps the invariant (sums, bit arrays and per-block tallies agree with the
  votes, and every stored vote is validly signed by its validator), and \<open>addVote\<close> returns there.
\<close>

theorem vote_set_never_panics:
  assumes "h \<noteq> 0" "vals_wf vals" "\<forall>v \<in> set (Validators vals). PubKey v \<noteq> None"
  shows "\<exists>vs0. NewVoteSet c h r t vals = (Return vs0 :: (unit, _) outcome)
    \<and> (\<forall>vs v. vs_run env vs0 vs \<and> vote_signable env c v \<longrightarrow>
         vs_inv env vs \<and> (\<exists>added err vs'. addVote env vs (Some v) = (Return (added, err, vs') :: (unit, _) outcome)))"
proof -
  obtain vs0 where new: "NewVoteSet c h r t vals = (Return vs0 :: (unit, _) outcome)" "vs_inv env vs0"
    "vs_chainID vs0 = c"
    by (rule NewVoteSet_inv [OF assms, where 'e = unit]) auto
  have "vs_inv env vs \<and> (\<exists>added err vs'. addVote env vs (Some v) = (Return (added, err, vs') :: (unit, _) outcome))"
    if run: "vs_run env vs0 vs" and ok: "vote_signable env c v" for vs v
  proof -
    have inv: "vs_inv env vs" and "vs_chainID vs = c" using vs_run_inv [OF run new(2)] new(3) by (auto simp: same_step_def)
    obtain a e vs' where "addVote env vs (Some v) = (Return (a, e, vs') :: (unit, _) outcome)"
      by (rule addVote_spec [OF inv, of "Some v", where 'e = unit]) (use ok \<open>vs_chainID vs = c\<close> in auto)
    then show ?thesis using inv by blast
  qed
  then show ?thesis using new(1) by blast
qed

definition vote_vals :: validator_set where
  "vote_vals = \<lparr>Validators =
      [\<lparr>Address = [1], PubKey = Some [1], VotingPower = 1, ProposerPriority = 0\<rparr>,
       \<lparr>Address = [2], PubKey = Some [2], VotingPower = 1, ProposerPriority = 0\<rparr>],
     Proposer = None, totalVotingPower = 0\<rparr>"

lemma vote_vals_ok: "vals_wf vote_vals" "\<forall>v \<in> set (Validators vote_vals). PubKey v \<noteq> None"
  by (simp_all add: vote_vals_def vals_wf_def is_i64_def)

definition vote_env :: crypto_env where
  \<comment> \<open>an instance of the signature scheme for concrete runs: a signature is the key\<close>
  "vote_env = \<lparr>marshal_vote = (\<lambda>_. Some []), marshal_proposal = (\<lambda>_. Some []),
     verify_sig = (\<lambda>pk _ sig. sig = pk), address_of = (\<lambda>pk. pk)\<rparr>"

definition example_vote :: "SignedMsgType \<Rightarrow> nat \<Rightarrow> BlockID \<Rightarrow> Vote" where
  "example_vote t i b = \<lparr>v_Type = t, v_Height = 1, v_Round = 0, v_BlockID = b, v_Timestamp = 0,
     v_ValidatorAddress = [of_nat i + 1], v_ValidatorIndex = int i, v_Signature = [of_nat i + 1]\<rparr>"

theorem vote_set_never_panics_witness:
  "\<exists>vs0 added err vs'. NewVoteSet ''c'' 1 0 PrevoteType vote_vals = (Return vs0 :: (unit, _) outcome)
     \<and> addVote vote_env vs0 (Some (example_vote PrevoteType 0 zero_bid)) = (Return (added, err, vs') :: (unit, _) outcome)"
proof -
  have "vote_signable vote_env ''c'' (example_vote PrevoteType 0 zero_bid)"
    by (simp add: vote_signable_def vote_env_def example_vote_def bid_ok_def bid_IsZero_def zero_bid_def psh_IsZero_def)
  moreover obtain vs0 where vs0: "NewVoteSet ''c'' 1 0 PrevoteType vote_vals = (Return vs0 :: (unit, _) outcome)"
    "\<forall>vs v. vs_run vote_env vs0 vs \<and> vote_signable vote_env ''c'' v \<longrightarrow>
       vs_inv vote_env vs \<and> (\<exists>added err vs'. addVote vote_env vs (Some v) = (Return (added, err, vs') :: (unit, _) outcome))"
    using vote_set_never_panics [OF _ vote_vals_ok, of 1 "''c''" 0 PrevoteType vote_env] by auto
  ultimately have "\<exists>added err vs'. addVote vote_env vs0 (Some (example_vote PrevoteType 0 zero_bid)) = (Return (added, err, vs') :: (unit, _) outcome)"
    using vs_run.start [of vote_env vs0] by blast
  then show ?thesis using vs0(1) by blast
qed

text \<open>
  C14: the majority is final.  Once a vote set has seen more than two thirds for a block id, no later
  vote or peer claim changes or withdraws it.
\<close>

theorem majority_is_final:
  assumes "NewVoteSet c h r t vals = (Return vs0 :: (unit, _) outcome)" "vals_wf vals"
    "\<forall>v \<in> set (Validators vals). PubKey v \<noteq> None"
    "vs_run env vs0 vs1" "TwoThirdsMajority (Some vs1) = (b, True)" "vs_run env vs1 vs2"
  shows "TwoThirdsMajority (Some vs2) = (b, True)"
proof -
  have "vs_inv env vs1" using vs_run_inv [OF assms(4) NewVoteSet_start(1) [OF assms(1-3)]] by blast
  then have "vs_maj23 vs1 \<noteq> None \<longrightarrow> vs_maj23 vs2 = vs_maj23 vs1" using vs_run_inv [OF assms(6)] by blast
  then show ?thesis using assms(5) by (auto simp: TwoThirdsMajority_def split: option.splits)
qed

definition example_set :: "SignedMsgType \<Rightarrow> BlockID \<Rightarrow> VoteSet" where
  \<comment> \<open>both validators of the example have voted for b\<close>
  "example_set t b =
     (case NewVoteSet ''c'' 1 0 t vote_vals :: (unit, _) outcome of
        Return vs0 \<Rightarrow>
          (case addVote vote_env vs0 (Some (example_vote t 0 b)) :: (unit, _) outcome of
             Return (_, _, vs1) \<Rightarrow>
               (case addVote vote_env vs1 (Some (example_vote t 1 b)) :: (unit, _) outcome of
                  Return (_, _, vs2) \<Rightarrow> vs2)))"

lemma example_set_maj: "TwoThirdsMajority (Some (example_set PrevoteType zero_bid)) = (zero_bid, True)"
  "TwoThirdsMajority (Some (example_set PrevoteType (example_bid 1))) = (example_bid 1, True)"
  "TwoThirdsMajority (Some (example_set PrecommitType (example_bid 1))) = (example_bid 1, True)"
  by code_simp+

lemma example_set_run:
  assumes ok: "bid_ok b"
  obtains vs0 where "NewVoteSet ''c'' 1 0 t vote_vals = (Return vs0 :: (unit, _) outcome)"
    "vs_run vote_env vs0 (example_set t b)"
proof -
  have b: "vote_signable vote_env c (example_vote t i b)" for c i
    using ok by (simp add: vote_signable_def vote_env_def example_vote_def)
  obtain vs0 where new: "NewVoteSet ''c'' 1 0 t vote_vals = (Return vs0 :: (unit, _) outcome)" "vs_inv vote_env vs0"
    by (rule NewVoteSet_inv [OF _ vote_vals_ok, of 1, where 'e = unit]) auto
  obtain a1 e1 vs1 where 1: "addVote vote_env vs0 (Some (example_vote t 0 b)) = (Return (a1, e1, vs1) :: (unit, _) outcome)"
    "vs_inv vote_env vs1"
    by (rule addVote_spec [OF new(2), of "Some (example_vote t 0 b)", where 'e = unit]) (use b in auto)
  obtain a2 e2 vs2 where 2: "addVote vote_env vs1 (Some (example_vote t 1 b)) = (Return (a2, e2, vs2) :: (unit, _) outcome)"
    by (rule addVote_spec [OF 1(2), of "Some (example_vote t 1 b)", where 'e = unit]) (use b in auto)
  have "vs_run vote_env vs0 vs2"
    by (rule vs_run.vote [OF vs_run.vote [OF vs_run.start b 1(1)] b 2])
  moreover have "example_set t b = vs2" by (simp add: example_set_def new(1) 1(1) 2 del: One_nat_def)
  ultimately show thesis using that new(1) by simp
qed

lemma example_bid_ok: "bid_ok (example_bid x)" "bid_ok zero_bid"
  using example_bid_complete by (auto simp: bid_ok_def bid_IsZero_def zero_bid_def psh_IsZero_def)

theorem majority_is_final_witness:
  "TwoThirdsMajority (Some (snd (SetPeerMaj23 (example_set PrevoteType zero_bid) ''peer'' (example_bid 1)))) = (zero_bid, True)"
proof -
  obtain vs0 where "NewVoteSet ''c'' 1 0 PrevoteType vote_vals = (Return vs0 :: (unit, _) outcome)"
    "vs_run vote_env vs0 (example_set PrevoteType zero_bid)" by (rule example_set_run [OF example_bid_ok(2)])
  from majority_is_final [OF this(1) vote_vals_ok this(2) example_set_maj(1) vs_run.peer_maj [OF vs_run.start]]
  show ?thesis .
qed

text \<open>
  C15: a reported majority is real and none is missed.  In every reachable vote set a majority is
  reported exactly when the tally of some block holds more than two thirds of the total voting
  power, and then a set of validators with more than two thirds of the power has validly signed
  votes for that block id in this height, round and step, all of them held in \<open>votes\<close>.
\<close>

theorem majority_is_a_real_quorum:
  assumes "NewVoteSet c h r t vals = (Return vs0 :: (unit, _) outcome)" "vals_wf vals"
    "\<forall>v \<in> set (Validators vals). PubKey v \<noteq> None" "vs_run env vs0 vs"
  shows "(HasTwoThirdsMajority (Some vs) \<longleftrightarrow>
      (\<exists>key bv. gm_get (vs_byBlock vs) key = Some bv \<and> 2 * sum_list (pws vals) < 3 * bv_sum bv))
    \<and> (\<forall>b. TwoThirdsMajority (Some vs) = (b, True) \<longrightarrow>
      (\<exists>S \<subseteq> {..<length (Validators vals)}.
         2 * sum_list (pws vals) < 3 * (\<Sum>i\<in>S. VotingPower (Validators vals ! i))
         \<and> (\<forall>i\<in>S. \<exists>v. vs_votes vs ! i = Some v \<and> v_BlockID v = b \<and> valid_at env vs i v)))"
proof (intro conjI)
  note new = NewVoteSet_start(1) [OF assms(1-3), of env] NewVoteSet_start(2) [OF assms(1-3)]
  have inv: "vs_inv env vs" and V: "Validators (vs_valSet vs) = Validators vals"
    using vs_run_inv [OF assms(4) new(1)] new(2) by (auto simp: same_step_def)
  have q: "quorum_power vs \<le> x \<longleftrightarrow> 2 * sum_list (pws vals) < 3 * x" for x
    unfolding quorum_power_def V by linarith
  have "maj_inv vs" using inv by (simp add: vs_inv_def)
  then show "HasTwoThirdsMajority (Some vs) \<longleftrightarrow>
      (\<exists>key bv. gm_get (vs_byBlock vs) key = Some bv \<and> 2 * sum_list (pws vals) < 3 * bv_sum bv)"
    unfolding q [symmetric]
    by (cases "vs_maj23 vs") (auto simp: HasTwoThirdsMajority_def maj_inv_def linorder_not_le)
  show "\<forall>b. TwoThirdsMajority (Some vs) = (b, True) \<longrightarrow>
      (\<exists>S \<subseteq> {..<length (Validators vals)}.
         2 * sum_list (pws vals) < 3 * (\<Sum>i\<in>S. VotingPower (Validators vals ! i))
         \<and> (\<forall>i\<in>S. \<exists>v. vs_votes vs ! i = Some v \<and> v_BlockID v = b \<and> valid_at env vs i v))"
  proof (intro allI impI)
    fix b assume "TwoThirdsMajority (Some vs) = (b, True)"
    then have "vs_maj23 vs = Some b" by (auto simp: TwoThirdsMajority_def split: option.splits)
    then obtain S where S: "S \<subseteq> {..<length (Validators vals)}"
      "2 * sum_list (pws vals) < 3 * (\<Sum>i\<in>S. VotingPower (Validators vals ! i))"
      "\<And>i. i \<in> S \<Longrightarrow> \<exists>v. vs_votes vs ! i = Some v \<and> v_BlockID v = b \<and> valid_at env vs i v"
      by (rule maj23_backed [OF inv]) (unfold V, blast)
    show "\<exists>S \<subseteq> {..<length (Validators vals)}.
         2 * sum_list (pws vals) < 3 * (\<Sum>i\<in>S. VotingPower (Validators vals ! i))
         \<and> (\<forall>i\<in>S. \<exists>v. vs_votes vs ! i = Some v \<and> v_BlockID v = b \<and> valid_at env vs i v)"
      by (intro exI [of _ S] conjI ballI) (use S in blast)+
  qed
qed

theorem majority_is_a_real_quorum_witness:
  "TwoThirdsMajority (Some (example_set PrevoteType zero_bid)) = (zero_bid, True)
   \<and> (\<exists>key bv. gm_get (vs_byBlock (example_set PrevoteType zero_bid)) key = Some bv \<and> 2 * sum_list (pws vote_vals) < 3 * bv_sum bv)
   \<and> (\<exists>S \<subseteq> {..<2}. 0 < sum_list (pws vote_vals)
       \<and> 2 * sum_list (pws vote_vals) < 3 * (\<Sum>i\<in>S. VotingPower (Validators vote_vals ! i))
       \<and> (\<forall>i\<in>S. \<exists>v. vs_votes (example_set PrevoteType zero_bid) ! i = Some v \<and> v_BlockID v = zero_bid
             \<and> valid_at vote_env (example_set PrevoteType zero_bid) i v))"
proof -
  obtain vs0 where "NewVoteSet ''c'' 1 0 PrevoteType vote_vals = (Return vs0 :: (unit, _) outcome)"
    "vs_run vote_env vs0 (example_set PrevoteType zero_bid)" by (rule example_set_run [OF example_bid_ok(2)])
  note real = majority_is_a_real_quorum [OF this(1) vote_vals_ok this(2)]
  note maj = example_set_maj(1)
  have "HasTwoThirdsMajority (Some (example_set PrevoteType zero_bid))"
    using maj by (auto simp: TwoThirdsMajority_def HasTwoThirdsMajority_def split: option.splits)
  moreover have "0 < sum_list (pws vote_vals)" "length (Validators vote_vals) = 2" by (simp_all add: vote_vals_def)
  ultimately show ?thesis using real maj by (simp only:) blast
qed

text \<open>
  C16: accountability.  If two vote sets for the same chain, height, round, type and validators, at
  two nodes or two times, report majorities for different block ids, then validators with more than
  a third of the total voting power have validly signed votes for both.
\<close>

theorem conflicting_majorities_expose_a_third:
  assumes "NewVoteSet c h r t vals = (Return vs0 :: (unit, _) outcome)" "vals_wf vals"
    "\<forall>v \<in> set (Validators vals). PubKey v \<noteq> None"
    "vs_run env vs0 vs1" "TwoThirdsMajority (Some vs1) = (b1, True)"
    "vs_run env vs0 vs2" "TwoThirdsMajority (Some vs2) = (b2, True)"
  shows "sum_list (pws vals) <
    3 * (\<Sum>i \<in> {i. i < length (Validators vals) \<and> signed_both env vs0 b1 b2 i}. VotingPower (Validators vals ! i))"
proof -
  note new = NewVoteSet_start(1) [OF assms(1-3), of env] NewVoteSet_start(2) [OF assms(1-3)]
  have quorum: "\<exists>S \<subseteq> {..<length (Validators vals)}. 2 * sum_list (pws vals) < 3 * (\<Sum>i\<in>S. VotingPower (Validators vals ! i))
      \<and> (\<forall>i\<in>S. \<exists>v. valid_at env vs0 i v \<and> v_BlockID v = b)"
    if run: "vs_run env vs0 vs" and maj: "TwoThirdsMajority (Some vs) = (b, True)" for vs b
  proof -
    have inv: "vs_inv env vs" and s: "same_step vs0 vs" using vs_run_inv [OF run new(1)] by auto
    have V: "Validators (vs_valSet vs) = Validators vals" using s new(2) by (simp add: same_step_def)
    have "vs_maj23 vs = Some b" using maj by (auto simp: TwoThirdsMajority_def split: option.splits)
    then obtain S where S: "S \<subseteq> {..<length (Validators vals)}"
      "2 * sum_list (pws vals) < 3 * (\<Sum>i\<in>S. VotingPower (Validators vals ! i))"
      "\<And>i. i \<in> S \<Longrightarrow> \<exists>v. vs_votes vs ! i = Some v \<and> v_BlockID v = b \<and> valid_at env vs i v"
      by (rule maj23_backed [OF inv]) (unfold V, blast)
    show ?thesis
      by (intro exI [of _ S] conjI ballI) (use S valid_at_same [OF s] in blast)+
  qed
  obtain A where A: "A \<subseteq> {..<length (Validators vals)}" "2 * sum_list (pws vals) < 3 * (\<Sum>i\<in>A. VotingPower (Validators vals ! i))"
    "\<forall>i\<in>A. \<exists>v. valid_at env vs0 i v \<and> v_BlockID v = b1" using quorum [OF assms(4,5)] by blast
  obtain B where B: "B \<subseteq> {..<length (Validators vals)}" "2 * sum_list (pws vals) < 3 * (\<Sum>i\<in>B. VotingPower (Validators vals ! i))"
    "\<forall>i\<in>B. \<exists>v. valid_at env vs0 i v \<and> v_BlockID v = b2" using quorum [OF assms(6,7)] by blast
  have both: "A \<inter> B \<subseteq> {i. i < length (Validators vals) \<and> signed_both env vs0 b1 b2 i}"
    using A(1,3) B(3) unfolding signed_both_def by blast
  have "(\<Sum>i\<in>A \<inter> B. VotingPower (Validators vals ! i))
      \<le> (\<Sum>i \<in> {i. i < length (Validators vals) \<and> signed_both env vs0 b1 b2 i}. VotingPower (Validators vals ! i))"
    using assms(2) both by (intro sum_mono2) (auto simp: vals_wf_def intro!: less_imp_le)
  then show ?thesis using overlap_power [OF assms(2) A(1) B(1) A(2) B(2)] by linarith
qed

theorem conflicting_majorities_expose_a_third_witness:
  "2 < 3 * (\<Sum>i \<in> {i. i < length (Validators vote_vals) \<and> signed_both vote_env
      (case NewVoteSet ''c'' 1 0 PrevoteType vote_vals :: (unit, _) outcome of Return vs0 \<Rightarrow> vs0)
      zero_bid (example_bid 1) i}. VotingPower (Validators vote_vals ! i))"
proof -
  obtain vs0 where 0: "NewVoteSet ''c'' 1 0 PrevoteType vote_vals = (Return vs0 :: (unit, _) outcome)"
    "vs_run vote_env vs0 (example_set PrevoteType zero_bid)" by (rule example_set_run [OF example_bid_ok(2)])
  obtain vs1 where 1: "NewVoteSet ''c'' 1 0 PrevoteType vote_vals = (Return vs1 :: (unit, _) outcome)"
    "vs_run vote_env vs1 (example_set PrevoteType (example_bid 1))" by (rule example_set_run [OF example_bid_ok(1)])
  have "vs1 = vs0" using 0(1) 1(1) by simp
  with conflicting_majorities_expose_a_third
    [OF 0(1) vote_vals_ok 0(2) example_set_maj(1) _ example_set_maj(2)] 1(2) 0(1)
  show ?thesis by (simp add: vote_vals_def)
qed

end
