(* ===== verification/CommitVerify.thy ===== *)
theory CommitVerify
  imports VoteSets
begin

text \<open>
  Verification of commits: \<open>VerifyCommit\<close>, \<open>VerifyCommitLight\<close> and \<open>VerifyCommitLightTrusting\<close>
  of types/validator_set.go, and \<open>CommitToVoteSet\<close> of types/block.go.  The theorems say what an
  accepted commit proves, that a commit made from a vote set with a majority is accepted, and that
  the vote set rebuilt from a commit reports the same majority.
\<close>

section \<open>Operations\<close>

datatype verify_error =
    ErrInvalidCommitSignatures int nat
  | ErrInvalidCommitHeight int int
  | WrongCommitBlockID
  | WrongSignature nat
  | ErrNotEnoughVotingPowerSigned int int
  | ZeroDenominator
  | TrustLevelOverflow
  | DoubleVote nat nat

definition check_sig ::
    "crypto_env \<Rightarrow> string \<Rightarrow> Commit \<Rightarrow> validator \<Rightarrow> nat \<Rightarrow> CommitSig \<Rightarrow> (verify_error, unit) outcome" where
  \<comment> \<open>the sign bytes of the vote at idx, checked against the key of the validator\<close>
  "check_sig env chainID commit val idx cs =
     bind_o (commit_VoteSignBytes env commit chainID (i32 (int idx))) (\<lambda>bz.
     case PubKey val of None \<Rightarrow> Panic
     | Some pk \<Rightarrow> if \<not> verify_sig env pk bz (cs_Signature cs) then Error (WrongSignature idx) else Return ())"

fun verify_loop ::
    "crypto_env \<Rightarrow> string \<Rightarrow> Commit \<Rightarrow> validator list \<Rightarrow> nat \<Rightarrow> CommitSig list \<Rightarrow> int \<Rightarrow> (verify_error, int) outcome" where
  "verify_loop env chainID commit vals idx [] tallied = Return tallied"
| "verify_loop env chainID commit vals idx (cs # css) tallied =
     (if cs_Absent cs then verify_loop env chainID commit vals (Suc idx) css tallied
      else bind_o (nth_go vals (int idx)) (\<lambda>val.
           bind_o (check_sig env chainID commit val idx cs) (\<lambda>_.
           verify_loop env chainID commit vals (Suc idx) css
             (if cs_ForBlock cs then i64 (tallied + VotingPower val) else tallied))))"

definition VerifyCommit ::
    "crypto_env \<Rightarrow> validator_set \<Rightarrow> string \<Rightarrow> BlockID \<Rightarrow> int \<Rightarrow> Commit \<Rightarrow> (verify_error, unit) outcome" where
  "VerifyCommit env vals chainID blockID height commit =
     (if vals_Size vals \<noteq> int (length (c_Signatures commit))
      then Error (ErrInvalidCommitSignatures (vals_Size vals) (length (c_Signatures commit)))
      else if height \<noteq> c_Height commit then Error (ErrInvalidCommitHeight height (c_Height commit))
      else if \<not> bid_Equals blockID (c_BlockID commit) then Error WrongCommitBlockID
      else bind_o (TotalVotingPower vals) (\<lambda>(total, _).
           let needed = i64 (total * 2) sdiv 3
           in bind_o (verify_loop env chainID commit (Validators vals) 0 (c_Signatures commit) 0) (\<lambda>got.
              if got \<le> needed then Error (ErrNotEnoughVotingPowerSigned got needed) else Return ())))"

fun verify_light_loop ::
    "crypto_env \<Rightarrow> string \<Rightarrow> Commit \<Rightarrow> validator list \<Rightarrow> int \<Rightarrow> nat \<Rightarrow> CommitSig list \<Rightarrow> int \<Rightarrow> (verify_error, unit) outcome" where
  "verify_light_loop env chainID commit vals needed idx [] tallied =
     Error (ErrNotEnoughVotingPowerSigned tallied needed)"
| "verify_light_loop env chainID commit vals needed idx (cs # css) tallied =
     (if \<not> cs_ForBlock cs then verify_light_loop env chainID commit vals needed (Suc idx) css tallied
      else bind_o (nth_go vals (int idx)) (\<lambda>val.
           bind_o (check_sig env chainID commit val idx cs) (\<lambda>_.
           let tallied' = i64 (tallied + VotingPower val)
           in if tallied' > needed then Return ()
              else verify_light_loop env chainID commit vals needed (Suc idx) css tallied')))"

definition VerifyCommitLight ::
    "crypto_env \<Rightarrow> validator_set \<Rightarrow> string \<Rightarrow> BlockID \<Rightarrow> int \<Rightarrow> Commit \<Rightarrow> (verify_error, unit) outcome" where
  "VerifyCommitLight env vals chainID blockID height commit =
     (if vals_Size vals \<noteq> int (length (c_Signatures commit))
      then Error (ErrInvalidCommitSignatures (vals_Size vals) (length (c_Signatures commit)))
      else if height \<noteq> c_Height commit then Error (ErrInvalidCommitHeight height (c_Height commit))
      else if \<not> bid_Equals blockID (c_BlockID commit) then Error WrongCommitBlockID
      else bind_o (TotalVotingPower vals) (\<lambda>(total, _).
           verify_light_loop env chainID commit (Validators vals) (i64 (total * 2) sdiv 3) 0 (c_Signatures commit) 0))"

fun verify_trusting_loop ::
    "crypto_env \<Rightarrow> string \<Rightarrow> Commit \<Rightarrow> validator_set \<Rightarrow> int \<Rightarrow> nat \<Rightarrow> CommitSig list \<Rightarrow> (int, nat) gomap \<Rightarrow> int
      \<Rightarrow> (verify_error, unit) outcome" where
  "verify_trusting_loop env chainID commit vals needed idx [] seen tallied =
     Error (ErrNotEnoughVotingPowerSigned tallied needed)"
| "verify_trusting_loop env chainID commit vals needed idx (cs # css) seen tallied =
     (if \<not> cs_ForBlock cs then verify_trusting_loop env chainID commit vals needed (Suc idx) css seen tallied
      else case GetByAddress vals (cs_ValidatorAddress cs) of
        (_, None) \<Rightarrow> verify_trusting_loop env chainID commit vals needed (Suc idx) css seen tallied
      | (valIdx, Some val) \<Rightarrow>
          (case gm_get seen valIdx of
             Some firstIndex \<Rightarrow> Error (DoubleVote firstIndex idx)
           | None \<Rightarrow>
               bind_o (check_sig env chainID commit val idx cs) (\<lambda>_.
               let tallied' = i64 (tallied + VotingPower val)
               in if tallied' > needed then Return ()
                  else verify_trusting_loop env chainID commit vals needed (Suc idx) css
                         (gm_put valIdx idx seen) tallied')))"

definition VerifyCommitLightTrusting ::
    "crypto_env \<Rightarrow> validator_set \<Rightarrow> string \<Rightarrow> Commit \<Rightarrow> Fraction \<Rightarrow> (verify_error, unit) outcome" where
  \<comment> \<open>the conversions of numerator and denominator to int64 wrap around\<close>
  "VerifyCommitLightTrusting env vals chainID commit trustLevel =
     (if Denominator trustLevel = 0 then Error ZeroDenominator
      else bind_o (TotalVotingPower vals) (\<lambda>(total, _).
           let (product, overflow) = safeMul total (i64 (int (Numerator trustLevel)))
           in if overflow then Error TrustLevelOverflow
              else verify_trusting_loop env chainID commit vals
                     (i64 (product sdiv i64 (int (Denominator trustLevel)))) 0 (c_Signatures commit) [] 0))"

fun commit_votes_loop ::
    "crypto_env \<Rightarrow> Commit \<Rightarrow> nat \<Rightarrow> CommitSig list \<Rightarrow> VoteSet \<Rightarrow> ('e, VoteSet) outcome" where
  "commit_votes_loop env commit idx [] vs = Return vs"
| "commit_votes_loop env commit idx (cs # css) vs =
     (if cs_Absent cs then commit_votes_loop env commit (Suc idx) css vs
      else bind_o (commit_GetVote commit (i32 (int idx))) (\<lambda>vote.
           bind_o (AddVote env (Some vs) (Some vote)) (\<lambda>(added, err, vs').
           if \<not> added \<or> err \<noteq> None then Panic
           else commit_votes_loop env commit (Suc idx) css vs')))"

definition CommitToVoteSet ::
    "crypto_env \<Rightarrow> string \<Rightarrow> Commit \<Rightarrow> validator_set \<Rightarrow> ('e, VoteSet) outcome" where
  "CommitToVoteSet env chainID commit vals =
     bind_o (NewVoteSet chainID (c_Height commit) (c_Round commit) PrecommitType vals)
       (commit_votes_loop env commit 0 (c_Signatures commit))"

section \<open>What the loops tally\<close>

definition signed_commit :: "crypto_env \<Rightarrow> string \<Rightarrow> Commit \<Rightarrow> nat \<Rightarrow> validator \<Rightarrow> bool" where
  \<comment> \<open>the signature at i of the commit is valid under the key of the validator\<close>
  "signed_commit env chainID commit i val \<longleftrightarrow> i < length (c_Signatures commit)
     \<and> check_sig env chainID commit val i (c_Signatures commit ! i) = Return ()"

definition for_block :: "Commit \<Rightarrow> nat \<Rightarrow> bool" where
  "for_block commit i \<longleftrightarrow> i < length (c_Signatures commit) \<and> cs_ForBlock (c_Signatures commit ! i)"

definition power_at :: "validator_set \<Rightarrow> (nat \<Rightarrow> bool) \<Rightarrow> int" where
  "power_at vals P = (\<Sum>i \<in> {i. i < length (Validators vals) \<and> P i}. VotingPower (Validators vals ! i))"

lemma power_at_mono:
  assumes "vals_wf vals" "\<And>i. i < length (Validators vals) \<Longrightarrow> P i \<Longrightarrow> Q i"
  shows "power_at vals P \<le> power_at vals Q"
proof -
  have "{i. i < length (Validators vals) \<and> P i} \<subseteq> {i. i < length (Validators vals) \<and> Q i}" using assms(2) by blast
  moreover have "0 \<le> VotingPower (Validators vals ! i)" if "i < length (Validators vals)" for i
    using assms(1) nth_mem [OF that] by (auto simp: vals_wf_def intro: less_imp_le)
  ultimately show ?thesis unfolding power_at_def by (intro sum_mono2) simp_all
qed

lemma power_at_insert:
  assumes "i < length (Validators vals)" "\<not> P i"
  shows "power_at vals (\<lambda>j. j = i \<or> P j) = VotingPower (Validators vals ! i) + power_at vals P"
proof -
  have "{j. j < length (Validators vals) \<and> (j = i \<or> P j)} = insert i {j. j < length (Validators vals) \<and> P j}"
    using assms by auto
  then show ?thesis using assms by (simp add: power_at_def)
qed

lemma power_at_True: "power_at vals (\<lambda>_. True) = sum_list (pws vals)"
proof -
  have "{i. i < length (Validators vals) \<and> True} = {..<length (Validators vals)}" by auto
  then show ?thesis unfolding power_at_def by (simp add: sum_list_sum_nth atLeast0LessThan)
qed

lemma power_at_bounds:
  assumes "vals_wf vals"
  shows "0 \<le> power_at vals P" "power_at vals P \<le> sum_list (pws vals)"
proof -
  have "power_at vals (\<lambda>_. False) \<le> power_at vals P" by (rule power_at_mono [OF assms]) simp
  then show "0 \<le> power_at vals P" by (simp add: power_at_def)
  have "power_at vals P \<le> power_at vals (\<lambda>_. True)" by (rule power_at_mono [OF assms]) simp
  then show "power_at vals P \<le> sum_list (pws vals)" by (simp add: power_at_True)
qed

lemma power_at_i64: "vals_wf vals \<Longrightarrow> is_i64 (power_at vals P)"
  using power_at_bounds [of vals P] vals_wf_power(2) [of vals] by (intro is_i64I) auto

lemma power_at_cong:
  "(\<And>i. i < length (Validators vals) \<Longrightarrow> P i = Q i) \<Longrightarrow> power_at vals P = power_at vals Q"
  by (auto simp: power_at_def intro!: sum.cong)

lemma power_at_step:
  assumes "idx < length (Validators vals)"
  shows "power_at vals (\<lambda>i. i < Suc idx \<and> P i) =
    power_at vals (\<lambda>i. i < idx \<and> P i) + (if P idx then VotingPower (Validators vals ! idx) else 0)"
proof (cases "P idx")
  case True
  have "power_at vals (\<lambda>i. i < Suc idx \<and> P i) = power_at vals (\<lambda>i. i = idx \<or> (i < idx \<and> P i))"
    using True by (intro power_at_cong) auto
  then show ?thesis using True power_at_insert [OF assms, of "\<lambda>i. i < idx \<and> P i"] by simp
next
  case False
  then have "power_at vals (\<lambda>i. i < Suc idx \<and> P i) = power_at vals (\<lambda>i. i < idx \<and> P i)"
    by (intro power_at_cong) (auto simp: less_Suc_eq)
  then show ?thesis using False by simp
qed

lemma verify_loop_iff:
  assumes wf: "vals_wf vals" and len: "length (c_Signatures commit) = length (Validators vals)"
    and css: "css = drop idx (c_Signatures commit)"
    and t: "t = power_at vals (\<lambda>i. i < idx \<and> for_block commit i)"
  shows "verify_loop env c commit (Validators vals) idx css t = Return t' \<longleftrightarrow>
    (\<forall>i. idx \<le> i \<and> i < length (Validators vals) \<and> \<not> cs_Absent (c_Signatures commit ! i) \<longrightarrow>
       signed_commit env c commit i (Validators vals ! i)) \<and> t' = power_at vals (for_block commit)"
  using css t
proof (induction css arbitrary: idx t)
  case Nil
  then have "length (Validators vals) \<le> idx" using len by simp
  then show ?case using Nil(2) by (auto intro!: power_at_cong)
next
  case (Cons cs css)
  have idx: "idx < length (Validators vals)" using Cons.prems(1) len by (metis drop_all linorder_not_less list.distinct(1))
  have cs: "cs = c_Signatures commit ! idx" "css = drop (Suc idx) (c_Signatures commit)"
    using Cons.prems(1) idx len by (metis Cons_nth_drop_Suc list.inject)+
  have split: "(\<forall>i. idx \<le> i \<and> Q i \<longrightarrow> R i) \<longleftrightarrow> (Q idx \<longrightarrow> R idx) \<and> (\<forall>i. Suc idx \<le> i \<and> Q i \<longrightarrow> R i)" for Q R
    by (metis Suc_leD Suc_leI le_neq_implies_less order_refl)
  define t1 where "t1 = power_at vals (\<lambda>i. i < Suc idx \<and> for_block commit i)"
  have t1: "t1 = t + (if cs_ForBlock cs then VotingPower (Validators vals ! idx) else 0)"
    using idx len cs(1) Cons.prems(2) by (simp add: t1_def power_at_step [OF idx] for_block_def)
  have t1i: "i64 t1 = t1" using power_at_i64 [OF wf] by (simp add: t1_def)
  note IH = Cons.IH [OF cs(2) t1_def]
  show ?case
  proof (cases "cs_Absent cs")
    case True
    then have "\<not> cs_ForBlock cs" by (simp add: cs_Absent_def cs_ForBlock_def)
    then have "t1 = t" using t1 by simp
    then show ?thesis using True IH cs(1) split [of "\<lambda>i. i < length (Validators vals) \<and> \<not> cs_Absent (c_Signatures commit ! i)"]
      by (simp add: conj_assoc)
  next
    case False
    have run: "verify_loop env c commit (Validators vals) idx (cs # css) t =
        bind_o (check_sig env c commit (Validators vals ! idx) idx cs) (\<lambda>_. verify_loop env c commit (Validators vals) (Suc idx) css t1)"
      using False idx t1 t1i by (cases "cs_ForBlock cs") simp_all
    show ?thesis unfolding run bind_o_Return_iff
      using False IH cs(1) idx len split [of "\<lambda>i. i < length (Validators vals) \<and> \<not> cs_Absent (c_Signatures commit ! i)"
          "\<lambda>i. signed_commit env c commit i (Validators vals ! i)"]
      by (simp add: conj_assoc signed_commit_def)
  qed
qed

lemma needed_eq:
  assumes "vals_wf vals"
  shows "i64 (sum_list (pws vals) * 2) sdiv 3 < x \<longleftrightarrow> 2 * sum_list (pws vals) < 3 * x"
proof -
  note T = vals_wf_power(1,2) [OF assms]
  have "i64 (sum_list (pws vals) * 2) = sum_list (pws vals) * 2" using T by (simp add: is_i64_def)
  moreover have "(sum_list (pws vals) * 2) sdiv 3 = sum_list (pws vals) * 2 div 3" using T by (simp add: sdiv_pos)
  ultimately have e: "i64 (sum_list (pws vals) * 2) sdiv 3 = sum_list (pws vals) * 2 div 3" by (simp only:)
  show ?thesis unfolding e by linarith
qed

lemma VerifyCommit_iff:
  assumes wf: "vals_wf vals"
  shows "VerifyCommit env vals c b h commit = Return () \<longleftrightarrow>
    length (c_Signatures commit) = length (Validators vals) \<and> h = c_Height commit \<and> b = c_BlockID commit
    \<and> (\<forall>i. i < length (Validators vals) \<and> \<not> cs_Absent (c_Signatures commit ! i) \<longrightarrow>
         signed_commit env c commit i (Validators vals ! i))
    \<and> 2 * sum_list (pws vals) < 3 * power_at vals (for_block commit)"
proof (cases "length (c_Signatures commit) = length (Validators vals) \<and> h = c_Height commit \<and> b = c_BlockID commit")
  case False
  then show ?thesis by (auto simp: VerifyCommit_def vals_Size_def)
next
  case True
  then have len: "length (c_Signatures commit) = length (Validators vals)" by simp
  have z: "0 = power_at vals (\<lambda>i. i < 0 \<and> for_block commit i)" by (simp add: power_at_def)
  have run: "VerifyCommit env vals c b h commit =
      bind_o (verify_loop env c commit (Validators vals) 0 (c_Signatures commit) 0) (\<lambda>got.
        if got \<le> i64 (sum_list (pws vals) * 2) sdiv 3
        then Error (ErrNotEnoughVotingPowerSigned got (i64 (sum_list (pws vals) * 2) sdiv 3)) else Return ())"
    using True by (simp add: VerifyCommit_def vals_Size_def TotalVotingPower_wf [OF wf] Let_def)
  show ?thesis unfolding run bind_o_Return_iff
    using verify_loop_iff [OF wf len, of "c_Signatures commit" 0 0 env c] z True needed_eq [OF wf]
    by (auto simp: linorder_not_le [symmetric] split: if_splits)
qed

section \<open>The light checks\<close>

lemma verify_light_loop_iff:
  assumes wf: "vals_wf vals" and len: "length (c_Signatures commit) = length (Validators vals)"
    and css: "css = drop idx (c_Signatures commit)"
    and t: "t = power_at vals (\<lambda>i. i < idx \<and> for_block commit i)" "t \<le> needed"
  shows "verify_light_loop env c commit (Validators vals) needed idx css t = Return () \<longleftrightarrow>
    (\<exists>k. (\<forall>i. idx \<le> i \<and> i < k \<and> for_block commit i \<longrightarrow> signed_commit env c commit i (Validators vals ! i))
       \<and> needed < power_at vals (\<lambda>i. i < k \<and> for_block commit i))"
  using css t
proof (induction css arbitrary: idx t)
  case Nil
  then have "length (Validators vals) \<le> idx" using len by simp
  then have le: "power_at vals (\<lambda>i. i < k \<and> for_block commit i) \<le> t" for k
    unfolding Nil(2) by (intro power_at_mono [OF wf]) auto
  have "\<not> needed < power_at vals (\<lambda>i. i < k \<and> for_block commit i)" for k using le [of k] Nil(3) by linarith
  then show ?case by simp
next
  case (Cons cs css)
  let ?G = "\<lambda>idx k. (\<forall>i. idx \<le> i \<and> i < k \<and> for_block commit i \<longrightarrow> signed_commit env c commit i (Validators vals ! i))"
  let ?P = "\<lambda>k. power_at vals (\<lambda>i. i < k \<and> for_block commit i)"
  have idx: "idx < length (Validators vals)" using Cons.prems(1) len by (metis drop_all linorder_not_less list.distinct(1))
  have cs: "cs = c_Signatures commit ! idx" "css = drop (Suc idx) (c_Signatures commit)"
    using Cons.prems(1) idx len by (metis Cons_nth_drop_Suc list.inject)+
  have fb: "for_block commit idx = cs_ForBlock cs" using idx len cs(1) by (simp add: for_block_def)
  have t1: "?P (Suc idx) = t + (if cs_ForBlock cs then VotingPower (Validators vals ! idx) else 0)"
    using Cons.prems(2) by (simp add: power_at_step [OF idx] fb)
  have G: "?G idx k \<longleftrightarrow> (idx < k \<and> cs_ForBlock cs \<longrightarrow> signed_commit env c commit idx (Validators vals ! idx)) \<and> ?G (Suc idx) k" for k
    using fb by (metis Suc_leD Suc_leI le_neq_implies_less order_refl)
  show ?case
  proof (cases "cs_ForBlock cs")
    case False
    then have "t = ?P (Suc idx)" using t1 by simp
    note IH = Cons.IH [OF cs(2) this Cons.prems(3)]
    have g: "?G idx k = ?G (Suc idx) k" for k using G [of k] False by blast
    show ?thesis unfolding g verify_light_loop.simps if_P [OF False] by (rule IH)
  next
    case True
    have t1i: "i64 (t + VotingPower (Validators vals ! idx)) = ?P (Suc idx)"
      using t1 True i64_id [OF power_at_i64 [OF wf], of "\<lambda>i. i < Suc idx \<and> for_block commit i"] by simp
    have run: "verify_light_loop env c commit (Validators vals) needed idx (cs # css) t =
        bind_o (check_sig env c commit (Validators vals ! idx) idx cs) (\<lambda>_.
          if ?P (Suc idx) > needed then Return ()
          else verify_light_loop env c commit (Validators vals) needed (Suc idx) css (?P (Suc idx)))"
      using True idx t1i by (simp add: Let_def)
    have signed: "check_sig env c commit (Validators vals ! idx) idx cs = Return () \<longleftrightarrow> signed_commit env c commit idx (Validators vals ! idx)"
      using idx len cs(1) by (simp add: signed_commit_def)
    have late: "idx < k" if "needed < ?P k" for k
    proof (rule ccontr)
      assume "\<not> idx < k"
      then have "?P k \<le> t" unfolding Cons.prems(2) by (intro power_at_mono [OF wf]) auto
      then show False using that Cons.prems(3) by linarith
    qed
    show ?thesis
    proof (cases "needed < ?P (Suc idx)")
      case now: True
      have "?G (Suc idx) (Suc idx)" by auto
      then have "signed_commit env c commit idx (Validators vals ! idx) \<longleftrightarrow> (\<exists>k. ?G idx k \<and> needed < ?P k)"
        using now True late G by blast
      then show ?thesis unfolding run bind_o_Return_iff if_P [OF now] using signed by simp
    next
      case False
      then have "?P (Suc idx) \<le> needed" by simp
      note IH = Cons.IH [OF cs(2) refl this]
      have "(\<exists>k. ?G idx k \<and> needed < ?P k) \<longleftrightarrow>
          signed_commit env c commit idx (Validators vals ! idx) \<and> (\<exists>k. ?G (Suc idx) k \<and> needed < ?P k)"
        using True late G by blast
      then show ?thesis unfolding run bind_o_Return_iff if_not_P [OF False] IH using signed by simp
    qed
  qed
qed

lemma VerifyCommitLight_iff:
  assumes wf: "vals_wf vals"
  shows "VerifyCommitLight env vals c b h commit = Return () \<longleftrightarrow>
    length (c_Signatures commit) = length (Validators vals) \<and> h = c_Height commit \<and> b = c_BlockID commit
    \<and> (\<exists>k. (\<forall>i. i < k \<and> for_block commit i \<longrightarrow> signed_commit env c commit i (Validators vals ! i))
         \<and> 2 * sum_list (pws vals) < 3 * power_at vals (\<lambda>i. i < k \<and> for_block commit i))"
proof (cases "length (c_Signatures commit) = length (Validators vals) \<and> h = c_Height commit \<and> b = c_BlockID commit")
  case False
  then show ?thesis by (auto simp: VerifyCommitLight_def vals_Size_def)
next
  case True
  then have len: "length (c_Signatures commit) = length (Validators vals)" by simp
  have z: "0 = power_at vals (\<lambda>i. i < 0 \<and> for_block commit i)" by (simp add: power_at_def)
  have "\<not> i64 (sum_list (pws vals) * 2) sdiv 3 < 0"
    using needed_eq [OF wf, of 0] vals_wf_power(1) [OF wf] by simp
  then have nn: "0 \<le> i64 (sum_list (pws vals) * 2) sdiv 3" by simp
  have run: "VerifyCommitLight env vals c b h commit = verify_light_loop env c commit (Validators vals)
        (i64 (sum_list (pws vals) * 2) sdiv 3) 0 (c_Signatures commit) 0"
    using True by (simp add: VerifyCommitLight_def vals_Size_def TotalVotingPower_wf [OF wf])
  show ?thesis unfolding run needed_eq [OF wf, symmetric]
    using verify_light_loop_iff [OF wf len _ z nn, of "c_Signatures commit" env c] True by simp
qed

definition trusted_signer :: "crypto_env \<Rightarrow> string \<Rightarrow> validator_set \<Rightarrow> Commit \<Rightarrow> nat \<Rightarrow> bool" where
  \<comment> \<open>validator i of the set has signed the block of the commit, at whatever position its address has there\<close>
  "trusted_signer env c vals commit i \<longleftrightarrow>
     (\<exists>j. for_block commit j \<and> cs_ValidatorAddress (c_Signatures commit ! j) = Address (Validators vals ! i)
        \<and> signed_commit env c commit j (Validators vals ! i))"

lemma get_by_address_loop_Some:
  assumes "get_by_address_loop vs k a = (r, Some v)" "is_i32 (int (k + length vs))"
  shows "\<exists>i. i < length vs \<and> r = int (k + i) \<and> v = vs ! i \<and> Address v = a"
  using assms
proof (induction vs k a rule: get_by_address_loop.induct)
  case (2 val vals idx a)
  show ?case
  proof (cases "Address val = a")
    case True
    have "is_i32 (int idx)" using 2(3) by (auto simp: is_i32_def)
    then show ?thesis using 2(2) True by (intro exI [of _ 0]) auto
  next
    case False
    then obtain i where "i < length vals" "r = int (Suc idx + i)" "v = vals ! i" "Address v = a"
      using 2 by auto
    then show ?thesis by (intro exI [of _ "Suc i"]) auto
  qed
qed simp

lemma verify_trusting_loop_sound:
  assumes wf: "vals_wf vals" and n: "is_i32 (int (length (Validators vals)))"
    and css: "css = drop idx (c_Signatures commit)"
    and t: "t = power_at vals (\<lambda>i. gm_get seen (int i) \<noteq> None)"
    and seen: "\<And>i. gm_get seen (int i) \<noteq> None \<Longrightarrow> trusted_signer env c vals commit i"
    and run: "verify_trusting_loop env c commit vals needed idx css seen t = Return ()"
  shows "needed < power_at vals (trusted_signer env c vals commit)"
  using css t seen run
proof (induction css arbitrary: idx seen t)
  case Nil
  then show ?case by simp
next
  case (Cons cs css)
  have idx: "idx < length (c_Signatures commit)"
    using Cons.prems(1) by (metis drop_all linorder_not_less list.distinct(1))
  have cs: "cs = c_Signatures commit ! idx" "css = drop (Suc idx) (c_Signatures commit)"
    using Cons.prems(1) idx by (metis Cons_nth_drop_Suc list.inject)+
  show ?case
  proof (cases "cs_ForBlock cs \<and> snd (GetByAddress vals (cs_ValidatorAddress cs)) \<noteq> None")
    case False
    then have "verify_trusting_loop env c commit vals needed (Suc idx) css seen t = Return ()"
      using Cons.prems(4) by (auto split: if_splits prod.splits option.splits)
    then show ?thesis using Cons.IH [OF cs(2) Cons.prems(2,3)] by blast
  next
    case True
    then obtain r val where get: "GetByAddress vals (cs_ValidatorAddress cs) = (r, Some val)"
      by (metis not_None_eq prod.collapse)
    obtain i where i: "i < length (Validators vals)" "r = int i" "val = Validators vals ! i" "Address val = cs_ValidatorAddress cs"
      using get_by_address_loop_Some [OF get [unfolded GetByAddress_def]] n by auto
    have fresh: "gm_get seen (int i) = None"
      using Cons.prems(4) True get i(2) by (auto split: option.splits)
    have sig: "check_sig env c commit val idx cs = Return ()"
      using Cons.prems(4) True get i(2) fresh by (auto simp: bind_o_Return_iff)
    then have this_signer: "trusted_signer env c vals commit i"
      using True cs(1) i idx by (auto simp: trusted_signer_def for_block_def signed_commit_def)
    define seen' where "seen' = gm_put (int i) idx seen"
    have seen': "gm_get seen' (int j) \<noteq> None \<longleftrightarrow> j = i \<or> gm_get seen (int j) \<noteq> None" for j
      by (simp add: seen'_def gm_get_put)
    have t': "t + VotingPower val = power_at vals (\<lambda>j. gm_get seen' (int j) \<noteq> None)"
      using Cons.prems(2) i(3) power_at_insert [OF i(1), of "\<lambda>j. gm_get seen (int j) \<noteq> None"] fresh
      unfolding seen' by simp
    have t'i: "i64 (t + VotingPower val) = power_at vals (\<lambda>j. gm_get seen' (int j) \<noteq> None)"
      unfolding t' by (rule i64_id [OF power_at_i64 [OF wf]])
    have ok': "trusted_signer env c vals commit j" if "gm_get seen' (int j) \<noteq> None" for j
      using that seen' [of j] this_signer Cons.prems(3) [of j] by blast
    show ?thesis
    proof (cases "needed < power_at vals (\<lambda>j. gm_get seen' (int j) \<noteq> None)")
      case True
      have "power_at vals (\<lambda>j. gm_get seen' (int j) \<noteq> None) \<le> power_at vals (trusted_signer env c vals commit)"
        by (rule power_at_mono [OF wf]) (rule ok')
      with True show ?thesis by linarith
    next
      case False
      then have "verify_trusting_loop env c commit vals needed (Suc idx) css seen'
          (power_at vals (\<lambda>j. gm_get seen' (int j) \<noteq> None)) = Return ()"
        using Cons.prems(4) True get i(2) fresh sig t'i by (simp add: Let_def seen'_def)
      then show ?thesis using Cons.IH [OF cs(2) refl ok'] by blast
    qed
  qed
qed

section \<open>Commits made from vote sets\<close>

definition commit_sig_of :: "BlockID \<Rightarrow> Vote option \<Rightarrow> CommitSig" where
  "commit_sig_of b ov =
     (case ov of None \<Rightarrow> NewCommitSigAbsent
      | Some v \<Rightarrow>
          if v_BlockID v = b \<or> bid_IsZero (v_BlockID v)
          then \<lparr>cs_BlockIDFlag = (if v_BlockID v = b then BlockIDFlagCommit else BlockIDFlagNil),
                cs_ValidatorAddress = v_ValidatorAddress v, cs_Timestamp = v_Timestamp v, cs_Signature = v_Signature v\<rparr>
          else NewCommitSigAbsent)"

lemma zero_not_complete: "bid_IsZero b \<Longrightarrow> \<not> bid_IsComplete b"
  by (auto simp: bid_IsZero_def bid_IsComplete_def tmhash_Size_def)

lemma bid_IsZero_eq: "bid_IsZero b \<longleftrightarrow> b = zero_bid"
  by (cases b) (auto simp: bid_IsZero_def zero_bid_def psh_IsZero_def intro: PartSetHeader.equality)

lemma commit_sigs_loop_eq:
  assumes "bid_IsComplete b" "\<forall>v. Some v \<in> set votes \<longrightarrow> bid_ok (v_BlockID v)"
  shows "commit_sigs_loop votes b = (Return (map (commit_sig_of b) votes) :: ('e, _) outcome)"
  using assms(2)
proof (induction votes)
  case Nil
  show ?case by simp
next
  case (Cons ov votes)
  have IH: "commit_sigs_loop votes b = (Return (map (commit_sig_of b) votes) :: ('e, _) outcome)"
    using Cons by simp
  show ?case
  proof (cases ov)
    case None
    then show ?thesis using IH
      by (simp add: vote_CommitSig_def commit_sig_of_def NewCommitSigAbsent_def cs_ForBlock_def)
  next
    case (Some v)
    have ok: "bid_IsZero (v_BlockID v) \<or> bid_IsComplete (v_BlockID v)"
      using Cons.prems Some by (simp add: bid_ok_def)
    have nz: "\<not> bid_IsZero b" using assms(1) zero_not_complete by blast
    show ?thesis
    proof (cases "bid_IsComplete (v_BlockID v)")
      case True
      then show ?thesis using IH Some zero_not_complete [of "v_BlockID v"]
        by (auto simp: vote_CommitSig_def commit_sig_of_def cs_ForBlock_def Let_def)
    next
      case False
      then have "bid_IsZero (v_BlockID v)" "v_BlockID v \<noteq> b" using ok assms(1) by auto
      then show ?thesis using IH Some False
        by (simp add: vote_CommitSig_def commit_sig_of_def cs_ForBlock_def Let_def)
    qed
  qed
qed

lemma commit_sig_absent: "cs_Absent (commit_sig_of b ov) \<longleftrightarrow>
    (case ov of None \<Rightarrow> True | Some v \<Rightarrow> v_BlockID v \<noteq> b \<and> \<not> bid_IsZero (v_BlockID v))"
  by (auto simp: cs_Absent_def commit_sig_of_def NewCommitSigAbsent_def split: option.splits)

lemma MakeCommit_spec:
  assumes inv: "vs_inv env vs" and t: "vs_type vs = PrecommitType"
    and maj: "vs_maj23 vs = Some b" "bid_IsComplete b"
  obtains commit where "MakeCommit vs = (Return commit :: ('e, _) outcome)"
    "c_Height commit = vs_height vs" "c_Round commit = vs_round vs" "c_BlockID commit = b"
    "c_Signatures commit = map (commit_sig_of b) (vs_votes vs)"
proof -
  have core: "core_inv env vs" using inv by (simp add: vs_inv_def)
  have "\<forall>v. Some v \<in> set (vs_votes vs) \<longrightarrow> bid_ok (v_BlockID v)"
    using core_invD(6) [OF core] by (auto simp: in_set_conv_nth valid_at_def)
  from commit_sigs_loop_eq [OF maj(2) this, where 'e = 'e]
  have "MakeCommit vs = (Return \<lparr>c_Height = vs_height vs, c_Round = vs_round vs, c_BlockID = b,
      c_Signatures = map (commit_sig_of b) (vs_votes vs)\<rparr> :: ('e, _) outcome)"
    using t maj(1) by (simp add: MakeCommit_def)
  then show thesis by (rule that) simp_all
qed

lemma MakeCommit_GetVote:
  assumes inv: "vs_inv env vs" and t: "vs_type vs = PrecommitType"
    and commit: "c_Height commit = vs_height vs" "c_Round commit = vs_round vs" "c_BlockID commit = b"
      "c_Signatures commit = map (commit_sig_of b) (vs_votes vs)"
    and i: "i < length (Validators (vs_valSet vs))" "\<not> cs_Absent (c_Signatures commit ! i)"
  obtains v where "vs_votes vs ! i = Some v" "commit_GetVote commit (int i) = (Return v :: ('e, _) outcome)"
    "valid_at env vs i v" "cs_Signature (c_Signatures commit ! i) = v_Signature v"
proof -
  have core: "core_inv env vs" using inv by (simp add: vs_inv_def)
  have len: "length (vs_votes vs) = length (Validators (vs_valSet vs))" by (rule core_invD(3) [OF core])
  have cs: "c_Signatures commit ! i = commit_sig_of b (vs_votes vs ! i)" using commit(4) i(1) len by simp
  obtain v where v: "vs_votes vs ! i = Some v" "v_BlockID v = b \<or> bid_IsZero (v_BlockID v)"
    using i(2) unfolding cs commit_sig_absent by (auto split: option.splits)
  have valid: "valid_at env vs i v" using core_invD(6) [OF core] v(1) i(1) len by simp
  have "commit_GetVote commit (int i) = (Return v :: ('e, _) outcome)"
    using v valid cs commit t i(1) len
    by (auto simp: commit_GetVote_def nth_go_def commit_sig_of_def cs_BlockID_def valid_at_def bid_IsZero_eq
        intro!: Vote.equality)
  moreover have "cs_Signature (c_Signatures commit ! i) = v_Signature v"
    unfolding cs using v by (simp add: commit_sig_of_def)
  ultimately show thesis using that v(1) valid by blast
qed

lemma made_commit_verifies:
  assumes inv: "vs_inv env vs" and t: "vs_type vs = PrecommitType"
    and maj: "vs_maj23 vs = Some b" "bid_IsComplete b" and n: "is_i32 (int (length (Validators (vs_valSet vs))))"
  obtains commit where "MakeCommit vs = (Return commit :: ('e, _) outcome)"
    "VerifyCommit env (vs_valSet vs) (vs_chainID vs) b (vs_height vs) commit = Return ()"
proof -
  let ?vals = "vs_valSet vs"
  have core: "core_inv env vs" using inv by (simp add: vs_inv_def)
  note D = core_invD [OF core]
  obtain commit where c: "MakeCommit vs = (Return commit :: ('e, _) outcome)"
    "c_Height commit = vs_height vs" "c_Round commit = vs_round vs" "c_BlockID commit = b"
    "c_Signatures commit = map (commit_sig_of b) (vs_votes vs)"
    by (rule MakeCommit_spec [OF inv t maj, where 'e = 'e])
  have signed: "signed_commit env (vs_chainID vs) commit i (Validators ?vals ! i)"
    if i: "i < length (Validators ?vals)" "\<not> cs_Absent (c_Signatures commit ! i)" for i
  proof -
    obtain v where v: "vs_votes vs ! i = Some v" "commit_GetVote commit (int i) = (Return v :: (verify_error, _) outcome)"
      "valid_at env vs i v" "cs_Signature (c_Signatures commit ! i) = v_Signature v"
      by (rule MakeCommit_GetVote [OF inv t c(2-5) i, where 'e = verify_error])
    have i32: "i32 (int i) = int i" using n i(1) by (simp add: is_i32_def)
    note ok = valid_at_signable [OF v(3)]
    show ?thesis
      using v i(1) D(3) c(5) i32
      by (auto simp: signed_commit_def check_sig_def commit_VoteSignBytes_def valid_at_def vote_Verify_def
          VoteSignBytes_ok [OF ok] split: if_splits)
  qed
  obtain S where S: "S \<subseteq> {..<length (Validators ?vals)}"
    "2 * sum_list (pws ?vals) < 3 * (\<Sum>i\<in>S. VotingPower (Validators ?vals ! i))"
    "\<And>i. i \<in> S \<Longrightarrow> \<exists>v. vs_votes vs ! i = Some v \<and> v_BlockID v = b \<and> valid_at env vs i v"
    by (rule maj23_backed [OF inv maj(1)]) blast
  have "(\<Sum>i\<in>S. VotingPower (Validators ?vals ! i)) = power_at ?vals (\<lambda>i. i \<in> S)"
    unfolding power_at_def using S(1) by (intro sum.cong) auto
  also have "\<dots> \<le> power_at ?vals (for_block commit)"
    using S(3) c(5) D(3) by (intro power_at_mono [OF D(1)]) (fastforce simp: for_block_def cs_ForBlock_def commit_sig_of_def)
  finally have "2 * sum_list (pws ?vals) < 3 * power_at ?vals (for_block commit)" using S(2) by linarith
  then have "VerifyCommit env ?vals (vs_chainID vs) b (vs_height vs) commit = Return ()"
    unfolding VerifyCommit_iff [OF D(1)] using signed c(2,4,5) D(3) by (metis length_map)
  then show thesis by (rule that [OF c(1)])
qed

section \<open>Vote sets made from commits\<close>

definition single_votes :: "VoteSet \<Rightarrow> bool" where
  \<comment> \<open>no validator has voted twice: the tallies hold exactly the votes of \<open>votes\<close>\<close>
  "single_votes vs \<longleftrightarrow>
     (\<forall>key bv i w. gm_get (vs_byBlock vs) key = Some bv \<and> i < length (bv_votes bv) \<and> bv_votes bv ! i = Some w \<longrightarrow>
        vs_votes vs ! i = Some w)
     \<and> (\<forall>i w. i < length (vs_votes vs) \<and> vs_votes vs ! i = Some w \<longrightarrow>
        (\<exists>bv. gm_get (vs_byBlock vs) (bid_Key (v_BlockID w)) = Some bv \<and> i < length (bv_votes bv) \<and> bv_votes bv ! i = Some w))"

lemma fresh_step_single:
  assumes step: "fresh_step vs i v vs'" and single: "single_votes vs" and none: "vs_votes vs ! i = None"
    and len: "length (vs_votes vs') = length (vs_votes vs)"
    and lens: "\<And>key bv. gm_get (vs_byBlock vs) key = Some bv \<Longrightarrow> length (bv_votes bv) = length (vs_votes vs)"
  shows "vs_votes vs' = (vs_votes vs)[i := Some v]" "single_votes vs'"
proof -
  let ?k = "bid_Key (v_BlockID v)"
  obtain bv bv' V where
    bv: "gm_get (vs_byBlock vs) ?k = Some bv
       \<or> (gm_get (vs_byBlock vs) ?k = None \<and> bv_votes bv = replicate (length (bv_votes bv)) None)"
    and bv': "bv_votes bv' = (bv_votes bv)[i := Some v]" "i < length (bv_votes bv)"
    and blk: "vs_byBlock vs' = gm_put ?k bv' (vs_byBlock vs)"
    and V: "length V = length (bv_votes bv)" "V ! i = Some v" "\<And>j. j \<noteq> i \<Longrightarrow> V ! j = vs_votes vs ! j"
    and vs': "vs_votes vs' = V \<or> vs_votes vs' = map2 (\<lambda>s d. case s of None \<Rightarrow> d | Some v \<Rightarrow> Some v) (bv_votes bv') V"
    using step unfolding fresh_step_def by metis
  have lv: "length (vs_votes vs) = length (bv_votes bv)" using vs' len V(1) bv'(1) by auto
  have old: "vs_votes vs ! j = Some w" if "j < length (bv_votes bv)" "bv_votes bv ! j = Some w" for j w
    using bv
  proof
    assume "gm_get (vs_byBlock vs) ?k = Some bv"
    then show ?thesis using single that unfolding single_votes_def by blast
  next
    assume "gm_get (vs_byBlock vs) ?k = None \<and> bv_votes bv = replicate (length (bv_votes bv)) None"
    then have "bv_votes bv ! j = None" using that(1) by (metis nth_replicate)
    then show ?thesis using that(2) by simp
  qed
  have eqV: "V = (vs_votes vs)[i := Some v]"
    by (rule nth_equalityI) (use V lv bv'(2) in \<open>auto simp: nth_list_update\<close>)
  have "map2 (\<lambda>s d. case s of None \<Rightarrow> d | Some v \<Rightarrow> Some v) (bv_votes bv') V = V"
  proof (rule nth_equalityI)
    fix j assume "j < length (map2 (\<lambda>s d. case s of None \<Rightarrow> d | Some v \<Rightarrow> Some v) (bv_votes bv') V)"
    then have j: "j < length (bv_votes bv)" by (simp add: bv'(1))
    then show "map2 (\<lambda>s d. case s of None \<Rightarrow> d | Some v \<Rightarrow> Some v) (bv_votes bv') V ! j = V ! j"
      using old [of j] V lv bv' by (cases "j = i") (auto simp: eqV split: option.splits)
  qed (simp add: bv'(1) V(1))
  then show votes: "vs_votes vs' = (vs_votes vs)[i := Some v]" using vs' eqV by auto
  have A: "(vs_votes vs)[i := Some v] ! j = Some w"
    if "gm_get (gm_put ?k bv' (vs_byBlock vs)) key = Some b" "j < length (bv_votes b)" "bv_votes b ! j = Some w" for key b j w
  proof (cases "key = ?k")
    case True
    then have "b = bv'" using that(1) by simp
    then show ?thesis using that(2,3) old [of j w] lv bv' by (cases "j = i") auto
  next
    case False
    then have "gm_get (vs_byBlock vs) key = Some b" using that(1) by simp
    then have "vs_votes vs ! j = Some w" using single that(2,3) unfolding single_votes_def by blast
    then show ?thesis using none by (cases "j = i") auto
  qed
  have B: "\<exists>b. gm_get (gm_put ?k bv' (vs_byBlock vs)) (bid_Key (v_BlockID w)) = Some b \<and> j < length (bv_votes b) \<and> bv_votes b ! j = Some w"
    if j: "j < length (vs_votes vs)" "(vs_votes vs)[i := Some v] ! j = Some w" for j w
  proof (cases "j = i")
    case True
    then show ?thesis using j bv' lv by (intro exI [of _ bv']) auto
  next
    case False
    then have "vs_votes vs ! j = Some w" using j(2) by simp
    then obtain b where b: "gm_get (vs_byBlock vs) (bid_Key (v_BlockID w)) = Some b" "j < length (bv_votes b)" "bv_votes b ! j = Some w"
      using j(1) single unfolding single_votes_def by blast
    show ?thesis
    proof (cases "bid_Key (v_BlockID w) = ?k")
      case True
      then have "b = bv" using b(1) bv by auto
      then show ?thesis using True b bv' False by (intro exI [of _ bv']) auto
    next
      case False
      then show ?thesis using b by (intro exI [of _ b]) simp
    qed
  qed
  show "single_votes vs'" unfolding single_votes_def votes blk length_list_update using A B by blast
qed

lemma quorum_detected:
  assumes inv: "vs_inv env vs" "single_votes vs"
    and S: "S \<subseteq> {..<length (Validators (vs_valSet vs))}"
      "2 * sum_list (pws (vs_valSet vs)) < 3 * (\<Sum>i\<in>S. VotingPower (Validators (vs_valSet vs) ! i))"
      "\<And>i. i \<in> S \<Longrightarrow> \<exists>v. vs_votes vs ! i = Some v \<and> v_BlockID v = b"
  shows "vs_maj23 vs \<noteq> None"
proof
  assume none: "vs_maj23 vs = None"
  have core: "core_inv env vs" and maj: "maj_inv vs" using inv by (auto simp: vs_inv_def)
  note D = core_invD [OF core]
  have T: "0 < sum_list (pws (vs_valSet vs))" using vals_wf_power(1) [OF D(1)] .
  have tallied: "\<exists>bv. gm_get (vs_byBlock vs) (bid_Key b) = Some bv \<and> i < length (bv_votes bv) \<and> bv_votes bv ! i \<noteq> None"
    if i: "i \<in> S" for i
  proof -
    obtain v where v: "vs_votes vs ! i = Some v" "v_BlockID v = b" using S(3) [OF i] by blast
    moreover have "i < length (vs_votes vs)" using S(1) i D(3) by auto
    ultimately obtain bv where "gm_get (vs_byBlock vs) (bid_Key b) = Some bv" "i < length (bv_votes bv)" "bv_votes bv ! i = Some v"
      using inv(2) unfolding single_votes_def by metis
    then show ?thesis by (intro exI [of _ bv]) simp
  qed
  have "S \<noteq> {}" using S(2) T by auto
  then obtain bv where bv: "gm_get (vs_byBlock vs) (bid_Key b) = Some bv" using tallied by blast
  have sub: "S \<subseteq> {i. i < length (Validators (vs_valSet vs)) \<and> bv_votes bv ! i \<noteq> None}"
  proof
    fix i assume i: "i \<in> S"
    then show "i \<in> {i. i < length (Validators (vs_valSet vs)) \<and> bv_votes bv ! i \<noteq> None}"
      using tallied [OF i] bv S(1) by auto
  qed
  have nn: "0 \<le> VotingPower (Validators (vs_valSet vs) ! i)" if "i < length (Validators (vs_valSet vs))" for i
    using D(1) nth_mem [OF that] by (auto simp: vals_wf_def intro: less_imp_le)
  have "(\<Sum>i\<in>S. VotingPower (Validators (vs_valSet vs) ! i)) \<le> voted_power (Validators (vs_valSet vs)) (bv_votes bv)"
    unfolding voted_power_def using sub nn by (intro sum_mono2) auto
  then have "quorum_power vs \<le> bv_sum bv"
    using S(2) bv_invD(3) [OF D(7) [OF bv]] unfolding quorum_power_def by linarith
  moreover have "bv_sum bv < quorum_power vs" using maj none bv by (simp add: maj_inv_def)
  ultimately show False by simp
qed

lemma commit_votes_loop_ok:
  assumes n: "is_i32 (int (length (c_Signatures commit)))" and css: "css = drop idx (c_Signatures commit)"
    and inv: "vs_inv env vs" "single_votes vs"
    and len: "length (vs_votes vs) = length (c_Signatures commit)"
    and later: "\<And>i. idx \<le> i \<Longrightarrow> i < length (vs_votes vs) \<Longrightarrow> vs_votes vs ! i = None"
    and vote: "\<And>i. i < length (vs_votes vs) \<Longrightarrow> \<not> cs_Absent (c_Signatures commit ! i) \<Longrightarrow>
      commit_GetVote commit (int i) = (Return (w i) :: ('e, _) outcome) \<and> valid_at env vs i (w i)"
  obtains vs' where "commit_votes_loop env commit idx css vs = (Return vs' :: ('e, _) outcome)"
    "vs_inv env vs'" "single_votes vs'" "same_step vs vs'"
    "\<And>i. i < length (vs_votes vs) \<Longrightarrow> vs_votes vs' ! i =
       (if idx \<le> i then if cs_Absent (c_Signatures commit ! i) then None else Some (w i) else vs_votes vs ! i)"
  using css inv len later vote
proof (induction css arbitrary: idx vs thesis)
  case Nil
  then have "length (vs_votes vs) \<le> idx" by simp
  with Nil show ?case by (auto simp: same_step_refl)
next
  case (Cons cs css)
  have idx: "idx < length (c_Signatures commit)"
    using Cons.prems(2) by (metis drop_all linorder_not_less list.distinct(1))
  have cs: "cs = c_Signatures commit ! idx" "css = drop (Suc idx) (c_Signatures commit)"
    using Cons.prems(2) idx by (metis Cons_nth_drop_Suc list.inject)+
  show ?case
  proof (cases "cs_Absent cs")
    case True
    obtain vs' where vs': "commit_votes_loop env commit (Suc idx) css vs = (Return vs' :: ('e, _) outcome)"
      "vs_inv env vs'" "single_votes vs'" "same_step vs vs'"
      "\<And>i. i < length (vs_votes vs) \<Longrightarrow> vs_votes vs' ! i =
       (if Suc idx \<le> i then if cs_Absent (c_Signatures commit ! i) then None else Some (w i) else vs_votes vs ! i)"
      by (rule Cons.IH [OF _ cs(2) Cons.prems(3-5) _ Cons.prems(7)]) (use Cons.prems(6) in auto)
    have "vs_votes vs' ! i = (if idx \<le> i then if cs_Absent (c_Signatures commit ! i) then None else Some (w i) else vs_votes vs ! i)"
      if "i < length (vs_votes vs)" for i
      using vs'(5) [OF that] True cs(1) Cons.prems(6) [of i] that by (cases "i = idx") auto
    then show ?thesis using Cons.prems(1) [OF _ vs'(2-4)] vs'(1) True by simp
  next
    case False
    have il: "idx < length (vs_votes vs)" using idx Cons.prems(5) by simp
    have wi: "commit_GetVote commit (int idx) = (Return (w idx) :: ('e, _) outcome)" "valid_at env vs idx (w idx)"
      using Cons.prems(7) [OF il] False cs(1) by auto
    have none: "vs_votes vs ! idx = None" using Cons.prems(6) il by simp
    have i32: "i32 (int idx) = int idx" using n idx by (simp add: is_i32_def)
    obtain vs1 where vs1: "addVote env vs (Some (w idx)) = (Return (True, None, vs1) :: ('e, _) outcome)"
      "vs_inv env vs1" "same_step vs vs1" "fresh_step vs idx (w idx) vs1"
      by (rule addVote_fresh [OF Cons.prems(3) wi(2) none, where 'e = 'e])
    have core: "core_inv env vs" "core_inv env vs1" using Cons.prems(3) vs1(2) by (auto simp: vs_inv_def)
    have len1: "length (vs_votes vs1) = length (vs_votes vs)"
      using core_invD(3) [OF core(1)] core_invD(3) [OF core(2)] vs1(3) by (simp add: same_step_def)
    note fs = fresh_step_single [OF vs1(4) Cons.prems(4) none len1]
    have lens: "length (bv_votes bv) = length (vs_votes vs)" if "gm_get (vs_byBlock vs) key = Some bv" for key bv
      using bv_invD(1) [OF core_invD(7) [OF core(1) that]] core_invD(3) [OF core(1)] by simp
    have vote1: "commit_GetVote commit (int i) = (Return (w i) :: ('e, _) outcome) \<and> valid_at env vs1 i (w i)"
      if "i < length (vs_votes vs1)" "\<not> cs_Absent (c_Signatures commit ! i)" for i
      using Cons.prems(7) [of i] that len1 valid_at_same [OF vs1(3)] by simp
    obtain vs' where vs': "commit_votes_loop env commit (Suc idx) css vs1 = (Return vs' :: ('e, _) outcome)"
      "vs_inv env vs'" "single_votes vs'" "same_step vs1 vs'"
      "\<And>i. i < length (vs_votes vs1) \<Longrightarrow> vs_votes vs' ! i =
       (if Suc idx \<le> i then if cs_Absent (c_Signatures commit ! i) then None else Some (w i) else vs_votes vs1 ! i)"
      by (rule Cons.IH [OF _ cs(2) vs1(2) fs(2) _ _ vote1])
        (use lens len1 Cons.prems(5,6) fs(1) [OF lens] in auto)
    have "vs_votes vs' ! i = (if idx \<le> i then if cs_Absent (c_Signatures commit ! i) then None else Some (w i) else vs_votes vs ! i)"
      if "i < length (vs_votes vs)" for i
      using vs'(5) [of i] that False cs(1) len1 fs(1) [OF lens] by (cases "i = idx") auto
    moreover have "commit_votes_loop env commit idx (cs # css) vs = (Return vs' :: ('e, _) outcome)"
      using False wi(1) i32 vs1(1) vs'(1) by (simp add: AddVote_def)
    ultimately show ?thesis using Cons.prems(1) [OF _ vs'(2,3) same_step_trans [OF vs1(3) vs'(4)]] by blast
  qed
qed

lemma CommitToVoteSet_restores:
  assumes inv: "vs_inv env vs" and t: "vs_type vs = PrecommitType" and h: "vs_height vs \<noteq> 0"
    and maj: "vs_maj23 vs = Some b" "bid_IsComplete b" and n: "is_i32 (int (length (Validators (vs_valSet vs))))"
    and make: "MakeCommit vs = (Return commit :: ('e, _) outcome)"
  obtains vs' where "CommitToVoteSet env (vs_chainID vs) commit (vs_valSet vs) = (Return vs' :: ('e, _) outcome)"
    "vs_inv env vs'" "vs_maj23 vs' = Some b"
proof -
  let ?vals = "vs_valSet vs"
  have core: "core_inv env vs" using inv by (simp add: vs_inv_def)
  note D = core_invD [OF core]
  obtain commit' where "MakeCommit vs = (Return commit' :: ('e, _) outcome)"
    "c_Height commit' = vs_height vs" "c_Round commit' = vs_round vs" "c_BlockID commit' = b"
    "c_Signatures commit' = map (commit_sig_of b) (vs_votes vs)"
    by (rule MakeCommit_spec [OF inv t maj, where 'e = 'e])
  then have c: "c_Height commit = vs_height vs" "c_Round commit = vs_round vs" "c_BlockID commit = b"
    "c_Signatures commit = map (commit_sig_of b) (vs_votes vs)" using make by auto
  obtain vs0 where vs0: "NewVoteSet (vs_chainID vs) (vs_height vs) (vs_round vs) PrecommitType ?vals = (Return vs0 :: ('e, _) outcome)"
    "vs_inv env vs0" "vs_chainID vs0 = vs_chainID vs" "vs_height vs0 = vs_height vs" "vs_round vs0 = vs_round vs"
    "vs_type vs0 = PrecommitType" "vs_valSet vs0 = ?vals"
    by (rule NewVoteSet_inv [OF h D(1,2), where 'e = 'e])
  have empty: "vs_byBlock vs0 = []" "vs_votes vs0 = replicate (length (Validators ?vals)) None"
    using vs0(1) h by (auto simp: NewVoteSet_def)
  have same0: "same_step vs vs0" using vs0(3-7) t by (simp add: same_step_def)
  have single0: "single_votes vs0" by (simp add: single_votes_def empty)
  define w where "w i = the (vs_votes vs ! i)" for i
  have w: "vs_votes vs ! i = Some (w i) \<and> commit_GetVote commit (int i) = (Return (w i) :: ('e, _) outcome) \<and> valid_at env vs0 i (w i)"
    if i: "i < length (Validators ?vals)" "\<not> cs_Absent (c_Signatures commit ! i)" for i
  proof -
    obtain v where "vs_votes vs ! i = Some v" "commit_GetVote commit (int i) = (Return v :: ('e, _) outcome)" "valid_at env vs i v"
      by (rule MakeCommit_GetVote [OF inv t c i, where 'e = 'e])
    then show ?thesis by (simp add: w_def valid_at_same [OF same0])
  qed
  obtain vs' where vs': "commit_votes_loop env commit 0 (c_Signatures commit) vs0 = (Return vs' :: ('e, _) outcome)"
    "vs_inv env vs'" "single_votes vs'" "same_step vs0 vs'"
    "\<And>i. i < length (vs_votes vs0) \<Longrightarrow> vs_votes vs' ! i =
       (if 0 \<le> i then if cs_Absent (c_Signatures commit ! i) then None else Some (w i) else vs_votes vs0 ! i)"
    by (rule commit_votes_loop_ok [OF _ _ vs0(2) single0, of commit "c_Signatures commit" 0 w, where 'e = 'e])
      (use n c(4) D(3) empty w in auto)
  have V: "Validators (vs_valSet vs') = Validators ?vals" using vs'(4) vs0(7) by (simp add: same_step_def)
  obtain S where S: "S \<subseteq> {..<length (Validators ?vals)}"
    "2 * sum_list (pws ?vals) < 3 * (\<Sum>i\<in>S. VotingPower (Validators ?vals ! i))"
    "\<And>i. i \<in> S \<Longrightarrow> \<exists>v. vs_votes vs ! i = Some v \<and> v_BlockID v = b \<and> valid_at env vs i v"
    by (rule maj23_backed [OF inv maj(1)]) blast
  have inS: "vs_votes vs' ! i = Some (w i) \<and> v_BlockID (w i) = b" if iS: "i \<in> S" for i
  proof -
    obtain v where v: "vs_votes vs ! i = Some v" "v_BlockID v = b" using S(3) [OF iS] by blast
    have i: "i < length (Validators ?vals)" using S(1) iS by blast
    have "\<not> cs_Absent (c_Signatures commit ! i)" using c(4) D(3) i v by (simp add: commit_sig_absent)
    then show ?thesis using vs'(5) [of i] empty(2) i v by (simp add: w_def)
  qed
  have "vs_maj23 vs' \<noteq> None"
    by (rule quorum_detected [OF vs'(2,3), of S b]) (use S inS V in auto)
  then obtain b' where b': "vs_maj23 vs' = Some b'" by (cases "vs_maj23 vs'") auto
  obtain S' where S': "S' \<subseteq> {..<length (Validators ?vals)}"
    "2 * sum_list (pws ?vals) < 3 * (\<Sum>i\<in>S'. VotingPower (Validators ?vals ! i))"
    "\<And>i. i \<in> S' \<Longrightarrow> \<exists>v. vs_votes vs' ! i = Some v \<and> v_BlockID v = b' \<and> valid_at env vs' i v"
    by (rule maj23_backed [OF vs'(2) b']) (unfold V, blast)
  have "S \<inter> S' \<noteq> {}"
    using overlap_power [OF D(1) S(1) S'(1) S(2) S'(2)] vals_wf_power(1) [OF D(1)] by auto
  then obtain i where "i \<in> S" "i \<in> S'" by blast
  then have "b' = b" using inS S'(3) by fastforce
  then show thesis using that [OF _ vs'(2)] b' vs'(1) vs0(1) c by (simp add: CommitToVoteSet_def)
qed

section \<open>Properties\<close>

text \<open>
  C17: a commit made from a vote set with a majority is accepted by every verifier.  Whatever votes
  and peer claims a precommit set received, if it reports a majority for a block then \<open>MakeCommit\<close>
  returns a commit that \<open>VerifyCommit\<close> accepts for that block and height; and the vote set that
  \<open>CommitToVoteSet\<close> rebuilds from the commit, as a restarted node does, reports the same majority.
\<close>

theorem made_commit_is_accepted_and_restores:
  assumes "NewVoteSet c h r PrecommitType vals = (Return vs0 :: (verify_error, _) outcome)" "vals_wf vals"
    "\<forall>v \<in> set (Validators vals). PubKey v \<noteq> None" "is_i32 (int (length (Validators vals)))"
    "vs_run env vs0 vs" "TwoThirdsMajority (Some vs) = (b, True)" "bid_IsComplete b"
  shows "\<exists>commit vs'. MakeCommit vs = (Return commit :: (verify_error, _) outcome)
    \<and> VerifyCommit env vals c b h commit = Return ()
    \<and> CommitToVoteSet env c commit vals = (Return vs' :: (verify_error, _) outcome)
    \<and> TwoThirdsMajority (Some vs') = (b, True)"
proof -
  note new = NewVoteSet_start(1) [OF assms(1-3), of env] NewVoteSet_start(2) [OF assms(1-3)]
  have h: "h \<noteq> 0" "vs_chainID vs0 = c" "vs_height vs0 = h" "vs_type vs0 = PrecommitType"
    using assms(1) by (auto simp: NewVoteSet_def split: if_splits)
  have inv: "vs_inv env vs" and same: "same_step vs0 vs" using vs_run_inv [OF assms(5) new(1)] by auto
  have V: "Validators (vs_valSet vs) = Validators vals" "vs_chainID vs = c" "vs_height vs = h" "vs_type vs = PrecommitType"
    using same new(2) h by (auto simp: same_step_def)
  have wf: "vals_wf (vs_valSet vs)" using inv by (auto simp: vs_inv_def core_inv_def)
  have maj: "vs_maj23 vs = Some b" using assms(6) by (auto simp: TwoThirdsMajority_def split: option.splits)
  have n: "is_i32 (int (length (Validators (vs_valSet vs))))" using assms(4) V(1) by simp
  obtain commit where c: "MakeCommit vs = (Return commit :: (verify_error, _) outcome)"
    "VerifyCommit env (vs_valSet vs) (vs_chainID vs) b (vs_height vs) commit = Return ()"
    by (rule made_commit_verifies [OF inv V(4) maj assms(7) n, where 'e = verify_error])
  have accepted: "VerifyCommit env vals c b h commit = Return ()"
    using c(2) V unfolding VerifyCommit_iff [OF wf] VerifyCommit_iff [OF assms(2)] power_at_def by simp
  define vs1 where "vs1 = vs\<lparr>vs_valSet := vals\<rparr>"
  have same1: "same_step vs vs1" using V(1) by (simp add: same_step_def vs1_def)
  have inv1: "vs_inv env vs1"
    using inv assms(2,3) V(1) valid_at_same [OF same1] bv_inv_same [OF same1] quorum_same [OF same1]
    unfolding vs_inv_def core_inv_def maj_inv_def by (simp add: vs1_def maj)
  have make1: "MakeCommit vs1 = (Return commit :: (verify_error, _) outcome)"
    using c(1) V(4) by (simp add: MakeCommit_def vs1_def maj)
  obtain vs' where "CommitToVoteSet env (vs_chainID vs1) commit (vs_valSet vs1) = (Return vs' :: (verify_error, _) outcome)"
    "vs_maj23 vs' = Some b"
    by (rule CommitToVoteSet_restores [OF inv1 _ _ _ assms(7) _ make1])
      (use V maj n h assms(4) in \<open>auto simp: vs1_def\<close>)
  then have "CommitToVoteSet env c commit vals = (Return vs' :: (verify_error, _) outcome)" "TwoThirdsMajority (Some vs') = (b, True)"
    using V(2) by (simp_all add: vs1_def TwoThirdsMajority_def)
  then show ?thesis using c(1) accepted by blast
qed

theorem made_commit_is_accepted_and_restores_witness:
  "\<exists>commit vs'. MakeCommit (example_set PrecommitType (example_bid 1)) = (Return commit :: (verify_error, _) outcome)
    \<and> VerifyCommit vote_env vote_vals ''c'' (example_bid 1) 1 commit = Return ()
    \<and> CommitToVoteSet vote_env ''c'' commit vote_vals = (Return vs' :: (verify_error, _) outcome)
    \<and> TwoThirdsMajority (Some vs') = (example_bid 1, True)"
proof -
  obtain vs0 where vs0: "NewVoteSet ''c'' 1 0 PrecommitType vote_vals = (Return vs0 :: (unit, _) outcome)"
    "vs_run vote_env vs0 (example_set PrecommitType (example_bid 1))" by (rule example_set_run [OF example_bid_ok(1)])
  then have "NewVoteSet ''c'' 1 0 PrecommitType vote_vals = (Return vs0 :: (verify_error, _) outcome)"
    by (simp add: NewVoteSet_def)
  from made_commit_is_accepted_and_restores [OF this vote_vals_ok _ vs0(2) example_set_maj(3) example_bid_complete]
  show ?thesis by (simp add: vote_vals_def is_i32_def)
qed

text \<open>
  C18: what an accepted commit proves.  \<open>VerifyCommit\<close> accepts exactly the commits of the right size,
  height and block id in which every present signature is valid and the signatures for the block
  carry more than two thirds of the total voting power.
\<close>

theorem VerifyCommit_exact:
  assumes "vals_wf vals"
  shows "VerifyCommit env vals c b h commit = Return () \<longleftrightarrow>
    length (c_Signatures commit) = length (Validators vals) \<and> h = c_Height commit \<and> b = c_BlockID commit
    \<and> (\<forall>i. i < length (Validators vals) \<and> \<not> cs_Absent (c_Signatures commit ! i) \<longrightarrow>
         signed_commit env c commit i (Validators vals ! i))
    \<and> 2 * sum_list (pws vals) < 3 * power_at vals (for_block commit)"
  by (rule VerifyCommit_iff [OF assms])

definition example_commit :: Commit where
  "example_commit = \<lparr>c_Height = 1, c_Round = 0, c_BlockID = example_bid 1,
     c_Signatures = [NewCommitSigForBlock [1] [1] 0, NewCommitSigForBlock [2] [2] 0]\<rparr>"

theorem VerifyCommit_exact_witness: "4 < 3 * power_at vote_vals (for_block example_commit)"
proof -
  have "VerifyCommit vote_env vote_vals ''c'' (example_bid 1) 1 example_commit = Return ()" by code_simp
  moreover have "sum_list (pws vote_vals) = 2" by (simp add: vote_vals_def)
  ultimately show ?thesis
    using VerifyCommit_exact [OF vote_vals_ok(1), of vote_env "''c''" "example_bid 1" 1 example_commit] by simp
qed

text \<open>
  C19: the light check asks for less and still proves a quorum.  Every commit that \<open>VerifyCommit\<close>
  accepts is accepted by \<open>VerifyCommitLight\<close>, and every commit that \<open>VerifyCommitLight\<close> accepts
  carries valid signatures for the block from more than two thirds of the voting power, although
  it stops at the first two thirds.
\<close>

theorem VerifyCommitLight_sound_and_complete:
  assumes wf: "vals_wf vals"
  shows "(VerifyCommit env vals c b h commit = Return () \<longrightarrow> VerifyCommitLight env vals c b h commit = Return ())
    \<and> (VerifyCommitLight env vals c b h commit = Return () \<longrightarrow>
         b = c_BlockID commit \<and> h = c_Height commit
         \<and> 2 * sum_list (pws vals) <
             3 * power_at vals (\<lambda>i. for_block commit i \<and> signed_commit env c commit i (Validators vals ! i)))"
proof (intro conjI impI)
  assume ok: "VerifyCommit env vals c b h commit = Return ()"
  then have len: "length (c_Signatures commit) = length (Validators vals)" by (simp add: VerifyCommit_iff [OF wf])
  have "power_at vals (\<lambda>i. i < length (Validators vals) \<and> for_block commit i) = power_at vals (for_block commit)"
    by (intro power_at_cong) simp
  moreover have "signed_commit env c commit i (Validators vals ! i)" if "for_block commit i" for i
    using ok that len unfolding VerifyCommit_iff [OF wf] for_block_def cs_ForBlock_def cs_Absent_def by simp
  ultimately show "VerifyCommitLight env vals c b h commit = Return ()"
    using ok unfolding VerifyCommitLight_iff [OF wf] VerifyCommit_iff [OF wf]
    by (intro conjI exI [of _ "length (Validators vals)"]) auto
next
  assume "VerifyCommitLight env vals c b h commit = Return ()"
  then obtain k where k: "\<forall>i. i < k \<and> for_block commit i \<longrightarrow> signed_commit env c commit i (Validators vals ! i)"
    "2 * sum_list (pws vals) < 3 * power_at vals (\<lambda>i. i < k \<and> for_block commit i)"
    and hb: "h = c_Height commit" "b = c_BlockID commit" unfolding VerifyCommitLight_iff [OF wf] by blast
  have "power_at vals (\<lambda>i. i < k \<and> for_block commit i)
      \<le> power_at vals (\<lambda>i. for_block commit i \<and> signed_commit env c commit i (Validators vals ! i))"
    using k(1) by (intro power_at_mono [OF wf]) auto
  then show "2 * sum_list (pws vals) <
      3 * power_at vals (\<lambda>i. for_block commit i \<and> signed_commit env c commit i (Validators vals ! i))"
    using k(2) by linarith
  show "b = c_BlockID commit" "h = c_Height commit" by (simp_all add: hb)
qed

theorem VerifyCommitLight_sound_and_complete_witness:
  "4 < 3 * power_at vote_vals (\<lambda>i. for_block example_commit i
     \<and> signed_commit vote_env ''c'' example_commit i (Validators vote_vals ! i))"
proof -
  have "VerifyCommitLight vote_env vote_vals ''c'' (example_bid 1) 1 example_commit = Return ()" by code_simp
  moreover have "sum_list (pws vote_vals) = 2" by (simp add: vote_vals_def)
  ultimately show ?thesis
    using VerifyCommitLight_sound_and_complete [OF vote_vals_ok(1), of vote_env "''c''" "example_bid 1" 1 example_commit]
    by simp
qed

text \<open>
  C20: what a trusted check proves.  When \<open>VerifyCommitLightTrusting\<close> accepts a commit at trust level
  n/d, validators of the trusted set with more than n/d of its voting power have signed the block,
  none of them counted twice.
\<close>

theorem VerifyCommitLightTrusting_sound:
  assumes wf: "vals_wf vals" and len: "is_i32 (int (length (Validators vals)))"
    and level: "int (Numerator level) \<le> MaxInt64" "int (Denominator level) \<le> MaxInt64"
    and ok: "VerifyCommitLightTrusting env vals c commit level = Return ()"
  shows "int (Numerator level) * sum_list (pws vals) <
    int (Denominator level) * power_at vals (trusted_signer env c vals commit)"
proof -
  let ?T = "sum_list (pws vals)" and ?n = "int (Numerator level)" and ?d = "int (Denominator level)"
  note T = vals_wf_power(1,2) [OF wf]
  have d: "0 < ?d" using ok by (auto simp: VerifyCommitLightTrusting_def split: if_splits)
  have i: "i64 ?n = ?n" "i64 ?d = ?d" using level by (auto intro!: i64_id is_i64I)
  have mul: "safeMul ?T ?n = (if \<bar>?T * ?n\<bar> \<le> MaxInt64 then (?T * ?n, False) else (0, True))"
    using T level by (intro safeMul_eq) (auto intro!: is_i64I)
  have fits: "\<bar>?T * ?n\<bar> \<le> MaxInt64"
    using ok d unfolding VerifyCommitLightTrusting_def by (auto simp: TotalVotingPower_wf [OF wf] i mul split: if_splits)
  have nn: "0 \<le> ?T * ?n" using T by simp
  have q: "(?T * ?n) sdiv ?d = ?T * ?n div ?d" using nn d by (simp add: sdiv_pos)
  have "?T * ?n div ?d \<le> ?T * ?n div 1" using nn d by (intro zdiv_mono2) auto
  then have "?T * ?n div ?d \<le> ?T * ?n" by simp
  moreover have "0 \<le> ?T * ?n div ?d" using nn d by (simp add: pos_imp_zdiv_nonneg_iff)
  ultimately have q64: "i64 (?T * ?n div ?d) = ?T * ?n div ?d" using fits nn by (intro i64_id is_i64I) linarith+
  have "verify_trusting_loop env c commit vals (?T * ?n div ?d) 0 (c_Signatures commit) [] 0 = Return ()"
    using ok d fits unfolding VerifyCommitLightTrusting_def by (auto simp: TotalVotingPower_wf [OF wf] i mul q q64)
  then have "?T * ?n div ?d < power_at vals (trusted_signer env c vals commit)"
    by (intro verify_trusting_loop_sound [OF wf len _ _ _, of _ 0 _ _ "[]"]) (auto simp: power_at_def)
  then have "?T * ?n < power_at vals (trusted_signer env c vals commit) * ?d"
    using le_div_int_iff [OF d, of "power_at vals (trusted_signer env c vals commit)" "?T * ?n"] by linarith
  then show ?thesis by (simp add: mult.commute)
qed

theorem VerifyCommitLightTrusting_sound_witness:
  "2 < 3 * power_at vote_vals (trusted_signer vote_env ''c'' vote_vals example_commit)"
proof -
  have ok: "VerifyCommitLightTrusting vote_env vote_vals ''c'' example_commit \<lparr>Numerator = 1, Denominator = 3\<rparr> = Return ()"
    by code_simp
  have len: "is_i32 (int (length (Validators vote_vals)))" by (simp add: vote_vals_def is_i32_def)
  have "sum_list (pws vote_vals) = 2" by (simp add: vote_vals_def)
  then show ?thesis using VerifyCommitLightTrusting_sound [OF vote_vals_ok(1) len _ _ ok] by simp
qed

end
