(* ===== verification/Wire.thy ===== *)
theory Wire
  imports Blocks
begin

text \<open>
  The protobuf wire format as the generated code of proto/tendermint/types/canonical.pb.go reads and
  writes it, and the length-delimited framing of libs/protoio.  A decoder works on the whole buffer
  and an index into it, as the Go code does; a decoder of a field returns the value and the number
  of bytes it consumed.
\<close>

unbundle bit_operations_syntax

section \<open>Numbers\<close>

datatype wire_error =
    ErrIntOverflow
  | ErrUnexpectedEOF
  | ErrInvalidLength
  | ErrUnexpectedEndOfGroup
  | IllegalWireType
  | EndGroupForNonGroup
  | IllegalTag
  | WrongWireType
  | TimestampError
  | MessageTooBig

function read_varint :: "bytes \<Rightarrow> nat \<Rightarrow> nat \<Rightarrow> 'a::len word \<Rightarrow> (wire_error, 'a word \<times> nat) outcome" where
  "read_varint dAtA iNdEx shift v =
     (if shift \<ge> 64 then Error ErrIntOverflow
      else if iNdEx \<ge> length dAtA then Error ErrUnexpectedEOF
      else let b = dAtA ! iNdEx; v' = v OR push_bit shift (ucast (b AND 0x7F))
           in if b < 0x80 then Return (v', Suc iNdEx) else read_varint dAtA (Suc iNdEx) (shift + 7) v')"
  by pat_completeness auto
termination by (relation "measure (\<lambda>(_, _, shift, _). 64 - shift)") auto

declare read_varint.simps [simp del]

fun le_bytes :: "nat \<Rightarrow> 64 word \<Rightarrow> bytes" where
  \<comment> \<open>\<open>binary.LittleEndian.PutUint64\<close> for n = 8\<close>
  "le_bytes 0 w = []"
| "le_bytes (Suc n) w = ucast w # le_bytes n (drop_bit 8 w)"

fun of_le_bytes :: "bytes \<Rightarrow> 64 word" where
  "of_le_bytes [] = 0"
| "of_le_bytes (b # bs) = ucast b OR push_bit 8 (of_le_bytes bs)"

fun len64 :: "nat \<Rightarrow> nat" where
  \<comment> \<open>\<open>bits.Len64\<close>\<close>
  "len64 x = (if x = 0 then 0 else Suc (len64 (x div 2)))"

declare len64.simps [simp del]

definition sov :: "nat \<Rightarrow> nat" where
  "sov x = (len64 (x OR 1) + 6) div 7"

section \<open>Fields\<close>

definition wraps :: "int \<Rightarrow> bool" where
  \<comment> \<open>the sum of two non-negative ints is negative exactly when it exceeds the largest int\<close>
  "wraps x \<longleftrightarrow> x > MaxInt64"

definition read_len :: "bytes \<Rightarrow> nat \<Rightarrow> (wire_error, nat \<times> nat) outcome" where
  \<comment> \<open>the length of a length-delimited field: the index after it and the length\<close>
  "read_len dAtA iNdEx =
     bind_o (read_varint dAtA iNdEx 0 (0 :: 64 word)) (\<lambda>(w, i).
       let n = sint w
       in if n < 0 then Error ErrInvalidLength
          else if wraps (int i + n) then Error ErrInvalidLength
          else if int i + n > int (length dAtA) then Error ErrUnexpectedEOF
          else Return (i, nat n))"

definition field_bytes :: "bytes \<Rightarrow> nat \<Rightarrow> (wire_error, bytes \<times> nat) outcome" where
  "field_bytes dAtA iNdEx =
     bind_o (read_len dAtA iNdEx) (\<lambda>(i, n). Return (take n (drop i dAtA), i - iNdEx + n))"

definition field_varint :: "bytes \<Rightarrow> nat \<Rightarrow> (wire_error, 'a::len word \<times> nat) outcome" where
  "field_varint dAtA iNdEx =
     bind_o (read_varint dAtA iNdEx 0 0) (\<lambda>(w, i). Return (w, i - iNdEx))"

definition field_fixed64 :: "bytes \<Rightarrow> nat \<Rightarrow> (wire_error, 64 word \<times> nat) outcome" where
  "field_fixed64 dAtA iNdEx =
     (if iNdEx + 8 > length dAtA then Error ErrUnexpectedEOF
      else Return (of_le_bytes (take 8 (drop iNdEx dAtA)), 8))"

function skip_varint :: "bytes \<Rightarrow> nat \<Rightarrow> nat \<Rightarrow> (wire_error, nat) outcome" where
  "skip_varint dAtA iNdEx shift =
     (if shift \<ge> 64 then Error ErrIntOverflow
      else if iNdEx \<ge> length dAtA then Error ErrUnexpectedEOF
      else if dAtA ! iNdEx < 0x80 then Return (Suc iNdEx)
      else skip_varint dAtA (Suc iNdEx) (shift + 7))"
  by pat_completeness auto
termination by (relation "measure (\<lambda>(_, _, shift). 64 - shift)") auto

declare skip_varint.simps [simp del]

definition skip_advance :: "bytes \<Rightarrow> nat \<Rightarrow> nat \<Rightarrow> nat \<Rightarrow> (wire_error, nat \<times> nat) outcome" where
  \<comment> \<open>the switch over the wire type: the new index, which may pass the end, and the depth\<close>
  "skip_advance dAtA iNdEx depth wireType =
     (if wireType = 0 then bind_o (skip_varint dAtA iNdEx 0) (\<lambda>i. Return (i, depth))
      else if wireType = 1 then Return (iNdEx + 8, depth)
      else if wireType = 2
      then bind_o (read_varint dAtA iNdEx 0 (0 :: 64 word)) (\<lambda>(w, i).
             if sint w < 0 then Error ErrInvalidLength else Return (i + nat (sint w), depth))
      else if wireType = 3 then Return (iNdEx, Suc depth)
      else if wireType = 4
      then (if depth = 0 then Error ErrUnexpectedEndOfGroup else Return (iNdEx, depth - 1))
      else if wireType = 5 then Return (iNdEx + 4, depth)
      else Error IllegalWireType)"

lemma read_varint_gt: "read_varint d i shift v = Return (w, j) \<Longrightarrow> i < j \<and> j \<le> length d"
proof (induction d i shift v rule: read_varint.induct)
  case (1 d i shift v)
  let ?b = "d ! i" and ?v = "v OR push_bit shift (ucast (d ! i AND 0x7F))"
  have g: "\<not> shift \<ge> 64" "\<not> i \<ge> length d"
    using "1.prems" by (auto simp: read_varint.simps [of d i] split: if_splits)
  have e: "read_varint d i shift v = (if ?b < 0x80 then Return (?v, Suc i) else read_varint d (Suc i) (shift + 7) ?v)"
    unfolding read_varint.simps [of d i] Let_def using g by simp
  show ?case
  proof (cases "?b < 0x80")
    case True
    then show ?thesis using "1.prems" g unfolding e by simp
  next
    case False
    then have "read_varint d (Suc i) (shift + 7) ?v = Return (w, j)" using "1.prems" unfolding e by simp
    from "1.IH" [OF g refl refl False this] show ?thesis by simp
  qed
qed

lemma skip_varint_gt: "skip_varint d i shift = Return j \<Longrightarrow> i < j"
proof (induction d i shift rule: skip_varint.induct)
  case (1 d i shift)
  have g: "\<not> shift \<ge> 64" "\<not> i \<ge> length d"
    using "1.prems" by (auto simp: skip_varint.simps [of d i] split: if_splits)
  show ?case
  proof (cases "d ! i < 0x80")
    case True
    then show ?thesis using "1.prems" g unfolding skip_varint.simps [of d i] by simp
  next
    case False
    then have "skip_varint d (Suc i) (shift + 7) = Return j"
      using "1.prems" g unfolding skip_varint.simps [of d i] by simp
    from "1.IH" [OF g False this] show ?thesis by simp
  qed
qed

lemma skip_advance_ge: "skip_advance d i depth wt = Return (j, depth') \<Longrightarrow> i \<le> j"
  by (auto simp: skip_advance_def bind_o_Return_iff split: if_splits dest!: skip_varint_gt read_varint_gt)

function skip_loop :: "bytes \<Rightarrow> nat \<Rightarrow> nat \<Rightarrow> (wire_error, nat) outcome" where
  "skip_loop dAtA iNdEx depth =
     (if iNdEx \<ge> length dAtA then Error ErrUnexpectedEOF
      else bind_o (read_varint dAtA iNdEx 0 (0 :: 64 word)) (\<lambda>(wire, i).
           bind_o (skip_advance dAtA i depth (unat (wire AND 7))) (\<lambda>(j, depth').
           if wraps (int j) then Error ErrInvalidLength
           else if depth' = 0 then Return j
           else skip_loop dAtA j depth')))"
  by pat_completeness auto
termination
  by (relation "measure (\<lambda>(d, i, _). length d - i)")
    (auto dest!: read_varint_gt skip_advance_ge)

declare skip_loop.simps [simp del]

definition skip :: "bytes \<Rightarrow> (wire_error, nat) outcome" where
  "skip dAtA = skip_loop dAtA 0 0"

lemma skip_loop_gt: "skip_loop d i depth = Return j \<Longrightarrow> i < j"
proof (induction d i depth rule: skip_loop.induct)
  case (1 d i depth)
  then obtain wire i1 j1 depth' where *: "\<not> i \<ge> length d" "read_varint d i 0 (0 :: 64 word) = Return (wire, i1)"
    "skip_advance d i1 depth (unat (wire AND 7)) = Return (j1, depth')"
    "(if wraps (int j1) then Error ErrInvalidLength else if depth' = 0 then Return j1 else skip_loop d j1 depth') = Return j"
    by (subst (asm) (2) skip_loop.simps) (auto simp: bind_o_Return_iff split: if_splits)
  have "i < j1" using read_varint_gt [OF *(2)] skip_advance_ge [OF *(3)] by simp
  then show ?case
    using *(4) "1.IH" [OF *(1,2) refl *(3) refl] by (auto split: if_splits)
qed

section \<open>Messages\<close>

text \<open>
  Every generated \<open>Unmarshal\<close> is the same loop over a switch on the field number.  The switch is the
  argument \<open>handler\<close>: \<open>None\<close> is its default case, which skips the field.
\<close>

type_synonym 'm handler = "nat \<Rightarrow> nat \<Rightarrow> bytes \<Rightarrow> nat \<Rightarrow> 'm \<Rightarrow> (wire_error, 'm \<times> nat) outcome option"

function unmarshal_loop :: "'m handler \<Rightarrow> bytes \<Rightarrow> nat \<Rightarrow> 'm \<Rightarrow> (wire_error, 'm) outcome" where
  "unmarshal_loop handler dAtA iNdEx m =
     (if iNdEx \<ge> length dAtA
      then (if iNdEx > length dAtA then Error ErrUnexpectedEOF else Return m)
      else bind_o (read_varint dAtA iNdEx 0 (0 :: 64 word)) (\<lambda>(wire, i).
           let fieldNum = i32 (uint (drop_bit 3 wire)); wireType = unat (wire AND 7)
           in if wireType = 4 then Error EndGroupForNonGroup
              else if fieldNum \<le> 0 then Error IllegalTag
              else case handler (nat fieldNum) wireType dAtA i m of
                Some r \<Rightarrow> bind_o r (\<lambda>(m', n). unmarshal_loop handler dAtA (i + n) m')
              | None \<Rightarrow>
                  bind_o (skip (drop iNdEx dAtA)) (\<lambda>skippy.
                  if wraps (int iNdEx + int skippy) then Error ErrInvalidLength
                  else if iNdEx + skippy > length dAtA then Error ErrUnexpectedEOF
                  else unmarshal_loop handler dAtA (iNdEx + skippy) m)))"
  by pat_completeness auto
termination
  by (relation "measure (\<lambda>(_, d, i, _). length d - i)")
    (auto dest!: read_varint_gt skip_loop_gt simp: skip_def)

declare unmarshal_loop.simps [simp del]

definition MarshalDelimited :: "bytes \<Rightarrow> bytes" where
  \<comment> \<open>the message after its encoding: the length as a varint, then the message\<close>
  "MarshalDelimited msg = encodeVarint (length msg) @ msg"

definition read_uvarint :: "bytes \<Rightarrow> nat \<Rightarrow> (wire_error, 64 word \<times> nat) outcome" where
  \<comment> \<open>\<open>binary.ReadUvarint\<close>, which also rejects a tenth byte above one\<close>
  "read_uvarint dat i =
     bind_o (read_varint dat i 0 (0 :: 64 word)) (\<lambda>(w, j).
     if j - i = 10 \<and> dat ! (j - 1) > 1 then Error ErrIntOverflow else Return (w, j))"

definition UnmarshalDelimited :: "(bytes \<Rightarrow> (wire_error, 'm) outcome) \<Rightarrow> bytes \<Rightarrow> (wire_error, 'm) outcome" where
  "UnmarshalDelimited unmarshal dat =
     bind_o (read_uvarint dat 0) (\<lambda>(l, n).
     if uint l \<ge> MaxInt64 \<or> wraps (int n + uint l) then Error MessageTooBig
     else if unat l > length dat then Error MessageTooBig
     else if n + unat l > length dat then Error ErrUnexpectedEOF
     else unmarshal (take (unat l) (drop n dat)))"

section \<open>Reading back what was written\<close>

lemma varint_split_nat: "v = (v mod 128) OR push_bit 7 (v div (128::nat))"
proof (rule bit_eqI)
  fix n
  have e: "v mod 128 = take_bit 7 v" "v div 128 = drop_bit 7 v" by (simp_all add: take_bit_eq_mod drop_bit_eq_div)
  show "bit v n = bit (v mod 128 OR push_bit 7 (v div 128)) n"
    unfolding e by (cases "n < 7") (simp_all add: bit_or_iff bit_take_bit_iff bit_push_bit_iff bit_drop_bit_eq)
qed
lemma varint_split:
  "(word_of_nat v :: 'a::len word) = word_of_nat (v mod 128) OR push_bit 7 (word_of_nat (v div 128))"
  by (subst varint_split_nat [of v]) (simp only: of_nat_or_eq push_bit_of_nat)
lemma low_bits:
  assumes "v < 128"
  shows "(ucast ((word_of_nat (v + 128) :: 8 word) AND 0x7F) :: 'a::len word) = word_of_nat v"
   "(ucast ((word_of_nat v :: 8 word) AND 0x7F) :: 'a::len word) = word_of_nat v"
proof -
  have m: "(0x7F :: 8 word) = mask 7" by (simp add: mask_eq_exp_minus_1)
  have *: "(word_of_nat x :: 8 word) AND 0x7F = word_of_nat (x mod 128)" for x
  proof -
    have "x mod 128 = take_bit 7 x" by (simp add: take_bit_eq_mod)
    then show ?thesis unfolding m take_bit_eq_mask [symmetric] by (simp only: take_bit_of_nat)
  qed
  have u: "(ucast (word_of_nat v :: 8 word) :: 'a word) = word_of_nat v"
    using assms by (simp add: unsigned_of_nat take_bit_nat_eq_self)
  have "(v + 128) mod 128 = v" using assms by simp
  then show "(ucast ((word_of_nat (v + 128) :: 8 word) AND 0x7F) :: 'a::len word) = word_of_nat v" unfolding * u [symmetric] by (simp only:)
  have "v mod 128 = v" using assms by simp
  then show "(ucast ((word_of_nat v :: 8 word) AND 0x7F) :: 'a::len word) = word_of_nat v" unfolding * u[symmetric] by (simp only:)
qed
lemma byte_small: "v < 128 \<Longrightarrow> (word_of_nat v :: 8 word) < 0x80"
  "v < 128 \<Longrightarrow> \<not> (word_of_nat (v + 128) :: 8 word) < 0x80"
  by (simp_all add: word_less_nat_alt unat_of_nat take_bit_nat_eq_self del: of_nat_add)

lemma read_varint_back:
  assumes "drop i d = encodeVarint v @ rest" "v < 2 ^ (64 - shift)" "shift < 64"
  shows "read_varint d i shift (w :: 'a::len word) = Return (w OR push_bit shift (word_of_nat v), i + length (encodeVarint v))"
  using assms
proof (induction v arbitrary: i shift w rule: encodeVarint.induct)
  case (1 v)
  have i: "i < length d"
  proof (rule ccontr)
    assume "\<not> i < length d"
    then have "encodeVarint v @ rest = []" using "1.prems"(1) by simp
    then show False by (subst (asm) encodeVarint.simps) (auto split: if_splits)
  qed
  have hd: "d ! i = hd (encodeVarint v @ rest)" "drop (Suc i) d = tl (encodeVarint v @ rest)"
    using "1.prems"(1) i by (metis hd_drop_conv_nth, metis drop_Suc tl_drop)
  show ?case
  proof (cases "v \<ge> 128")
    case False
    then have e: "encodeVarint v = [word_of_nat v]" by (simp add: encodeVarint.simps)
    then have "d ! i = word_of_nat v" using hd(1) by simp
    then show ?thesis using False i "1.prems"(3) byte_small(1) [of v] low_bits(2) [of v, where 'a = 'a] e
      by (subst read_varint.simps) (simp add: Let_def)
  next
    case True
    then have e: "encodeVarint v = word_of_nat (v mod 128 + 128) # encodeVarint (v div 128)"
      by (subst encodeVarint.simps) simp
    then have b: "d ! i = word_of_nat (v mod 128 + 128)" and r: "drop (Suc i) d = encodeVarint (v div 128) @ rest"
      using hd by simp_all
    have sh: "shift + 7 < 64"
    proof (rule ccontr)
      assume "\<not> shift + 7 < 64"
      then have "64 - shift \<le> 7" by simp
      then have "(2::nat) ^ (64 - shift) \<le> 2 ^ 7" by (intro power_increasing) auto
      then show False using "1.prems"(2) True by simp
    qed
    have "64 - shift = 7 + (64 - (shift + 7))" using sh by simp
    then have "v < 2 ^ 7 * 2 ^ (64 - (shift + 7))" using "1.prems"(2) by (metis power_add)
    then have lt: "v div 128 < 2 ^ (64 - (shift + 7))" by (simp add: less_mult_imp_div_less mult.commute)
    have IH: "read_varint d (Suc i) (shift + 7) (w OR push_bit shift (word_of_nat (v mod 128))) =
        Return ((w OR push_bit shift (word_of_nat (v mod 128))) OR push_bit (shift + 7) (word_of_nat (v div 128)),
          Suc i + length (encodeVarint (v div 128)))"
      by (rule "1.IH" [OF True r lt sh])
    have "push_bit shift (word_of_nat v :: 'a word) = push_bit shift (word_of_nat (v mod 128)) OR push_bit (shift + 7) (word_of_nat (v div 128))"
      by (subst varint_split [of v]) (simp add: push_bit_or push_bit_push_bit add.commute)
    then show ?thesis
      using i "1.prems"(3) byte_small(2) [of "v mod 128"] low_bits(1) [of "v mod 128", where 'a = 'a] e b IH
      by (subst read_varint.simps) (simp add: Let_def or.assoc)
  qed
qed

lemma of_le_bytes_back: "of_le_bytes (le_bytes n w) = take_bit (8 * n) w"
proof (induction n arbitrary: w)
  case (Suc n)
  have "of_le_bytes (le_bytes (Suc n) w) = ucast (ucast w :: 8 word) OR push_bit 8 (take_bit (8 * n) (drop_bit 8 w))"
    using Suc by simp
  also have "\<dots> = take_bit (8 * Suc n) w"
    by (rule bit_word_eqI) (auto simp: bit_simps)
  finally show ?case .
qed simp

lemma length_le_bytes [simp]: "length (le_bytes n w) = n"
  by (induction n arbitrary: w) auto

lemma fixed64_back: "of_le_bytes (le_bytes 8 w) = w"
  using take_bit_length_eq [of w] by (simp add: of_le_bytes_back)

lemma field_varint_back:
  assumes "v < 2 ^ 64"
  shows "field_varint (pre @ encodeVarint v @ rest) (length pre) = Return (word_of_nat v :: 'a::len word, length (encodeVarint v))"
  using assms by (simp add: field_varint_def read_varint_back [of "length pre" _ v rest 0])

lemma field_fixed64_back: "field_fixed64 (pre @ le_bytes 8 w @ rest) (length pre) = Return (w, 8)"
  by (simp add: field_fixed64_def fixed64_back)

lemma field_bytes_back:
  assumes "int (length (pre @ encodeVarint (length b) @ b @ rest)) \<le> MaxInt64"
  shows "field_bytes (pre @ encodeVarint (length b) @ b @ rest) (length pre) =
    Return (b, length (encodeVarint (length b)) + length b)"
proof -
  have lb: "int (length b) \<le> MaxInt64" using assms by simp
  then have lt: "length b < 2 ^ 64" by simp
  have s: "sint (word_of_nat (length b) :: 64 word) = int (length b)"
    using lb by (simp add: signed_of_nat signed_take_bit_int_eq_self)
  have "read_varint (pre @ encodeVarint (length b) @ b @ rest) (length pre) 0 (0 :: 64 word) =
      Return (word_of_nat (length b), length pre + length (encodeVarint (length b)))"
    using read_varint_back [of "length pre" _ "length b" "b @ rest" 0 "0 :: 64 word"] lt by simp
  then have "read_len (pre @ encodeVarint (length b) @ b @ rest) (length pre) =
      Return (length pre + length (encodeVarint (length b)), length b)"
    using assms by (simp add: read_len_def s Let_def wraps_def)
  then show ?thesis by (simp add: field_bytes_def)
qed

lemma unmarshal_end: "unmarshal_loop h d (length d) m = Return m"
  by (simp add: unmarshal_loop.simps)

lemma unmarshal_field:
  assumes t: "t < 128" "t div 8 \<noteq> 0" "t mod 8 \<noteq> 4"
    and h: "h (t div 8) (t mod 8) (pre @ word_of_nat t # payload @ rest) (Suc (length pre)) m = Some (Return (m', length payload))"
  shows "unmarshal_loop h (pre @ word_of_nat t # payload @ rest) (length pre) m =
    unmarshal_loop h (pre @ word_of_nat t # payload @ rest) (length (pre @ word_of_nat t # payload)) m'"
proof -
  let ?d = "pre @ word_of_nat t # payload @ rest"
  have e: "encodeVarint t = [word_of_nat t]" using t(1) by (simp add: encodeVarint.simps)
  have "read_varint ?d (length pre) 0 (0 :: 64 word) = Return (word_of_nat t, Suc (length pre))"
    using read_varint_back [of "length pre" ?d t "payload @ rest" 0 "0 :: 64 word"] t(1) e by simp
  moreover have "uint (drop_bit 3 (word_of_nat t :: 64 word)) = int (t div 8)"
  proof -
    have "uint (word_of_nat t :: 64 word) = int t" using t(1) by (simp add: unsigned_of_nat take_bit_nat_eq_self)
    then show ?thesis
      using t(1) by (simp only: unsigned_drop_bit_eq take_bit_int_eq_self) (simp add: drop_bit_eq_div take_bit_int_eq_self zdiv_int)
  qed
  moreover have "unat ((word_of_nat t :: 64 word) AND 7) = t mod 8"
  proof -
    have "(7 :: 64 word) = mask 3" by (simp add: mask_eq_exp_minus_1)
    then have "(word_of_nat t :: 64 word) AND 7 = take_bit 3 (word_of_nat t)" by (simp only: take_bit_eq_mask)
    then show ?thesis using t(1) by (simp add: unat_mod unsigned_of_nat take_bit_nat_eq_self take_bit_eq_mod)
  qed
  moreover have "i32 (int (t div 8)) = int (t div 8)" using t(1) by (intro i32_id) (simp add: is_i32_def)
  ultimately show ?thesis
    using t(2,3) h by (subst unmarshal_loop.simps) (simp add: Let_def)
qed

section \<open>Sizes and framing\<close>

lemma len64_half: "0 < v \<Longrightarrow> len64 v = Suc (len64 (v div 2))"
  by (subst len64.simps) simp

lemma len64_128:
  assumes "128 \<le> v"
  shows "len64 v = 7 + len64 (v div 128)"
proof -
  have "len64 v = 7 + len64 (v div 2 div 2 div 2 div 2 div 2 div 2 div 2)"
    using assms by (simp add: len64_half div_greater_zero_iff flip: div_mult2_eq)
  then show ?thesis by (simp flip: div_mult2_eq)
qed

lemma or_Suc_0: "v OR Suc 0 = v + of_bool (even v)"
  using or_one_eq [of v] by simp

lemma len64_0 [simp]: "len64 0 = 0"
  by (simp add: len64.simps)

lemma len64_or1: "0 < v \<Longrightarrow> len64 (v OR Suc 0) = len64 v"
  by (subst (1 2) len64.simps) (auto simp: or_Suc_0)

lemma sov_step:
  assumes "128 \<le> v"
  shows "sov v = Suc (sov (v div 128))"
proof -
  have "0 < v div 128" using assms by (simp add: div_greater_zero_iff)
  then show ?thesis using assms by (simp add: sov_def len64_or1 len64_128)
qed

lemma len64_less: "v < 2 ^ n \<Longrightarrow> len64 v \<le> n"
proof (induction n arbitrary: v)
  case (Suc n)
  then show ?case by (cases "v = 0") (simp_all add: len64.simps [of v] less_mult_imp_div_less)
qed (simp add: len64.simps)

lemma length_encodeVarint: "length (encodeVarint v) = sov v"
proof (induction v rule: encodeVarint.induct)
  case (1 v)
  show ?case
  proof (cases "v \<ge> 128")
    case True
    then show ?thesis using 1 by (subst encodeVarint.simps) (simp add: sov_step)
  next
    case False
    have "v OR Suc 0 < 2 ^ 7"
    proof (cases "even v")
      case True
      then have "v \<noteq> 127" by auto
      then show ?thesis using False by (simp add: or_Suc_0)
    qed (use False in \<open>simp add: or_Suc_0\<close>)
    then have "len64 (v OR Suc 0) \<le> 7" by (rule len64_less)
    moreover have "0 < len64 (v OR Suc 0)" by (subst len64.simps) (auto simp: or_Suc_0 odd_pos)
    ultimately have "sov v = 1" by (simp add: sov_def)
    then show ?thesis using False by (subst encodeVarint.simps) simp
  qed
qed

lemma sov_bound:
  assumes "v < 2 ^ n" "0 < n"
  shows "sov v \<le> (n + 6) div 7"
proof -
  have "len64 (v OR Suc 0) \<le> n"
  proof (cases "v = 0")
    case True
    then show ?thesis using assms(2) by (simp add: len64.simps)
  next
    case False
    then show ?thesis using len64_less [OF assms(1)] len64_or1 [of v] by simp
  qed
  then show ?thesis unfolding sov_def One_nat_def by (intro div_le_mono) simp
qed

lemma sov_le: "v < 2 ^ 63 \<Longrightarrow> sov v \<le> 9" "v < 2 ^ 64 \<Longrightarrow> sov v \<le> 10"
  using sov_bound [of v 63] sov_bound [of v 64] by simp_all

lemma delimited_back:
  assumes len: "int (length msg) + 10 \<le> MaxInt64"
  shows "UnmarshalDelimited u (MarshalDelimited msg) = u msg"
proof -
  have lt: "length msg < 2 ^ 64" "length msg < 2 ^ 63" using len by simp_all
  let ?n = "length (encodeVarint (length msg))"
  have n: "?n \<le> 9" unfolding length_encodeVarint by (rule sov_le(1) [OF lt(2)])
  have "read_varint (MarshalDelimited msg) 0 0 (0 :: 64 word) = Return (word_of_nat (length msg), ?n)"
    using read_varint_back [of 0 "MarshalDelimited msg" "length msg" msg 0 "0 :: 64 word"] lt by (simp add: MarshalDelimited_def)
  then have r: "read_uvarint (MarshalDelimited msg) 0 = Return (word_of_nat (length msg), ?n)"
    using n by (simp add: read_uvarint_def)
  have u: "unat (word_of_nat (length msg) :: 64 word) = length msg" "uint (word_of_nat (length msg) :: 64 word) = int (length msg)"
    using lt(1) by (simp_all add: unsigned_of_nat take_bit_nat_eq_self)
  show ?thesis unfolding UnmarshalDelimited_def r using len n u by (simp add: wraps_def MarshalDelimited_def)
qed

end
