(* ===== verification/Canonical.thy ===== *)
theory Canonical
  imports Wire
begin

text \<open>
  The encoders and decoders of the canonical messages, proto/tendermint/types/canonical.pb.go: what
  a validator signs, and what the private validator reads back to compare a new vote with the last
  one it signed.  The encoding of a timestamp belongs to the protobuf library and is the record
  \<open>time_codec\<close>, an argument of the definitions that need it.  A \<open>CanonicalBlockID\<close> and its part-set
  header have the fields of \<open>BlockID\<close> and \<open>PartSetHeader\<close>, which stand for them here.
\<close>

section \<open>Encoders\<close>

record time_codec =
  time_enc :: "timestamp \<Rightarrow> bytes option"
  time_dec :: "bytes \<Rightarrow> timestamp option"
  time_size :: "timestamp \<Rightarrow> nat"

record pb_CanonicalVote =
  pcv_Type :: int
  pcv_Height :: int
  pcv_Round :: int
  pcv_BlockID :: "BlockID option"
  pcv_Timestamp :: timestamp
  pcv_ChainID :: string

record pb_CanonicalProposal =
  pcp_Type :: int
  pcp_Height :: int
  pcp_Round :: int
  pcp_POLRound :: int
  pcp_BlockID :: "BlockID option"
  pcp_Timestamp :: timestamp
  pcp_ChainID :: string

definition u64 :: "int \<Rightarrow> nat" where
  \<comment> \<open>the conversion of an int64 or int32 to uint64\<close>
  "u64 x = nat (x mod 18446744073709551616)"

definition opt_varint :: "byte \<Rightarrow> nat \<Rightarrow> bytes" where
  "opt_varint tag v = (if v \<noteq> 0 then tag # encodeVarint v else [])"

definition opt_fixed64 :: "byte \<Rightarrow> int \<Rightarrow> bytes" where
  "opt_fixed64 tag x = (if x \<noteq> 0 then tag # le_bytes 8 (word_of_int x) else [])"

definition len_field :: "byte \<Rightarrow> bytes \<Rightarrow> bytes" where
  "len_field tag b = tag # encodeVarint (length b) @ b"

definition opt_len_field :: "byte \<Rightarrow> bytes \<Rightarrow> bytes" where
  "opt_len_field tag b = (if length b > 0 then len_field tag b else [])"

definition opt_block_id :: "byte \<Rightarrow> bytes option \<Rightarrow> bytes" where
  "opt_block_id tag ob = (case ob of None \<Rightarrow> [] | Some b \<Rightarrow> len_field tag b)"

definition str_bytes :: "string \<Rightarrow> bytes" where
  "str_bytes s = map of_char s"

definition bytes_str :: "bytes \<Rightarrow> string" where
  "bytes_str b = map (\<lambda>x. char_of (unat x)) b"

definition cpsh_Marshal :: "PartSetHeader \<Rightarrow> bytes" where
  "cpsh_Marshal m = opt_varint 0x8 (unat (psh_Total m)) @ opt_len_field 0x12 (psh_Hash m)"

definition cbid_Marshal :: "BlockID \<Rightarrow> bytes" where
  "cbid_Marshal m = opt_len_field 0xa (bid_Hash m) @ len_field 0x12 (cpsh_Marshal (bid_Parts m))"

definition cvote_Marshal :: "time_codec \<Rightarrow> pb_CanonicalVote \<Rightarrow> (wire_error, bytes) outcome" where
  "cvote_Marshal tc m =
     (case time_enc tc (pcv_Timestamp m) of None \<Rightarrow> Error TimestampError
      | Some t \<Rightarrow> Return
          (opt_varint 0x8 (u64 (pcv_Type m)) @ opt_fixed64 0x11 (pcv_Height m) @ opt_fixed64 0x19 (pcv_Round m)
           @ opt_block_id 0x22 (map_option cbid_Marshal (pcv_BlockID m))
           @ len_field 0x2a t @ opt_len_field 0x32 (str_bytes (pcv_ChainID m))))"

definition cprop_Marshal :: "time_codec \<Rightarrow> pb_CanonicalProposal \<Rightarrow> (wire_error, bytes) outcome" where
  "cprop_Marshal tc m =
     (case time_enc tc (pcp_Timestamp m) of None \<Rightarrow> Error TimestampError
      | Some t \<Rightarrow> Return
          (opt_varint 0x8 (u64 (pcp_Type m)) @ opt_fixed64 0x11 (pcp_Height m) @ opt_fixed64 0x19 (pcp_Round m)
           @ opt_varint 0x20 (u64 (pcp_POLRound m))
           @ opt_block_id 0x2a (map_option cbid_Marshal (pcp_BlockID m))
           @ len_field 0x32 t @ opt_len_field 0x3a (str_bytes (pcp_ChainID m))))"

section \<open>Sizes\<close>

definition len_size :: "nat \<Rightarrow> nat" where
  "len_size l = 1 + l + sov l"

definition cpsh_Size :: "PartSetHeader \<Rightarrow> nat" where
  "cpsh_Size m = (if psh_Total m \<noteq> 0 then 1 + sov (unat (psh_Total m)) else 0)
     + (if length (psh_Hash m) > 0 then len_size (length (psh_Hash m)) else 0)"

definition cbid_Size :: "BlockID \<Rightarrow> nat" where
  "cbid_Size m = (if length (bid_Hash m) > 0 then len_size (length (bid_Hash m)) else 0)
     + len_size (cpsh_Size (bid_Parts m))"

definition cvote_Size :: "time_codec \<Rightarrow> pb_CanonicalVote \<Rightarrow> nat" where
  "cvote_Size tc m =
     (if pcv_Type m \<noteq> 0 then 1 + sov (u64 (pcv_Type m)) else 0)
     + (if pcv_Height m \<noteq> 0 then 9 else 0) + (if pcv_Round m \<noteq> 0 then 9 else 0)
     + (case pcv_BlockID m of None \<Rightarrow> 0 | Some b \<Rightarrow> len_size (cbid_Size b))
     + len_size (time_size tc (pcv_Timestamp m))
     + (if length (pcv_ChainID m) > 0 then len_size (length (pcv_ChainID m)) else 0)"

definition cprop_Size :: "time_codec \<Rightarrow> pb_CanonicalProposal \<Rightarrow> nat" where
  "cprop_Size tc m =
     (if pcp_Type m \<noteq> 0 then 1 + sov (u64 (pcp_Type m)) else 0)
     + (if pcp_Height m \<noteq> 0 then 9 else 0) + (if pcp_Round m \<noteq> 0 then 9 else 0)
     + (if pcp_POLRound m \<noteq> 0 then 1 + sov (u64 (pcp_POLRound m)) else 0)
     + (case pcp_BlockID m of None \<Rightarrow> 0 | Some b \<Rightarrow> len_size (cbid_Size b))
     + len_size (time_size tc (pcp_Timestamp m))
     + (if length (pcp_ChainID m) > 0 then len_size (length (pcp_ChainID m)) else 0)"

section \<open>Decoders\<close>

definition on_wire :: "nat \<Rightarrow> nat \<Rightarrow> (wire_error, 'm \<times> nat) outcome \<Rightarrow> (wire_error, 'm \<times> nat) outcome option" where
  \<comment> \<open>a case of the switch: the wire type it demands and what it does\<close>
  "on_wire want wireType r = Some (if wireType \<noteq> want then Error WrongWireType else r)"

definition set_field :: "(wire_error, 'v \<times> nat) outcome \<Rightarrow> ('v \<Rightarrow> (wire_error, 'm) outcome) \<Rightarrow> (wire_error, 'm \<times> nat) outcome" where
  "set_field r upd = bind_o r (\<lambda>(v, n). bind_o (upd v) (\<lambda>m. Return (m, n)))"

definition cpsh_handler :: "PartSetHeader handler" where
  "cpsh_handler f wt d i m =
     (if f = 1 then on_wire 0 wt (set_field (field_varint d i) (\<lambda>v. Return (m\<lparr>psh_Total := v\<rparr>)))
      else if f = 2 then on_wire 2 wt (set_field (field_bytes d i) (\<lambda>v. Return (m\<lparr>psh_Hash := v\<rparr>)))
      else None)"

definition empty_psh :: PartSetHeader where
  "empty_psh = \<lparr>psh_Total = 0, psh_Hash = []\<rparr>"

definition cpsh_Unmarshal :: "PartSetHeader \<Rightarrow> bytes \<Rightarrow> (wire_error, PartSetHeader) outcome" where
  "cpsh_Unmarshal m dAtA = unmarshal_loop cpsh_handler dAtA 0 m"

definition cbid_handler :: "BlockID handler" where
  "cbid_handler f wt d i m =
     (if f = 1 then on_wire 2 wt (set_field (field_bytes d i) (\<lambda>v. Return (m\<lparr>bid_Hash := v\<rparr>)))
      else if f = 2
      then on_wire 2 wt (set_field (field_bytes d i) (\<lambda>v.
             bind_o (cpsh_Unmarshal (bid_Parts m) v) (\<lambda>p. Return (m\<lparr>bid_Parts := p\<rparr>))))
      else None)"

definition empty_bid :: BlockID where
  "empty_bid = \<lparr>bid_Hash = [], bid_Parts = empty_psh\<rparr>"

definition cbid_Unmarshal :: "BlockID \<Rightarrow> bytes \<Rightarrow> (wire_error, BlockID) outcome" where
  "cbid_Unmarshal m dAtA = unmarshal_loop cbid_handler dAtA 0 m"

definition read_time :: "time_codec \<Rightarrow> bytes \<Rightarrow> (wire_error, timestamp) outcome" where
  "read_time tc b = (case time_dec tc b of None \<Rightarrow> Error TimestampError | Some t \<Rightarrow> Return t)"

definition read_block_id :: "BlockID option \<Rightarrow> bytes \<Rightarrow> (wire_error, BlockID option) outcome" where
  \<comment> \<open>a nil block id is allocated first, a present one is read into\<close>
  "read_block_id ob b =
     bind_o (cbid_Unmarshal (case ob of None \<Rightarrow> empty_bid | Some x \<Rightarrow> x) b) (\<lambda>x. Return (Some x))"

definition cvote_handler :: "time_codec \<Rightarrow> pb_CanonicalVote handler" where
  "cvote_handler tc f wt d i m =
     (if f = 1 then on_wire 0 wt (set_field (field_varint d i) (\<lambda>v. Return (m\<lparr>pcv_Type := sint (v :: 32 word)\<rparr>)))
      else if f = 2 then on_wire 1 wt (set_field (field_fixed64 d i) (\<lambda>v. Return (m\<lparr>pcv_Height := sint v\<rparr>)))
      else if f = 3 then on_wire 1 wt (set_field (field_fixed64 d i) (\<lambda>v. Return (m\<lparr>pcv_Round := sint v\<rparr>)))
      else if f = 4
      then on_wire 2 wt (set_field (field_bytes d i) (\<lambda>v.
             bind_o (read_block_id (pcv_BlockID m) v) (\<lambda>b. Return (m\<lparr>pcv_BlockID := b\<rparr>))))
      else if f = 5
      then on_wire 2 wt (set_field (field_bytes d i) (\<lambda>v.
             bind_o (read_time tc v) (\<lambda>t. Return (m\<lparr>pcv_Timestamp := t\<rparr>))))
      else if f = 6 then on_wire 2 wt (set_field (field_bytes d i) (\<lambda>v. Return (m\<lparr>pcv_ChainID := bytes_str v\<rparr>)))
      else None)"

definition empty_cvote :: pb_CanonicalVote where
  "empty_cvote = \<lparr>pcv_Type = 0, pcv_Height = 0, pcv_Round = 0, pcv_BlockID = None, pcv_Timestamp = 0, pcv_ChainID = []\<rparr>"

definition cvote_Unmarshal :: "time_codec \<Rightarrow> bytes \<Rightarrow> (wire_error, pb_CanonicalVote) outcome" where
  "cvote_Unmarshal tc dAtA = unmarshal_loop (cvote_handler tc) dAtA 0 empty_cvote"

definition cprop_handler :: "time_codec \<Rightarrow> pb_CanonicalProposal handler" where
  "cprop_handler tc f wt d i m =
     (if f = 1 then on_wire 0 wt (set_field (field_varint d i) (\<lambda>v. Return (m\<lparr>pcp_Type := sint (v :: 32 word)\<rparr>)))
      else if f = 2 then on_wire 1 wt (set_field (field_fixed64 d i) (\<lambda>v. Return (m\<lparr>pcp_Height := sint v\<rparr>)))
      else if f = 3 then on_wire 1 wt (set_field (field_fixed64 d i) (\<lambda>v. Return (m\<lparr>pcp_Round := sint v\<rparr>)))
      else if f = 4 then on_wire 0 wt (set_field (field_varint d i) (\<lambda>v. Return (m\<lparr>pcp_POLRound := sint (v :: 64 word)\<rparr>)))
      else if f = 5
      then on_wire 2 wt (set_field (field_bytes d i) (\<lambda>v.
             bind_o (read_block_id (pcp_BlockID m) v) (\<lambda>b. Return (m\<lparr>pcp_BlockID := b\<rparr>))))
      else if f = 6
      then on_wire 2 wt (set_field (field_bytes d i) (\<lambda>v.
             bind_o (read_time tc v) (\<lambda>t. Return (m\<lparr>pcp_Timestamp := t\<rparr>))))
      else if f = 7 then on_wire 2 wt (set_field (field_bytes d i) (\<lambda>v. Return (m\<lparr>pcp_ChainID := bytes_str v\<rparr>)))
      else None)"

definition empty_cprop :: pb_CanonicalProposal where
  "empty_cprop = \<lparr>pcp_Type = 0, pcp_Height = 0, pcp_Round = 0, pcp_POLRound = 0, pcp_BlockID = None,
     pcp_Timestamp = 0, pcp_ChainID = []\<rparr>"

definition cprop_Unmarshal :: "time_codec \<Rightarrow> bytes \<Rightarrow> (wire_error, pb_CanonicalProposal) outcome" where
  "cprop_Unmarshal tc dAtA = unmarshal_loop (cprop_handler tc) dAtA 0 empty_cprop"

section \<open>Reading a field back\<close>

definition reads :: "'m handler \<Rightarrow> bytes \<Rightarrow> bytes \<Rightarrow> bytes \<Rightarrow> 'm \<Rightarrow> 'm \<Rightarrow> bool" where
  \<comment> \<open>with the buffer pre @ part @ rest, the loop at the start of part goes on at its end\<close>
  "reads h pre part rest m m' \<longleftrightarrow>
     unmarshal_loop h (pre @ part @ rest) (length pre) m = unmarshal_loop h (pre @ part @ rest) (length (pre @ part)) m'"

lemma reads_nil: "reads h pre [] rest m m"
  by (simp add: reads_def)

lemma reads_append:
  "reads h pre a (b @ rest) m m1 \<Longrightarrow> reads h (pre @ a) b rest m1 m2 \<Longrightarrow> reads h pre (a @ b) rest m m2"
  by (simp add: reads_def)

lemma reads_all: "reads h [] d [] m m' \<Longrightarrow> unmarshal_loop h d 0 m = Return m'"
  using unmarshal_end [of h d m'] by (simp add: reads_def)

lemma reads_field:
  assumes "t < 128" "t div 8 \<noteq> 0" "t mod 8 \<noteq> 4"
    "h (t div 8) (t mod 8) (pre @ word_of_nat t # payload @ rest) (Suc (length pre)) m = Some (Return (m', length payload))"
  shows "reads h pre (word_of_nat t # payload) rest m m'"
  using unmarshal_field [of t h pre payload rest m m'] assms by (simp add: reads_def)

lemma reads_varint:
  assumes t: "t < 128" "t div 8 \<noteq> 0" "t mod 8 = 0" and v: "v < 2 ^ 64"
    and h: "\<And>d i. h (t div 8) 0 d i m = on_wire 0 0 (set_field (field_varint d i) (\<lambda>w :: 'a::len word. Return (upd w)))"
    and z: "v = 0 \<Longrightarrow> upd 0 = m"
  shows "reads h pre (opt_varint (word_of_nat t) v) rest m (upd (word_of_nat v))"
proof (cases "v = 0")
  case True
  then show ?thesis using z reads_nil by (simp add: opt_varint_def)
next
  case False
  have "field_varint (pre @ word_of_nat t # encodeVarint v @ rest) (Suc (length pre)) = Return (word_of_nat v :: 'a word, length (encodeVarint v))"
    using field_varint_back [OF v, of "pre @ [word_of_nat t]" rest] by simp
  then have "reads h pre (word_of_nat t # encodeVarint v) rest m (upd (word_of_nat v))"
    using t h by (intro reads_field) (auto simp: on_wire_def set_field_def)
  then show ?thesis using False by (simp add: opt_varint_def)
qed

lemma reads_fixed64:
  assumes t: "t < 128" "t div 8 \<noteq> 0" "t mod 8 = 1" and x: "is_i64 x"
    and h: "\<And>d i. h (t div 8) 1 d i m = on_wire 1 1 (set_field (field_fixed64 d i) (\<lambda>w. Return (upd (sint w))))"
    and z: "x = 0 \<Longrightarrow> upd 0 = m"
  shows "reads h pre (opt_fixed64 (word_of_nat t) x) rest m (upd x)"
proof (cases "x = 0")
  case True
  then show ?thesis using z reads_nil by (simp add: opt_fixed64_def)
next
  case False
  have s: "sint (word_of_int x :: 64 word) = x"
    using x by (simp add: is_i64_def signed_of_int signed_take_bit_int_eq_self)
  have "field_fixed64 (pre @ word_of_nat t # le_bytes 8 (word_of_int x) @ rest) (Suc (length pre)) = Return (word_of_int x, 8)"
    using field_fixed64_back [of "pre @ [word_of_nat t]" "word_of_int x" rest] by simp
  then have "reads h pre (word_of_nat t # le_bytes 8 (word_of_int x)) rest m (upd x)"
    using t h by (intro reads_field) (auto simp: on_wire_def set_field_def s)
  then show ?thesis using False by (simp add: opt_fixed64_def)
qed

lemma reads_len_field:
  assumes t: "t < 128" "t div 8 \<noteq> 0" "t mod 8 = 2"
    and len: "int (length (pre @ len_field (word_of_nat t) b @ rest)) \<le> MaxInt64"
    and h: "\<And>d i. h (t div 8) 2 d i m = on_wire 2 2 (set_field (field_bytes d i) upd)"
    and u: "upd b = Return m'"
  shows "reads h pre (len_field (word_of_nat t) b) rest m m'"
proof -
  have "field_bytes (pre @ word_of_nat t # encodeVarint (length b) @ b @ rest) (Suc (length pre)) =
      Return (b, length (encodeVarint (length b)) + length b)"
    using field_bytes_back [of "pre @ [word_of_nat t]" b rest] len by (simp add: len_field_def)
  then show ?thesis
    using t h u unfolding len_field_def by (intro reads_field) (auto simp: on_wire_def set_field_def)
qed

lemma reads_opt_len_field:
  assumes t: "t < 128" "t div 8 \<noteq> 0" "t mod 8 = 2"
    and len: "int (length (pre @ opt_len_field (word_of_nat t) b @ rest)) \<le> MaxInt64"
    and h: "\<And>d i. h (t div 8) 2 d i m = on_wire 2 2 (set_field (field_bytes d i) upd)"
    and u: "upd b = Return m'" and z: "b = [] \<Longrightarrow> m' = m"
  shows "reads h pre (opt_len_field (word_of_nat t) b) rest m m'"
proof (cases "b = []")
  case True
  then show ?thesis using z reads_nil by (simp add: opt_len_field_def)
next
  case False
  then show ?thesis using reads_len_field [of t pre b rest h m upd m'] t len h u by (simp add: opt_len_field_def)
qed

section \<open>Messages read back\<close>

lemma cpsh_back:
  assumes "int (length (cpsh_Marshal m)) \<le> MaxInt64"
  shows "cpsh_Unmarshal empty_psh (cpsh_Marshal m) = Return m"
proof -
  let ?a = "opt_varint 0x8 (unat (psh_Total m))" and ?b = "opt_len_field 0x12 (psh_Hash m)"
  let ?m1 = "empty_psh\<lparr>psh_Total := psh_Total m\<rparr>"
  have tot: "unat (psh_Total m) < 2 ^ 64" using unsigned_less [of "psh_Total m", where 'a = nat] by simp
  have 1: "reads cpsh_handler [] ?a (?b @ []) empty_psh ?m1"
    using reads_varint [of 8 "unat (psh_Total m)" cpsh_handler empty_psh "\<lambda>w. empty_psh\<lparr>psh_Total := w\<rparr>"] tot
    by (simp add: cpsh_handler_def empty_psh_def)
  have 2: "reads cpsh_handler ([] @ ?a) ?b [] ?m1 (?m1\<lparr>psh_Hash := psh_Hash m\<rparr>)"
    using assms reads_opt_len_field [of 18 ?a "psh_Hash m" "[]" cpsh_handler ?m1 "\<lambda>v. Return (?m1\<lparr>psh_Hash := v\<rparr>)"]
    by (simp add: cpsh_handler_def empty_psh_def cpsh_Marshal_def)
  have "unmarshal_loop cpsh_handler (?a @ ?b) 0 empty_psh = Return (?m1\<lparr>psh_Hash := psh_Hash m\<rparr>)"
    by (rule reads_all [OF reads_append [OF 1 2]])
  then show ?thesis by (simp add: cpsh_Unmarshal_def cpsh_Marshal_def empty_psh_def)
qed

lemma cbid_back:
  assumes "int (length (cbid_Marshal m)) \<le> MaxInt64"
  shows "cbid_Unmarshal empty_bid (cbid_Marshal m) = Return m"
proof -
  let ?a = "opt_len_field 0xa (bid_Hash m)" and ?b = "len_field 0x12 (cpsh_Marshal (bid_Parts m))"
  let ?m1 = "empty_bid\<lparr>bid_Hash := bid_Hash m\<rparr>"
  have "cpsh_Unmarshal empty_psh (cpsh_Marshal (bid_Parts m)) = Return (bid_Parts m)"
    using assms by (intro cpsh_back) (simp add: cbid_Marshal_def len_field_def)
  have 1: "reads cbid_handler [] ?a (?b @ []) empty_bid ?m1"
    using assms reads_opt_len_field [of 10 "[]" "bid_Hash m" ?b cbid_handler empty_bid "\<lambda>v. Return (empty_bid\<lparr>bid_Hash := v\<rparr>)"]
    by (simp add: cbid_handler_def empty_bid_def cbid_Marshal_def)
  have 2: "reads cbid_handler ([] @ ?a) ?b [] ?m1 (?m1\<lparr>bid_Parts := bid_Parts m\<rparr>)"
    using assms reads_len_field [of 18 ?a "cpsh_Marshal (bid_Parts m)" "[]" cbid_handler ?m1]
      \<open>cpsh_Unmarshal empty_psh (cpsh_Marshal (bid_Parts m)) = Return (bid_Parts m)\<close>
    by (simp add: cbid_handler_def empty_bid_def cbid_Marshal_def)
  have "unmarshal_loop cbid_handler (?a @ ?b) 0 empty_bid = Return (?m1\<lparr>bid_Parts := bid_Parts m\<rparr>)"
    by (rule reads_all [OF reads_append [OF 1 2]])
  then show ?thesis by (simp add: cbid_Unmarshal_def cbid_Marshal_def empty_bid_def)
qed

lemma u64_lt: "u64 x < 2 ^ 64"
  by (simp add: u64_def nat_less_iff)

lemma word_u64: "(word_of_nat (u64 x) :: 64 word) = word_of_int x" "(word_of_nat (u64 x) :: 32 word) = word_of_int x"
proof -
  have *: "int (u64 x) = take_bit 64 x" by (simp add: u64_def take_bit_eq_mod)
  have "(word_of_nat (u64 x) :: 64 word) = word_of_int (int (u64 x))" by simp
  also have "\<dots> = word_of_int x" unfolding * by (rule word_of_int_eq_iff [THEN iffD2]) simp
  finally show "(word_of_nat (u64 x) :: 64 word) = word_of_int x" .
  have "(word_of_nat (u64 x) :: 32 word) = word_of_int (int (u64 x))" by simp
  also have "\<dots> = word_of_int x" unfolding * by (rule word_of_int_eq_iff [THEN iffD2]) simp
  finally show "(word_of_nat (u64 x) :: 32 word) = word_of_int x" .
qed

lemma sint_u64:
  "is_i64 x \<Longrightarrow> sint (word_of_nat (u64 x) :: 64 word) = x"
  "is_i32 x \<Longrightarrow> sint (word_of_nat (u64 x) :: 32 word) = x"
  by (simp_all add: word_u64 is_i64_def is_i32_def signed_of_int signed_take_bit_int_eq_self)

lemma u64_zero:
  assumes "is_i64 x"
  shows "u64 x = 0 \<longleftrightarrow> x = 0"
proof
  assume "u64 x = 0"
  then show "x = 0" using sint_u64(1) [OF assms] by simp
qed (simp add: u64_def)

lemma i32_is_i64: "is_i32 x \<Longrightarrow> is_i64 x"
  by (simp add: is_i32_def is_i64_def)

lemma bytes_str_back [simp]: "bytes_str (str_bytes s) = s"
proof -
  have "unat (of_char c :: 8 word) = of_char c" for c
  proof -
    have "unat (word_of_nat (of_char c) :: 8 word) = of_char c"
      using of_char_mod_256 [of c, where 'a = nat] by (simp add: unsigned_of_nat take_bit_eq_mod)
    then show ?thesis by (simp only: of_nat_of_char)
  qed
  then show ?thesis unfolding bytes_str_def str_bytes_def map_map by (intro map_idI) simp
qed

lemma str_bytes_simps [simp]: "str_bytes s = [] \<longleftrightarrow> s = []" "length (str_bytes s) = length s"
  by (simp_all add: str_bytes_def)

definition time_ok :: "time_codec \<Rightarrow> timestamp \<Rightarrow> bool" where
  \<comment> \<open>the timestamp has an encoding, of the announced size, that decodes to it\<close>
  "time_ok tc t \<longleftrightarrow> (\<exists>b. time_enc tc t = Some b \<and> time_dec tc b = Some t \<and> time_size tc t = length b)"

definition cvote_wf :: "time_codec \<Rightarrow> pb_CanonicalVote \<Rightarrow> bool" where
  "cvote_wf tc m \<longleftrightarrow> is_i32 (pcv_Type m) \<and> is_i64 (pcv_Height m) \<and> is_i64 (pcv_Round m) \<and> time_ok tc (pcv_Timestamp m)
     \<and> (\<forall>b. cvote_Marshal tc m = Return b \<longrightarrow> int (length b) + 10 \<le> MaxInt64)"

definition cprop_wf :: "time_codec \<Rightarrow> pb_CanonicalProposal \<Rightarrow> bool" where
  "cprop_wf tc m \<longleftrightarrow> is_i32 (pcp_Type m) \<and> is_i64 (pcp_Height m) \<and> is_i64 (pcp_Round m) \<and> is_i64 (pcp_POLRound m)
     \<and> time_ok tc (pcp_Timestamp m) \<and> (\<forall>b. cprop_Marshal tc m = Return b \<longrightarrow> int (length b) + 10 \<le> MaxInt64)"

lemma reads_block_id:
  assumes t: "t < 128" "t div 8 \<noteq> 0" "t mod 8 = 2"
    and len: "int (length (pre @ (opt_block_id (word_of_nat t) (map_option cbid_Marshal ob)) @ rest)) \<le> MaxInt64"
    and h: "\<And>d i. h (t div 8) 2 d i m = on_wire 2 2 (set_field (field_bytes d i) (\<lambda>v. bind_o (read_block_id None v) (\<lambda>b. Return (upd b))))"
    and z: "upd None = m"
  shows "reads h pre (opt_block_id (word_of_nat t) (map_option cbid_Marshal ob)) rest m (upd ob)"
proof (cases ob)
  case None
  then show ?thesis using z reads_nil by (simp add: opt_block_id_def)
next
  case (Some b)
  have "int (length (cbid_Marshal b)) \<le> MaxInt64" using len Some by (simp add: len_field_def opt_block_id_def)
  then have "read_block_id None (cbid_Marshal b) = Return (Some b)" by (simp add: read_block_id_def cbid_back)
  then have "bind_o (read_block_id None (cbid_Marshal b)) (\<lambda>b. Return (upd b)) = Return (upd (Some b))" by simp
  then show ?thesis
    using reads_len_field [of t pre "cbid_Marshal b" rest h m "\<lambda>v. bind_o (read_block_id None v) (\<lambda>b. Return (upd b))"] t len h Some
    by (simp add: opt_block_id_def)
qed

lemma cvote_back:
  assumes wf: "cvote_wf tc m" and b: "cvote_Marshal tc m = Return bz"
  shows "cvote_Unmarshal tc bz = Return m"
proof -
  obtain tb where tb: "time_enc tc (pcv_Timestamp m) = Some tb" "time_dec tc tb = Some (pcv_Timestamp m)"
    using wf by (auto simp: cvote_wf_def time_ok_def)
  let ?h = "cvote_handler tc"
  define a where "a = opt_varint 0x8 (u64 (pcv_Type m))"
  define b2 where "b2 = opt_fixed64 0x11 (pcv_Height m)"
  define c where "c = opt_fixed64 0x19 (pcv_Round m)"
  define d where "d = opt_block_id 0x22 (map_option cbid_Marshal (pcv_BlockID m))"
  define e where "e = len_field 0x2a tb"
  define f where "f = opt_len_field 0x32 (str_bytes (pcv_ChainID m))"
  have bz: "bz = a @ b2 @ c @ d @ e @ f" using b tb by (simp add: cvote_Marshal_def a_def b2_def c_def d_def e_def f_def)
  have len: "int (length (a @ b2 @ c @ d @ e @ f)) \<le> MaxInt64"
    using wf b unfolding bz [symmetric] cvote_wf_def by fastforce
  have r: "is_i32 (pcv_Type m)" "is_i64 (pcv_Height m)" "is_i64 (pcv_Round m)" using wf by (auto simp: cvote_wf_def)
  let ?m1 = "empty_cvote\<lparr>pcv_Type := pcv_Type m\<rparr>"
  let ?m2 = "?m1\<lparr>pcv_Height := pcv_Height m\<rparr>"
  let ?m3 = "?m2\<lparr>pcv_Round := pcv_Round m\<rparr>"
  let ?m4 = "?m3\<lparr>pcv_BlockID := pcv_BlockID m\<rparr>"
  let ?m5 = "?m4\<lparr>pcv_Timestamp := pcv_Timestamp m\<rparr>"
  let ?m6 = "?m5\<lparr>pcv_ChainID := pcv_ChainID m\<rparr>"
  have 1: "reads ?h [] a (b2 @ c @ d @ e @ f) empty_cvote ?m1"
    using reads_varint [of 8 "u64 (pcv_Type m)" ?h empty_cvote "\<lambda>w :: 32 word. empty_cvote\<lparr>pcv_Type := sint w\<rparr>"] u64_lt sint_u64(2) [OF r(1)]
    by (simp add: a_def cvote_handler_def empty_cvote_def)
  have 2: "reads ?h a b2 (c @ d @ e @ f) ?m1 ?m2"
    using reads_fixed64 [of 17 "pcv_Height m" ?h ?m1 "\<lambda>x. ?m1\<lparr>pcv_Height := x\<rparr>"] r(2)
    by (simp add: b2_def cvote_handler_def empty_cvote_def)
  have 3: "reads ?h (a @ b2) c (d @ e @ f) ?m2 ?m3"
    using reads_fixed64 [of 25 "pcv_Round m" ?h ?m2 "\<lambda>x. ?m2\<lparr>pcv_Round := x\<rparr>"] r(3)
    by (simp add: c_def cvote_handler_def empty_cvote_def)
  have 4: "reads ?h (a @ b2 @ c) d (e @ f) ?m3 ?m4"
    using reads_block_id [of 34 "a @ b2 @ c" "pcv_BlockID m" "e @ f" ?h ?m3 "\<lambda>x. ?m3\<lparr>pcv_BlockID := x\<rparr>"] len
    by (simp add: d_def cvote_handler_def empty_cvote_def)
  have 5: "reads ?h (a @ b2 @ c @ d) e f ?m4 ?m5"
    using reads_len_field [of 42 "a @ b2 @ c @ d" tb f ?h ?m4 "\<lambda>v. bind_o (read_time tc v) (\<lambda>t. Return (?m4\<lparr>pcv_Timestamp := t\<rparr>))"] len tb(2)
    by (simp add: e_def cvote_handler_def read_time_def)
  have 6: "reads ?h (a @ b2 @ c @ d @ e) f [] ?m5 ?m6"
    using reads_opt_len_field [of 50 "a @ b2 @ c @ d @ e" "str_bytes (pcv_ChainID m)" "[]" ?h ?m5 "\<lambda>v. Return (?m5\<lparr>pcv_ChainID := bytes_str v\<rparr>)"] len
    by (simp add: f_def cvote_handler_def empty_cvote_def)
  have "unmarshal_loop ?h (a @ b2 @ c @ d @ e @ f) 0 empty_cvote = Return ?m6"
    by (rule reads_all, rule reads_append [OF _ reads_append [OF _ reads_append [OF _ reads_append [OF _ reads_append]]]])
      (use 1 2 3 4 5 6 in simp_all)
  then show ?thesis unfolding cvote_Unmarshal_def bz by (simp add: empty_cvote_def)
qed

lemma cprop_back:
  assumes wf: "cprop_wf tc m" and b: "cprop_Marshal tc m = Return bz"
  shows "cprop_Unmarshal tc bz = Return m"
proof -
  obtain tb where tb: "time_enc tc (pcp_Timestamp m) = Some tb" "time_dec tc tb = Some (pcp_Timestamp m)"
    using wf by (auto simp: cprop_wf_def time_ok_def)
  let ?h = "cprop_handler tc"
  define a where "a = opt_varint 0x8 (u64 (pcp_Type m))"
  define b2 where "b2 = opt_fixed64 0x11 (pcp_Height m)"
  define c where "c = opt_fixed64 0x19 (pcp_Round m)"
  define p where "p = opt_varint 0x20 (u64 (pcp_POLRound m))"
  define d where "d = opt_block_id 0x2a (map_option cbid_Marshal (pcp_BlockID m))"
  define e where "e = len_field 0x32 tb"
  define f where "f = opt_len_field 0x3a (str_bytes (pcp_ChainID m))"
  have bz: "bz = a @ b2 @ c @ p @ d @ e @ f"
    using b tb by (simp add: cprop_Marshal_def a_def b2_def c_def p_def d_def e_def f_def)
  have len: "int (length (a @ b2 @ c @ p @ d @ e @ f)) \<le> MaxInt64"
    using wf b unfolding bz [symmetric] cprop_wf_def by fastforce
  have r: "is_i32 (pcp_Type m)" "is_i64 (pcp_Height m)" "is_i64 (pcp_Round m)" "is_i64 (pcp_POLRound m)"
    using wf by (auto simp: cprop_wf_def)
  let ?m1 = "empty_cprop\<lparr>pcp_Type := pcp_Type m\<rparr>"
  let ?m2 = "?m1\<lparr>pcp_Height := pcp_Height m\<rparr>"
  let ?m3 = "?m2\<lparr>pcp_Round := pcp_Round m\<rparr>"
  let ?mp = "?m3\<lparr>pcp_POLRound := pcp_POLRound m\<rparr>"
  let ?m4 = "?mp\<lparr>pcp_BlockID := pcp_BlockID m\<rparr>"
  let ?m5 = "?m4\<lparr>pcp_Timestamp := pcp_Timestamp m\<rparr>"
  let ?m6 = "?m5\<lparr>pcp_ChainID := pcp_ChainID m\<rparr>"
  have 1: "reads ?h [] a (b2 @ c @ p @ d @ e @ f) empty_cprop ?m1"
    using reads_varint [of 8 "u64 (pcp_Type m)" ?h empty_cprop "\<lambda>w :: 32 word. empty_cprop\<lparr>pcp_Type := sint w\<rparr>"] u64_lt sint_u64(2) [OF r(1)]
    by (simp add: a_def cprop_handler_def empty_cprop_def)
  have 2: "reads ?h a b2 (c @ p @ d @ e @ f) ?m1 ?m2"
    using reads_fixed64 [of 17 "pcp_Height m" ?h ?m1 "\<lambda>x. ?m1\<lparr>pcp_Height := x\<rparr>"] r(2)
    by (simp add: b2_def cprop_handler_def empty_cprop_def)
  have 3: "reads ?h (a @ b2) c (p @ d @ e @ f) ?m2 ?m3"
    using reads_fixed64 [of 25 "pcp_Round m" ?h ?m2 "\<lambda>x. ?m2\<lparr>pcp_Round := x\<rparr>"] r(3)
    by (simp add: c_def cprop_handler_def empty_cprop_def)
  have 7: "reads ?h (a @ b2 @ c) p (d @ e @ f) ?m3 ?mp"
    using reads_varint [of 32 "u64 (pcp_POLRound m)" ?h ?m3 "\<lambda>w :: 64 word. ?m3\<lparr>pcp_POLRound := sint w\<rparr>"] u64_lt sint_u64(1) [OF r(4)]
    by (simp add: p_def cprop_handler_def empty_cprop_def)
  have 4: "reads ?h (a @ b2 @ c @ p) d (e @ f) ?mp ?m4"
    using reads_block_id [of 42 "a @ b2 @ c @ p" "pcp_BlockID m" "e @ f" ?h ?mp "\<lambda>x. ?mp\<lparr>pcp_BlockID := x\<rparr>"] len
    by (simp add: d_def cprop_handler_def empty_cprop_def)
  have 5: "reads ?h (a @ b2 @ c @ p @ d) e f ?m4 ?m5"
    using reads_len_field [of 50 "a @ b2 @ c @ p @ d" tb f ?h ?m4 "\<lambda>v. bind_o (read_time tc v) (\<lambda>t. Return (?m4\<lparr>pcp_Timestamp := t\<rparr>))"] len tb(2)
    by (simp add: e_def cprop_handler_def read_time_def)
  have 6: "reads ?h (a @ b2 @ c @ p @ d @ e) f [] ?m5 ?m6"
    using reads_opt_len_field [of 58 "a @ b2 @ c @ p @ d @ e" "str_bytes (pcp_ChainID m)" "[]" ?h ?m5 "\<lambda>v. Return (?m5\<lparr>pcp_ChainID := bytes_str v\<rparr>)"] len
    by (simp add: f_def cprop_handler_def empty_cprop_def)
  have "unmarshal_loop ?h (a @ b2 @ c @ p @ d @ e @ f) 0 empty_cprop = Return ?m6"
    by (rule reads_all, rule reads_append [OF _ reads_append [OF _ reads_append [OF _ reads_append [OF _ reads_append [OF _ reads_append]]]]])
      (use 1 2 3 4 5 6 7 in simp_all)
  then show ?thesis unfolding cprop_Unmarshal_def bz by (simp add: empty_cprop_def)
qed

section \<open>Sizes are exact\<close>

lemma length_opt_varint: "length (opt_varint t v) = (if v \<noteq> 0 then 1 + sov v else 0)"
  by (simp add: opt_varint_def length_encodeVarint)

lemma length_opt_fixed64: "length (opt_fixed64 t x) = (if x \<noteq> 0 then 9 else 0)"
  by (simp add: opt_fixed64_def)

lemma length_len_field: "length (len_field t b) = len_size (length b)"
  by (simp add: len_field_def len_size_def length_encodeVarint)

lemma length_opt_len_field: "length (opt_len_field t b) = (if length b > 0 then len_size (length b) else 0)"
  by (simp add: opt_len_field_def length_len_field)

lemma length_cpsh: "length (cpsh_Marshal m) = cpsh_Size m"
  by (simp add: cpsh_Marshal_def cpsh_Size_def length_opt_varint length_opt_len_field unsigned_eq_0_iff)

lemma length_cbid: "length (cbid_Marshal m) = cbid_Size m"
  by (simp add: cbid_Marshal_def cbid_Size_def length_len_field length_opt_len_field length_cpsh)

lemma length_opt_block_id:
  "length (opt_block_id t (map_option cbid_Marshal ob)) = (case ob of None \<Rightarrow> 0 | Some b \<Rightarrow> len_size (cbid_Size b))"
  by (simp add: opt_block_id_def length_len_field length_cbid split: option.splits)

lemmas length_fields = length_opt_varint length_opt_fixed64 length_len_field length_opt_len_field length_opt_block_id

lemma length_cvote:
  assumes wf: "cvote_wf tc m" and b: "cvote_Marshal tc m = Return bz"
  shows "length bz = cvote_Size tc m"
proof -
  obtain tb where tb: "time_enc tc (pcv_Timestamp m) = Some tb" "time_size tc (pcv_Timestamp m) = length tb"
    using wf by (auto simp: cvote_wf_def time_ok_def)
  have z: "u64 (pcv_Type m) = 0 \<longleftrightarrow> pcv_Type m = 0"
    using wf u64_zero [OF i32_is_i64, of "pcv_Type m"] by (simp_all add: cvote_wf_def)
  have "length bz = length (opt_varint 0x8 (u64 (pcv_Type m))) + length (opt_fixed64 0x11 (pcv_Height m))
      + length (opt_fixed64 0x19 (pcv_Round m)) + length (opt_block_id 0x22 (map_option cbid_Marshal (pcv_BlockID m)))
      + length (len_field 0x2a tb) + length (opt_len_field 0x32 (str_bytes (pcv_ChainID m)))"
    using b tb(1) by (auto simp: cvote_Marshal_def)
  then show ?thesis unfolding length_fields cvote_Size_def by (simp only: z tb(2) str_bytes_simps)
qed

lemma length_cprop:
  assumes wf: "cprop_wf tc m" and b: "cprop_Marshal tc m = Return bz"
  shows "length bz = cprop_Size tc m"
proof -
  obtain tb where tb: "time_enc tc (pcp_Timestamp m) = Some tb" "time_size tc (pcp_Timestamp m) = length tb"
    using wf by (auto simp: cprop_wf_def time_ok_def)
  have z: "u64 (pcp_Type m) = 0 \<longleftrightarrow> pcp_Type m = 0" "u64 (pcp_POLRound m) = 0 \<longleftrightarrow> pcp_POLRound m = 0"
    using wf u64_zero [OF i32_is_i64, of "pcp_Type m"] u64_zero [of "pcp_POLRound m"] by (simp_all add: cprop_wf_def)
  have "length bz = length (opt_varint 0x8 (u64 (pcp_Type m))) + length (opt_fixed64 0x11 (pcp_Height m))
      + length (opt_fixed64 0x19 (pcp_Round m)) + length (opt_varint 0x20 (u64 (pcp_POLRound m))) + length (opt_block_id 0x2a (map_option cbid_Marshal (pcp_BlockID m)))
      + length (len_field 0x32 tb) + length (opt_len_field 0x3a (str_bytes (pcp_ChainID m)))"
    using b tb(1) by (auto simp: cprop_Marshal_def)
  then show ?thesis unfolding length_fields cprop_Size_def by (simp only: z tb(2) str_bytes_simps)
qed

section \<open>Sign bytes\<close>

definition type_code :: "SignedMsgType \<Rightarrow> int" where
  "type_code t = (case t of UnknownType \<Rightarrow> 0 | PrevoteType \<Rightarrow> 1 | PrecommitType \<Rightarrow> 2 | ProposalType \<Rightarrow> 32)"

definition pb_vote :: "CanonicalVote \<Rightarrow> pb_CanonicalVote" where
  "pb_vote v = \<lparr>pcv_Type = type_code (cv_Type v), pcv_Height = cv_Height v, pcv_Round = cv_Round v,
     pcv_BlockID = cv_BlockID v, pcv_Timestamp = cv_Timestamp v, pcv_ChainID = cv_ChainID v\<rparr>"

definition pb_proposal :: "CanonicalProposal \<Rightarrow> pb_CanonicalProposal" where
  "pb_proposal p = \<lparr>pcp_Type = type_code (cp_Type p), pcp_Height = cp_Height p, pcp_Round = cp_Round p,
     pcp_POLRound = cp_POLRound p, pcp_BlockID = cp_BlockID p, pcp_Timestamp = cp_Timestamp p, pcp_ChainID = cp_ChainID p\<rparr>"

fun delimited :: "(wire_error, bytes) outcome \<Rightarrow> bytes option" where
  "delimited (Return b) = Some (MarshalDelimited b)"
| "delimited _ = None"

definition canonical_env ::
    "time_codec \<Rightarrow> (pubkey \<Rightarrow> bytes \<Rightarrow> bytes \<Rightarrow> bool) \<Rightarrow> (pubkey \<Rightarrow> address) \<Rightarrow> crypto_env" where
  \<comment> \<open>the parameters of the signed data with the encoders of this theory\<close>
  "canonical_env tc verify addr =
     \<lparr>marshal_vote = (\<lambda>v. delimited (cvote_Marshal tc (pb_vote v))),
      marshal_proposal = (\<lambda>p. delimited (cprop_Marshal tc (pb_proposal p))),
      verify_sig = verify, address_of = addr\<rparr>"

definition codec_ok :: "time_codec \<Rightarrow> bool" where
  \<comment> \<open>the contract of the timestamp encoding of the protobuf library\<close>
  "codec_ok tc \<longleftrightarrow> (\<forall>t b. time_enc tc t = Some b \<longrightarrow>
     time_dec tc b = Some t \<and> time_size tc t = length b \<and> length b \<le> 32)"

lemma type_code_inj: "type_code a = type_code b \<longleftrightarrow> a = b"
  by (cases a; cases b) (simp_all add: type_code_def)

lemma type_code_i32: "is_i32 (type_code t)"
  by (cases t) (simp_all add: type_code_def is_i32_def)

lemma len_size_le: "l < 2 ^ 64 \<Longrightarrow> len_size l \<le> l + 11"
  using sov_le(2) [of l] by (simp add: len_size_def)

lemma cpsh_small:
  assumes "length (psh_Hash p) \<le> 32"
  shows "cpsh_Size p \<le> 54"
proof -
  have "unat (psh_Total p) < 2 ^ 64" using unsigned_less [of "psh_Total p", where 'a = nat] by simp
  then have "sov (unat (psh_Total p)) \<le> 10" by (rule sov_le)
  moreover have "len_size (length (psh_Hash p)) \<le> 43" using len_size_le [of "length (psh_Hash p)"] assms by simp
  ultimately show ?thesis by (simp add: cpsh_Size_def)
qed

lemma cbid_small:
  assumes "bid_ok b"
  shows "cbid_Size b \<le> 120"
proof -
  have l: "length (bid_Hash b) \<le> 32" "length (psh_Hash (bid_Parts b)) \<le> 32"
    using assms by (auto simp: bid_ok_def bid_IsZero_def bid_IsComplete_def psh_IsZero_def tmhash_Size_def)
  have "len_size (length (bid_Hash b)) \<le> 43" using len_size_le [of "length (bid_Hash b)"] l(1) by simp
  moreover have "len_size (cpsh_Size (bid_Parts b)) \<le> 65"
    using len_size_le [of "cpsh_Size (bid_Parts b)"] cpsh_small [OF l(2)] by simp
  ultimately show ?thesis by (simp add: cbid_Size_def)
qed

lemma optional_le: "(if P then (x::nat) else 0) \<le> x" by simp

lemma pb_vote_wf:
  assumes tc: "codec_ok tc" and t: "time_enc tc (v_Timestamp v) \<noteq> None"
    and r: "is_i64 (v_Height v)" "is_i32 (v_Round v)" "bid_ok (v_BlockID v)" "length c \<le> 50"
  shows "cvote_wf tc (pb_vote (canonical_vote c v))"
proof -
  let ?m = "pb_vote (canonical_vote c v)"
  obtain tb where tb: "time_enc tc (v_Timestamp v) = Some tb" using t by auto
  have t: "time_ok tc (v_Timestamp v)" "length tb \<le> 32" "time_size tc (v_Timestamp v) = length tb"
    using tc tb by (auto simp: codec_ok_def time_ok_def)
  have "length (opt_block_id 0x22 (map_option cbid_Marshal (pcv_BlockID ?m))) \<le> 131"
    using len_size_le [of "cbid_Size (v_BlockID v)"] cbid_small [OF r(3)]
    by (auto simp: length_opt_block_id pb_vote_def canonical_vote_def)
  moreover have "length (opt_varint 0x8 (u64 (pcv_Type ?m))) \<le> 11"
    using sov_le(2) [OF u64_lt] by (simp add: length_opt_varint)
  moreover have "length (len_field 0x2a tb) \<le> 43" using len_size_le [of "length tb"] t(2) by (simp add: length_len_field)
  moreover have "length (opt_len_field 0x32 (str_bytes (pcv_ChainID ?m))) \<le> 61"
    using len_size_le [of "length c"] r(4) by (simp add: length_opt_len_field pb_vote_def canonical_vote_def)
  moreover have "length (opt_fixed64 0x11 (pcv_Height ?m)) \<le> 9" "length (opt_fixed64 0x19 (pcv_Round ?m)) \<le> 9"
    by (simp_all add: length_opt_fixed64)
  moreover have "cvote_Marshal tc ?m = Return (opt_varint 0x8 (u64 (pcv_Type ?m)) @ opt_fixed64 0x11 (pcv_Height ?m)
      @ opt_fixed64 0x19 (pcv_Round ?m) @ opt_block_id 0x22 (map_option cbid_Marshal (pcv_BlockID ?m))
      @ len_field 0x2a tb @ opt_len_field 0x32 (str_bytes (pcv_ChainID ?m)))"
    using tb by (simp add: cvote_Marshal_def pb_vote_def canonical_vote_def)
  ultimately have "int (length b) + 10 \<le> MaxInt64" if "cvote_Marshal tc ?m = Return b" for b
    using that by auto
  moreover have "is_i32 (pcv_Type ?m) \<and> is_i64 (pcv_Height ?m) \<and> is_i64 (pcv_Round ?m) \<and> time_ok tc (pcv_Timestamp ?m)"
    using r(1,2) t(1) type_code_i32 i32_is_i64 by (simp add: pb_vote_def canonical_vote_def)
  ultimately show ?thesis unfolding cvote_wf_def by blast
qed

definition canonical_proposal :: "string \<Rightarrow> Proposal \<Rightarrow> CanonicalProposal" where
  "canonical_proposal chainID p =
    \<lparr>cp_Type = ProposalType, cp_Height = p_Height p, cp_Round = p_Round p, cp_POLRound = p_POLRound p,
     cp_BlockID = (if bid_IsZero (p_BlockID p) then None else Some (p_BlockID p)),
     cp_Timestamp = p_Timestamp p, cp_ChainID = chainID\<rparr>"

lemma pb_proposal_wf:
  assumes tc: "codec_ok tc" and t: "time_enc tc (p_Timestamp p) \<noteq> None"
    and r: "is_i64 (p_Height p)" "is_i32 (p_Round p)" "is_i32 (p_POLRound p)" "bid_ok (p_BlockID p)" "length c \<le> 50"
  shows "cprop_wf tc (pb_proposal (canonical_proposal c p))"
proof -
  let ?m = "pb_proposal (canonical_proposal c p)"
  obtain tb where tb: "time_enc tc (p_Timestamp p) = Some tb" using t by auto
  have t: "time_ok tc (p_Timestamp p)" "length tb \<le> 32" "time_size tc (p_Timestamp p) = length tb"
    using tc tb by (auto simp: codec_ok_def time_ok_def)
  have "length (opt_block_id 0x2a (map_option cbid_Marshal (pcp_BlockID ?m))) \<le> 131"
    using len_size_le [of "cbid_Size (p_BlockID p)"] cbid_small [OF r(4)]
    by (auto simp: length_opt_block_id pb_proposal_def canonical_proposal_def)
  moreover have "length (opt_varint 0x8 (u64 (pcp_Type ?m))) \<le> 11" "length (opt_varint 0x20 (u64 (pcp_POLRound ?m))) \<le> 11"
    using sov_le(2) [OF u64_lt] by (simp_all add: length_opt_varint)
  moreover have "length (len_field 0x32 tb) \<le> 43" using len_size_le [of "length tb"] t(2) by (simp add: length_len_field)
  moreover have "length (opt_len_field 0x3a (str_bytes (pcp_ChainID ?m))) \<le> 61"
    using len_size_le [of "length c"] r(5) by (simp add: length_opt_len_field pb_proposal_def canonical_proposal_def)
  moreover have "length (opt_fixed64 0x11 (pcp_Height ?m)) \<le> 9" "length (opt_fixed64 0x19 (pcp_Round ?m)) \<le> 9"
    by (simp_all add: length_opt_fixed64)
  moreover have "cprop_Marshal tc ?m = Return (opt_varint 0x8 (u64 (pcp_Type ?m)) @ opt_fixed64 0x11 (pcp_Height ?m)
      @ opt_fixed64 0x19 (pcp_Round ?m) @ opt_varint 0x20 (u64 (pcp_POLRound ?m)) @ opt_block_id 0x2a (map_option cbid_Marshal (pcp_BlockID ?m))
      @ len_field 0x32 tb @ opt_len_field 0x3a (str_bytes (pcp_ChainID ?m)))"
    using tb by (simp add: cprop_Marshal_def pb_proposal_def canonical_proposal_def)
  ultimately have "int (length b) + 10 \<le> MaxInt64" if "cprop_Marshal tc ?m = Return b" for b
    using that by auto
  moreover have "is_i32 (pcp_Type ?m) \<and> is_i64 (pcp_Height ?m) \<and> is_i64 (pcp_Round ?m) \<and> is_i64 (pcp_POLRound ?m) \<and> time_ok tc (pcp_Timestamp ?m)"
    using r(1-3) t(1) type_code_i32 i32_is_i64 by (simp add: pb_proposal_def canonical_proposal_def)
  ultimately show ?thesis unfolding cprop_wf_def by blast
qed

lemma canonical_block_id:
  "(if bid_IsZero a then None else Some a) = (if bid_IsZero b then None else Some b) \<Longrightarrow> a = b"
  by (auto simp: bid_IsZero_def psh_IsZero_def intro!: BlockID.equality PartSetHeader.equality split: if_splits)

lemma vote_sign_bytes_pb:
  assumes "VoteSignBytes (canonical_env tc ver addr) c v = (Return bz :: ('e, _) outcome)"
  obtains b where "bz = MarshalDelimited b" "cvote_Marshal tc (pb_vote (canonical_vote c v)) = Return b"
    "time_enc tc (v_Timestamp v) \<noteq> None"
proof -
  have v: "bid_ValidateBasic (v_BlockID v)"
    using assms by (auto simp: VoteSignBytes_def CanonicalizeVote_def CanonicalizeBlockID_def split: if_splits)
  then have "delimited (cvote_Marshal tc (pb_vote (canonical_vote c v))) = Some bz"
    using assms by (auto simp: VoteSignBytes_canonical canonical_env_def split: option.splits)
  then obtain b where b: "bz = MarshalDelimited b" "cvote_Marshal tc (pb_vote (canonical_vote c v)) = Return b"
    by (cases "cvote_Marshal tc (pb_vote (canonical_vote c v))") auto
  then have "time_enc tc (v_Timestamp v) \<noteq> None"
    by (auto simp: cvote_Marshal_def pb_vote_def canonical_vote_def split: option.splits)
  then show thesis using that b by blast
qed

lemma vote_sign_bytes_inj:
  assumes tc: "codec_ok tc"
    and v: "is_i64 (v_Height v)" "is_i32 (v_Round v)" "bid_ok (v_BlockID v)" "length c \<le> 50"
    and w: "is_i64 (v_Height w)" "is_i32 (v_Round w)" "bid_ok (v_BlockID w)" "length c' \<le> 50"
    and same: "VoteSignBytes (canonical_env tc ver addr) c v = (Return bz :: ('e, _) outcome)"
      "VoteSignBytes (canonical_env tc ver addr) c' w = (Return bz :: ('e, _) outcome)"
  shows "c = c' \<and> v_Type v = v_Type w \<and> v_Height v = v_Height w \<and> v_Round v = v_Round w
    \<and> v_BlockID v = v_BlockID w \<and> v_Timestamp v = v_Timestamp w"
proof -
  obtain bv where bv: "bz = MarshalDelimited bv" "cvote_Marshal tc (pb_vote (canonical_vote c v)) = Return bv"
    "time_enc tc (v_Timestamp v) \<noteq> None" by (rule vote_sign_bytes_pb [OF same(1)])
  obtain bw where bw: "bz = MarshalDelimited bw" "cvote_Marshal tc (pb_vote (canonical_vote c' w)) = Return bw"
    "time_enc tc (v_Timestamp w) \<noteq> None" by (rule vote_sign_bytes_pb [OF same(2)])
  have "encodeVarint (length bv) @ bv = encodeVarint (length bw) @ bw"
    using bv(1) bw(1) by (simp add: MarshalDelimited_def)
  then have "bv = bw" using encodeVarint_prefix_free by blast
  then have eq: "pb_vote (canonical_vote c v) = pb_vote (canonical_vote c' w)"
    using cvote_back [OF pb_vote_wf [OF tc bv(3) v] bv(2)] cvote_back [OF pb_vote_wf [OF tc bw(3) w] bw(2)] by simp
  then have "(if bid_IsZero (v_BlockID v) then None else Some (v_BlockID v)) =
      (if bid_IsZero (v_BlockID w) then None else Some (v_BlockID w))"
    unfolding pb_vote_def canonical_vote_def by (simp only: pb_CanonicalVote.ext_inject CanonicalVote.simps)
  from canonical_block_id [OF this] eq show ?thesis
    by (simp add: pb_vote_def canonical_vote_def type_code_inj)
qed

lemma vote_sign_bytes_read:
  assumes "codec_ok tc" "is_i64 (v_Height v)" "is_i32 (v_Round v)" "bid_ok (v_BlockID v)" "length c \<le> 50"
    and "VoteSignBytes (canonical_env tc ver addr) c v = (Return bz :: ('e, _) outcome)"
  shows "UnmarshalDelimited (cvote_Unmarshal tc) bz = Return (pb_vote (canonical_vote c v))"
proof -
  obtain b where b: "bz = MarshalDelimited b" "cvote_Marshal tc (pb_vote (canonical_vote c v)) = Return b"
    "time_enc tc (v_Timestamp v) \<noteq> None" by (rule vote_sign_bytes_pb [OF assms(6)])
  note wf = pb_vote_wf [OF assms(1) b(3) assms(2-5)]
  have "int (length b) + 10 \<le> MaxInt64" using wf b(2) unfolding cvote_wf_def by blast
  then show ?thesis using cvote_back [OF wf b(2)] by (simp add: b(1) delimited_back)
qed

lemma ProposalSignBytes_canonical:
  assumes "bid_ValidateBasic (p_BlockID p)"
  shows "ProposalSignBytes env chainID p =
    (case marshal_proposal env (canonical_proposal chainID p) of None \<Rightarrow> Panic | Some bz \<Rightarrow> Return bz)"
  using assms by (simp add: ProposalSignBytes_def CanonicalizeProposal_def CanonicalizeBlockID_def canonical_proposal_def)

lemma proposal_sign_bytes_pb:
  assumes "ProposalSignBytes (canonical_env tc ver addr) c p = (Return bz :: ('e, _) outcome)"
  obtains b where "bz = MarshalDelimited b" "cprop_Marshal tc (pb_proposal (canonical_proposal c p)) = Return b"
    "time_enc tc (p_Timestamp p) \<noteq> None"
proof -
  have v: "bid_ValidateBasic (p_BlockID p)"
    using assms by (auto simp: ProposalSignBytes_def CanonicalizeProposal_def CanonicalizeBlockID_def split: if_splits)
  then have "delimited (cprop_Marshal tc (pb_proposal (canonical_proposal c p))) = Some bz"
    using assms by (auto simp: ProposalSignBytes_canonical canonical_env_def split: option.splits)
  then obtain b where b: "bz = MarshalDelimited b" "cprop_Marshal tc (pb_proposal (canonical_proposal c p)) = Return b"
    by (cases "cprop_Marshal tc (pb_proposal (canonical_proposal c p))") auto
  then have "time_enc tc (p_Timestamp p) \<noteq> None"
    by (auto simp: cprop_Marshal_def pb_proposal_def canonical_proposal_def split: option.splits)
  then show thesis using that b by blast
qed

lemma proposal_sign_bytes_read:
  assumes "codec_ok tc" "is_i64 (p_Height p)" "is_i32 (p_Round p)" "is_i32 (p_POLRound p)" "bid_ok (p_BlockID p)" "length c \<le> 50"
    and "ProposalSignBytes (canonical_env tc ver addr) c p = (Return bz :: ('e, _) outcome)"
  shows "UnmarshalDelimited (cprop_Unmarshal tc) bz = Return (pb_proposal (canonical_proposal c p))"
proof -
  obtain b where b: "bz = MarshalDelimited b" "cprop_Marshal tc (pb_proposal (canonical_proposal c p)) = Return b"
    "time_enc tc (p_Timestamp p) \<noteq> None" by (rule proposal_sign_bytes_pb [OF assms(7)])
  note wf = pb_proposal_wf [OF assms(1) b(3) assms(2-6)]
  have "int (length b) + 10 \<le> MaxInt64" using wf b(2) unfolding cprop_wf_def by blast
  then show ?thesis using cprop_back [OF wf b(2)] by (simp add: b(1) delimited_back)
qed

section \<open>Properties\<close>

text \<open>
  C24: decoding is inverse to encoding.  Whatever canonical vote or proposal is marshalled, with or
  without a block id, with zero fields and negative rounds, its length-delimited encoding is read
  back by \<open>UnmarshalDelimited\<close> as the same message.
\<close>

theorem canonical_roundtrip:
  assumes "cvote_wf tc v" "cvote_Marshal tc v = Return bv" "cprop_wf tc p" "cprop_Marshal tc p = Return bp"
  shows "UnmarshalDelimited (cvote_Unmarshal tc) (MarshalDelimited bv) = Return v
    \<and> UnmarshalDelimited (cprop_Unmarshal tc) (MarshalDelimited bp) = Return p"
proof -
  have "int (length bv) + 10 \<le> MaxInt64" "int (length bp) + 10 \<le> MaxInt64"
    using assms unfolding cvote_wf_def cprop_wf_def by blast+
  then show ?thesis using cvote_back [OF assms(1,2)] cprop_back [OF assms(3,4)] by (simp add: delimited_back)
qed

definition example_time :: time_codec where
  "example_time = \<lparr>time_enc = (\<lambda>t. if is_i64 t then Some (le_bytes 8 (word_of_int t)) else None),
     time_dec = (\<lambda>b. Some (sint (of_le_bytes b))), time_size = (\<lambda>_. 8)\<rparr>"

lemma example_time_ok: "codec_ok example_time"
  unfolding codec_ok_def
proof (intro allI impI)
  fix t b assume e: "time_enc example_time t = Some b"
  then have t: "is_i64 t" "b = le_bytes 8 (word_of_int t)" by (auto simp: example_time_def split: if_splits)
  have "sint (word_of_int t :: 64 word) = t"
    using t(1) by (simp add: is_i64_def signed_of_int signed_take_bit_int_eq_self)
  then show "time_dec example_time b = Some t \<and> time_size example_time t = length b \<and> length b \<le> 32"
    by (simp add: example_time_def t(2) fixed64_back)
qed

definition sample_vote :: "SignedMsgType \<Rightarrow> Vote" where
  "sample_vote t = \<lparr>v_Type = t, v_Height = 300, v_Round = 0, v_BlockID = example_bid 1, v_Timestamp = 5,
     v_ValidatorAddress = [], v_ValidatorIndex = 0, v_Signature = []\<rparr>"

definition sample_proposal :: Proposal where
  "sample_proposal = \<lparr>p_Type = ProposalType, p_Height = 300, p_Round = 1, p_POLRound = - 1, p_BlockID = example_bid 1,
     p_Timestamp = - 5, p_Signature = []\<rparr>"

definition example_cvote :: pb_CanonicalVote where
  "example_cvote = pb_vote (canonical_vote ''c'' (sample_vote PrecommitType))"

definition example_cprop :: pb_CanonicalProposal where
  "example_cprop = pb_proposal (canonical_proposal ''c'' sample_proposal)"

lemma sample_bid_ok: "bid_ok (example_bid x)"
  using example_bid_complete by (simp add: bid_ok_def)

lemma example_canonical_wf: "cvote_wf example_time example_cvote" "cprop_wf example_time example_cprop"
  unfolding example_cvote_def example_cprop_def
  by (rule pb_vote_wf [OF example_time_ok] pb_proposal_wf [OF example_time_ok];
      simp add: sample_vote_def sample_proposal_def example_time_def is_i64_def is_i32_def sample_bid_ok)+

theorem canonical_roundtrip_witness:
  "\<exists>bv bp. UnmarshalDelimited (cvote_Unmarshal example_time) (MarshalDelimited bv) = Return example_cvote
    \<and> UnmarshalDelimited (cprop_Unmarshal example_time) (MarshalDelimited bp) = Return example_cprop"
proof -
  obtain bv where bv: "cvote_Marshal example_time example_cvote = Return bv"
    by (auto simp: cvote_Marshal_def example_cvote_def pb_vote_def canonical_vote_def sample_vote_def example_time_def is_i64_def)
  obtain bp where bp: "cprop_Marshal example_time example_cprop = Return bp"
    by (auto simp: cprop_Marshal_def example_cprop_def pb_proposal_def canonical_proposal_def sample_proposal_def example_time_def is_i64_def)
  show ?thesis using canonical_roundtrip [OF example_canonical_wf(1) bv example_canonical_wf(2) bp] by blast
qed

text \<open>
  The announced size is exact.  The buffer that \<open>Size\<close> allocates is filled exactly by the
  encoder that writes it back to front, for every canonical vote and proposal.
\<close>

theorem canonical_sizes_exact:
  assumes "cvote_wf tc v" "cvote_Marshal tc v = Return bv" "cprop_wf tc p" "cprop_Marshal tc p = Return bp"
  shows "length bv = cvote_Size tc v \<and> length bp = cprop_Size tc p"
  using length_cvote [OF assms(1,2)] length_cprop [OF assms(3,4)] by simp

theorem canonical_sizes_exact_witness:
  "\<exists>bv bp. cvote_Marshal example_time example_cvote = Return bv \<and> length bv = cvote_Size example_time example_cvote
    \<and> cprop_Marshal example_time example_cprop = Return bp \<and> length bp = cprop_Size example_time example_cprop"
proof -
  obtain bv where bv: "cvote_Marshal example_time example_cvote = Return bv"
    by (auto simp: cvote_Marshal_def example_cvote_def pb_vote_def canonical_vote_def sample_vote_def example_time_def is_i64_def)
  obtain bp where bp: "cprop_Marshal example_time example_cprop = Return bp"
    by (auto simp: cprop_Marshal_def example_cprop_def pb_proposal_def canonical_proposal_def sample_proposal_def example_time_def is_i64_def)
  show ?thesis using canonical_sizes_exact [OF example_canonical_wf(1) bv example_canonical_wf(2) bp] bv bp by blast
qed

text \<open>
  C23: a signature binds what it signs.  With the encoders of the source, two votes with the same
  sign bytes agree in chain, type, height, round, block id and timestamp, so a signature for one is
  never a signature for a vote that says anything else.
\<close>

theorem vote_sign_bytes_bind:
  assumes tc: "codec_ok tc"
    and v: "is_i64 (v_Height v)" "is_i32 (v_Round v)" "bid_ok (v_BlockID v)" "length c \<le> 50"
    and w: "is_i64 (v_Height w)" "is_i32 (v_Round w)" "bid_ok (v_BlockID w)" "length c' \<le> 50"
    and same: "VoteSignBytes (canonical_env tc ver addr) c v = (Return bz :: (unit, _) outcome)"
      "VoteSignBytes (canonical_env tc ver addr) c' w = (Return bz :: (unit, _) outcome)"
  shows "c = c' \<and> v_Type v = v_Type w \<and> v_Height v = v_Height w \<and> v_Round v = v_Round w
    \<and> v_BlockID v = v_BlockID w \<and> v_Timestamp v = v_Timestamp w"
  by (rule vote_sign_bytes_inj [OF assms])

theorem vote_sign_bytes_bind_witness:
  "VoteSignBytes (canonical_env example_time (\<lambda>_ _ _. True) id) ''c'' (sample_vote PrevoteType)
    \<noteq> (VoteSignBytes (canonical_env example_time (\<lambda>_ _ _. True) id) ''c'' (sample_vote PrecommitType) :: (unit, _) outcome)"
proof
  let ?env = "canonical_env example_time (\<lambda>_ _ _. True) id"
  assume eq: "VoteSignBytes ?env ''c'' (sample_vote PrevoteType)
    = (VoteSignBytes ?env ''c'' (sample_vote PrecommitType) :: (unit, _) outcome)"
  have v: "bid_ValidateBasic (v_BlockID (sample_vote PrevoteType))"
    using bid_ok_validate [OF sample_bid_ok] by (simp add: sample_vote_def)
  obtain b where "cvote_Marshal example_time (pb_vote (canonical_vote ''c'' (sample_vote PrevoteType))) = Return b"
    by (auto simp: cvote_Marshal_def pb_vote_def canonical_vote_def sample_vote_def example_time_def is_i64_def)
  then have b: "VoteSignBytes ?env ''c'' (sample_vote PrevoteType) = (Return (MarshalDelimited b) :: (unit, _) outcome)"
    unfolding VoteSignBytes_canonical [OF v] by (simp add: canonical_env_def)
  have r: "is_i64 (v_Height (sample_vote t))" "is_i32 (v_Round (sample_vote t))" "bid_ok (v_BlockID (sample_vote t))" for t
    by (simp_all add: sample_vote_def is_i64_def is_i32_def sample_bid_ok)
  have "v_Type (sample_vote PrevoteType) = v_Type (sample_vote PrecommitType)"
    using vote_sign_bytes_bind [OF example_time_ok r _ r _ b b [unfolded eq]] by simp
  then show False by (simp add: sample_vote_def)
qed

end
