(* ===== verification/PrivVal.thy ===== *)
theory PrivVal
  imports Canonical
begin

text \<open>
  The file-backed private validator, privval/file.go: the last height, round and step it signed for,
  persisted before a signature leaves the process, and the rules that keep a validator from signing
  two different messages for one height, round and step.

  The model keeps the state in memory and the state on disk.  Writing the state as JSON and reading it
  back is taken to give the same state.  \<open>Sign\<close> of the private key is a
  parameter that may fail; the encoders are those of \<open>Canonical\<close>.
\<close>

section \<open>Operations\<close>

definition sign_env :: "time_codec \<Rightarrow> crypto_env" where
  \<comment> \<open>sign bytes depend on the encoders only\<close>
  "sign_env tc = canonical_env tc (\<lambda>_ _ _. False) (\<lambda>_. [])"

abbreviation "stepNone \<equiv> (0 :: int)"
abbreviation "stepPropose \<equiv> (1 :: int)"
abbreviation "stepPrevote \<equiv> (2 :: int)"
abbreviation "stepPrecommit \<equiv> (3 :: int)"

definition voteToStep :: "Vote \<Rightarrow> ('e, int) outcome" where
  "voteToStep vote =
     (case v_Type vote of PrevoteType \<Rightarrow> Return stepPrevote | PrecommitType \<Rightarrow> Return stepPrecommit | _ \<Rightarrow> Panic)"

record LastSignState =
  lss_Height :: int
  lss_Round :: int
  lss_Step :: int
  lss_Signature :: "bytes option"
  lss_SignBytes :: "bytes option"

record FilePV =
  pv_LastSignState :: LastSignState
  pv_disk :: LastSignState

datatype pv_error =
    HeightRegression
  | RoundRegression
  | StepRegression
  | NoSignBytes
  | ConflictingData
  | SignError

definition CheckHRS :: "LastSignState \<Rightarrow> int \<Rightarrow> int \<Rightarrow> int \<Rightarrow> (pv_error, bool) outcome" where
  "CheckHRS lss height rnd stp =
     (if lss_Height lss > height then Error HeightRegression
      else if lss_Height lss = height
      then (if lss_Round lss > rnd then Error RoundRegression
            else if lss_Round lss = rnd
            then (if lss_Step lss > stp then Error StepRegression
                  else if lss_Step lss = stp
                  then (if lss_SignBytes lss \<noteq> None
                        then (if lss_Signature lss = None then Panic else Return True)
                        else Error NoSignBytes)
                  else Return False)
            else Return False)
      else Return False)"

definition empty_lss :: LastSignState where
  "empty_lss = \<lparr>lss_Height = 0, lss_Round = 0, lss_Step = stepNone, lss_Signature = None, lss_SignBytes = None\<rparr>"

definition NewFilePV :: FilePV where
  \<comment> \<open>a new validator, saved\<close>
  "NewFilePV = \<lparr>pv_LastSignState = empty_lss, pv_disk = empty_lss\<rparr>"

definition loadFilePV :: "bool \<Rightarrow> FilePV \<Rightarrow> FilePV" where
  \<comment> \<open>a restart: the state is read from disk, or is empty on request\<close>
  "loadFilePV loadState pv = pv\<lparr>pv_LastSignState := (if loadState then pv_disk pv else empty_lss)\<rparr>"

definition pv_Reset :: "FilePV \<Rightarrow> FilePV" where
  "pv_Reset pv =
     (let lss = (pv_LastSignState pv)\<lparr>lss_Height := 0, lss_Round := 0, lss_Step := 0, lss_Signature := None,
                  lss_SignBytes := None\<rparr>
      in pv\<lparr>pv_LastSignState := lss, pv_disk := lss\<rparr>)"

definition saveSigned :: "FilePV \<Rightarrow> int \<Rightarrow> int \<Rightarrow> int \<Rightarrow> bytes \<Rightarrow> bytes \<Rightarrow> FilePV" where
  "saveSigned pv height rnd stp signBytes sig =
     (let lss = \<lparr>lss_Height = height, lss_Round = rnd, lss_Step = stp, lss_Signature = Some sig,
                 lss_SignBytes = Some signBytes\<rparr>
      in pv\<lparr>pv_LastSignState := lss, pv_disk := lss\<rparr>)"

definition checkVotesOnlyDifferByTimestamp ::
    "time_codec \<Rightarrow> timestamp \<Rightarrow> bytes \<Rightarrow> bytes \<Rightarrow> ('e, timestamp \<times> bool) outcome" where
  "checkVotesOnlyDifferByTimestamp tc now lastSignBytes newSignBytes =
     (case UnmarshalDelimited (cvote_Unmarshal tc) lastSignBytes of
        Return lastVote \<Rightarrow>
          (case UnmarshalDelimited (cvote_Unmarshal tc) newSignBytes of
             Return newVote \<Rightarrow>
               Return (pcv_Timestamp lastVote, newVote\<lparr>pcv_Timestamp := now\<rparr> = lastVote\<lparr>pcv_Timestamp := now\<rparr>)
           | _ \<Rightarrow> Panic)
      | _ \<Rightarrow> Panic)"

definition checkProposalsOnlyDifferByTimestamp ::
    "time_codec \<Rightarrow> timestamp \<Rightarrow> bytes \<Rightarrow> bytes \<Rightarrow> ('e, timestamp \<times> bool) outcome" where
  "checkProposalsOnlyDifferByTimestamp tc now lastSignBytes newSignBytes =
     (case UnmarshalDelimited (cprop_Unmarshal tc) lastSignBytes of
        Return lastProposal \<Rightarrow>
          (case UnmarshalDelimited (cprop_Unmarshal tc) newSignBytes of
             Return newProposal \<Rightarrow>
               Return (pcp_Timestamp lastProposal,
                       newProposal\<lparr>pcp_Timestamp := now\<rparr> = lastProposal\<lparr>pcp_Timestamp := now\<rparr>)
           | _ \<Rightarrow> Panic)
      | _ \<Rightarrow> Panic)"

definition signVote ::
    "time_codec \<Rightarrow> (bytes \<Rightarrow> bytes option) \<Rightarrow> timestamp \<Rightarrow> string \<Rightarrow> FilePV \<Rightarrow> Vote
      \<Rightarrow> (pv_error, FilePV \<times> Vote) outcome" where
  \<comment> \<open>an error leaves the validator as it was\<close>
  "signVote tc sign now chainID pv vote =
     bind_o (voteToStep vote) (\<lambda>stp.
     let lss = pv_LastSignState pv
     in bind_o (CheckHRS lss (v_Height vote) (v_Round vote) stp) (\<lambda>sameHRS.
        bind_o (VoteSignBytes (sign_env tc) chainID vote) (\<lambda>signBytes.
        if sameHRS
        then (if signBytes = the (lss_SignBytes lss)
              then Return (pv, vote\<lparr>v_Signature := the (lss_Signature lss)\<rparr>)
              else bind_o (checkVotesOnlyDifferByTimestamp tc now (the (lss_SignBytes lss)) signBytes) (\<lambda>(timestamp, ok).
                   if ok then Return (pv, vote\<lparr>v_Timestamp := timestamp, v_Signature := the (lss_Signature lss)\<rparr>)
                   else Error ConflictingData))
        else case sign signBytes of None \<Rightarrow> Error SignError
             | Some sig \<Rightarrow> Return (saveSigned pv (v_Height vote) (v_Round vote) stp signBytes sig,
                                   vote\<lparr>v_Signature := sig\<rparr>))))"

definition signProposal ::
    "time_codec \<Rightarrow> (bytes \<Rightarrow> bytes option) \<Rightarrow> timestamp \<Rightarrow> string \<Rightarrow> FilePV \<Rightarrow> Proposal
      \<Rightarrow> (pv_error, FilePV \<times> Proposal) outcome" where
  "signProposal tc sign now chainID pv proposal =
     (let lss = pv_LastSignState pv
      in bind_o (CheckHRS lss (p_Height proposal) (p_Round proposal) stepPropose) (\<lambda>sameHRS.
         bind_o (ProposalSignBytes (sign_env tc) chainID proposal) (\<lambda>signBytes.
         if sameHRS
         then (if signBytes = the (lss_SignBytes lss)
               then Return (pv, proposal\<lparr>p_Signature := the (lss_Signature lss)\<rparr>)
               else bind_o (checkProposalsOnlyDifferByTimestamp tc now (the (lss_SignBytes lss)) signBytes) (\<lambda>(timestamp, ok).
                    if ok then Return (pv, proposal\<lparr>p_Timestamp := timestamp, p_Signature := the (lss_Signature lss)\<rparr>)
                    else Error ConflictingData))
         else case sign signBytes of None \<Rightarrow> Error SignError
              | Some sig \<Rightarrow> Return (saveSigned pv (p_Height proposal) (p_Round proposal) stepPropose signBytes sig,
                                    proposal\<lparr>p_Signature := sig\<rparr>))))"

section \<open>Runs\<close>

datatype signed = SVote Vote | SProposal Proposal

definition vote_range :: "Vote \<Rightarrow> bool" where
  "vote_range v \<longleftrightarrow> is_i64 (v_Height v) \<and> is_i32 (v_Round v) \<and> bid_ok (v_BlockID v)"

definition proposal_range :: "Proposal \<Rightarrow> bool" where
  "proposal_range p \<longleftrightarrow> is_i64 (p_Height p) \<and> is_i32 (p_Round p) \<and> is_i32 (p_POLRound p) \<and> bid_ok (p_BlockID p)"

inductive pv_run :: "time_codec \<Rightarrow> (bytes \<Rightarrow> bytes option) \<Rightarrow> string \<Rightarrow> FilePV \<Rightarrow> signed list \<Rightarrow> bool"
  for tc sign chainID where
  start: "pv_run tc sign chainID NewFilePV []"
| vote: "pv_run tc sign chainID pv out \<Longrightarrow> vote_range v \<Longrightarrow> signVote tc sign now chainID pv v = Return (pv', v')
    \<Longrightarrow> pv_run tc sign chainID pv' (SVote v' # out)"
| proposal: "pv_run tc sign chainID pv out \<Longrightarrow> proposal_range p \<Longrightarrow> signProposal tc sign now chainID pv p = Return (pv', p')
    \<Longrightarrow> pv_run tc sign chainID pv' (SProposal p' # out)"
| lost_vote: "pv_run tc sign chainID pv out \<Longrightarrow> vote_range v \<Longrightarrow> signVote tc sign now chainID pv v = Return (pv', v')
    \<Longrightarrow> pv_run tc sign chainID pv' out"
| lost_proposal: "pv_run tc sign chainID pv out \<Longrightarrow> proposal_range p \<Longrightarrow> signProposal tc sign now chainID pv p = Return (pv', p')
    \<Longrightarrow> pv_run tc sign chainID pv' out"
| restart: "pv_run tc sign chainID pv out \<Longrightarrow> pv_run tc sign chainID (loadFilePV True pv) out"

definition type_step :: "SignedMsgType \<Rightarrow> int" where
  "type_step t = (case t of PrevoteType \<Rightarrow> stepPrevote | PrecommitType \<Rightarrow> stepPrecommit | _ \<Rightarrow> stepPropose)"

fun hrs :: "signed \<Rightarrow> int \<times> int \<times> int" where
  "hrs (SVote v) = (v_Height v, v_Round v, type_step (v_Type v))"
| "hrs (SProposal p) = (p_Height p, p_Round p, stepPropose)"

definition lss_hrs :: "LastSignState \<Rightarrow> int \<times> int \<times> int" where
  "lss_hrs lss = (lss_Height lss, lss_Round lss, lss_Step lss)"

fun bytes_of :: "time_codec \<Rightarrow> string \<Rightarrow> signed \<Rightarrow> (unit, bytes) outcome" where
  "bytes_of tc chainID (SVote v) = VoteSignBytes (sign_env tc) chainID v"
| "bytes_of tc chainID (SProposal p) = ProposalSignBytes (sign_env tc) chainID p"

fun sig_of :: "signed \<Rightarrow> bytes" where
  "sig_of (SVote v) = v_Signature v"
| "sig_of (SProposal p) = p_Signature p"

fun in_range :: "signed \<Rightarrow> bool" where
  "in_range (SVote v) \<longleftrightarrow> vote_range v \<and> v_Type v \<in> {PrevoteType, PrecommitType}"
| "in_range (SProposal p) \<longleftrightarrow> proposal_range p"

lemma CheckHRS_False: "CheckHRS lss h r s = Return False \<Longrightarrow> lss_hrs lss < (h, r, s)"
  by (auto simp: CheckHRS_def lss_hrs_def less_prod_def split: if_splits)

lemma CheckHRS_True:
  "CheckHRS lss h r s = Return True \<Longrightarrow>
     lss_hrs lss = (h, r, s) \<and> lss_SignBytes lss \<noteq> None \<and> lss_Signature lss \<noteq> None"
  by (auto simp: CheckHRS_def lss_hrs_def split: if_splits)

section \<open>One signature\<close>

definition last_ok :: "time_codec \<Rightarrow> string \<Rightarrow> LastSignState \<Rightarrow> bool" where
  \<comment> \<open>the stored sign bytes are those of a message for the stored height, round and step\<close>
  "last_ok tc chainID lss \<longleftrightarrow>
     (\<forall>b. lss_SignBytes lss = Some b \<longrightarrow>
        (\<exists>m. in_range m \<and> hrs m = lss_hrs lss \<and> bytes_of tc chainID m = Return b))"

definition sign_step :: "time_codec \<Rightarrow> string \<Rightarrow> FilePV \<Rightarrow> signed \<Rightarrow> FilePV \<Rightarrow> bool" where
  \<comment> \<open>either the last signature is handed out again, or a later message is signed and saved\<close>
  "sign_step tc chainID pv m pv' \<longleftrightarrow> in_range m \<and>
     (let lss = pv_LastSignState pv
      in pv' = pv \<and> hrs m = lss_hrs lss \<and> lss_SignBytes lss \<noteq> None
           \<and> bytes_of tc chainID m = Return (the (lss_SignBytes lss)) \<and> lss_Signature lss = Some (sig_of m)
         \<or> lss_hrs lss < hrs m
           \<and> (\<exists>b h r s. bytes_of tc chainID m = Return b \<and> hrs m = (h, r, s) \<and> pv' = saveSigned pv h r s b (sig_of m)))"

lemma steps_of_types:
  "t \<in> {PrevoteType, PrecommitType} \<Longrightarrow> u \<in> {PrevoteType, PrecommitType} \<Longrightarrow> type_step t = type_step u \<Longrightarrow> t = u"
  "t \<in> {PrevoteType, PrecommitType} \<Longrightarrow> type_step t \<noteq> stepPropose"
  by (auto simp: type_step_def)

lemma VoteSignBytes_unit:
  assumes "bid_ok (v_BlockID v)" "VoteSignBytes env c v = (Return b :: ('e, _) outcome)"
  shows "VoteSignBytes env c v = (Return b :: ('f, _) outcome)"
  using assms(2) unfolding VoteSignBytes_canonical [OF bid_ok_validate [OF assms(1)]] by (auto split: option.splits)

lemma ProposalSignBytes_unit:
  assumes "bid_ok (p_BlockID p)" "ProposalSignBytes env c p = (Return b :: ('e, _) outcome)"
  shows "ProposalSignBytes env c p = (Return b :: ('f, _) outcome)"
  using assms(2) unfolding ProposalSignBytes_canonical [OF bid_ok_validate [OF assms(1)]] by (auto split: option.splits)

lemma vote_timestamp_reuse:
  assumes tc: "codec_ok tc" "length c \<le> 50" and v0: "in_range (SVote v0)" "bytes_of tc c (SVote v0) = Return b0"
    and v: "vote_range v" "VoteSignBytes (sign_env tc) c v = (Return b :: ('e, _) outcome)"
    and check: "checkVotesOnlyDifferByTimestamp tc now b0 b = (Return (ts, True) :: ('e, _) outcome)"
  shows "VoteSignBytes (sign_env tc) c (v\<lparr>v_Timestamp := ts\<rparr>) = (Return b0 :: ('f, _) outcome)"
proof -
  let ?w = "v\<lparr>v_Timestamp := ts\<rparr>"
  have r0: "UnmarshalDelimited (cvote_Unmarshal tc) b0 = Return (pb_vote (canonical_vote c v0))"
    using v0 tc vote_sign_bytes_read [of tc v0 c] by (auto simp: vote_range_def sign_env_def)
  have r: "UnmarshalDelimited (cvote_Unmarshal tc) b = Return (pb_vote (canonical_vote c v))"
    using v tc vote_sign_bytes_read [of tc v c _ _ b] by (auto simp: vote_range_def sign_env_def)
  have ts: "ts = v_Timestamp v0"
    and eq: "(pb_vote (canonical_vote c v))\<lparr>pcv_Timestamp := now\<rparr> = (pb_vote (canonical_vote c v0))\<lparr>pcv_Timestamp := now\<rparr>"
    using check unfolding checkVotesOnlyDifferByTimestamp_def r0 r by (simp_all add: pb_vote_def canonical_vote_def)
  have "pb_vote (canonical_vote c ?w) = pb_vote (canonical_vote c v0)"
    using eq ts by (auto simp: pb_vote_def canonical_vote_def split: if_splits)
  moreover have "bid_ValidateBasic (v_BlockID ?w)" "bid_ValidateBasic (v_BlockID v0)"
    using v(1) v0(1) bid_ok_validate by (auto simp: vote_range_def)
  ultimately show ?thesis
    using v0(2) by (auto simp: VoteSignBytes_canonical sign_env_def canonical_env_def split: option.splits)
qed

lemma proposal_timestamp_reuse:
  assumes tc: "codec_ok tc" "length c \<le> 50" and p0: "in_range (SProposal p0)" "bytes_of tc c (SProposal p0) = Return b0"
    and p: "proposal_range p" "ProposalSignBytes (sign_env tc) c p = (Return b :: ('e, _) outcome)"
    and check: "checkProposalsOnlyDifferByTimestamp tc now b0 b = (Return (ts, True) :: ('e, _) outcome)"
  shows "ProposalSignBytes (sign_env tc) c (p\<lparr>p_Timestamp := ts\<rparr>) = (Return b0 :: ('f, _) outcome)"
proof -
  let ?w = "p\<lparr>p_Timestamp := ts\<rparr>"
  have r0: "UnmarshalDelimited (cprop_Unmarshal tc) b0 = Return (pb_proposal (canonical_proposal c p0))"
    using p0 tc proposal_sign_bytes_read [of tc p0 c] by (auto simp: proposal_range_def sign_env_def)
  have r: "UnmarshalDelimited (cprop_Unmarshal tc) b = Return (pb_proposal (canonical_proposal c p))"
    using p tc proposal_sign_bytes_read [of tc p c _ _ b] by (auto simp: proposal_range_def sign_env_def)
  have ts: "ts = p_Timestamp p0"
    and eq: "(pb_proposal (canonical_proposal c p))\<lparr>pcp_Timestamp := now\<rparr> = (pb_proposal (canonical_proposal c p0))\<lparr>pcp_Timestamp := now\<rparr>"
    using check unfolding checkProposalsOnlyDifferByTimestamp_def r0 r by (simp_all add: pb_proposal_def canonical_proposal_def)
  have "pb_proposal (canonical_proposal c ?w) = pb_proposal (canonical_proposal c p0)"
    using eq ts by (auto simp: pb_proposal_def canonical_proposal_def split: if_splits)
  moreover have "bid_ValidateBasic (p_BlockID ?w)" "bid_ValidateBasic (p_BlockID p0)"
    using p(1) p0(1) bid_ok_validate by (auto simp: proposal_range_def)
  ultimately show ?thesis
    using p0(2) by (auto simp: ProposalSignBytes_canonical sign_env_def canonical_env_def split: option.splits)
qed

lemma signVote_step:
  assumes tc: "codec_ok tc" "length c \<le> 50" and last: "last_ok tc c (pv_LastSignState pv)" and v: "vote_range v"
    and run: "signVote tc sign now c pv v = Return (pv', v')"
  shows "sign_step tc c pv (SVote v') pv'"
proof -
  let ?lss = "pv_LastSignState pv"
  obtain stp same b where r: "voteToStep v = (Return stp :: (pv_error, _) outcome)"
    "CheckHRS ?lss (v_Height v) (v_Round v) stp = Return same"
    "VoteSignBytes (sign_env tc) c v = (Return b :: (pv_error, _) outcome)"
    using run by (auto simp: signVote_def Let_def bind_o_Return_iff)
  have ty: "v_Type v \<in> {PrevoteType, PrecommitType}" "stp = type_step (v_Type v)"
    using r(1) by (auto simp: voteToStep_def type_step_def split: SignedMsgType.splits)
  have bok: "bid_ok (v_BlockID v)" using v by (simp add: vote_range_def)
  show ?thesis
  proof (cases same)
    case False
    then obtain sg where "sign b = Some sg" "pv' = saveSigned pv (v_Height v) (v_Round v) stp b sg" "v' = v\<lparr>v_Signature := sg\<rparr>"
      using run r by (auto simp: signVote_def Let_def split: option.splits)
    moreover have "VoteSignBytes (sign_env tc) c (v\<lparr>v_Signature := sg\<rparr>) = (Return b :: (unit, _) outcome)" for sg
      by (subst VoteSignBytes_cong [of _ v]) (simp_all add: VoteSignBytes_unit [OF bok r(3)])
    ultimately show ?thesis using CheckHRS_False r(2) False v ty by (auto simp: sign_step_def vote_range_def)
  next
    case True
    have chk: "lss_hrs ?lss = (v_Height v, v_Round v, stp)" "lss_SignBytes ?lss \<noteq> None" "lss_Signature ?lss \<noteq> None"
      using CheckHRS_True r(2) True by auto
    then obtain b0 sg where b0: "lss_SignBytes ?lss = Some b0" "lss_Signature ?lss = Some sg" by auto
    then obtain m where m: "in_range m" "hrs m = lss_hrs ?lss" "bytes_of tc c m = Return b0"
      using last by (auto simp: last_ok_def)
    have "\<exists>v0. m = SVote v0" using m(1,2) chk(1) ty steps_of_types(2) by (cases m) auto
    then obtain v0 where v0: "in_range (SVote v0)" "bytes_of tc c (SVote v0) = Return b0" using m by blast
    obtain ts where ts: "pv' = pv" "v' = v\<lparr>v_Timestamp := ts, v_Signature := sg\<rparr>"
      "VoteSignBytes (sign_env tc) c (v\<lparr>v_Timestamp := ts\<rparr>) = (Return b0 :: (unit, _) outcome)"
    proof (cases "b = b0")
      case eq: True
      have "pv' = pv" "v' = v\<lparr>v_Timestamp := v_Timestamp v, v_Signature := sg\<rparr>"
        using run r True b0 eq by (auto simp: signVote_def Let_def)
      moreover have "VoteSignBytes (sign_env tc) c (v\<lparr>v_Timestamp := v_Timestamp v\<rparr>) = (Return b0 :: (unit, _) outcome)"
        using eq by (simp add: VoteSignBytes_unit [OF bok r(3)])
      ultimately show thesis by (rule that)
    next
      case ne: False
      then obtain ts where check: "checkVotesOnlyDifferByTimestamp tc now b0 b = (Return (ts, True) :: (pv_error, _) outcome)"
        and "pv' = pv" "v' = v\<lparr>v_Timestamp := ts, v_Signature := sg\<rparr>"
        using run r True b0 by (auto simp: signVote_def Let_def bind_o_Return_iff split: if_splits)
      then show thesis using that vote_timestamp_reuse [OF tc v0 v r(3) check] by blast
    qed
    have "VoteSignBytes (sign_env tc) c v' = (Return b0 :: (unit, _) outcome)"
      by (subst VoteSignBytes_cong [of v' "v\<lparr>v_Timestamp := ts\<rparr>"]) (simp_all add: ts(2,3))
    then show ?thesis using ts b0 chk v ty by (auto simp: sign_step_def vote_range_def)
  qed
qed

lemma ProposalSignBytes_cong:
  assumes "p_Height p = p_Height q" "p_Round p = p_Round q" "p_POLRound p = p_POLRound q"
    "p_BlockID p = p_BlockID q" "p_Timestamp p = p_Timestamp q"
  shows "ProposalSignBytes env chainID p = ProposalSignBytes env chainID q"
  using assms by (simp add: ProposalSignBytes_def CanonicalizeProposal_def)

lemma signProposal_step:
  assumes tc: "codec_ok tc" "length c \<le> 50" and last: "last_ok tc c (pv_LastSignState pv)" and p: "proposal_range p"
    and run: "signProposal tc sign now c pv p = Return (pv', p')"
  shows "sign_step tc c pv (SProposal p') pv'"
proof -
  let ?lss = "pv_LastSignState pv"
  obtain same b where r: "CheckHRS ?lss (p_Height p) (p_Round p) stepPropose = Return same"
    "ProposalSignBytes (sign_env tc) c p = (Return b :: (pv_error, _) outcome)"
    using run by (auto simp: signProposal_def Let_def bind_o_Return_iff)
  have bok: "bid_ok (p_BlockID p)" using p by (simp add: proposal_range_def)
  show ?thesis
  proof (cases same)
    case False
    then obtain sg where "sign b = Some sg" "pv' = saveSigned pv (p_Height p) (p_Round p) stepPropose b sg" "p' = p\<lparr>p_Signature := sg\<rparr>"
      using run r by (auto simp: signProposal_def Let_def split: option.splits)
    moreover have "ProposalSignBytes (sign_env tc) c (p\<lparr>p_Signature := sg\<rparr>) = (Return b :: (unit, _) outcome)" for sg
      by (subst ProposalSignBytes_cong [of _ p]) (simp_all add: ProposalSignBytes_unit [OF bok r(2)])
    ultimately show ?thesis using CheckHRS_False r(1) False p by (auto simp: sign_step_def proposal_range_def)
  next
    case True
    have chk: "lss_hrs ?lss = (p_Height p, p_Round p, stepPropose)" "lss_SignBytes ?lss \<noteq> None" "lss_Signature ?lss \<noteq> None"
      using CheckHRS_True r(1) True by auto
    then obtain b0 sg where b0: "lss_SignBytes ?lss = Some b0" "lss_Signature ?lss = Some sg" by auto
    then obtain m where m: "in_range m" "hrs m = lss_hrs ?lss" "bytes_of tc c m = Return b0"
      using last by (auto simp: last_ok_def)
    have "\<exists>p0. m = SProposal p0" using m(1,2) chk(1) steps_of_types(2) by (cases m) auto
    then obtain p0 where p0: "in_range (SProposal p0)" "bytes_of tc c (SProposal p0) = Return b0" using m by blast
    obtain ts where ts: "pv' = pv" "p' = p\<lparr>p_Timestamp := ts, p_Signature := sg\<rparr>"
      "ProposalSignBytes (sign_env tc) c (p\<lparr>p_Timestamp := ts\<rparr>) = (Return b0 :: (unit, _) outcome)"
    proof (cases "b = b0")
      case eq: True
      have "pv' = pv" "p' = p\<lparr>p_Timestamp := p_Timestamp p, p_Signature := sg\<rparr>"
        using run r True b0 eq by (auto simp: signProposal_def Let_def)
      moreover have "ProposalSignBytes (sign_env tc) c (p\<lparr>p_Timestamp := p_Timestamp p\<rparr>) = (Return b0 :: (unit, _) outcome)"
        using eq by (simp add: ProposalSignBytes_unit [OF bok r(2)])
      ultimately show thesis by (rule that)
    next
      case ne: False
      then obtain ts where check: "checkProposalsOnlyDifferByTimestamp tc now b0 b = (Return (ts, True) :: (pv_error, _) outcome)"
        and "pv' = pv" "p' = p\<lparr>p_Timestamp := ts, p_Signature := sg\<rparr>"
        using run r True b0 by (auto simp: signProposal_def Let_def bind_o_Return_iff split: if_splits)
      then show thesis using that proposal_timestamp_reuse [OF tc p0 p r(2) check] by blast
    qed
    have "ProposalSignBytes (sign_env tc) c p' = (Return b0 :: (unit, _) outcome)"
      by (subst ProposalSignBytes_cong [of p' "p\<lparr>p_Timestamp := ts\<rparr>"]) (simp_all add: ts(2,3))
    then show ?thesis using ts b0 chk p by (auto simp: sign_step_def proposal_range_def)
  qed
qed

section \<open>The invariant of runs\<close>

definition released_ok :: "time_codec \<Rightarrow> string \<Rightarrow> LastSignState \<Rightarrow> signed \<Rightarrow> bool" where
  \<comment> \<open>a released message is no later than the state, and is the one the state records when it is as late\<close>
  "released_ok tc chainID lss m \<longleftrightarrow>
     in_range m \<and> hrs m \<le> lss_hrs lss \<and> (\<exists>b. bytes_of tc chainID m = Return b)
     \<and> (hrs m = lss_hrs lss \<longrightarrow>
          lss_Signature lss = Some (sig_of m) \<and> (\<exists>b. lss_SignBytes lss = Some b \<and> bytes_of tc chainID m = Return b))"

definition agree :: "time_codec \<Rightarrow> string \<Rightarrow> signed \<Rightarrow> signed \<Rightarrow> bool" where
  "agree tc chainID m n \<longleftrightarrow>
     (hrs m = hrs n \<longrightarrow> bytes_of tc chainID m = bytes_of tc chainID n \<and> sig_of m = sig_of n)"

definition pv_inv :: "time_codec \<Rightarrow> string \<Rightarrow> FilePV \<Rightarrow> signed list \<Rightarrow> bool" where
  "pv_inv tc chainID pv out \<longleftrightarrow>
     pv_disk pv = pv_LastSignState pv \<and> last_ok tc chainID (pv_LastSignState pv)
     \<and> (if lss_SignBytes (pv_LastSignState pv) = None then lss_Step (pv_LastSignState pv) = stepNone
         else lss_Signature (pv_LastSignState pv) \<noteq> None)
     \<and> (\<forall>m \<in> set out. released_ok tc chainID (pv_LastSignState pv) m)
     \<and> sorted_wrt (\<lambda>m n. hrs n \<le> hrs m \<and> agree tc chainID m n) out"

lemma agree_refl [simp]: "agree tc c m m" and agree_sym: "agree tc c m n \<Longrightarrow> agree tc c n m"
  by (auto simp: agree_def)

lemma pv_inv_agree:
  assumes "pv_inv tc c pv out" "m \<in> set out" "n \<in> set out"
  shows "agree tc c m n"
proof -
  have "\<forall>m \<in> set out. \<forall>n \<in> set out. agree tc c m n" if "sorted_wrt (\<lambda>m n. hrs n \<le> hrs m \<and> agree tc c m n) out"
    using that by (induction out) (auto intro: agree_sym)
  then show ?thesis using assms by (auto simp: pv_inv_def)
qed

lemma released_again:
  assumes "released_ok tc c lss n" "hrs m = lss_hrs lss" "lss_SignBytes lss \<noteq> None"
    "bytes_of tc c m = Return (the (lss_SignBytes lss))" "lss_Signature lss = Some (sig_of m)"
  shows "hrs n \<le> hrs m \<and> agree tc c m n"
  using assms by (auto simp: released_ok_def agree_def)

lemma released_later:
  assumes "released_ok tc c lss n" "lss_hrs lss < hrs m"
  shows "hrs n < hrs m \<and> agree tc c m n"
  using assms by (auto simp: released_ok_def agree_def dest: order.strict_trans1)

lemma sign_step_inv:
  assumes inv: "pv_inv tc c pv out" and step: "sign_step tc c pv m pv'"
  shows "pv_inv tc c pv' (m # out)" "pv_inv tc c pv' out"
proof -
  let ?lss = "pv_LastSignState pv" and ?lss' = "pv_LastSignState pv'"
  have "pv_disk pv' = ?lss' \<and> last_ok tc c ?lss'
      \<and> (if lss_SignBytes ?lss' = None then lss_Step ?lss' = stepNone else lss_Signature ?lss' \<noteq> None)
      \<and> released_ok tc c ?lss' m
      \<and> (\<forall>n \<in> set out. released_ok tc c ?lss' n \<and> hrs n \<le> hrs m \<and> agree tc c m n)"
  proof (cases "lss_hrs ?lss < hrs m")
    case False
    then have s: "in_range m" "pv' = pv" "hrs m = lss_hrs ?lss" "lss_SignBytes ?lss \<noteq> None"
      "bytes_of tc c m = Return (the (lss_SignBytes ?lss))" "lss_Signature ?lss = Some (sig_of m)"
      using step unfolding sign_step_def Let_def by blast+
    have "released_ok tc c ?lss m" using s by (auto simp: released_ok_def)
    then show ?thesis using inv released_again [OF _ s(3-6)] by (simp add: pv_inv_def s(2))
  next
    case True
    then obtain b h r st where s: "in_range m" "bytes_of tc c m = Return b" "hrs m = (h, r, st)"
      "pv' = saveSigned pv h r st b (sig_of m)"
      using step unfolding sign_step_def Let_def by auto
    have lss': "lss_hrs ?lss' = hrs m" "lss_SignBytes ?lss' = Some b" "lss_Signature ?lss' = Some (sig_of m)"
      "pv_disk pv' = ?lss'"
      by (simp_all add: s(3,4) saveSigned_def Let_def lss_hrs_def)
    have older: "released_ok tc c ?lss' n \<and> hrs n \<le> hrs m \<and> agree tc c m n" if "n \<in> set out" for n
    proof -
      have r: "released_ok tc c ?lss n" using inv that by (simp add: pv_inv_def)
      have l: "hrs n < hrs m \<and> agree tc c m n" by (rule released_later [OF r True])
      then have lt: "hrs n \<le> hrs m" "hrs n \<noteq> hrs m" by auto
      then have "released_ok tc c ?lss' n" using r by (simp add: released_ok_def lss'(1))
      then show ?thesis using l lt by simp
    qed
    have "last_ok tc c ?lss'" using s lss' by (auto simp: last_ok_def)
    moreover have "released_ok tc c ?lss' m" using s lss' by (simp add: released_ok_def)
    ultimately show ?thesis using lss'(2-4) older by simp
  qed
  then show "pv_inv tc c pv' (m # out)" "pv_inv tc c pv' out" using inv by (simp_all add: pv_inv_def)
qed

lemma pv_run_inv:
  assumes tc: "codec_ok tc" "length c \<le> 50" and run: "pv_run tc sign c pv out"
  shows "pv_inv tc c pv out"
  using run
proof (induction rule: pv_run.induct)
  case start
  then show ?case by (simp add: pv_inv_def NewFilePV_def empty_lss_def Let_def last_ok_def)
next
  case (vote pv out v now pv' v')
  have "last_ok tc c (pv_LastSignState pv)" using vote.IH by (simp add: pv_inv_def Let_def)
  from sign_step_inv(1) [OF vote.IH signVote_step [OF tc this vote.hyps(2,3)]] show ?case .
next
  case (proposal pv out p now pv' p')
  have "last_ok tc c (pv_LastSignState pv)" using proposal.IH by (simp add: pv_inv_def Let_def)
  from sign_step_inv(1) [OF proposal.IH signProposal_step [OF tc this proposal.hyps(2,3)]] show ?case .
next
  case (lost_vote pv out v now pv' v')
  have "last_ok tc c (pv_LastSignState pv)" using lost_vote.IH by (simp add: pv_inv_def Let_def)
  from sign_step_inv(2) [OF lost_vote.IH signVote_step [OF tc this lost_vote.hyps(2,3)]] show ?case .
next
  case (lost_proposal pv out p now pv' p')
  have "last_ok tc c (pv_LastSignState pv)" using lost_proposal.IH by (simp add: pv_inv_def Let_def)
  from sign_step_inv(2) [OF lost_proposal.IH signProposal_step [OF tc this lost_proposal.hyps(2,3)]] show ?case .
next
  case (restart pv out)
  then show ?case by (simp add: pv_inv_def loadFilePV_def Let_def)
qed

lemma proposal_sign_bytes_inj:
  assumes tc: "codec_ok tc" "length c \<le> 50" and p: "proposal_range p" and q: "proposal_range q"
    and same: "ProposalSignBytes (sign_env tc) c p = (Return b :: ('e, _) outcome)"
      "ProposalSignBytes (sign_env tc) c q = (Return b :: ('e, _) outcome)"
  shows "p_BlockID p = p_BlockID q \<and> p_POLRound p = p_POLRound q"
proof -
  have rd: "UnmarshalDelimited (cprop_Unmarshal tc) b = Return (pb_proposal (canonical_proposal c r))"
    if "proposal_range r" "ProposalSignBytes (sign_env tc) c r = (Return b :: ('e, _) outcome)" for r
  proof -
    have r: "is_i64 (p_Height r)" "is_i32 (p_Round r)" "is_i32 (p_POLRound r)" "bid_ok (p_BlockID r)"
      using that(1) by (simp_all add: proposal_range_def)
    show ?thesis by (rule proposal_sign_bytes_read [OF tc(1) r tc(2) that(2) [unfolded sign_env_def]])
  qed
  have "Return (pb_proposal (canonical_proposal c p)) = (Return (pb_proposal (canonical_proposal c q)) :: (wire_error, _) outcome)"
    using rd [OF p same(1)] rd [OF q same(2)] by (rule subst)
  then have eq: "pb_proposal (canonical_proposal c p) = pb_proposal (canonical_proposal c q)" by simp
  then have "(if bid_IsZero (p_BlockID p) then None else Some (p_BlockID p)) =
      (if bid_IsZero (p_BlockID q) then None else Some (p_BlockID q))"
    unfolding pb_proposal_def canonical_proposal_def by (simp only: pb_CanonicalProposal.ext_inject CanonicalProposal.simps)
  from canonical_block_id [OF this] eq show ?thesis by (simp add: pb_proposal_def canonical_proposal_def)
qed

section \<open>What a request to sign returns\<close>

lemma same_slot:
  assumes tc: "codec_ok tc" "length c \<le> 50"
    and w: "vote_range w" "VoteSignBytes (sign_env tc) c w = (Return b0 :: ('e, _) outcome)"
    and v: "vote_range v" "VoteSignBytes (sign_env tc) c v = (Return b :: ('e, _) outcome)"
    and slot: "v_Type v = v_Type w" "v_Height v = v_Height w" "v_Round v = v_Round w"
  shows "b = b0 \<Longrightarrow> v_BlockID v = v_BlockID w \<and> v_Timestamp v = v_Timestamp w"
    and "checkVotesOnlyDifferByTimestamp tc now b0 b
      = (Return (v_Timestamp w, v_BlockID v = v_BlockID w) :: ('f, _) outcome)"
proof -
  have rg: "is_i64 (v_Height u)" "is_i32 (v_Round u)" "bid_ok (v_BlockID u)" if "vote_range u" for u
    using that by (simp_all add: vote_range_def)
  show "v_BlockID v = v_BlockID w \<and> v_Timestamp v = v_Timestamp w" if "b = b0"
    using vote_sign_bytes_inj [OF tc(1) rg [OF v(1)] tc(2) rg [OF w(1)] tc(2) v(2) [unfolded sign_env_def]
        w(2) [unfolded sign_env_def that [symmetric]]] by simp
  have read: "UnmarshalDelimited (cvote_Unmarshal tc) b0 = Return (pb_vote (canonical_vote c w))"
    "UnmarshalDelimited (cvote_Unmarshal tc) b = Return (pb_vote (canonical_vote c v))"
    by (rule vote_sign_bytes_read [OF tc(1) rg [OF w(1)] tc(2) w(2) [unfolded sign_env_def]],
        rule vote_sign_bytes_read [OF tc(1) rg [OF v(1)] tc(2) v(2) [unfolded sign_env_def]])
  have "((pb_vote (canonical_vote c v))\<lparr>pcv_Timestamp := now\<rparr> = (pb_vote (canonical_vote c w))\<lparr>pcv_Timestamp := now\<rparr>)
      \<longleftrightarrow> (if bid_IsZero (v_BlockID v) then None else Some (v_BlockID v))
        = (if bid_IsZero (v_BlockID w) then None else Some (v_BlockID w))"
    by (simp add: pb_vote_def canonical_vote_def slot)
  also have "\<dots> \<longleftrightarrow> v_BlockID v = v_BlockID w" using canonical_block_id by metis
  finally show "checkVotesOnlyDifferByTimestamp tc now b0 b
      = (Return (v_Timestamp w, v_BlockID v = v_BlockID w) :: ('f, _) outcome)"
    unfolding checkVotesOnlyDifferByTimestamp_def read by (simp add: pb_vote_def canonical_vote_def)
qed

lemma CheckHRS_cases:
  "lss_hrs lss < (h, r, s) \<Longrightarrow> CheckHRS lss h r s = Return False"
  "(h, r, s) < lss_hrs lss \<Longrightarrow> CheckHRS lss h r s \<in> {Error HeightRegression, Error RoundRegression, Error StepRegression}"
  "lss_hrs lss = (h, r, s) \<Longrightarrow> lss_SignBytes lss \<noteq> None \<Longrightarrow> lss_Signature lss \<noteq> None \<Longrightarrow> CheckHRS lss h r s = Return True"
  by (auto simp: CheckHRS_def lss_hrs_def less_prod_def)

lemma voteToStep_type:
  "v_Type v \<in> {PrevoteType, PrecommitType} \<Longrightarrow> voteToStep v = (Return (type_step (v_Type v)) :: ('e, _) outcome)"
  by (auto simp: voteToStep_def type_step_def)

lemma signVote_later:
  assumes v: "v_Type v \<in> {PrevoteType, PrecommitType}" "VoteSignBytes (sign_env tc) c v = (Return b :: (pv_error, _) outcome)"
    and later: "lss_hrs (pv_LastSignState pv) < hrs (SVote v)" and sg: "sign b = Some sg"
  shows "signVote tc sign now c pv v
    = Return (saveSigned pv (v_Height v) (v_Round v) (type_step (v_Type v)) b sg, v\<lparr>v_Signature := sg\<rparr>)"
  using CheckHRS_cases(1) [OF later [unfolded hrs.simps]] by (simp add: signVote_def voteToStep_type [OF v(1)] v(2) sg Let_def)

lemma signVote_earlier:
  assumes v: "v_Type v \<in> {PrevoteType, PrecommitType}" and earlier: "hrs (SVote v) < lss_hrs (pv_LastSignState pv)"
  shows "signVote tc sign now c pv v \<in> {Error HeightRegression, Error RoundRegression, Error StepRegression}"
  using CheckHRS_cases(2) [OF earlier [unfolded hrs.simps]] by (auto simp: signVote_def voteToStep_type [OF v] Let_def)

lemma signVote_again:
  assumes tc: "codec_ok tc" "length c \<le> 50" and inv: "pv_inv tc c pv out"
    and v: "vote_range v" "v_Type v \<in> {PrevoteType, PrecommitType}"
      "VoteSignBytes (sign_env tc) c v = (Return b :: (pv_error, _) outcome)"
    and same: "hrs (SVote v) = lss_hrs (pv_LastSignState pv)"
  obtains w where "in_range (SVote w)" "hrs (SVote w) = hrs (SVote v)"
    "bytes_of tc c (SVote w) = Return (the (lss_SignBytes (pv_LastSignState pv)))"
    "signVote tc sign now c pv v =
      (if v_BlockID v = v_BlockID w
       then Return (pv, v\<lparr>v_Timestamp := v_Timestamp w, v_Signature := the (lss_Signature (pv_LastSignState pv))\<rparr>)
       else Error ConflictingData)"
proof -
  let ?lss = "pv_LastSignState pv"
  have "lss_Step ?lss \<noteq> stepNone" using same v(2) by (auto simp: lss_hrs_def type_step_def)
  then obtain b0 where b0: "lss_SignBytes ?lss = Some b0" "lss_Signature ?lss \<noteq> None"
    using inv by (auto simp: pv_inv_def split: if_splits)
  then obtain m where m: "in_range m" "hrs m = hrs (SVote v)" "bytes_of tc c m = Return b0"
    using inv same by (auto simp: pv_inv_def last_ok_def)
  then obtain w where mw: "m = SVote w" using v(2) steps_of_types(2) by (cases m) auto
  have ty: "v_Type w \<in> {PrevoteType, PrecommitType}" "type_step (v_Type v) = type_step (v_Type w)"
    using m(1,2) unfolding mw in_range.simps hrs.simps by (blast, simp)
  have w: "vote_range w" "v_Type v = v_Type w" "v_Height v = v_Height w" "v_Round v = v_Round w"
    using m(1,2) steps_of_types(1) [OF v(2) ty] unfolding mw by simp_all
  have wok: "bid_ok (v_BlockID w)" using w(1) by (simp add: vote_range_def)
  have wb: "VoteSignBytes (sign_env tc) c w = (Return b0 :: (pv_error, _) outcome)"
    by (rule VoteSignBytes_unit [OF wok m(3) [unfolded mw bytes_of.simps]])
  note slot = same_slot [OF tc w(1) wb v(1,3) w(2-4)]
  have chk: "CheckHRS ?lss (v_Height v) (v_Round v) (type_step (v_Type v)) = Return True"
    using CheckHRS_cases(3) same b0 by simp
  have "signVote tc sign now c pv v =
      (if v_BlockID v = v_BlockID w
       then Return (pv, v\<lparr>v_Timestamp := v_Timestamp w, v_Signature := the (lss_Signature ?lss)\<rparr>)
       else Error ConflictingData)"
  proof (cases "b = b0")
    case True
    then have "signVote tc sign now c pv v = Return (pv, v\<lparr>v_Signature := the (lss_Signature ?lss)\<rparr>)"
      by (simp add: signVote_def voteToStep_type [OF v(2)] v(3) Let_def chk b0)
    moreover have "v\<lparr>v_Signature := s\<rparr> = v\<lparr>v_Timestamp := v_Timestamp v, v_Signature := s\<rparr>" for s by simp
    ultimately show ?thesis using slot(1) [OF True] by (metis (no_types))
  next
    case False
    then show ?thesis
      by (simp add: signVote_def voteToStep_type [OF v(2)] v(3) Let_def chk b0 slot(2))
  qed
  then show thesis using that m mw b0 by auto
qed

lemma VoteSignBytes_encodable:
  assumes "vote_range v" "time_enc tc (v_Timestamp v) \<noteq> None"
  obtains b where "VoteSignBytes (sign_env tc) c v = (Return b :: ('e, _) outcome)"
proof -
  have "bid_ValidateBasic (v_BlockID v)" using assms(1) bid_ok_validate by (simp add: vote_range_def)
  moreover have "marshal_vote (sign_env tc) (canonical_vote c v) \<noteq> None"
    using assms(2) by (auto simp: sign_env_def canonical_env_def cvote_Marshal_def pb_vote_def canonical_vote_def)
  ultimately show thesis using that by (auto simp: VoteSignBytes_canonical)
qed

lemma signVote_fields:
  assumes "signVote tc sign now c pv v = Return (pv', v')"
  shows "v' = v\<lparr>v_Timestamp := v_Timestamp v', v_Signature := v_Signature v'\<rparr>" "v_Type v \<in> {PrevoteType, PrecommitType}"
  using assms
  by (auto simp: signVote_def Let_def bind_o_Return_iff voteToStep_def split: if_splits option.splits SignedMsgType.splits)

lemma signVote_last:
  assumes tc: "codec_ok tc" "length c \<le> 50" and inv: "pv_inv tc c pv out" and v: "vote_range v"
    and sign: "signVote tc sign now c pv v = Return (pv', v')"
  shows "pv_inv tc c pv' (SVote v' # out)" "hrs (SVote v') = lss_hrs (pv_LastSignState pv')"
proof -
  have "last_ok tc c (pv_LastSignState pv)" using inv by (simp add: pv_inv_def)
  note st = signVote_step [OF tc this v sign]
  show "pv_inv tc c pv' (SVote v' # out)" by (rule sign_step_inv(1) [OF inv st])
  show "hrs (SVote v') = lss_hrs (pv_LastSignState pv')"
    using st unfolding sign_step_def by (auto simp: Let_def saveSigned_def lss_hrs_def)
qed

lemma sign_again:
  assumes tc: "codec_ok tc" "length c \<le> 50" and inv: "pv_inv tc c pv out" and v: "vote_range v"
    and sign: "signVote tc sign now c pv v = Return (pv', v')" and t: "time_enc tc t \<noteq> None"
  shows "signVote tc sign' now' c (loadFilePV True pv') (v\<lparr>v_Timestamp := t\<rparr>) = Return (pv', v')"
proof -
  let ?u = "v\<lparr>v_Timestamp := t\<rparr>" and ?lss = "pv_LastSignState pv'"
  note last = signVote_last [OF tc inv v sign] and fields = signVote_fields [OF sign]
  have load: "loadFilePV True pv' = pv'" using last(1) by (simp add: pv_inv_def loadFilePV_def)
  have u: "vote_range ?u" "v_Type ?u \<in> {PrevoteType, PrecommitType}" "time_enc tc (v_Timestamp ?u) \<noteq> None"
    using v fields(2) t by (auto simp: vote_range_def)
  have fl: "v_Type v' = v_Type v" "v_Height v' = v_Height v" "v_Round v' = v_Round v" "v_BlockID v' = v_BlockID v"
    by (subst fields(1), simp)+
  then have same: "hrs (SVote ?u) = lss_hrs ?lss" using last(2) by simp
  obtain b where b: "VoteSignBytes (sign_env tc) c ?u = (Return b :: (pv_error, _) outcome)"
    by (rule VoteSignBytes_encodable [OF u(1,3)])
  obtain w where w: "in_range (SVote w)" "hrs (SVote w) = hrs (SVote ?u)" "bytes_of tc c (SVote w) = Return (the (lss_SignBytes ?lss))"
    and run: "signVote tc sign' now' c pv' ?u =
      (if v_BlockID ?u = v_BlockID w then Return (pv', ?u\<lparr>v_Timestamp := v_Timestamp w, v_Signature := the (lss_Signature ?lss)\<rparr>)
       else Error ConflictingData)"
    by (rule signVote_again [OF tc last(1) u(1,2) b same])
  have rel: "released_ok tc c ?lss (SVote v')" using last(1) by (simp add: pv_inv_def)
  then obtain b' where b': "lss_SignBytes ?lss = Some b'" "bytes_of tc c (SVote v') = Return b'" "lss_Signature ?lss = Some (v_Signature v')"
    and v'r: "vote_range v'" using last(2) by (auto simp: released_ok_def)
  have ty: "v_Type v' = v_Type w" "v_Height v' = v_Height w" "v_Round v' = v_Round w"
    using w(1,2) fl fields(2) steps_of_types(1) [of "v_Type v" "v_Type w"] by auto
  have wr: "vote_range w" "bytes_of tc c (SVote w) = Return b'" using w(1,3) b'(1) by simp_all
  have "v_BlockID v' = v_BlockID w \<and> v_Timestamp v' = v_Timestamp w"
    by (rule same_slot(1) [OF tc wr [unfolded bytes_of.simps] v'r b'(2) [unfolded bytes_of.simps] ty refl])
  then have "signVote tc sign' now' c pv' ?u = Return (pv', ?u\<lparr>v_Timestamp := v_Timestamp v', v_Signature := v_Signature v'\<rparr>)"
    unfolding run using fl(4) b'(3) by simp
  moreover have "?u\<lparr>v_Timestamp := v_Timestamp v', v_Signature := v_Signature v'\<rparr> = v'" by (subst (3) fields(1)) simp
  ultimately show ?thesis by (simp add: load)
qed

section \<open>Properties\<close>

text \<open>
  C21: no double signing.  Whatever votes and proposals with a nil or complete block id a validator is
  asked to sign, in any order, across restarts and crashes that lose a signature after it was saved, the votes it hands out for one height, round and
  type agree in block id, timestamp and signature, and the proposals it hands out for one height and
  round agree in block id, POL round and signature; nothing is claimed of the timestamps of proposals.
\<close>

theorem no_double_signing:
  assumes tc: "codec_ok tc" "length c \<le> 50" and run: "pv_run tc sign c pv out"
  shows "(\<forall>v w. SVote v \<in> set out \<and> SVote w \<in> set out \<and> v_Type v = v_Type w \<and> v_Height v = v_Height w \<and> v_Round v = v_Round w
      \<longrightarrow> v_BlockID v = v_BlockID w \<and> v_Timestamp v = v_Timestamp w \<and> v_Signature v = v_Signature w)
    \<and> (\<forall>p q. SProposal p \<in> set out \<and> SProposal q \<in> set out \<and> p_Height p = p_Height q \<and> p_Round p = p_Round q
      \<longrightarrow> p_BlockID p = p_BlockID q \<and> p_POLRound p = p_POLRound q \<and> p_Signature p = p_Signature q)"
proof (intro conjI allI impI; elim conjE)
  note inv = pv_run_inv [OF tc run]
  fix v w assume m: "SVote v \<in> set out" "SVote w \<in> set out" "v_Type v = v_Type w" "v_Height v = v_Height w" "v_Round v = v_Round w"
  have e: "bytes_of tc c (SVote v) = bytes_of tc c (SVote w)" "v_Signature v = v_Signature w"
    using pv_inv_agree [OF inv m(1,2)] m(3-5) by (simp_all add: agree_def)
  have ok: "released_ok tc c (pv_LastSignState pv) (SVote v)" "released_ok tc c (pv_LastSignState pv) (SVote w)"
    using inv m(1,2) by (simp_all add: pv_inv_def)
  then obtain b where b: "bytes_of tc c (SVote v) = Return b" by (auto simp: released_ok_def)
  have r: "vote_range v" "vote_range w" using ok by (simp_all add: released_ok_def)
  have "v_BlockID v = v_BlockID w \<and> v_Timestamp v = v_Timestamp w"
    using vote_sign_bytes_inj [OF tc(1) _ _ _ tc(2) _ _ _ tc(2), of v w _ _ b, where 'e = unit] r b e(1)
    by (simp add: vote_range_def sign_env_def)
  then show "v_BlockID v = v_BlockID w" "v_Timestamp v = v_Timestamp w" "v_Signature v = v_Signature w" using e(2) by auto
next
  note inv = pv_run_inv [OF tc run]
  fix p q assume m: "SProposal p \<in> set out" "SProposal q \<in> set out" "p_Height p = p_Height q" "p_Round p = p_Round q"
  have e: "bytes_of tc c (SProposal p) = bytes_of tc c (SProposal q)" "p_Signature p = p_Signature q"
    using pv_inv_agree [OF inv m(1,2)] m(3,4) by (simp_all add: agree_def)
  have ok: "released_ok tc c (pv_LastSignState pv) (SProposal p)" "released_ok tc c (pv_LastSignState pv) (SProposal q)"
    using inv m(1,2) by (simp_all add: pv_inv_def)
  then obtain b where b: "bytes_of tc c (SProposal p) = Return b" by (auto simp: released_ok_def)
  have r: "proposal_range p" "proposal_range q" using ok by (simp_all add: released_ok_def)
  have "bytes_of tc c (SProposal q) = Return b" unfolding e(1) [symmetric] by (rule b)
  then have "p_BlockID p = p_BlockID q \<and> p_POLRound p = p_POLRound q"
    unfolding bytes_of.simps by (rule proposal_sign_bytes_inj [OF tc r b [unfolded bytes_of.simps]])
  then show "p_BlockID p = p_BlockID q" "p_POLRound p = p_POLRound q" "p_Signature p = p_Signature q" using e(2) by auto
qed

definition sample_request :: "timestamp \<Rightarrow> Vote" where
  "sample_request t = (sample_vote PrevoteType)\<lparr>v_Timestamp := t\<rparr>"

lemma sample_request_ok: "vote_range (sample_request t)"
  by (simp add: vote_range_def sample_request_def sample_vote_def is_i64_def is_i32_def sample_bid_ok)

lemma sample_first:
  obtains pv v where "signVote example_time Some now ''c'' NewFilePV (sample_request 5) = Return (pv, v)" "v_Timestamp v = 5"
proof -
  have "time_enc example_time (v_Timestamp (sample_request 5)) \<noteq> None"
    by (simp add: sample_request_def example_time_def is_i64_def)
  then obtain b where b: "VoteSignBytes (sign_env example_time) ''c'' (sample_request 5) = (Return b :: (pv_error, _) outcome)"
    by (rule VoteSignBytes_encodable [OF sample_request_ok])
  have "lss_hrs (pv_LastSignState NewFilePV) < hrs (SVote (sample_request 5))"
    by (simp add: NewFilePV_def empty_lss_def Let_def lss_hrs_def sample_request_def sample_vote_def less_prod_def)
  from that [OF signVote_later [OF _ b this refl]] show thesis by (simp add: sample_request_def sample_vote_def)
qed

lemma sample_run:
  obtains pv v w where "pv_run example_time Some ''c'' pv [SVote w, SVote v]"
    "signVote example_time Some 0 ''c'' (loadFilePV True pv) (sample_request 9) = Return (pv, w)"
    "v_Type v = v_Type w" "v_Height v = v_Height w" "v_Round v = v_Round w" "v_Timestamp v = 5"
proof -
  obtain pv v where a: "signVote example_time Some 0 ''c'' NewFilePV (sample_request 5) = Return (pv, v)" "v_Timestamp v = 5"
    by (rule sample_first)
  note r1 = pv_run.vote [OF pv_run.start sample_request_ok a(1)]
  have inv: "pv_inv example_time ''c'' NewFilePV []"
    by (rule pv_run_inv [OF example_time_ok _ pv_run.start]) simp
  have t: "time_enc example_time 9 \<noteq> None" by (simp add: example_time_def is_i64_def)
  have eq: "(sample_request 5)\<lparr>v_Timestamp := 9\<rparr> = sample_request 9" by (simp add: sample_request_def)
  have "length ''c'' \<le> 50" by simp
  from sign_again [OF example_time_ok this inv sample_request_ok a(1) t, of Some 0]
  have b: "signVote example_time Some 0 ''c'' (loadFilePV True pv) (sample_request 9) = Return (pv, v)"
    by (simp only: eq)
  have "pv_run example_time Some ''c'' pv [SVote v, SVote v]"
    by (rule pv_run.vote [OF pv_run.restart [OF r1] sample_request_ok b])
  from that [OF this b] show thesis using a(2) by simp
qed

theorem no_double_signing_witness:
  "\<exists>pv v w. pv_run example_time Some ''c'' pv [SVote w, SVote v]
     \<and> signVote example_time Some 0 ''c'' (loadFilePV True pv) (sample_request 9) = Return (pv, w)
     \<and> v_Timestamp w = 5 \<and> v_Signature w = v_Signature v"
proof -
  obtain pv v w where r: "pv_run example_time Some ''c'' pv [SVote w, SVote v]"
    "signVote example_time Some 0 ''c'' (loadFilePV True pv) (sample_request 9) = Return (pv, w)"
    "v_Type v = v_Type w" "v_Height v = v_Height w" "v_Round v = v_Round w" "v_Timestamp v = 5" by (rule sample_run)
  have "length ''c'' \<le> 50" by simp
  from conjunct1 [OF no_double_signing [OF example_time_ok this r(1)], rule_format, of v w]
  have "v_Timestamp v = v_Timestamp w" "v_Signature v = v_Signature w" using r(3-5) by simp_all
  then show ?thesis using r(1,2,6) by (intro exI [of _ pv] exI [of _ v] exI [of _ w]) simp
qed

text \<open>
  C22: a crash costs no liveness.  A validator that saved a signature and lost it in a crash, and is
  asked after the restart for the same vote with any other timestamp, returns the vote it had
  signed, with the timestamp and the signature it had then, and its state does not change.
\<close>

theorem sign_survives_crash:
  assumes tc: "codec_ok tc" "length c \<le> 50" and run: "pv_run tc sign c pv out" and v: "vote_range v"
    and sign: "signVote tc sign now c pv v = Return (pv', v')" and t: "time_enc tc t \<noteq> None"
  shows "signVote tc sign' now' c (loadFilePV True pv') (v\<lparr>v_Timestamp := t\<rparr>) = Return (pv', v')"
  by (rule sign_again [OF tc pv_run_inv [OF tc run] v sign t])

theorem sign_survives_crash_witness:
  "\<exists>pv v. signVote example_time Some 0 ''c'' NewFilePV (sample_request 5) = Return (pv, v)
     \<and> signVote example_time Some 0 ''c'' (loadFilePV True pv) ((sample_request 5)\<lparr>v_Timestamp := 9\<rparr>) = Return (pv, v)"
proof -
  obtain pv v where a: "signVote example_time Some 0 ''c'' NewFilePV (sample_request 5) = Return (pv, v)"
    by (rule sample_first)
  have l: "length ''c'' \<le> 50" and t: "time_enc example_time 9 \<noteq> None" by (simp_all add: example_time_def is_i64_def)
  from sign_survives_crash [OF example_time_ok l pv_run.start sample_request_ok a t] show ?thesis using a by blast
qed

text \<open>
  What a reachable validator answers.  With a key that signs, a request for a vote later than the
  last one is signed and saved; an earlier one is refused as a regression; one for the last height,
  round and type gets the recorded vote back when it is for the recorded block id and is refused as
  conflicting otherwise.  No request makes it panic.
\<close>

theorem signVote_answers:
  assumes tc: "codec_ok tc" "length c \<le> 50" and run: "pv_run tc sign c pv out"
    and v: "vote_range v" "v_Type v \<in> {PrevoteType, PrecommitType}" "time_enc tc (v_Timestamp v) \<noteq> None"
    and key: "\<And>b. sign b = Some (sg b)"
  shows "\<exists>b. bytes_of tc c (SVote v) = Return b \<and>
    (let lss = pv_LastSignState pv; res = signVote tc sign now c pv v
     in if lss_hrs lss < hrs (SVote v)
        then res = Return (saveSigned pv (v_Height v) (v_Round v) (type_step (v_Type v)) b (sg b), v\<lparr>v_Signature := sg b\<rparr>)
        else if hrs (SVote v) < lss_hrs lss
        then res \<in> {Error HeightRegression, Error RoundRegression, Error StepRegression}
        else \<exists>w. in_range (SVote w) \<and> hrs (SVote w) = hrs (SVote v) \<and> bytes_of tc c (SVote w) = Return (the (lss_SignBytes lss))
          \<and> res = (if v_BlockID v = v_BlockID w
                   then Return (pv, v\<lparr>v_Timestamp := v_Timestamp w, v_Signature := the (lss_Signature lss)\<rparr>)
                   else Error ConflictingData))"
proof -
  obtain b where b: "VoteSignBytes (sign_env tc) c v = (Return b :: (pv_error, _) outcome)"
    by (rule VoteSignBytes_encodable [OF v(1,3)])
  have "bid_ok (v_BlockID v)" using v(1) by (simp add: vote_range_def)
  from VoteSignBytes_unit [OF this b] have bu: "bytes_of tc c (SVote v) = Return b" by simp
  let ?lss = "pv_LastSignState pv"
  consider "lss_hrs ?lss < hrs (SVote v)" | "hrs (SVote v) < lss_hrs ?lss" | "hrs (SVote v) = lss_hrs ?lss" by fastforce
  then show ?thesis
  proof cases
    case 1
    show ?thesis using bu signVote_later [OF v(2) b 1 key] 1 by (intro exI [of _ b]) (simp add: Let_def)
  next
    case 2
    then have "\<not> lss_hrs ?lss < hrs (SVote v)" by simp
    then show ?thesis using bu signVote_earlier [OF v(2) 2] 2 unfolding Let_def by (intro exI [of _ b]) (simp only: if_True if_False simp_thms)
  next
    case 3
    obtain w where "in_range (SVote w)" "hrs (SVote w) = hrs (SVote v)" "bytes_of tc c (SVote w) = Return (the (lss_SignBytes ?lss))"
      "signVote tc sign now c pv v =
      (if v_BlockID v = v_BlockID w
       then Return (pv, v\<lparr>v_Timestamp := v_Timestamp w, v_Signature := the (lss_Signature ?lss)\<rparr>) else Error ConflictingData)"
      by (rule signVote_again [OF tc pv_run_inv [OF tc run] v(1,2) b 3])
    then show ?thesis using bu 3 unfolding Let_def by (intro exI [of _ b] conjI) (simp, simp only: less_irrefl if_False, blast)
  qed
qed

theorem signVote_answers_witness:
  "\<exists>pv v. signVote example_time Some 0 ''c'' NewFilePV (sample_request 5) = Return (pv, v)"
proof -
  have r: "v_Type (sample_request 5) \<in> {PrevoteType, PrecommitType}" "time_enc example_time (v_Timestamp (sample_request 5)) \<noteq> None"
    "length ''c'' \<le> 50" by (simp_all add: sample_request_def sample_vote_def example_time_def is_i64_def)
  have h: "lss_hrs (pv_LastSignState NewFilePV) < hrs (SVote (sample_request 5))"
    by (simp add: NewFilePV_def empty_lss_def Let_def lss_hrs_def sample_request_def sample_vote_def less_prod_def)
  from signVote_answers [OF example_time_ok r(3) pv_run.start sample_request_ok r(1,2), where sign = Some and sg = "\<lambda>b. b" and now = 0] h
  show ?thesis by (auto simp: Let_def)
qed

end
