(* ===== verification/HsTypes.thy ===== *)
theory HsTypes
  imports Wire
begin

text \<open>
  The data of the HotStuff implementation: views, identifiers, quorum signatures, certificates,
  blocks, messages (types.go, block.go, genesis.go, events.go, helper.go, hotstuff.go) and the set
  of signatures of crypto/multisignature.go and crypto/ecdsa.

  The crypto library is a parameter: SHA-256 is a function \<open>sha\<close>, verification of one ECDSA
  signature a predicate.  A quorum signature is the map from signers to the pair (r, s) of the ECDSA
  signature; the nil signature is \<open>None\<close>.
\<close>

section \<open>Identifiers and signatures\<close>

type_synonym View = "64 word"
type_synonym ID = "32 word"
type_synonym Hash = bytes
type_synonym Command = bytes

definition zero_hash :: Hash where
  "zero_hash = replicate 32 0"

definition view_ToBytes :: "View \<Rightarrow> bytes" where
  "view_ToBytes v = le_bytes 8 v"

definition id_ToBytes :: "ID \<Rightarrow> bytes" where
  "id_ToBytes i = le_bytes 4 (ucast i)"

fun big_Bytes :: "nat \<Rightarrow> bytes" where
  \<comment> \<open>\<open>big.Int.Bytes\<close>: big-endian, without leading zeros\<close>
  "big_Bytes n = (if n = 0 then [] else big_Bytes (n div 256) @ [of_nat (n mod 256)])"

declare big_Bytes.simps [simp del]

definition big_SetBytes :: "bytes \<Rightarrow> nat" where
  "big_SetBytes b = foldl (\<lambda>n x. n * 256 + unat x) 0 b"

type_synonym Multi = "(ID, nat \<times> nat) gomap"

definition sig_ToBytes :: "nat \<times> nat \<Rightarrow> bytes" where
  "sig_ToBytes s = big_Bytes (fst s) @ big_Bytes (snd s)"

definition multi_ToBytes :: "Multi \<Rightarrow> bytes" where
  "multi_ToBytes m =
     concat (map (\<lambda>i. case gm_get m i of Some s \<Rightarrow> sig_ToBytes s | None \<Rightarrow> []) (sort (map fst m)))"

definition Restore :: "(ID \<times> nat \<times> nat) list \<Rightarrow> Multi" where
  "Restore sigs = foldl (\<lambda>m s. gm_put (fst s) (snd s) m) [] sigs"

definition NumFaulty :: "int \<Rightarrow> int" where
  "NumFaulty n = (n - 1) sdiv 3"

definition QuorumSize :: "int \<Rightarrow> int" where
  "QuorumSize n = n - NumFaulty n"

section \<open>Certificates\<close>

record QuorumCert =
  qc_signature :: "Multi option"
  qc_view :: View
  qc_hash :: Hash

definition zero_qc :: QuorumCert where
  "zero_qc = \<lparr>qc_signature = None, qc_view = 0, qc_hash = zero_hash\<rparr>"

definition qc_ToBytes :: "QuorumCert \<Rightarrow> bytes" where
  "qc_ToBytes qc = view_ToBytes (qc_view qc) @ qc_hash qc
     @ (case qc_signature qc of None \<Rightarrow> [] | Some s \<Rightarrow> multi_ToBytes s)"

definition qc_Equals :: "QuorumCert \<Rightarrow> QuorumCert \<Rightarrow> bool" where
  "qc_Equals qc other =
     (if qc_view qc \<noteq> qc_view other then False
      else if qc_hash qc \<noteq> qc_hash other then False
      else case (qc_signature qc, qc_signature other) of
        (Some s, Some t) \<Rightarrow> multi_ToBytes s = multi_ToBytes t
      | (s, t) \<Rightarrow> s = None \<and> t = None)"

record TimeoutCert =
  tc_signature :: "Multi option"
  tc_view :: View

record AggregateQC =
  ag_qcs :: "(ID, QuorumCert) gomap"
  ag_sig :: "Multi option"
  ag_view :: View

record PartialCert =
  pc_signer :: ID
  pc_signature :: "Multi option"
  pc_blockHash :: Hash

definition NewPartialCert :: "Multi \<Rightarrow> Hash \<Rightarrow> PartialCert" where
  \<comment> \<open>the signer is the first participant visited, the zero identifier if there is none\<close>
  "NewPartialCert signature blockHash =
     \<lparr>pc_signer = (case signature of [] \<Rightarrow> 0 | (i, _) # _ \<Rightarrow> i), pc_signature = Some signature, pc_blockHash = blockHash\<rparr>"

text \<open>A time stamp is seconds and nanoseconds; nothing under src/ ever sets the one of a sync info.\<close>

record Timestamp =
  ts_Seconds :: int
  ts_Nanos :: int

record SyncInfo =
  si_qc :: "QuorumCert option"
  si_tc :: "TimeoutCert option"
  si_aggQC :: "AggregateQC option"
  si_TimeStampForPFT :: "Timestamp option"

definition NewSyncInfo :: SyncInfo where
  "NewSyncInfo = \<lparr>si_qc = None, si_tc = None, si_aggQC = None, si_TimeStampForPFT = None\<rparr>"

definition WithQC :: "QuorumCert \<Rightarrow> SyncInfo \<Rightarrow> SyncInfo" where
  "WithQC qc si = si\<lparr>si_qc := Some qc\<rparr>"

definition WithTC :: "TimeoutCert \<Rightarrow> SyncInfo \<Rightarrow> SyncInfo" where
  "WithTC tc si = si\<lparr>si_tc := Some tc\<rparr>"

definition WithAggQC :: "AggregateQC \<Rightarrow> SyncInfo \<Rightarrow> SyncInfo" where
  "WithAggQC agg si = si\<lparr>si_aggQC := Some agg\<rparr>"

section \<open>Blocks\<close>

record Block =
  b_hash :: Hash
  b_parent :: Hash
  b_proposer :: ID
  b_cmd :: Command
  b_cert :: QuorumCert
  b_view :: View

definition block_ToBytes :: "Block \<Rightarrow> bytes" where
  "block_ToBytes b = b_parent b @ id_ToBytes (b_proposer b) @ view_ToBytes (b_view b) @ b_cmd b @ qc_ToBytes (b_cert b)"

definition NewBlock :: "(bytes \<Rightarrow> bytes) \<Rightarrow> Hash \<Rightarrow> QuorumCert \<Rightarrow> Command \<Rightarrow> View \<Rightarrow> ID \<Rightarrow> Block" where
  "NewBlock sha parent cert cmd view proposer =
     (let b = \<lparr>b_hash = zero_hash, b_parent = parent, b_proposer = proposer, b_cmd = cmd, b_cert = cert, b_view = view\<rparr>
      in b\<lparr>b_hash := sha (block_ToBytes b)\<rparr>)"

definition GetGenesis :: "(bytes \<Rightarrow> bytes) \<Rightarrow> Block" where
  "GetGenesis sha = NewBlock sha zero_hash zero_qc [] 0 0"

definition block_ok :: "(bytes \<Rightarrow> bytes) \<Rightarrow> Block \<Rightarrow> bool" where
  \<comment> \<open>the cached hash is the hash of the block\<close>
  "block_ok sha b \<longleftrightarrow> b_hash b = sha (block_ToBytes b)"

section \<open>Messages\<close>

record ProposeMsg =
  pm_ID :: ID
  pm_Block :: Block
  pm_AggregateQC :: "AggregateQC option"

record VoteMsg =
  vm_ID :: ID
  vm_PartialCert :: PartialCert
  vm_Deferred :: bool

record TimeoutMsg =
  tm_ID :: ID
  tm_View :: View
  tm_ViewSignature :: "Multi option"
  tm_MsgSignature :: "Multi option"
  tm_SyncInfo :: SyncInfo

definition timeout_ToBytes :: "TimeoutMsg \<Rightarrow> bytes" where
  "timeout_ToBytes m = id_ToBytes (tm_ID m) @ view_ToBytes (tm_View m)
     @ (case si_qc (tm_SyncInfo m) of None \<Rightarrow> [] | Some qc \<Rightarrow> qc_ToBytes qc)"

section \<open>Basic facts\<close>

lemma block_ToBytes_hash [simp]: "block_ToBytes (b\<lparr>b_hash := h\<rparr>) = block_ToBytes b"
  by (simp add: block_ToBytes_def)

lemma block_ok_NewBlock [simp, intro]: "block_ok sha (NewBlock sha parent cert cmd view proposer)"
  by (simp add: block_ok_def NewBlock_def Let_def block_ToBytes_def)

lemma NewBlock_fields [simp]:
  "b_parent (NewBlock sha parent cert cmd view proposer) = parent"
  "b_cert (NewBlock sha parent cert cmd view proposer) = cert"
  "b_cmd (NewBlock sha parent cert cmd view proposer) = cmd"
  "b_view (NewBlock sha parent cert cmd view proposer) = view"
  "b_proposer (NewBlock sha parent cert cmd view proposer) = proposer"
  by (simp_all add: NewBlock_def Let_def)

lemma genesis_fields [simp]: "b_view (GetGenesis sha) = 0" "b_cert (GetGenesis sha) = zero_qc" "b_parent (GetGenesis sha) = zero_hash"
  by (simp_all add: GetGenesis_def)

lemma block_ok_genesis [simp]: "block_ok sha (GetGenesis sha)"
  by (simp add: GetGenesis_def)

lemma length_view_ToBytes [simp]: "length (view_ToBytes v) = 8" "length (id_ToBytes i) = 4"
  by (simp_all add: view_ToBytes_def id_ToBytes_def)

lemma gm_wf_Restore: "gm_wf (Restore sigs)"
proof -
  have "gm_wf m \<Longrightarrow> gm_wf (foldl (\<lambda>m s. gm_put (fst s) (snd s) m) m sigs)" for m :: Multi
    by (induction sigs arbitrary: m) auto
  then show ?thesis by (simp add: Restore_def)
qed

lemma length_block_ToBytes: "length (block_ToBytes b) \<ge> 20"
  by (simp add: block_ToBytes_def qc_ToBytes_def)

lemma NumFaulty_div: "0 < n \<Longrightarrow> NumFaulty n = (n - 1) div 3"
  by (auto simp: NumFaulty_def signed_divide_int_def sgn_if)

end
