(* ===== verification/HsConvert.thy ===== *)
theory HsConvert
  imports HsTypes
begin

text \<open>
  The conversions between the types of HotStuff and its protocol buffer messages,
  internal/proto/hotstuffpb/convert.go, for the ECDSA signatures, and which of the
  fields of a message they carry.

  A message is the record of the fields of hotstuffpb; an absent message is \<open>None\<close>, and the getters
  of the generated code read its fields as empty.  Map iteration visits the association list in its
  order.
\<close>

section \<open>Messages\<close>

record pb_ECDSASignature =
  pb_Signer :: ID
  pb_R :: bytes
  pb_S :: bytes

type_synonym pb_QuorumSignature = "pb_ECDSASignature list option"

record pb_QuorumCert =
  pbq_Sig :: "pb_QuorumSignature option"
  pbq_View :: View
  pbq_Hash :: bytes

record pb_PartialCert =
  pbp_Sig :: "pb_QuorumSignature option"
  pbp_Hash :: bytes

record pb_Block =
  pbb_Parent :: bytes
  pbb_QC :: "pb_QuorumCert option"
  pbb_View :: View
  pbb_Command :: bytes
  pbb_Proposer :: ID

record pb_TimeoutCert =
  pbt_Sig :: "pb_QuorumSignature option"
  pbt_View :: View

record pb_AggQC =
  pba_QCs :: "(ID, pb_QuorumCert) gomap"
  pba_Sig :: "pb_QuorumSignature option"
  pba_View :: View

record pb_SyncInfo =
  pbs_QC :: "pb_QuorumCert option"
  pbs_TC :: "pb_TimeoutCert option"
  pbs_AggQC :: "pb_AggQC option"
  pbs_TimeStampForPFT :: "Timestamp option"

record pb_Proposal =
  pbr_Block :: pb_Block
  pbr_AggQC :: "pb_AggQC option"

record pb_TimeoutMsg =
  pbm_View :: View
  pbm_SyncInfo :: pb_SyncInfo
  pbm_ViewSig :: "pb_QuorumSignature option"
  pbm_MsgSig :: "pb_QuorumSignature option"

section \<open>Conversions\<close>

definition copy32 :: "bytes \<Rightarrow> Hash" where
  \<comment> \<open>\<open>copy(h[:], b)\<close> into a zeroed array of 32 bytes\<close>
  "copy32 b = take 32 (b @ replicate 32 0)"

definition QuorumSignatureToProto :: "Multi option \<Rightarrow> pb_QuorumSignature" where
  "QuorumSignatureToProto sig =
     map_option (map (\<lambda>(i, r, s). \<lparr>pb_Signer = i, pb_R = big_Bytes r, pb_S = big_Bytes s\<rparr>)) sig"

definition QuorumSignatureFromProto :: "pb_QuorumSignature option \<Rightarrow> Multi option" where
  "QuorumSignatureFromProto sig =
     (case sig of
        Some (Some sigs) \<Rightarrow>
          Some (Restore (map (\<lambda>s. (pb_Signer s, big_SetBytes (pb_R s), big_SetBytes (pb_S s))) sigs))
      | _ \<Rightarrow> None)"

definition PartialCertToProto :: "PartialCert \<Rightarrow> pb_PartialCert" where
  "PartialCertToProto cert =
     \<lparr>pbp_Sig = Some (QuorumSignatureToProto (pc_signature cert)), pbp_Hash = pc_blockHash cert\<rparr>"

definition PartialCertFromProto :: "pb_PartialCert \<Rightarrow> ('e, PartialCert) outcome" where
  \<comment> \<open>the participants of a nil signature cannot be visited\<close>
  "PartialCertFromProto cert =
     (case QuorumSignatureFromProto (pbp_Sig cert) of
        None \<Rightarrow> Panic
      | Some s \<Rightarrow> Return (NewPartialCert s (copy32 (pbp_Hash cert))))"

definition QuorumCertToProto :: "QuorumCert \<Rightarrow> pb_QuorumCert" where
  "QuorumCertToProto qc =
     \<lparr>pbq_Sig = Some (QuorumSignatureToProto (qc_signature qc)), pbq_View = qc_view qc, pbq_Hash = qc_hash qc\<rparr>"

definition QuorumCertFromProto :: "pb_QuorumCert option \<Rightarrow> QuorumCert" where
  "QuorumCertFromProto qc =
     (case qc of
        None \<Rightarrow> \<lparr>qc_signature = None, qc_view = 0, qc_hash = copy32 []\<rparr>
      | Some q \<Rightarrow> \<lparr>qc_signature = QuorumSignatureFromProto (pbq_Sig q), qc_view = pbq_View q, qc_hash = copy32 (pbq_Hash q)\<rparr>)"

definition BlockToProto :: "Block \<Rightarrow> pb_Block" where
  "BlockToProto block =
     \<lparr>pbb_Parent = b_parent block, pbb_QC = Some (QuorumCertToProto (b_cert block)), pbb_View = b_view block,
      pbb_Command = b_cmd block, pbb_Proposer = b_proposer block\<rparr>"

definition BlockFromProto :: "(bytes \<Rightarrow> bytes) \<Rightarrow> pb_Block \<Rightarrow> Block" where
  "BlockFromProto sha block =
     NewBlock sha (copy32 (pbb_Parent block)) (QuorumCertFromProto (pbb_QC block)) (pbb_Command block)
       (pbb_View block) (pbb_Proposer block)"

definition AggregateQCToProto :: "AggregateQC \<Rightarrow> pb_AggQC" where
  "AggregateQCToProto agg =
     \<lparr>pba_QCs = map (\<lambda>(i, qc). (i, QuorumCertToProto qc)) (ag_qcs agg),
      pba_Sig = Some (QuorumSignatureToProto (ag_sig agg)), pba_View = ag_view agg\<rparr>"

definition AggregateQCFromProto :: "pb_AggQC \<Rightarrow> AggregateQC" where
  "AggregateQCFromProto m =
     \<lparr>ag_qcs = foldl (\<lambda>qcs p. gm_put (fst p) (QuorumCertFromProto (Some (snd p))) qcs) [] (pba_QCs m),
      ag_sig = QuorumSignatureFromProto (pba_Sig m), ag_view = pba_View m\<rparr>"

definition ProposalToProto :: "ProposeMsg \<Rightarrow> pb_Proposal" where
  "ProposalToProto p =
     \<lparr>pbr_Block = BlockToProto (pm_Block p), pbr_AggQC = map_option AggregateQCToProto (pm_AggregateQC p)\<rparr>"

definition ProposalFromProto :: "(bytes \<Rightarrow> bytes) \<Rightarrow> pb_Proposal \<Rightarrow> ProposeMsg" where
  \<comment> \<open>the sender is not in the message: the server fills it in\<close>
  "ProposalFromProto sha p =
     \<lparr>pm_ID = 0, pm_Block = BlockFromProto sha (pbr_Block p), pm_AggregateQC = map_option AggregateQCFromProto (pbr_AggQC p)\<rparr>"

definition TimeoutCertToProto :: "TimeoutCert \<Rightarrow> pb_TimeoutCert" where
  "TimeoutCertToProto tc = \<lparr>pbt_Sig = Some (QuorumSignatureToProto (tc_signature tc)), pbt_View = tc_view tc\<rparr>"

definition TimeoutCertFromProto :: "pb_TimeoutCert \<Rightarrow> TimeoutCert" where
  "TimeoutCertFromProto m = \<lparr>tc_signature = QuorumSignatureFromProto (pbt_Sig m), tc_view = pbt_View m\<rparr>"

definition SyncInfoToProto :: "SyncInfo \<Rightarrow> pb_SyncInfo" where
  "SyncInfoToProto si =
     \<lparr>pbs_QC = map_option QuorumCertToProto (si_qc si), pbs_TC = map_option TimeoutCertToProto (si_tc si),
      pbs_AggQC = map_option AggregateQCToProto (si_aggQC si), pbs_TimeStampForPFT = None\<rparr>"

definition SyncInfoFromProto :: "pb_SyncInfo \<Rightarrow> SyncInfo" where
  "SyncInfoFromProto m =
     (let si = NewSyncInfo;
          si = (case pbs_QC m of None \<Rightarrow> si | Some qc \<Rightarrow> WithQC (QuorumCertFromProto (Some qc)) si);
          si = (case pbs_TC m of None \<Rightarrow> si | Some tc \<Rightarrow> WithTC (TimeoutCertFromProto tc) si)
      in case pbs_AggQC m of None \<Rightarrow> si | Some agg \<Rightarrow> WithAggQC (AggregateQCFromProto agg) si)"

definition TimeoutMsgToProto :: "TimeoutMsg \<Rightarrow> pb_TimeoutMsg" where
  "TimeoutMsgToProto m =
     \<lparr>pbm_View = tm_View m, pbm_SyncInfo = SyncInfoToProto (tm_SyncInfo m),
      pbm_ViewSig = Some (QuorumSignatureToProto (tm_ViewSignature m)),
      pbm_MsgSig = (if tm_MsgSignature m \<noteq> None then Some (QuorumSignatureToProto (tm_MsgSignature m)) else None)\<rparr>"

definition TimeoutMsgFromProto :: "pb_TimeoutMsg \<Rightarrow> TimeoutMsg" where
  "TimeoutMsgFromProto m =
     \<lparr>tm_ID = 0, tm_View = pbm_View m, tm_ViewSignature = QuorumSignatureFromProto (pbm_ViewSig m),
      tm_MsgSignature = (if pbm_ViewSig m \<noteq> None then QuorumSignatureFromProto (pbm_MsgSig m) else None),
      tm_SyncInfo = SyncInfoFromProto (pbm_SyncInfo m)\<rparr>"

section \<open>Reading back\<close>

lemma big_back [simp]: "big_SetBytes (big_Bytes n) = n"
proof (induction n rule: big_Bytes.induct)
  case (1 n)
  then show ?case
    by (cases "n = 0") (simp_all add: big_Bytes.simps [of n] big_Bytes.simps [of 0] big_SetBytes_def unat_of_nat)
qed

lemma foldl_gm_put_fresh:
  "distinct (map fst m @ map fst xs) \<Longrightarrow> foldl (\<lambda>m s. gm_put (fst s) (f (snd s)) m) m xs = m @ map (\<lambda>(k, v). (k, f v)) xs"
proof (induction xs arbitrary: m)
  case Nil
  then show ?case by simp
next
  case (Cons x xs)
  have "gm_put (fst x) (f (snd x)) m = m @ [(fst x, f (snd x))]"
    using Cons.prems by (induction m) auto
  then show ?case using Cons.IH [of "m @ [(fst x, f (snd x))]"] Cons.prems by (auto simp: case_prod_beta)
qed

lemma Restore_back [simp]: "gm_wf m \<Longrightarrow> Restore m = m"
  using foldl_gm_put_fresh [of "[]" m "\<lambda>x. x"] by (simp add: Restore_def gm_wf_def)

lemma copy32_id [simp]: "length h = 32 \<Longrightarrow> copy32 h = h"
  by (simp add: copy32_def)

definition sig_wf :: "Multi option \<Rightarrow> bool" where
  "sig_wf s \<longleftrightarrow> (\<forall>m. s = Some m \<longrightarrow> gm_wf m)"

lemma signature_back [simp]: "sig_wf s \<Longrightarrow> QuorumSignatureFromProto (Some (QuorumSignatureToProto s)) = s"
  by (cases s) (auto simp: sig_wf_def QuorumSignatureFromProto_def QuorumSignatureToProto_def comp_def case_prod_beta)

lemma absent_signature [simp]: "QuorumSignatureFromProto None = None"
  by (simp add: QuorumSignatureFromProto_def)

definition qc_wf :: "QuorumCert \<Rightarrow> bool" where
  "qc_wf qc \<longleftrightarrow> sig_wf (qc_signature qc) \<and> length (qc_hash qc) = 32"

lemma qc_back [simp]: "qc_wf qc \<Longrightarrow> QuorumCertFromProto (Some (QuorumCertToProto qc)) = qc"
  by (simp add: qc_wf_def QuorumCertFromProto_def QuorumCertToProto_def)

definition block_wf :: "(bytes \<Rightarrow> bytes) \<Rightarrow> Block \<Rightarrow> bool" where
  "block_wf sha b \<longleftrightarrow> block_ok sha b \<and> qc_wf (b_cert b) \<and> length (b_parent b) = 32"

lemma block_back [simp]: "block_wf sha b \<Longrightarrow> BlockFromProto sha (BlockToProto b) = b"
  by (cases b)
     (simp add: block_wf_def block_ok_def BlockFromProto_def BlockToProto_def NewBlock_def Let_def block_ToBytes_def)

definition agg_wf :: "AggregateQC \<Rightarrow> bool" where
  "agg_wf a \<longleftrightarrow> gm_wf (ag_qcs a) \<and> (\<forall>p \<in> set (ag_qcs a). qc_wf (snd p)) \<and> sig_wf (ag_sig a)"

lemma agg_back [simp]: "agg_wf a \<Longrightarrow> AggregateQCFromProto (AggregateQCToProto a) = a"
proof -
  assume wf: "agg_wf a"
  let ?l = "map (\<lambda>(i, qc). (i, QuorumCertToProto qc)) (ag_qcs a)"
  have "distinct (map fst [] @ map fst ?l)" using wf by (simp add: agg_wf_def gm_wf_def comp_def case_prod_beta)
  from foldl_gm_put_fresh [OF this, of "\<lambda>q. QuorumCertFromProto (Some q)"]
  have "foldl (\<lambda>qcs p. gm_put (fst p) (QuorumCertFromProto (Some (snd p))) qcs) [] ?l
      = map (\<lambda>(k, v). (k, QuorumCertFromProto (Some v))) ?l" by simp
  also have "\<dots> = ag_qcs a" using wf unfolding map_map by (intro map_idI) (auto simp: agg_wf_def)
  finally show ?thesis
    using wf by (cases a) (simp add: AggregateQCFromProto_def AggregateQCToProto_def agg_wf_def)
qed

definition tc_wf :: "TimeoutCert \<Rightarrow> bool" where
  "tc_wf tc \<longleftrightarrow> sig_wf (tc_signature tc)"

lemma tc_back [simp]: "tc_wf tc \<Longrightarrow> TimeoutCertFromProto (TimeoutCertToProto tc) = tc"
  by (simp add: tc_wf_def TimeoutCertFromProto_def TimeoutCertToProto_def)

definition si_wf :: "SyncInfo \<Rightarrow> bool" where
  "si_wf si \<longleftrightarrow> pred_option qc_wf (si_qc si) \<and> pred_option tc_wf (si_tc si) \<and> pred_option agg_wf (si_aggQC si)"

lemma si_back [simp]: "si_wf si \<Longrightarrow> SyncInfoFromProto (SyncInfoToProto si) = si\<lparr>si_TimeStampForPFT := None\<rparr>"
  by (cases si)
     (auto simp: si_wf_def SyncInfoFromProto_def SyncInfoToProto_def NewSyncInfo_def WithQC_def WithTC_def WithAggQC_def
       Let_def split: option.splits)

section \<open>Properties\<close>

text \<open>
  C25: what the conversions of messages keep and what they lose.  A proposal and the vote of one
  signer are what their conversions to and from protocol buffers give back, up to the sender of a
  proposal, which is not part of the message; the hash of a block is recomputed on the way.  A
  timeout message comes back with two of its fields reset: the sender, and the time stamp of its
  sync info, which the protocol buffer has a field for but neither conversion copies.
\<close>

theorem messages_roundtrip:
  assumes "block_wf sha (pm_Block p)" "pred_option agg_wf (pm_AggregateQC p)"
    and "si_wf (tm_SyncInfo t)" "sig_wf (tm_ViewSignature t)" "sig_wf (tm_MsgSignature t)"
    and "length h = 32"
  shows "ProposalFromProto sha (ProposalToProto p) = p\<lparr>pm_ID := 0\<rparr>
    \<and> TimeoutMsgFromProto (TimeoutMsgToProto t)
      = t\<lparr>tm_ID := 0, tm_SyncInfo := (tm_SyncInfo t)\<lparr>si_TimeStampForPFT := None\<rparr>\<rparr>
    \<and> PartialCertFromProto (PartialCertToProto (NewPartialCert [(i, s)] h)) = (Return (NewPartialCert [(i, s)] h) :: (unit, _) outcome)"
proof (intro conjI)
  show "ProposalFromProto sha (ProposalToProto p) = p\<lparr>pm_ID := 0\<rparr>"
    using assms(1,2) by (cases p) (auto simp: ProposalFromProto_def ProposalToProto_def option.map_comp comp_def
        pred_option_def intro!: option.map_ident_strong)
  show "TimeoutMsgFromProto (TimeoutMsgToProto t)
      = t\<lparr>tm_ID := 0, tm_SyncInfo := (tm_SyncInfo t)\<lparr>si_TimeStampForPFT := None\<rparr>\<rparr>"
    using assms(3-5) by (cases t) (auto simp: TimeoutMsgFromProto_def TimeoutMsgToProto_def)
  have "sig_wf (Some [(i, s)])" by (simp add: sig_wf_def gm_wf_def)
  from signature_back [OF this]
  show "PartialCertFromProto (PartialCertToProto (NewPartialCert [(i, s)] h)) = (Return (NewPartialCert [(i, s)] h) :: (unit, _) outcome)"
    using assms(6) by (simp add: PartialCertFromProto_def PartialCertToProto_def NewPartialCert_def)
qed

definition example_sha :: "bytes \<Rightarrow> bytes" where
  \<comment> \<open>32 bytes: a one, then the view and the start of the command of a block\<close>
  "example_sha m = copy32 (1 # drop 36 m)"

definition example_propose :: ProposeMsg where
  "example_propose = \<lparr>pm_ID = 2, pm_Block = NewBlock example_sha zero_hash \<lparr>qc_signature = Some [(1, 5, 7), (2, 300, 9)], qc_view = 3, qc_hash = zero_hash\<rparr> [1, 2] 4 2,
     pm_AggregateQC = None\<rparr>"

definition example_timeout :: TimeoutMsg where
  "example_timeout = \<lparr>tm_ID = 3, tm_View = 9, tm_ViewSignature = Some [(3, 1, 2)], tm_MsgSignature = None,
     tm_SyncInfo = NewSyncInfo\<lparr>si_TimeStampForPFT := Some \<lparr>ts_Seconds = 5, ts_Nanos = 6\<rparr>\<rparr>\<rparr>"

theorem messages_roundtrip_witness:
  "ProposalFromProto example_sha (ProposalToProto example_propose) = example_propose\<lparr>pm_ID := 0\<rparr>
    \<and> TimeoutMsgFromProto (TimeoutMsgToProto example_timeout) = example_timeout\<lparr>tm_ID := 0, tm_SyncInfo := NewSyncInfo\<rparr>
    \<and> example_timeout\<lparr>tm_ID := 0, tm_SyncInfo := NewSyncInfo\<rparr> \<noteq> example_timeout\<lparr>tm_ID := 0\<rparr>"
proof -
  have "block_wf example_sha (pm_Block example_propose)" "pred_option agg_wf (pm_AggregateQC example_propose)"
    "si_wf (tm_SyncInfo example_timeout)" "sig_wf (tm_ViewSignature example_timeout)" "sig_wf (tm_MsgSignature example_timeout)"
    "length zero_hash = 32"
    by (simp_all add: example_propose_def example_timeout_def block_wf_def qc_wf_def sig_wf_def gm_wf_def zero_hash_def
        si_wf_def NewSyncInfo_def)
  moreover have "(tm_SyncInfo example_timeout)\<lparr>si_TimeStampForPFT := None\<rparr> = NewSyncInfo"
    "example_timeout\<lparr>tm_ID := 0, tm_SyncInfo := NewSyncInfo\<rparr> \<noteq> example_timeout\<lparr>tm_ID := 0\<rparr>"
    by (simp_all add: example_timeout_def NewSyncInfo_def)
  ultimately show ?thesis using messages_roundtrip [of example_sha example_propose example_timeout zero_hash] by simp
qed

end
