(* ===== verification/HsChain.thy ===== *)
theory HsChain
  imports HsConvert
begin

text \<open>
  The block store of HotStuff, blockchain/blockchain.go, and the quorum function that decides which
  reply to a fetch is taken, backend/config.go.

  A block that is not stored is fetched from the other replicas.  What the network answers is a
  parameter: \<open>fetch n h\<close> is the answer to the n-th fetch, for the hash \<open>h\<close>; the store counts its
  fetches.  The cancellation of pending fetches only ends a wait earlier and is not modelled, nor is
  the time measurement of pruning.
\<close>

section \<open>Operations\<close>

record blockChain =
  bc_pruneHeight :: View
  bc_blocks :: "(Hash, Block) gomap"
  bc_blockAtHeight :: "(View, Block) gomap"
  bc_fetches :: nat

type_synonym fetcher = "nat \<Rightarrow> Hash \<Rightarrow> Block option"

definition FetchQF :: "(bytes \<Rightarrow> bytes) \<Rightarrow> Hash \<Rightarrow> pb_Block list \<Rightarrow> pb_Block option" where
  \<comment> \<open>the first reply that has the requested hash\<close>
  "FetchQF sha h replies = find (\<lambda>b. h = b_hash (BlockFromProto sha b)) replies"

definition Fetch :: "(bytes \<Rightarrow> bytes) \<Rightarrow> (nat \<Rightarrow> Hash \<Rightarrow> pb_Block list) \<Rightarrow> fetcher" where
  "Fetch sha replies n h = map_option (BlockFromProto sha) (FetchQF sha h (replies n h))"

definition Store :: "Block \<Rightarrow> blockChain \<Rightarrow> blockChain" where
  "Store block chain =
     chain\<lparr>bc_blocks := gm_put (b_hash block) block (bc_blocks chain),
           bc_blockAtHeight := gm_put (b_view block) block (bc_blockAtHeight chain)\<rparr>"

definition NewBlockChain :: "(bytes \<Rightarrow> bytes) \<Rightarrow> blockChain" where
  "NewBlockChain sha =
     Store (GetGenesis sha) \<lparr>bc_pruneHeight = 0, bc_blocks = [], bc_blockAtHeight = [], bc_fetches = 0\<rparr>"

definition LocalGet :: "Hash \<Rightarrow> blockChain \<Rightarrow> Block option" where
  "LocalGet h chain = gm_get (bc_blocks chain) h"

definition Get :: "fetcher \<Rightarrow> Hash \<Rightarrow> blockChain \<Rightarrow> blockChain \<times> Block option" where
  "Get fetch h chain =
     (case gm_get (bc_blocks chain) h of
        Some block \<Rightarrow> (chain, Some block)
      | None \<Rightarrow>
          let chain' = chain\<lparr>bc_fetches := Suc (bc_fetches chain)\<rparr>
          in case fetch (bc_fetches chain) h of
               None \<Rightarrow> (chain', gm_get (bc_blocks chain') h)
             | Some block \<Rightarrow>
                 (chain'\<lparr>bc_blocks := gm_put h block (bc_blocks chain'),
                         bc_blockAtHeight := gm_put (b_view block) block (bc_blockAtHeight chain')\<rparr>,
                  Some block))"

partial_function (option) extends_loop :: "fetcher \<Rightarrow> Block \<Rightarrow> Block \<Rightarrow> blockChain \<Rightarrow> (blockChain \<times> bool) option" where
  "extends_loop fetch current target chain =
     (if b_view current > b_view target
      then (case Get fetch (b_parent current) chain of
              (chain', None) \<Rightarrow> Some (chain', False)
            | (chain', Some parent) \<Rightarrow> extends_loop fetch parent target chain')
      else Some (chain, b_hash current = b_hash target))"

definition Extends :: "fetcher \<Rightarrow> Block \<Rightarrow> Block \<Rightarrow> blockChain \<Rightarrow> (blockChain \<times> bool) option" where
  "Extends fetch block target chain = extends_loop fetch block target chain"

partial_function (option) committed_views :: "blockChain \<Rightarrow> View \<Rightarrow> View list \<Rightarrow> (View list) option" where
  \<comment> \<open>the first loop of \<open>PruneToHeight\<close>: the views of the committed branch\<close>
  "committed_views chain h views =
     (if h \<ge> bc_pruneHeight chain
      then (case gm_get (bc_blockAtHeight chain) h of
              None \<Rightarrow> Some views
            | Some block \<Rightarrow>
                (case gm_get (bc_blocks chain) (b_parent block) of
                   None \<Rightarrow> Some views
                 | Some parent \<Rightarrow>
                     if b_view parent < bc_pruneHeight chain then Some views
                     else committed_views chain (b_view parent) (b_view parent # views)))
      else Some views)"

function prune_loop :: "View list \<Rightarrow> View \<Rightarrow> View \<Rightarrow> (View, Block) gomap \<Rightarrow> Block list \<Rightarrow> (View, Block) gomap \<times> Block list" where
  \<comment> \<open>the second loop: from the new height down to the old one\<close>
  "prune_loop committedViews pruneHeight h blockAtHeight forkedBlocks =
     (if h > pruneHeight
      then prune_loop committedViews pruneHeight (h - 1) (gm_del h blockAtHeight)
             (if h \<notin> set committedViews
              then (case gm_get blockAtHeight h of Some block \<Rightarrow> forkedBlocks @ [block] | None \<Rightarrow> forkedBlocks)
              else forkedBlocks)
      else (blockAtHeight, forkedBlocks))"
  by pat_completeness auto
termination
proof (relation "measure (\<lambda>(_, _, h, _, _). unat h)", goal_cases)
  case (2 cv ph h bah fb)
  then have "h \<noteq> 0" by auto
  then show ?case by (simp add: measure_unat)
qed simp

declare prune_loop.simps [simp del]

definition PruneToHeight :: "Block \<Rightarrow> View \<Rightarrow> blockChain \<Rightarrow> (blockChain \<times> Block list) option" where
  "PruneToHeight committedBlock height chain =
     (let committedHeight = b_view committedBlock
      in map_option (\<lambda>committedViews.
           let (blockAtHeight, forkedBlocks) =
                 prune_loop committedViews (bc_pruneHeight chain) height (bc_blockAtHeight chain) []
           in (chain\<lparr>bc_blockAtHeight := blockAtHeight, bc_pruneHeight := height\<rparr>, forkedBlocks))
           (committed_views chain committedHeight [committedHeight]))"

section \<open>The store holds blocks under their hashes\<close>

definition chain_ok :: "(bytes \<Rightarrow> bytes) \<Rightarrow> blockChain \<Rightarrow> bool" where
  "chain_ok sha chain \<longleftrightarrow>
     (\<forall>h b. gm_get (bc_blocks chain) h = Some b \<longrightarrow> b_hash b = h \<and> block_ok sha b)"

definition fetch_ok :: "(bytes \<Rightarrow> bytes) \<Rightarrow> fetcher \<Rightarrow> bool" where
  "fetch_ok sha fetch \<longleftrightarrow> (\<forall>n h b. fetch n h = Some b \<longrightarrow> b_hash b = h \<and> block_ok sha b)"

lemma Fetch_ok [simp, intro]: "fetch_ok sha (Fetch sha replies)"
  unfolding fetch_ok_def
proof (intro allI impI)
  fix n h b assume "Fetch sha replies n h = Some b"
  then obtain p where p: "find (\<lambda>b. h = b_hash (BlockFromProto sha b)) (replies n h) = Some p" "b = BlockFromProto sha p"
    by (auto simp: Fetch_def FetchQF_def)
  then show "b_hash b = h \<and> block_ok sha b" by (auto simp: find_Some_iff BlockFromProto_def)
qed

lemma Fetch_in: "Fetch sha replies n h = Some b \<Longrightarrow> b \<in> BlockFromProto sha ` set (replies n h)"
  by (auto simp: Fetch_def FetchQF_def find_Some_iff)

lemma chain_ok_Store [intro]: "chain_ok sha chain \<Longrightarrow> block_ok sha b \<Longrightarrow> chain_ok sha (Store b chain)"
  by (auto simp: chain_ok_def Store_def gm_get_put split: if_splits)

lemma chain_ok_New [simp, intro]: "chain_ok sha (NewBlockChain sha)"
  unfolding NewBlockChain_def by (rule chain_ok_Store) (simp_all add: chain_ok_def)

definition grows :: "blockChain \<Rightarrow> blockChain \<Rightarrow> bool" where
  \<comment> \<open>what is stored stays stored\<close>
  "grows c d \<longleftrightarrow> (\<forall>h b. gm_get (bc_blocks c) h = Some b \<longrightarrow> gm_get (bc_blocks d) h = Some b)"

lemma grows_refl [simp, intro]: "grows c c" and grows_trans [trans]: "grows c d \<Longrightarrow> grows d e \<Longrightarrow> grows c e"
  by (auto simp: grows_def)

lemma Get_cases:
  assumes "Get fetch h chain = (chain', r)"
  obtains (stored) b where "gm_get (bc_blocks chain) h = Some b" "chain' = chain" "r = Some b"
  | (missing) "gm_get (bc_blocks chain) h = None" "fetch (bc_fetches chain) h = None" "r = None"
      "chain' = chain\<lparr>bc_fetches := Suc (bc_fetches chain)\<rparr>"
  | (fetched) b where "gm_get (bc_blocks chain) h = None" "fetch (bc_fetches chain) h = Some b" "r = Some b"
      "bc_blocks chain' = gm_put h b (bc_blocks chain)" "bc_pruneHeight chain' = bc_pruneHeight chain"
  using assms by (auto simp: Get_def Let_def split: option.splits)

lemma Get_grows: "Get fetch h chain = (chain', r) \<Longrightarrow> grows chain chain'"
  by (erule Get_cases) (auto simp: grows_def gm_get_put)

lemma Get_ok:
  assumes "Get fetch h chain = (chain', r)" "chain_ok sha chain" "fetch_ok sha fetch"
  shows "chain_ok sha chain'" and "r = Some b \<Longrightarrow> b_hash b = h \<and> block_ok sha b \<and> gm_get (bc_blocks chain') h = Some b"
  using assms by (auto elim!: Get_cases simp: chain_ok_def fetch_ok_def gm_get_put split: if_splits)

lemma Get_stored: "gm_get (bc_blocks chain) h = Some b \<Longrightarrow> Get fetch h chain = (chain, Some b)"
  by (simp add: Get_def)

section \<open>The branch of a block\<close>

inductive branch :: "blockChain \<Rightarrow> Block \<Rightarrow> Block \<Rightarrow> bool" for chain where
  branch_refl: "branch chain b b"
| branch_step: "gm_get (bc_blocks chain) (b_parent b) = Some p \<Longrightarrow> branch chain p t \<Longrightarrow> branch chain b t"

lemma branch_grows: "branch c b t \<Longrightarrow> grows c d \<Longrightarrow> branch d b t"
  by (induction rule: branch.induct) (auto simp: grows_def intro: branch.intros)

lemma extends_loop_induct [consumes 1, case_names stop missing step]:
  assumes run: "extends_loop fetch current target chain = Some (chain', r)"
    and stop: "\<And>c chain. \<not> b_view c > b_view target \<Longrightarrow> P c chain chain (b_hash c = b_hash target)"
    and missing: "\<And>c chain chain'. b_view c > b_view target \<Longrightarrow> Get fetch (b_parent c) chain = (chain', None) \<Longrightarrow> P c chain chain' False"
    and step: "\<And>c chain chain1 p chain' r. b_view c > b_view target \<Longrightarrow> Get fetch (b_parent c) chain = (chain1, Some p) \<Longrightarrow>
      grows chain1 chain' \<Longrightarrow> P p chain1 chain' r \<Longrightarrow> P c chain chain' r"
  shows "P current chain chain' r"
proof -
  have "fetch = fetch \<longrightarrow> target = target \<longrightarrow>
      grows chain (fst (chain', r)) \<and> P current chain (fst (chain', r)) (snd (chain', r))"
  proof (rule extends_loop.raw_induct [where P = "\<lambda>f c t ch y. f = fetch \<longrightarrow> t = target \<longrightarrow>
        grows ch (fst y) \<and> P c ch (fst y) (snd y)", OF _ run], intro impI, goal_cases)
    case (1 loop f c t ch y)
    show ?case
    proof (cases "b_view c > b_view target")
      case False
      then show ?thesis using stop [OF False] 1 by auto
    next
      case True
      obtain ch1 q where g: "Get fetch (b_parent c) ch = (ch1, q)" by force
      show ?thesis
      proof (cases q)
        case None
        then show ?thesis using missing [OF True] g 1 True Get_grows [OF g] by auto
      next
        case (Some p)
        then have "loop fetch p target ch1 = Some y" using 1 g True by simp
        then have "grows ch1 (fst y)" "P p ch1 (fst y) (snd y)" using 1(1) by blast+
        then show ?thesis using step [OF True] g Some Get_grows [OF g] grows_trans by blast
      qed
    qed
  qed
  then show ?thesis by simp
qed

lemma extends_loop_grows: "extends_loop fetch current target chain = Some (chain', r) \<Longrightarrow> grows chain chain'"
  by (induction rule: extends_loop_induct) (auto dest: Get_grows intro: grows_trans)

lemma extends_loop_ok:
  assumes "extends_loop fetch current target chain = Some (chain', r)" "fetch_ok sha fetch"
  shows "chain_ok sha chain \<Longrightarrow> chain_ok sha chain'"
  using assms(1) by (induction rule: extends_loop_induct) (auto intro: Get_ok(1) [OF _ _ assms(2)])

inductive first_at :: "blockChain \<Rightarrow> View \<Rightarrow> Block \<Rightarrow> Block \<Rightarrow> bool" for chain v where
  \<comment> \<open>the first block, from a block on over its stored parents, whose view is not above \<open>v\<close>\<close>
  first_here: "\<not> b_view b > v \<Longrightarrow> first_at chain v b b"
| first_up: "b_view b > v \<Longrightarrow> gm_get (bc_blocks chain) (b_parent b) = Some p \<Longrightarrow> first_at chain v p t \<Longrightarrow> first_at chain v b t"

inductive_simps first_at_iff: "first_at chain v b t"

lemma first_at_branch: "first_at chain v b t \<Longrightarrow> branch chain b t"
  by (induction rule: first_at.induct) (auto intro: branch.intros)

lemma extends_loop_exact:
  assumes "extends_loop fetch current target chain = Some (chain', r)" "fetch_ok sha fetch"
  shows "chain_ok sha chain \<Longrightarrow> r \<longleftrightarrow> (\<exists>t. first_at chain' (b_view target) current t \<and> b_hash t = b_hash target)"
  using assms(1)
proof (induction rule: extends_loop_induct)
  case (stop c chain)
  then show ?case by (subst first_at_iff) auto
next
  case (missing c chain chain')
  have "gm_get (bc_blocks chain') (b_parent c) = None" using missing.hyps(2) by (rule Get_cases) auto
  then show ?case using missing.hyps(1) by (subst first_at_iff) auto
next
  case (step c chain chain1 p chain' r)
  note g = Get_ok [OF step.hyps(2) step.prems assms(2)]
  have "gm_get (bc_blocks chain') (b_parent c) = Some p"
    using g(2) [OF refl] step.hyps(3) by (simp add: grows_def)
  then show ?case using step.IH [OF g(1)] step.hyps(1) by (subst first_at_iff) auto
qed

section \<open>Properties\<close>

definition views_decrease :: "fetcher \<Rightarrow> blockChain \<Rightarrow> Block \<Rightarrow> bool" where
  \<comment> \<open>every block that is stored or can be fetched has a smaller view than the block that names it as parent\<close>
  "views_decrease fetch chain block \<longleftrightarrow>
     (\<forall>c p. (c = block \<or> c \<in> ran (gm_get (bc_blocks chain)) \<or> (\<exists>n h. fetch n h = Some c)) \<longrightarrow>
            (p \<in> ran (gm_get (bc_blocks chain)) \<or> (\<exists>n h. fetch n h = Some p)) \<longrightarrow>
            b_hash p = b_parent c \<longrightarrow> b_view p < b_view c)"

lemma views_decrease_step:
  assumes dec: "views_decrease fetch chain c" and g: "Get fetch (b_parent c) chain = (chain1, Some p)"
    and ok: "chain_ok sha chain" "fetch_ok sha fetch"
  shows "views_decrease fetch chain1 p" "b_view p < b_view c"
proof -
  have p: "b_hash p = b_parent c" using Get_ok(2) [OF g ok] by simp
  have src: "p \<in> ran (gm_get (bc_blocks chain)) \<or> (\<exists>n h. fetch n h = Some p)"
    using g by (rule Get_cases) (auto simp: ran_def)
  have sub: "ran (gm_get (bc_blocks chain1)) \<subseteq> ran (gm_get (bc_blocks chain)) \<union> {b. \<exists>n h. fetch n h = Some b}"
    using g by (rule Get_cases) (auto simp: ran_def gm_get_put split: if_splits)
  show "b_view p < b_view c" using dec p src unfolding views_decrease_def by blast
  show "views_decrease fetch chain1 p"
    unfolding views_decrease_def
  proof (intro allI impI, goal_cases)
    case (1 d q)
    then have "d \<in> ran (gm_get (bc_blocks chain)) \<or> (\<exists>n h. fetch n h = Some d)" using src sub by blast
    moreover have "q \<in> ran (gm_get (bc_blocks chain)) \<or> (\<exists>n h. fetch n h = Some q)" using 1(2) sub by blast
    ultimately show ?case using dec 1(3) unfolding views_decrease_def by blast
  qed
qed

lemma extends_loop_returns:
  assumes ok: "chain_ok sha chain" "fetch_ok sha fetch" and dec: "views_decrease fetch chain c"
  shows "\<exists>y. extends_loop fetch c target chain = Some y"
  using ok(1) dec
proof (induction "unat (b_view c)" arbitrary: c chain rule: less_induct)
  case less
  show ?case
  proof (cases "b_view c > b_view target")
    case False
    then show ?thesis by (subst extends_loop.simps) simp
  next
    case True
    obtain chain1 q where g: "Get fetch (b_parent c) chain = (chain1, q)" by force
    show ?thesis
    proof (cases q)
      case None
      then show ?thesis using True g by (subst extends_loop.simps) auto
    next
      case (Some p)
      note st = views_decrease_step [OF less.prems(2) g [unfolded Some] less.prems(1) ok(2)]
      have "\<exists>y. extends_loop fetch p target chain1 = Some y"
        using less.hyps [OF _ Get_ok(1) [OF g less.prems(1) ok(2)] st(1)] st(2) by (simp add: word_less_nat_alt)
      then show ?thesis using True g Some by (subst extends_loop.simps) simp
    qed
  qed
qed

lemma branch_views:
  assumes "branch chain b t" "chain_ok sha chain" "views_decrease fetch chain b"
  shows "b = t \<or> b_view t < b_view b"
  using assms
proof (induction rule: branch.induct)
  case (branch_refl b)
  then show ?case by simp
next
  case (branch_step b p t)
  have g: "Get fetch (b_parent b) chain = (chain, Some p)" by (rule Get_stored [OF branch_step.hyps(1)])
  have h: "b_hash p = b_parent b" using branch_step.hyps(1) branch_step.prems(1) by (simp add: chain_ok_def)
  have in_chain: "p \<in> ran (gm_get (bc_blocks chain))" using branch_step.hyps(1) by (auto simp: ran_def)
  have "b_view p < b_view b" "views_decrease fetch chain p"
    using branch_step.prems(2) h in_chain unfolding views_decrease_def by blast+
  then show ?case using branch_step.IH branch_step.prems(1) by auto
qed

lemma extends_loop_complete:
  assumes run: "extends_loop fetch c target chain = Some (chain', r)" and ok: "fetch_ok sha fetch"
  shows "chain_ok sha chain \<Longrightarrow> views_decrease fetch chain c \<Longrightarrow> branch chain' c target \<Longrightarrow> r"
  using run
proof (induction rule: extends_loop_induct)
  case (stop c chain)
  then show ?case using branch_views [OF stop.prems(3,1,2)] by auto
next
  case (missing c chain chain')
  have "gm_get (bc_blocks chain') (b_parent c) = None" using missing.hyps(2) by (rule Get_cases) auto
  then show ?case using missing.prems(3) missing.hyps(1) by (auto elim: branch.cases)
next
  case (step c chain chain1 p chain' r)
  have p: "gm_get (bc_blocks chain') (b_parent c) = Some p"
    using Get_ok(2) [OF step.hyps(2) step.prems(1) ok] step.hyps(3) by (simp add: grows_def)
  have "branch chain' p target" using step.prems(3) p step.hyps(1) by (auto elim: branch.cases)
  then show ?case
    using step.IH [OF Get_ok(1) [OF step.hyps(2) step.prems(1) ok] views_decrease_step(1) [OF step.prems(2) step.hyps(2) step.prems(1) ok]] by simp
qed

text \<open>
  C31: what the branch test decides.  Whatever the stored blocks look like, a call of \<open>Extends\<close> that
  returns keeps every stored block and answers exactly whether the first block up the branch of the
  block whose view is not above the view of the target is the target, by its hash.  No code checks
  that a parent has a smaller view than its child.  When this holds of the block, the stored and the
  fetchable blocks, \<open>Extends\<close> does return, a positive answer means that the target is on the branch
  of the block in the store it leaves behind, and a target on that branch is found.
\<close>

theorem Extends_decides_the_branch:
  assumes ok: "chain_ok sha chain" "fetch_ok sha fetch"
  shows "(\<forall>chain' r. Extends fetch block target chain = Some (chain', r) \<longrightarrow> grows chain chain'
      \<and> (r \<longleftrightarrow> (\<exists>t. first_at chain' (b_view target) block t \<and> b_hash t = b_hash target)))
    \<and> (views_decrease fetch chain block \<longrightarrow>
      (\<exists>chain' r. Extends fetch block target chain = Some (chain', r) \<and> grows chain chain'
        \<and> (r \<longrightarrow> (\<exists>t. branch chain' block t \<and> b_hash t = b_hash target)) \<and> (branch chain' block target \<longrightarrow> r)))"
proof (intro conjI allI impI)
  fix chain' r assume "Extends fetch block target chain = Some (chain', r)"
  then have run: "extends_loop fetch block target chain = Some (chain', r)" by (simp add: Extends_def)
  show "grows chain chain'" by (rule extends_loop_grows [OF run])
  show "r \<longleftrightarrow> (\<exists>t. first_at chain' (b_view target) block t \<and> b_hash t = b_hash target)"
    by (rule extends_loop_exact [OF run ok(2,1)])
next
  assume dec: "views_decrease fetch chain block"
  obtain chain' r where run: "extends_loop fetch block target chain = Some (chain', r)"
    using extends_loop_returns [OF ok dec] by force
  have "r \<Longrightarrow> \<exists>t. branch chain' block t \<and> b_hash t = b_hash target"
    using extends_loop_exact [OF run ok(2,1)] by (auto intro: first_at_branch)
  moreover have "branch chain' block target \<Longrightarrow> r" by (rule extends_loop_complete [OF run ok(2,1) dec])
  ultimately show "\<exists>chain' r. Extends fetch block target chain = Some (chain', r) \<and> grows chain chain'
      \<and> (r \<longrightarrow> (\<exists>t. branch chain' block t \<and> b_hash t = b_hash target)) \<and> (branch chain' block target \<longrightarrow> r)"
    using extends_loop_grows [OF run] run by (auto simp: Extends_def)
qed

definition example_child :: "Block \<Rightarrow> View \<Rightarrow> Block" where
  "example_child p v = NewBlock example_sha (b_hash p) \<lparr>qc_signature = Some [], qc_view = b_view p, qc_hash = b_hash p\<rparr> [] v 1"

lemma example_genesis_hash: "b_hash (GetGenesis example_sha) \<noteq> zero_hash"
proof -
  have "hd (b_hash (GetGenesis example_sha)) = 1"
    by (simp add: GetGenesis_def NewBlock_def Let_def example_sha_def copy32_def)
  moreover have "hd zero_hash = 0" by (simp add: zero_hash_def)
  ultimately show ?thesis by auto
qed

text \<open>A block of view 3 on a block of view 5: the test stops at the block itself and misses its parent.\<close>

lemma parent_with_higher_view_is_missed:
  "Extends (\<lambda>_ _. None) (example_child (example_child (GetGenesis example_sha) 5) 3) (example_child (GetGenesis example_sha) 5)
     (Store (example_child (GetGenesis example_sha) 5) (NewBlockChain example_sha))
   = Some (Store (example_child (GetGenesis example_sha) 5) (NewBlockChain example_sha), False)"
  unfolding Extends_def by (subst extends_loop.simps) code_simp

theorem Extends_decides_the_branch_witness:
  "\<exists>chain' t. Extends (\<lambda>_ _. None) (example_child (GetGenesis example_sha) 3) (GetGenesis example_sha) (NewBlockChain example_sha)
     = Some (chain', True) \<and> first_at chain' 0 (example_child (GetGenesis example_sha) 3) t \<and> b_hash t = b_hash (GetGenesis example_sha)"
proof -
  let ?g = "GetGenesis example_sha" and ?c = "NewBlockChain example_sha"
  have st: "gm_get (bc_blocks ?c) (b_hash ?g) = Some ?g" by (simp add: NewBlockChain_def Store_def gm_get_def)
  have ran: "ran (gm_get (bc_blocks ?c)) = {?g}"
    by (auto simp: NewBlockChain_def Store_def ran_def gm_get_def split: if_splits)
  have ne: "b_hash ?g \<noteq> zero_hash" by (rule example_genesis_hash)
  have dec: "views_decrease (\<lambda>_ _. None) ?c (example_child ?g 3)"
    unfolding views_decrease_def ran using ne by (auto simp: example_child_def)
  have "fetch_ok example_sha (\<lambda>_ _. None)" by (simp add: fetch_ok_def)
  note ext = Extends_decides_the_branch [OF chain_ok_New this, of "example_child ?g 3" ?g]
  from ext dec
  obtain chain' r where e: "Extends (\<lambda>_ _. None) (example_child ?g 3) ?g ?c = Some (chain', r)" "grows ?c chain'"
    "branch chain' (example_child ?g 3) ?g \<longrightarrow> r" by blast
  have "gm_get (bc_blocks chain') (b_parent (example_child ?g 3)) = Some ?g"
    using st e(2) by (simp add: grows_def example_child_def)
  then have "branch chain' (example_child ?g 3) ?g" by (rule branch_step [OF _ branch_refl])
  then have r: "r" using e(3) by simp
  have "b_view ?g = 0" by (simp add: GetGenesis_def NewBlock_def Let_def)
  then show ?thesis using ext e(1) r by metis
qed

end
