(* ===== verification/HsCrypto.thy ===== *)
theory HsCrypto
  imports HsChain
begin

text \<open>
  Certificates of HotStuff: crypto/crypto.go over the ECDSA signatures of crypto/ecdsa/ecdsa.go.

  Signing and verifying with one key are parameters of the configuration \<open>crypto_cfg\<close>; a signature
  also depends on the randomness of the moment, the argument \<open>k\<close>.  A failed type assertion on a nil
  signature, and a method call on one, is a panic.
\<close>

section \<open>Signatures\<close>

record crypto_cfg =
  cf_sha :: "bytes \<Rightarrow> bytes"
  cf_verify :: "ID \<Rightarrow> Hash \<Rightarrow> nat \<times> nat \<Rightarrow> bool"
  cf_sign :: "nat \<Rightarrow> Hash \<Rightarrow> (nat \<times> nat) option"
  cf_replicas :: "ID list"
  cf_self :: ID

datatype hs_error = ErrCombineMultiple | ErrCombineOverlap | ErrSign

definition cfg_Len :: "crypto_cfg \<Rightarrow> int" where
  "cfg_Len cf = int (length (cf_replicas cf))"

definition cfg_QuorumSize :: "crypto_cfg \<Rightarrow> int" where
  "cfg_QuorumSize cf = QuorumSize (cfg_Len cf)"

definition Sign :: "crypto_cfg \<Rightarrow> nat \<Rightarrow> bytes \<Rightarrow> (hs_error, Multi) outcome" where
  "Sign cf k message =
     (case cf_sign cf k (cf_sha cf message) of
        None \<Rightarrow> Error ErrSign
      | Some s \<Rightarrow> Return [(cf_self cf, s)])"

fun combine_one :: "Multi \<Rightarrow> Multi \<Rightarrow> (hs_error, Multi) outcome" where
  "combine_one ts [] = Return ts"
| "combine_one ts ((i, s) # sig2) =
     (if gm_get ts i \<noteq> None then Error ErrCombineOverlap else combine_one (gm_put i s ts) sig2)"

fun combine_loop :: "Multi \<Rightarrow> Multi option list \<Rightarrow> (hs_error, Multi) outcome" where
  "combine_loop ts [] = Return ts"
| "combine_loop ts (None # sigs) = Panic"
| "combine_loop ts (Some sig2 # sigs) = bind_o (combine_one ts sig2) (\<lambda>ts'. combine_loop ts' sigs)"

definition Combine :: "Multi option list \<Rightarrow> (hs_error, Multi) outcome" where
  "Combine signatures = (if length signatures < 2 then Error ErrCombineMultiple else combine_loop [] signatures)"

definition verifySingle :: "crypto_cfg \<Rightarrow> ID \<times> nat \<times> nat \<Rightarrow> Hash \<Rightarrow> bool" where
  "verifySingle cf sig h \<longleftrightarrow> fst sig \<in> set (cf_replicas cf) \<and> cf_verify cf (fst sig) h (snd sig)"

definition Verify :: "crypto_cfg \<Rightarrow> Multi option \<Rightarrow> bytes \<Rightarrow> (hs_error, bool) outcome" where
  "Verify cf signature message =
     (case signature of
        None \<Rightarrow> Panic
      | Some s \<Rightarrow>
          if length s = 0 then Return False
          else Return (\<forall>sig \<in> set s. verifySingle cf sig (cf_sha cf message)))"

definition BatchVerify :: "crypto_cfg \<Rightarrow> Multi option \<Rightarrow> (ID, bytes) gomap \<Rightarrow> (hs_error, bool) outcome" where
  "BatchVerify cf signature batch =
     (case signature of
        None \<Rightarrow> Panic
      | Some s \<Rightarrow>
          if length s = 0 then Return False
          else if \<exists>sig \<in> set s. gm_get batch (fst sig) = None then Return False
          else let hash = (\<lambda>sig :: ID \<times> nat \<times> nat. cf_sha cf (the (gm_get batch (fst sig))))
               in Return ((\<forall>sig \<in> set s. verifySingle cf sig (hash sig))
                          \<and> length (remdups (map hash s)) = length batch))"

section \<open>Certificates\<close>

definition CreatePartialCert :: "crypto_cfg \<Rightarrow> nat \<Rightarrow> Block \<Rightarrow> (hs_error, PartialCert) outcome" where
  "CreatePartialCert cf k block =
     bind_o (Sign cf k (block_ToBytes block)) (\<lambda>sig. Return (NewPartialCert sig (b_hash block)))"

definition CreateQuorumCert :: "crypto_cfg \<Rightarrow> Block \<Rightarrow> PartialCert list \<Rightarrow> (hs_error, QuorumCert) outcome" where
  "CreateQuorumCert cf block signatures =
     (if b_hash block = b_hash (GetGenesis (cf_sha cf))
      then Return \<lparr>qc_signature = None, qc_view = 0, qc_hash = b_hash (GetGenesis (cf_sha cf))\<rparr>
      else bind_o (Combine (map pc_signature signatures)) (\<lambda>sig.
           Return \<lparr>qc_signature = Some sig, qc_view = b_view block, qc_hash = b_hash block\<rparr>))"

definition CreateTimeoutCert :: "View \<Rightarrow> TimeoutMsg list \<Rightarrow> (hs_error, TimeoutCert) outcome" where
  "CreateTimeoutCert view timeouts =
     (if view = 0 then Return \<lparr>tc_signature = None, tc_view = 0\<rparr>
      else bind_o (Combine (map tm_ViewSignature timeouts)) (\<lambda>sig. Return \<lparr>tc_signature = Some sig, tc_view = view\<rparr>))"

fun aggregate_qcs :: "(ID, QuorumCert) gomap \<Rightarrow> TimeoutMsg list \<Rightarrow> (ID, QuorumCert) gomap" where
  "aggregate_qcs qcs [] = qcs"
| "aggregate_qcs qcs (t # ts) =
     aggregate_qcs (case si_qc (tm_SyncInfo t) of Some qc \<Rightarrow> gm_put (tm_ID t) qc qcs | None \<Rightarrow> qcs) ts"

definition CreateAggregateQC :: "View \<Rightarrow> TimeoutMsg list \<Rightarrow> (hs_error, AggregateQC) outcome" where
  "CreateAggregateQC view timeouts =
     bind_o (Combine (filter (\<lambda>s. s \<noteq> None) (map tm_MsgSignature timeouts))) (\<lambda>sig.
     Return \<lparr>ag_qcs = aggregate_qcs [] timeouts, ag_sig = Some sig, ag_view = view\<rparr>)"

definition VerifyPartialCert ::
    "crypto_cfg \<Rightarrow> fetcher \<Rightarrow> PartialCert \<Rightarrow> blockChain \<Rightarrow> (hs_error, blockChain \<times> bool) outcome" where
  "VerifyPartialCert cf fetch cert chain =
     (case Get fetch (pc_blockHash cert) chain of
        (chain', None) \<Rightarrow> Return (chain', False)
      | (chain', Some block) \<Rightarrow>
          bind_o (Verify cf (pc_signature cert) (block_ToBytes block)) (\<lambda>ok. Return (chain', ok)))"

definition VerifyQuorumCert ::
    "crypto_cfg \<Rightarrow> fetcher \<Rightarrow> QuorumCert \<Rightarrow> blockChain \<Rightarrow> (hs_error, blockChain \<times> bool) outcome" where
  "VerifyQuorumCert cf fetch qc chain =
     (if qc_hash qc = b_hash (GetGenesis (cf_sha cf)) then Return (chain, True)
      else case qc_signature qc of
        None \<Rightarrow> Panic
      | Some s \<Rightarrow>
          if int (length s) < cfg_QuorumSize cf then Return (chain, False)
          else case Get fetch (qc_hash qc) chain of
                 (chain', None) \<Rightarrow> Return (chain', False)
               | (chain', Some block) \<Rightarrow>
                   bind_o (Verify cf (Some s) (block_ToBytes block)) (\<lambda>ok. Return (chain', ok)))"

definition VerifyTimeoutCert :: "crypto_cfg \<Rightarrow> TimeoutCert \<Rightarrow> (hs_error, bool) outcome" where
  "VerifyTimeoutCert cf tc =
     (if tc_view tc = 0 then Return True
      else case tc_signature tc of
        None \<Rightarrow> Panic
      | Some s \<Rightarrow>
          if int (length s) < cfg_QuorumSize cf then Return False
          else Verify cf (Some s) (view_ToBytes (tc_view tc)))"

definition high_qc_of :: "(ID, QuorumCert) gomap \<Rightarrow> QuorumCert" where
  "high_qc_of qcs = foldl (\<lambda>high p. if qc_view high < qc_view (snd p) \<or> high = zero_qc then snd p else high) zero_qc qcs"

definition timeout_messages :: "View \<Rightarrow> (ID, QuorumCert) gomap \<Rightarrow> (ID, bytes) gomap" where
  \<comment> \<open>the timeout messages are rebuilt to get the bytes that were signed\<close>
  "timeout_messages view qcs = foldl (\<lambda>m p. gm_put (fst p) (timeout_ToBytes
       \<lparr>tm_ID = fst p, tm_View = view, tm_ViewSignature = None, tm_MsgSignature = None,
        tm_SyncInfo = WithQC (snd p) NewSyncInfo\<rparr>) m) [] qcs"

definition VerifyAggregateQC ::
    "crypto_cfg \<Rightarrow> fetcher \<Rightarrow> AggregateQC \<Rightarrow> blockChain \<Rightarrow> (hs_error, blockChain \<times> QuorumCert option) outcome" where
  "VerifyAggregateQC cf fetch agg chain =
     (let highQC = high_qc_of (ag_qcs agg); messages = timeout_messages (ag_view agg) (ag_qcs agg)
      in case ag_sig agg of
        None \<Rightarrow> Panic
      | Some s \<Rightarrow>
          if int (length s) < cfg_QuorumSize cf then Return (chain, None)
          else bind_o (BatchVerify cf (Some s) messages) (\<lambda>ok.
               if \<not> ok then Return (chain, None)
               else bind_o (VerifyQuorumCert cf fetch highQC chain) (\<lambda>(chain', ok').
                    Return (chain', if ok' then Some highQC else None))))"

section \<open>Quorums\<close>

locale quorum_system =
  fixes qsize faulty :: "int \<Rightarrow> int"
  assumes quorums_overlap: "0 < n \<Longrightarrow> n + faulty n < 2 * qsize n"
begin

lemma quorums_share_honest:
  assumes R: "finite R" "R \<noteq> {}" and A: "A \<subseteq> R" "qsize (int (card R)) \<le> int (card A)"
    and B: "B \<subseteq> R" "qsize (int (card R)) \<le> int (card B)"
    and H: "int (card (R - H)) \<le> faulty (int (card R))"
  obtains i where "i \<in> A" "i \<in> B" "i \<in> H"
proof -
  have fin: "finite A" "finite B" using R(1) A(1) B(1) finite_subset by blast+
  have "card (A \<union> B) \<le> card R" using A(1) B(1) R(1) by (simp add: card_mono)
  then have "int (card A) + int (card B) \<le> int (card R) + int (card (A \<inter> B))"
    using card_Un_Int [OF fin] by linarith
  moreover have "0 < int (card R)" using R by (simp add: card_gt_0_iff)
  ultimately have "int (card (R - H)) < int (card (A \<inter> B))"
    using quorums_overlap [of "int (card R)"] A(2) B(2) H by linarith
  then have "\<not> A \<inter> B \<subseteq> R - H" using R(1) by (auto dest: card_mono [rotated])
  then show thesis using that A(1) by blast
qed

end

interpretation hs: quorum_system QuorumSize NumFaulty
  by unfold_locales (simp add: QuorumSize_def NumFaulty_div)

section \<open>What a verified certificate proves\<close>

definition certifies :: "crypto_cfg \<Rightarrow> Multi \<Rightarrow> bytes \<Rightarrow> bool" where
  \<comment> \<open>a quorum of replicas whose signatures of the message verify\<close>
  "certifies cf s message \<longleftrightarrow> cfg_QuorumSize cf \<le> int (length s) \<and> s \<noteq> []
     \<and> (\<forall>sig \<in> set s. verifySingle cf sig (cf_sha cf message))"

lemma Verify_True: "Verify cf (Some s) m = Return True \<longleftrightarrow> s \<noteq> [] \<and> (\<forall>sig \<in> set s. verifySingle cf sig (cf_sha cf m))"
  by (auto simp: Verify_def)

lemma VerifyQuorumCert_True:
  assumes "VerifyQuorumCert cf fetch qc chain = Return (chain', True)"
    "chain_ok (cf_sha cf) chain" "fetch_ok (cf_sha cf) fetch"
  obtains (genesis) "qc_hash qc = b_hash (GetGenesis (cf_sha cf))" "chain' = chain"
  | (quorum) s b where "qc_signature qc = Some s" "gm_get (bc_blocks chain') (qc_hash qc) = Some b"
      "certifies cf s (block_ToBytes b)" "Get fetch (qc_hash qc) chain = (chain', Some b)"
proof (cases "qc_hash qc = b_hash (GetGenesis (cf_sha cf))")
  case True
  then show thesis using assms(1) genesis by (simp add: VerifyQuorumCert_def)
next
  case False
  then obtain s where s: "qc_signature qc = Some s" "\<not> int (length s) < cfg_QuorumSize cf"
    using assms(1) by (auto simp: VerifyQuorumCert_def split: option.splits if_splits)
  obtain c r where g: "Get fetch (qc_hash qc) chain = (c, r)" by force
  obtain b where b: "r = Some b" "c = chain'" "Verify cf (Some s) (block_ToBytes b) = Return True"
    using assms(1) False s g by (auto simp: VerifyQuorumCert_def bind_o_Return_iff split: option.splits)
  have "gm_get (bc_blocks chain') (qc_hash qc) = Some b" using Get_ok(2) [OF g assms(2,3) b(1)] b(2) by simp
  then show thesis using quorum s b g by (auto simp: certifies_def Verify_True)
qed

lemma certifies_share_honest:
  assumes wf: "gm_wf s" "gm_wf t" and c: "certifies cf s m" "certifies cf t m'"
    and R: "distinct (cf_replicas cf)" and H: "int (card (set (cf_replicas cf) - H)) \<le> NumFaulty (cfg_Len cf)"
  obtains i where "i \<in> H" "i \<in> set (map fst s)" "i \<in> set (map fst t)"
proof -
  let ?R = "set (cf_replicas cf)"
  have n: "cfg_Len cf = int (card ?R)" by (simp add: cfg_Len_def distinct_card [OF R])
  have sub: "set (map fst s) \<subseteq> ?R" "set (map fst t) \<subseteq> ?R"
    using c by (auto simp: certifies_def verifySingle_def)
  have ne: "?R \<noteq> {}" using c(1) sub(1) by (auto simp: certifies_def)
  have card: "card (set (map fst s)) = length s" "card (set (map fst t)) = length t"
    using wf distinct_card unfolding gm_wf_def by force+
  have q: "QuorumSize (int (card ?R)) \<le> int (card (set (map fst s)))" "QuorumSize (int (card ?R)) \<le> int (card (set (map fst t)))"
    using c unfolding card certifies_def cfg_QuorumSize_def n by simp_all
  show thesis
    by (rule hs.quorums_share_honest [OF finite_set ne sub(1) q(1) sub(2) q(2) H [unfolded n]]) (rule that)
qed

section \<open>Combining signatures\<close>

lemma gm_put_fresh: "gm_get m k = None \<Longrightarrow> gm_put k v m = m @ [(k, v)]"
  by (induction m) (auto simp: gm_get_def split: if_splits)

lemma gm_get_None_iff: "gm_get m k = None \<longleftrightarrow> k \<notin> set (map fst m)"
  by (simp add: gm_get_def map_of_eq_None_iff)

lemma combine_one_eq:
  "distinct (map fst ts) \<Longrightarrow> combine_one ts m =
     (if distinct (map fst (ts @ m)) then Return (ts @ m) else Error ErrCombineOverlap)"
proof (induction ts m rule: combine_one.induct)
  case (1 ts)
  then show ?case by simp
next
  case (2 ts i s m)
  show ?case
  proof (cases "i \<in> set (map fst ts)")
    case True
    then show ?thesis by (auto simp: gm_get_None_iff simp del: not_None_eq)
  next
    case False
    then show ?thesis using 2 by (simp add: gm_get_None_iff gm_put_fresh del: not_None_eq)
  qed
qed

lemma combine_loop_eq:
  "distinct (map fst ts) \<Longrightarrow> combine_loop ts (map Some ms) =
     (if distinct (map fst (ts @ concat ms)) then Return (ts @ concat ms) else Error ErrCombineOverlap)"
proof (induction ms arbitrary: ts)
  case Nil
  then show ?case by simp
next
  case (Cons m ms)
  show ?case
  proof (cases "distinct (map fst (ts @ m))")
    case True
    then show ?thesis using Cons by (simp add: combine_one_eq del: map_append)
  next
    case False
    then show ?thesis using Cons.prems by (auto simp: combine_one_eq)
  qed
qed

lemma Combine_eq:
  "Combine (map Some ms) =
     (if length ms < 2 then Error ErrCombineMultiple
      else if distinct (map fst (concat ms)) then Return (concat ms) else Error ErrCombineOverlap)"
  by (simp add: Combine_def combine_loop_eq)

section \<open>Properties\<close>

text \<open>
  C32: certificates that are made are accepted.  Verified votes for a stored block, at least two, by
  disjoint sets of signers that reach the quorum together, combine to a certificate for the block
  that \<open>VerifyQuorumCert\<close> accepts, and it carries the view of the block; votes whose signers overlap
  are refused.
\<close>

theorem created_certificate_is_verified:
  assumes chain: "gm_get (bc_blocks chain) (b_hash block) = Some block"
    and block: "b_hash block \<noteq> b_hash (GetGenesis (cf_sha cf))"
    and votes: "2 \<le> length sigs" "\<And>m. m \<in> set sigs \<Longrightarrow> Verify cf (Some m) (block_ToBytes block) = Return True"
    and quorum: "cfg_QuorumSize cf \<le> int (length (concat sigs))"
  shows "case CreateQuorumCert cf block (map (\<lambda>m. NewPartialCert m (b_hash block)) sigs) of
      Return qc \<Rightarrow> distinct (map fst (concat sigs)) \<and> qc_view qc = b_view block
        \<and> VerifyQuorumCert cf fetch qc chain = Return (chain, True)
    | Error e \<Rightarrow> e = ErrCombineOverlap \<and> \<not> distinct (map fst (concat sigs))
    | Panic \<Rightarrow> False"
proof -
  let ?votes = "map (\<lambda>m. NewPartialCert m (b_hash block)) sigs"
  have sig: "map pc_signature ?votes = map Some sigs" by (simp add: NewPartialCert_def)
  show ?thesis
  proof (cases "distinct (map fst (concat sigs))")
    case False
    then show ?thesis using votes(1) block unfolding CreateQuorumCert_def sig Combine_eq by simp
  next
    case True
    let ?qc = "\<lparr>qc_signature = Some (concat sigs), qc_view = b_view block, qc_hash = b_hash block\<rparr>"
    have made: "CreateQuorumCert cf block ?votes = Return ?qc"
      using True votes(1) block unfolding CreateQuorumCert_def sig Combine_eq by simp
    obtain m ms where "sigs = m # ms" using votes(1) by (cases sigs) auto
    then have "concat sigs \<noteq> []" using votes(2) [of m] by (auto simp: Verify_True)
    then have v: "Verify cf (Some (concat sigs)) (block_ToBytes block) = Return True" using votes(2) by (auto simp: Verify_True)
    have "VerifyQuorumCert cf fetch ?qc chain = Return (chain, True)"
      using block quorum by (simp add: VerifyQuorumCert_def Get_stored [OF chain] v)
    then show ?thesis unfolding made using True by simp
  qed
qed

definition example_cfg :: crypto_cfg where
  \<comment> \<open>four replicas; a signature (r, s) of a hash is valid when r is the first byte of the hash and s the signer\<close>
  "example_cfg = \<lparr>cf_sha = example_sha, cf_verify = (\<lambda>i h rs. fst rs = unat (h ! 1) \<and> snd rs = unat i),
     cf_sign = (\<lambda>k h. Some (unat (h ! 1), 1)), cf_replicas = [1, 2, 3, 4], cf_self = 1\<rparr>"

definition example_block :: Block where
  "example_block = example_child (GetGenesis example_sha) 3"

theorem created_certificate_is_verified_witness:
  "case CreateQuorumCert example_cfg example_block (map (\<lambda>m. NewPartialCert m (b_hash example_block)) [[(1, 3, 1)], [(2, 3, 2)], [(4, 3, 4)]]) of
     Return qc \<Rightarrow> qc_view qc = 3 \<and> VerifyQuorumCert example_cfg (\<lambda>_ _. None) qc (Store example_block (NewBlockChain example_sha))
       = Return (Store example_block (NewBlockChain example_sha), True)
   | _ \<Rightarrow> False"
proof -
  let ?chain = "Store example_block (NewBlockChain example_sha)" and ?sigs = "[[(1, 3, 1)], [(2, 3, 2)], [(4, 3, 4)]] :: Multi list"
  have chain: "gm_get (bc_blocks ?chain) (b_hash example_block) = Some example_block"
    by (simp add: Store_def)
  have block: "b_hash example_block \<noteq> b_hash (GetGenesis (cf_sha example_cfg))" by code_simp
  have "\<forall>m \<in> set ?sigs. Verify example_cfg (Some m) (block_ToBytes example_block) = Return True" by code_simp
  then have votes: "Verify example_cfg (Some m) (block_ToBytes example_block) = Return True" if "m \<in> set ?sigs" for m
    using that by blast
  have "2 \<le> length ?sigs" by simp
  moreover have "cfg_QuorumSize example_cfg \<le> int (length (concat ?sigs))" by code_simp
  ultimately have "case CreateQuorumCert example_cfg example_block (map (\<lambda>m. NewPartialCert m (b_hash example_block)) ?sigs) of
      Return qc \<Rightarrow> distinct (map fst (concat ?sigs)) \<and> qc_view qc = b_view example_block
        \<and> VerifyQuorumCert example_cfg (\<lambda>_ _. None) qc ?chain = Return (?chain, True)
    | Error e \<Rightarrow> e = ErrCombineOverlap \<and> \<not> distinct (map fst (concat ?sigs)) | Panic \<Rightarrow> False"
    using created_certificate_is_verified [OF chain block _ votes] by blast
  moreover have "distinct (map fst (concat ?sigs))" "b_view example_block = 3" by code_simp+
  ultimately show ?thesis by (auto split: outcome.splits)
qed

end
