(* ===== verification/HsCache.thy ===== *)
theory HsCache
  imports HsCrypto
begin

text \<open>
  The cache of verified signatures, crypto/cache.go, that a replica puts in front of its signature
  scheme, and what its keys leave out.

  The map of entries and the list of their access order hold the same keys; the model keeps the list,
  the most recently used key first.
\<close>

section \<open>Operations\<close>

record cache =
  ca_capacity :: int
  ca_accessOrder :: "bytes list"

definition NewCache :: "int \<Rightarrow> cache" where
  "NewCache capacity = \<lparr>ca_capacity = capacity, ca_accessOrder = []\<rparr>"

definition MoveToFront :: "bytes \<Rightarrow> cache \<Rightarrow> cache" where
  "MoveToFront key ca = ca\<lparr>ca_accessOrder := key # remove1 key (ca_accessOrder ca)\<rparr>"

definition cache_evict :: "cache \<Rightarrow> (hs_error, cache) outcome" where
  \<comment> \<open>removing the last element of an empty list dereferences nil\<close>
  "cache_evict ca =
     (if int (length (ca_accessOrder ca)) < ca_capacity ca then Return ca
      else if ca_accessOrder ca = [] then Panic
      else Return (ca\<lparr>ca_accessOrder := butlast (ca_accessOrder ca)\<rparr>))"

definition cache_insert :: "bytes \<Rightarrow> cache \<Rightarrow> (hs_error, cache) outcome" where
  "cache_insert key ca =
     (if key \<in> set (ca_accessOrder ca) then Return (MoveToFront key ca)
      else bind_o (cache_evict ca) (\<lambda>ca'. Return (ca'\<lparr>ca_accessOrder := key # ca_accessOrder ca'\<rparr>)))"

definition cache_check :: "bytes \<Rightarrow> cache \<Rightarrow> cache \<times> bool" where
  "cache_check key ca = (if key \<notin> set (ca_accessOrder ca) then (ca, False) else (MoveToFront key ca, True))"

definition message_key :: "crypto_cfg \<Rightarrow> bytes \<Rightarrow> Multi \<Rightarrow> bytes" where
  "message_key cf message sig = cf_sha cf message @ multi_ToBytes sig"

definition batch_key :: "Multi \<Rightarrow> bytes" where
  \<comment> \<open>\<open>hasher.Sum(hash[:])\<close> returns the digest appended to a copy of the array; the array stays zero\<close>
  "batch_key sig = zero_hash @ multi_ToBytes sig"

definition cache_Sign :: "crypto_cfg \<Rightarrow> nat \<Rightarrow> bytes \<Rightarrow> cache \<Rightarrow> (hs_error, cache \<times> Multi) outcome" where
  "cache_Sign cf k message ca =
     bind_o (Sign cf k message) (\<lambda>sig.
     bind_o (cache_insert (message_key cf message sig) ca) (\<lambda>ca'. Return (ca', sig)))"

definition cache_Verify :: "crypto_cfg \<Rightarrow> Multi option \<Rightarrow> bytes \<Rightarrow> cache \<Rightarrow> (hs_error, cache \<times> bool) outcome" where
  "cache_Verify cf signature message ca =
     (case signature of
        None \<Rightarrow> Panic
      | Some s \<Rightarrow>
          (case cache_check (message_key cf message s) ca of
             (ca1, True) \<Rightarrow> Return (ca1, True)
           | (ca1, False) \<Rightarrow>
               bind_o (Verify cf signature message) (\<lambda>ok.
               if ok then bind_o (cache_insert (message_key cf message s) ca1) (\<lambda>ca2. Return (ca2, True))
               else Return (ca1, False))))"

definition cache_BatchVerify ::
    "crypto_cfg \<Rightarrow> Multi option \<Rightarrow> (ID, bytes) gomap \<Rightarrow> cache \<Rightarrow> (hs_error, cache \<times> bool) outcome" where
  "cache_BatchVerify cf signature batch ca =
     (case signature of
        None \<Rightarrow> Panic
      | Some s \<Rightarrow>
          (case cache_check (batch_key s) ca of
             (ca1, True) \<Rightarrow> Return (ca1, True)
           | (ca1, False) \<Rightarrow>
               bind_o (BatchVerify cf signature batch) (\<lambda>ok.
               if ok then bind_o (cache_insert (batch_key s) ca1) (\<lambda>ca2. Return (ca2, True))
               else Return (ca1, False))))"

definition cached_VerifyQuorumCert ::
    "crypto_cfg \<Rightarrow> fetcher \<Rightarrow> QuorumCert \<Rightarrow> blockChain \<Rightarrow> cache \<Rightarrow> (hs_error, blockChain \<times> cache \<times> bool) outcome" where
  \<comment> \<open>\<open>VerifyQuorumCert\<close> of a crypto module whose base is the cache\<close>
  "cached_VerifyQuorumCert cf fetch qc chain ca =
     (if qc_hash qc = b_hash (GetGenesis (cf_sha cf)) then Return (chain, ca, True)
      else case qc_signature qc of
        None \<Rightarrow> Panic
      | Some s \<Rightarrow>
          if int (length s) < cfg_QuorumSize cf then Return (chain, ca, False)
          else case Get fetch (qc_hash qc) chain of
                 (chain', None) \<Rightarrow> Return (chain', ca, False)
               | (chain', Some block) \<Rightarrow>
                   bind_o (cache_Verify cf (Some s) (block_ToBytes block) ca) (\<lambda>(ca', ok). Return (chain', ca', ok)))"

section \<open>The invariant\<close>

definition backed :: "crypto_cfg \<Rightarrow> bytes \<Rightarrow> bool" where
  \<comment> \<open>a key that was put there after a verification or a signature\<close>
  "backed cf key \<longleftrightarrow>
     (\<exists>s m. key = message_key cf m s \<and> (Verify cf (Some s) m = Return True \<or> (\<exists>k. Sign cf k m = Return s)))
     \<or> (\<exists>s b. key = batch_key s \<and> BatchVerify cf (Some s) b = Return True)"

lemma backedI [intro]:
  "Verify cf (Some s) m = Return True \<Longrightarrow> backed cf (message_key cf m s)"
  "BatchVerify cf (Some s) b = Return True \<Longrightarrow> backed cf (batch_key s)"
  "Sign cf k m = Return s \<Longrightarrow> backed cf (message_key cf m s)"
  unfolding backed_def by blast+

definition cache_inv :: "crypto_cfg \<Rightarrow> cache \<Rightarrow> bool" where
  "cache_inv cf ca \<longleftrightarrow> 1 \<le> ca_capacity ca \<and> distinct (ca_accessOrder ca)
     \<and> int (length (ca_accessOrder ca)) \<le> ca_capacity ca \<and> (\<forall>key \<in> set (ca_accessOrder ca). backed cf key)"

lemma MoveToFront_inv: "cache_inv cf ca \<Longrightarrow> key \<in> set (ca_accessOrder ca) \<Longrightarrow> cache_inv cf (MoveToFront key ca)"
  by (auto simp: cache_inv_def MoveToFront_def length_remove1 dest: notin_set_remove1 intro: length_pos_if_in_set)

lemma cache_insert_inv:
  assumes inv: "cache_inv cf ca" and key: "backed cf key"
  obtains ca' where "cache_insert key ca = Return ca'" "cache_inv cf ca'" "key \<in> set (ca_accessOrder ca')"
proof (cases "key \<in> set (ca_accessOrder ca)")
  case True
  then show thesis using that [of "MoveToFront key ca"] MoveToFront_inv [OF inv True]
    by (simp add: cache_insert_def MoveToFront_def)
next
  case False
  let ?l = "ca_accessOrder ca"
  show thesis
  proof (cases "int (length ?l) < ca_capacity ca")
    case True
    then show thesis using that [of "ca\<lparr>ca_accessOrder := key # ?l\<rparr>"] False inv key
      by (simp add: cache_insert_def cache_evict_def cache_inv_def)
  next
    case full: False
    then have ne: "?l \<noteq> []" using inv by (auto simp: cache_inv_def)
    let ?ca = "ca\<lparr>ca_accessOrder := key # butlast ?l\<rparr>"
    have "cache_insert key ca = Return ?ca" using False full ne by (simp add: cache_insert_def cache_evict_def)
    moreover have "cache_inv cf ?ca"
      using inv key False ne by (auto simp: cache_inv_def distinct_butlast dest: in_set_butlastD)
    ultimately show thesis using that by simp
  qed
qed

lemma cache_check_hit: "key \<in> set (ca_accessOrder ca) \<Longrightarrow> cache_check key ca = (MoveToFront key ca, True)"
  by (simp add: cache_check_def)

section \<open>Properties\<close>

text \<open>
  The cache is bounded and never fails.  With a capacity of at least one, signing and verifying
  keep at most that many keys, all different, each put there by a verification or a signature, and
  no operation on a signature that is not nil panics.
\<close>

theorem cache_operations_keep_invariant:
  assumes inv: "cache_inv cf ca"
  shows "(case cache_Verify cf (Some s) m ca of Return (ca', ok) \<Rightarrow> cache_inv cf ca' | _ \<Rightarrow> False)
    \<and> (case cache_BatchVerify cf (Some s) b ca of Return (ca', ok) \<Rightarrow> cache_inv cf ca' | _ \<Rightarrow> False)
    \<and> (case cache_Sign cf k m ca of Return (ca', sig) \<Rightarrow> cache_inv cf ca' | Error e \<Rightarrow> e = ErrSign | Panic \<Rightarrow> False)"
proof (intro conjI)
  obtain v where v: "Verify cf (Some s) m = Return v" using that by (cases "s = []") (auto simp: Verify_def)
  show "case cache_Verify cf (Some s) m ca of Return (ca', ok) \<Rightarrow> cache_inv cf ca' | _ \<Rightarrow> False"
  proof (cases "message_key cf m s \<in> set (ca_accessOrder ca)")
    case True
    then show ?thesis using MoveToFront_inv [OF inv] by (simp add: cache_Verify_def cache_check_def)
  next
    case False
    show ?thesis
    proof (cases v)
      case True
      then have "backed cf (message_key cf m s)" using v by (simp only: backedI(1))
      then obtain ca' where "cache_insert (message_key cf m s) ca = Return ca'" "cache_inv cf ca'"
        by (rule cache_insert_inv [OF inv])
      then show ?thesis using False True v by (simp add: cache_Verify_def cache_check_def)
    qed (use False v inv in \<open>simp add: cache_Verify_def cache_check_def\<close>)
  qed
next
  obtain v where v: "BatchVerify cf (Some s) b = Return v" using that
    by (cases "s = []"; cases "\<exists>sig \<in> set s. gm_get b (fst sig) = None") (auto simp: BatchVerify_def Let_def)
  show "case cache_BatchVerify cf (Some s) b ca of Return (ca', ok) \<Rightarrow> cache_inv cf ca' | _ \<Rightarrow> False"
  proof (cases "batch_key s \<in> set (ca_accessOrder ca)")
    case True
    then show ?thesis using MoveToFront_inv [OF inv] by (simp add: cache_BatchVerify_def cache_check_def)
  next
    case False
    show ?thesis
    proof (cases v)
      case True
      then have "backed cf (batch_key s)" using v by (simp only: backedI(2))
      then obtain ca' where "cache_insert (batch_key s) ca = Return ca'" "cache_inv cf ca'"
        by (rule cache_insert_inv [OF inv])
      then show ?thesis using False True v by (simp add: cache_BatchVerify_def cache_check_def)
    qed (use False v inv in \<open>simp add: cache_BatchVerify_def cache_check_def\<close>)
  qed
next
  show "case cache_Sign cf k m ca of Return (ca', sig) \<Rightarrow> cache_inv cf ca' | Error e \<Rightarrow> e = ErrSign | Panic \<Rightarrow> False"
  proof (cases "Sign cf k m")
    case (Return sig)
    then have "backed cf (message_key cf m sig)" by (rule backedI(3))
    then obtain ca' where "cache_insert (message_key cf m sig) ca = Return ca'" "cache_inv cf ca'"
      by (rule cache_insert_inv [OF inv])
    then show ?thesis using Return by (simp add: cache_Sign_def)
  qed (auto simp: cache_Sign_def Sign_def split: option.splits)
qed

theorem cache_operations_keep_invariant_witness:
  "case cache_Verify example_cfg (Some [(1, 3, 1)]) (block_ToBytes example_block) (NewCache 1) of
     Return (ca', ok) \<Rightarrow> cache_inv example_cfg ca' | _ \<Rightarrow> False"
proof -
  have "cache_inv example_cfg (NewCache 1)" by (simp add: cache_inv_def NewCache_def)
  from cache_operations_keep_invariant [OF this] show ?thesis by blast
qed

text \<open>
  C33: one cached signature passes for a quorum.  The key of the cache has the bytes of the signatures
  and not the signers, and a zero number has no bytes.  Once the signature of one replica for a
  block is in the cache, a certificate that claims the same signature and zeros for the other
  signers of any set of quorum size is accepted, with any view.
\<close>

theorem one_cached_signature_passes_for_a_quorum:
  assumes single: "cache_Verify cf (Some [(i, rs)]) (block_ToBytes block) ca = Return (ca', True)"
    and chain: "gm_get (bc_blocks chain) (b_hash block) = Some block" and signers: "i \<in> set R" "distinct R" "cfg_QuorumSize cf \<le> int (length R)"
  shows "\<exists>ca''. cached_VerifyQuorumCert cf fetch
      \<lparr>qc_signature = Some (map (\<lambda>j. (j, if j = i then rs else (0, 0))) R), qc_view = v, qc_hash = b_hash block\<rparr> chain ca'
    = Return (chain, ca'', True)"
proof -
  let ?f = "map (\<lambda>j. (j, if j = i then rs else (0, 0))) R"
  have part: "concat (map (\<lambda>j. if j = i then x else []) l) = (if i \<in> set l then x else [])" if "distinct l" for l and x :: bytes
    using that by (induction l) auto
  have look: "gm_get ?f j = (if j \<in> set R then Some (if j = i then rs else (0, 0)) else None)" for j
    by (induction R) (auto simp: gm_get_def)
  have keys: "map fst ?f = R" by (induction R) auto
  have zero: "sig_ToBytes (0, 0) = []" by (simp add: sig_ToBytes_def big_Bytes.simps)
  have "multi_ToBytes ?f = concat (map (\<lambda>j. if j = i then sig_ToBytes rs else []) (sort R))"
    unfolding multi_ToBytes_def keys look by (intro arg_cong [where f = concat] map_cong) (auto simp: zero)
  also have "\<dots> = sig_ToBytes rs" using part [of "sort R"] signers(1,2) by simp
  also have "\<dots> = multi_ToBytes [(i, rs)]" by (simp add: multi_ToBytes_def gm_get_def)
  finally have bytes: "message_key cf m ?f = message_key cf m [(i, rs)]" for m by (simp add: message_key_def)
  have hit: "message_key cf (block_ToBytes block) ?f \<in> set (ca_accessOrder ca')"
    using single unfolding bytes cache_Verify_def
    by (auto simp: cache_check_def cache_insert_def MoveToFront_def bind_o_Return_iff split: if_splits)
  then have "cache_Verify cf (Some ?f) (block_ToBytes block) ca' = Return (MoveToFront (message_key cf (block_ToBytes block) ?f) ca', True)"
    by (simp add: cache_Verify_def cache_check_hit)
  then show ?thesis using signers(3) Get_stored [OF chain] by (simp add: cached_VerifyQuorumCert_def)
qed

theorem one_cached_signature_passes_for_a_quorum_witness:
  "\<exists>ca' ca''. cache_Verify example_cfg (Some [(1, 3, 1)]) (block_ToBytes example_block) (NewCache 100) = Return (ca', True)
    \<and> cached_VerifyQuorumCert example_cfg (\<lambda>_ _. None)
        \<lparr>qc_signature = Some (map (\<lambda>j. (j, if j = 1 then (3, 1) else (0, 0))) [1, 2, 3]), qc_view = 99, qc_hash = b_hash example_block\<rparr>
        (Store example_block (NewBlockChain example_sha)) ca'
      = Return (Store example_block (NewBlockChain example_sha), ca'', True)"
proof -
  have "Verify example_cfg (Some [(1, 3, 1)]) (block_ToBytes example_block) = Return True" by code_simp
  then obtain ca' where s: "cache_Verify example_cfg (Some [(1, 3, 1)]) (block_ToBytes example_block) (NewCache 100) = Return (ca', True)"
    by (simp add: cache_Verify_def cache_check_def cache_insert_def cache_evict_def NewCache_def)
  have "gm_get (bc_blocks (Store example_block (NewBlockChain example_sha))) (b_hash example_block) = Some example_block"
    by (simp add: Store_def)
  moreover have "(1 :: ID) \<in> set [1, 2, 3]" "distinct [1, 2, 3 :: ID]" by simp_all
  moreover have "cfg_QuorumSize example_cfg \<le> int (length [1, 2, 3 :: ID])" by code_simp
  ultimately show ?thesis using one_cached_signature_passes_for_a_quorum [OF s] s by blast
qed

text \<open>
  C34: the cached batch verification forgets the messages.  Its key does not depend on the batch, so a
  quorum signature accepted once for a batch of timeout messages is accepted for every other batch
  while the key is cached.
\<close>

theorem cached_batch_ignores_messages:
  assumes "cache_BatchVerify cf (Some s) batch ca = Return (ca', True)"
  shows "\<exists>ca''. cache_BatchVerify cf (Some s) batch' ca' = Return (ca'', True)"
proof -
  have "batch_key s \<in> set (ca_accessOrder ca')"
    using assms unfolding cache_BatchVerify_def
    by (auto simp: cache_check_def cache_insert_def MoveToFront_def bind_o_Return_iff split: if_splits)
  then show ?thesis by (simp add: cache_BatchVerify_def cache_check_hit)
qed

theorem cached_batch_ignores_messages_witness:
  "\<exists>ca' ca''. cache_BatchVerify example_cfg (Some [(2, 7, 2)]) [(2, replicate 36 0 @ [7])] (NewCache 5) = Return (ca', True)
    \<and> cache_BatchVerify example_cfg (Some [(2, 7, 2)]) [(2, [1, 2, 3])] ca' = Return (ca'', True)
    \<and> BatchVerify example_cfg (Some [(2, 7, 2)]) [(2, [1, 2, 3])] = Return False"
proof -
  have v: "BatchVerify example_cfg (Some [(2, 7, 2)]) [(2, replicate 36 0 @ [7])] = Return True"
    "BatchVerify example_cfg (Some [(2, 7, 2)]) [(2, [1, 2, 3])] = Return False" by code_simp+
  from v(1) obtain ca' where s: "cache_BatchVerify example_cfg (Some [(2, 7, 2)]) [(2, replicate 36 0 @ [7])] (NewCache 5) = Return (ca', True)"
    by (simp add: cache_BatchVerify_def cache_check_def cache_insert_def cache_evict_def NewCache_def)
  from cached_batch_ignores_messages [OF s] show ?thesis using s v(2) by blast
qed

end
