(* ===== verification/CmdCache.thy ===== *)
theory CmdCache
  imports HsTypes
begin

text \<open>
  The queue of client commands of a HotStuff replica, replica/cmdcache.go: it collects commands,
  hands out batches to propose, and remembers the highest proposed sequence number of every client.

  \<open>cmd_Get\<close> may wait for more commands.  What arrives while it waits is its argument: a list of
  groups, one for every wait, and when the groups are used up the context of the call is done.
  Encoding a batch is the protobuf library's and a parameter.
\<close>

section \<open>Operations\<close>

record clientCommand =
  cmd_ClientID :: "32 word"
  cmd_SequenceNumber :: "64 word"
  cmd_Data :: bytes

type_synonym batch = "clientCommand list"

record cmdCache =
  cc_batchSize :: int
  cc_serialNumbers :: "(32 word, 64 word) gomap"
  cc_cache :: batch

definition newCmdCache :: "int \<Rightarrow> cmdCache" where
  "newCmdCache batchSize = \<lparr>cc_batchSize = batchSize, cc_serialNumbers = [], cc_cache = []\<rparr>"

definition serialNo :: "(32 word, 64 word) gomap \<Rightarrow> clientCommand \<Rightarrow> 64 word" where
  \<comment> \<open>reading a map: zero for a missing key\<close>
  "serialNo serials cmd = (case gm_get serials (cmd_ClientID cmd) of None \<Rightarrow> 0 | Some n \<Rightarrow> n)"

definition is_old :: "(32 word, 64 word) gomap \<Rightarrow> clientCommand \<Rightarrow> bool" where
  "is_old serials cmd \<longleftrightarrow> serialNo serials cmd \<ge> cmd_SequenceNumber cmd"

definition addCommand :: "clientCommand \<Rightarrow> cmdCache \<Rightarrow> cmdCache" where
  "addCommand cmd c =
     (if is_old (cc_serialNumbers c) cmd then c else c\<lparr>cc_cache := cc_cache c @ [cmd]\<rparr>)"

fun take_batch :: "(32 word, 64 word) gomap \<Rightarrow> nat \<Rightarrow> batch \<Rightarrow> batch \<times> batch" where
  \<comment> \<open>the loop that fills a batch: the batch and what stays in the cache\<close>
  "take_batch serials 0 cache = ([], cache)"
| "take_batch serials (Suc n) [] = ([], [])"
| "take_batch serials (Suc n) (cmd # cache) =
     (if is_old serials cmd then take_batch serials (Suc n) cache
      else let (b, rest) = take_batch serials n cache in (cmd # b, rest))"

partial_function (option) get_batch :: "cmdCache \<Rightarrow> batch list \<Rightarrow> (cmdCache \<times> batch option) option" where
  "get_batch c arrivals =
     (if int (length (cc_cache c)) \<le> cc_batchSize c
      then (case arrivals of
              [] \<Rightarrow> Some (c, None)
            | g # later \<Rightarrow> get_batch (fold addCommand g c) later)
      else (let (b, rest) = take_batch (cc_serialNumbers c) (nat (cc_batchSize c)) (cc_cache c);
                c' = c\<lparr>cc_cache := rest\<rparr>
            in if b = [] then get_batch c' arrivals else Some (c', Some b)))"

definition cmd_Get ::
    "(batch \<Rightarrow> Command option) \<Rightarrow> cmdCache \<Rightarrow> batch list \<Rightarrow> (cmdCache \<times> Command \<times> bool) option" where
  "cmd_Get marshal c arrivals =
     map_option (\<lambda>(c', r). case r of
         None \<Rightarrow> (c', [], False)
       | Some b \<Rightarrow> (case marshal b of None \<Rightarrow> (c', [], False) | Some cmd \<Rightarrow> (c', cmd, True)))
       (get_batch c arrivals)"

definition Accept :: "(Command \<Rightarrow> batch option) \<Rightarrow> Command \<Rightarrow> cmdCache \<Rightarrow> bool" where
  "Accept unmarshal cmd c =
     (case unmarshal cmd of
        None \<Rightarrow> False
      | Some b \<Rightarrow> \<not> (\<exists>x \<in> set b. is_old (cc_serialNumbers c) x))"

definition propose_one :: "clientCommand \<Rightarrow> (32 word, 64 word) gomap \<Rightarrow> (32 word, 64 word) gomap" where
  "propose_one cmd serials =
     (if serialNo serials cmd < cmd_SequenceNumber cmd then gm_put (cmd_ClientID cmd) (cmd_SequenceNumber cmd) serials
      else serials)"

definition Proposed :: "(Command \<Rightarrow> batch option) \<Rightarrow> Command \<Rightarrow> cmdCache \<Rightarrow> cmdCache" where
  "Proposed unmarshal cmd c =
     (case unmarshal cmd of
        None \<Rightarrow> c
      | Some b \<Rightarrow> c\<lparr>cc_serialNumbers := fold propose_one b (cc_serialNumbers c)\<rparr>)"

section \<open>Batches\<close>

lemma take_batch_sound:
  "take_batch serials n cache = (b, rest) \<Longrightarrow>
     length b \<le> n \<and> (\<forall>x \<in> set b. \<not> is_old serials x) \<and> length b + length rest \<le> length cache"
proof (induction serials n cache arbitrary: b rest rule: take_batch.induct)
  case (3 serials n cmd cache)
  show ?case
  proof (cases "is_old serials cmd")
    case True
    then show ?thesis using 3(1) [OF True] 3(3) by force
  next
    case False
    obtain b' rest' where t: "take_batch serials n cache = (b', rest')" by force
    then have "b = cmd # b'" "rest = rest'" using 3(3) False by auto
    then show ?thesis using 3(2) [OF False t] False by auto
  qed
qed auto

lemma take_batch_empty: "take_batch serials n cache = ([], rest) \<Longrightarrow> 0 < n \<Longrightarrow> rest = []"
proof (induction serials n cache rule: take_batch.induct)
  case (3 serials n cmd cache)
  then show ?case by (cases "is_old serials cmd") (auto simp: case_prod_beta Let_def)
qed auto

lemma fold_addCommand [simp]:
  "cc_batchSize (fold addCommand g c) = cc_batchSize c"
  "cc_serialNumbers (fold addCommand g c) = cc_serialNumbers c"
  by (induction g arbitrary: c) (auto simp: addCommand_def)

lemma get_batch_induct [consumes 1, case_names finish wait retry taken]:
  assumes run: "get_batch c arrivals = Some (c', r)"
    and dn: "\<And>c. int (length (cc_cache c)) \<le> cc_batchSize c \<Longrightarrow> P c [] c None"
    and wait: "\<And>c g gs c' r. int (length (cc_cache c)) \<le> cc_batchSize c \<Longrightarrow> P (fold addCommand g c) gs c' r \<Longrightarrow> P c (g # gs) c' r"
    and retry: "\<And>c gs rest c' r. \<not> int (length (cc_cache c)) \<le> cc_batchSize c \<Longrightarrow>
      take_batch (cc_serialNumbers c) (nat (cc_batchSize c)) (cc_cache c) = ([], rest) \<Longrightarrow>
      P (c\<lparr>cc_cache := rest\<rparr>) gs c' r \<Longrightarrow> P c gs c' r"
    and taken: "\<And>c gs b rest. \<not> int (length (cc_cache c)) \<le> cc_batchSize c \<Longrightarrow>
      take_batch (cc_serialNumbers c) (nat (cc_batchSize c)) (cc_cache c) = (b, rest) \<Longrightarrow> b \<noteq> [] \<Longrightarrow>
      P c gs (c\<lparr>cc_cache := rest\<rparr>) (Some b)"
  shows "P c arrivals c' r"
proof -
  have "P c arrivals (fst (c', r)) (snd (c', r))"
  proof (rule get_batch.raw_induct [where P = "\<lambda>c gs y. P c gs (fst y) (snd y)", OF _ run], goal_cases)
    case (1 loop c gs y)
    obtain b rest where tb: "take_batch (cc_serialNumbers c) (nat (cc_batchSize c)) (cc_cache c) = (b, rest)" by force
    show ?case
    proof (cases "int (length (cc_cache c)) \<le> cc_batchSize c")
      case True
      then show ?thesis using 1 dn [OF True] wait [OF True] by (cases gs) auto
    next
      case False
      then show ?thesis using 1 tb retry [OF False] taken [OF False] by (cases "b = []") auto
    qed
  qed
  then show ?thesis by simp
qed

lemma get_batch_sound:
  assumes "get_batch c arrivals = Some (c', r)"
  shows "cc_serialNumbers c' = cc_serialNumbers c \<and> cc_batchSize c' = cc_batchSize c
    \<and> (\<forall>b. r = Some b \<longrightarrow> b \<noteq> [] \<and> int (length b) \<le> cc_batchSize c \<and> (\<forall>x \<in> set b. \<not> is_old (cc_serialNumbers c) x))"
  using assms
proof (induction rule: get_batch_induct)
  case (taken c gs b rest)
  have "0 \<le> cc_batchSize c" using take_batch_sound [OF taken(2)] taken(3) by (cases "cc_batchSize c < 0") auto
  then show ?case using take_batch_sound [OF taken(2)] taken(3) by auto
qed auto

lemma get_batch_returns:
  assumes "0 < cc_batchSize c"
  shows "\<exists>y. get_batch c arrivals = Some y"
  using assms
proof (induction arrivals arbitrary: c)
  case Nil
  obtain b rest where tb: "take_batch (cc_serialNumbers c) (nat (cc_batchSize c)) (cc_cache c) = (b, rest)" by force
  show ?case
  proof (cases "int (length (cc_cache c)) \<le> cc_batchSize c")
    case True
    then show ?thesis by (subst get_batch.simps) simp
  next
    case False
    have "b = [] \<Longrightarrow> rest = []" using take_batch_empty tb Nil by simp
    moreover have "get_batch (c\<lparr>cc_cache := []\<rparr>) [] = Some (c\<lparr>cc_cache := []\<rparr>, None)"
      using Nil by (subst get_batch.simps) simp
    ultimately show ?thesis using False tb by (subst get_batch.simps) (cases "b = []"; simp add: Let_def)
  qed
next
  case (Cons g gs)
  obtain b rest where tb: "take_batch (cc_serialNumbers c) (nat (cc_batchSize c)) (cc_cache c) = (b, rest)" by force
  have later: "\<exists>y. get_batch c' (g # gs) = Some y" if "int (length (cc_cache c')) \<le> cc_batchSize c'" "cc_batchSize c' = cc_batchSize c" for c'
    using Cons.IH [of "fold addCommand g c'"] Cons.prems that by (subst get_batch.simps) simp
  show ?case
  proof (cases "int (length (cc_cache c)) \<le> cc_batchSize c")
    case True
    then show ?thesis using later by blast
  next
    case False
    have "b = [] \<Longrightarrow> rest = []" using take_batch_empty tb Cons.prems by simp
    then show ?thesis using False tb later [of "c\<lparr>cc_cache := []\<rparr>"] Cons.prems
      by (subst get_batch.simps) (cases "b = []"; simp add: Let_def)
  qed
qed

section \<open>Sequence numbers\<close>

inductive cc_run :: "(batch \<Rightarrow> Command option) \<Rightarrow> (Command \<Rightarrow> batch option) \<Rightarrow> cmdCache \<Rightarrow> cmdCache \<Rightarrow> bool"
  for marshal unmarshal where
  refl: "cc_run marshal unmarshal c c"
| add: "cc_run marshal unmarshal c c' \<Longrightarrow> cc_run marshal unmarshal c (addCommand cmd c')"
| get: "cc_run marshal unmarshal c c' \<Longrightarrow> cmd_Get marshal c' arrivals = Some (c'', cmd, ok) \<Longrightarrow> cc_run marshal unmarshal c c''"
| proposed: "cc_run marshal unmarshal c c' \<Longrightarrow> cc_run marshal unmarshal c (Proposed unmarshal cmd c')"

lemma propose_one_old: "is_old s x \<Longrightarrow> is_old (propose_one cmd s) x"
  by (auto simp: is_old_def propose_one_def serialNo_def gm_get_put split: option.splits if_splits)

lemma propose_one_self: "is_old (propose_one cmd s) cmd"
  by (auto simp: is_old_def propose_one_def serialNo_def)

lemma fold_propose_old: "is_old s x \<or> x \<in> set b \<Longrightarrow> is_old (fold propose_one b s) x"
  by (induction b arbitrary: s) (auto intro: propose_one_old propose_one_self)

lemma cmd_Get_batch:
  assumes "cmd_Get marshal c arrivals = Some (c', cmd, ok)"
  obtains r where "get_batch c arrivals = Some (c', r)" "ok \<longleftrightarrow> (\<exists>b. r = Some b \<and> marshal b = Some cmd)"
  using assms by (auto simp: cmd_Get_def split: option.splits prod.splits)

lemma cc_run_old:
  assumes "cc_run marshal unmarshal c c'"
  shows "is_old (cc_serialNumbers c) x \<Longrightarrow> is_old (cc_serialNumbers c') x"
  using assms
proof (induction rule: cc_run.induct)
  case (add c c' cmd)
  then show ?case by (simp add: addCommand_def)
next
  case (get c c' arrivals c'' cmd ok)
  from get.hyps(2) obtain r where "get_batch c' arrivals = Some (c'', r)" by (rule cmd_Get_batch)
  then show ?case using get get_batch_sound by metis
next
  case (proposed c c' cmd)
  then show ?case by (auto simp: Proposed_def intro: fold_propose_old split: option.splits)
qed simp

section \<open>Properties\<close>

text \<open>
  C35: a command is proposed once.  After a batch was reported as proposed, and whatever is added,
  taken and proposed later, no batch that \<open>cmd_Get\<close> hands out has a command of it, and no proposal
  that has a command of it is accepted.
\<close>

theorem proposed_commands_are_not_proposed_again:
  assumes b: "unmarshal cmd = Some b" "x \<in> set b" and run: "cc_run marshal unmarshal (Proposed unmarshal cmd c) c'"
  shows "(get_batch c' arrivals = Some (c'', Some b') \<longrightarrow> x \<notin> set b')
    \<and> (unmarshal cmd' = Some b'' \<and> x \<in> set b'' \<longrightarrow> \<not> Accept unmarshal cmd' c')"
proof -
  have "is_old (cc_serialNumbers (Proposed unmarshal cmd c)) x"
    using b by (simp add: Proposed_def fold_propose_old)
  then have old: "is_old (cc_serialNumbers c') x" by (rule cc_run_old [OF run])
  then show ?thesis using get_batch_sound by (auto simp: Accept_def)
qed

definition example_cmd :: "nat \<Rightarrow> clientCommand" where
  "example_cmd n = \<lparr>cmd_ClientID = 7, cmd_SequenceNumber = of_nat n, cmd_Data = []\<rparr>"

definition example_unmarshal :: "Command \<Rightarrow> batch option" where
  "example_unmarshal c = Some (map (\<lambda>x. example_cmd (unat x)) c)"

theorem proposed_commands_are_not_proposed_again_witness:
  "\<not> Accept example_unmarshal [2] (addCommand (example_cmd 3) (Proposed example_unmarshal [1, 2] (newCmdCache 2)))"
proof -
  let ?p = "Proposed example_unmarshal [1, 2] (newCmdCache 2)"
  have u: "example_unmarshal [1, 2] = Some (map example_cmd [1, 2])" "example_unmarshal [2] = Some [example_cmd 2]"
    by (simp_all add: example_unmarshal_def)
  have "example_cmd 2 \<in> set (map example_cmd [1, 2])" by simp
  moreover have "cc_run (\<lambda>_. None) example_unmarshal ?p (addCommand (example_cmd 3) ?p)" by (intro cc_run.intros)
  ultimately show ?thesis using proposed_commands_are_not_proposed_again
      [of example_unmarshal "[1, 2]" "map example_cmd [1, 2]" "example_cmd 2" "\<lambda>_. None" "newCmdCache 2"
        "addCommand (example_cmd 3) ?p" _ _ _ "[2]" "[example_cmd 2]"] u by simp
qed

text \<open>
  Taking a batch ends.  With a positive batch size, and whatever arrives while it waits,
  \<open>get_batch\<close> returns: either no batch when the context is done, or a batch that is not empty, not
  longer than the batch size, and holds only commands that were not proposed yet.
\<close>

theorem get_batch_ends:
  assumes "0 < cc_batchSize c"
  shows "\<exists>c' r. get_batch c arrivals = Some (c', r)
    \<and> (\<forall>b. r = Some b \<longrightarrow> b \<noteq> [] \<and> int (length b) \<le> cc_batchSize c \<and> (\<forall>x \<in> set b. \<not> is_old (cc_serialNumbers c) x))"
proof -
  obtain c' r where "get_batch c arrivals = Some (c', r)" using get_batch_returns [OF assms] by force
  then show ?thesis using get_batch_sound by blast
qed

theorem get_batch_ends_witness:
  "\<exists>c' r. get_batch (newCmdCache 1) [[example_cmd 1, example_cmd 2]] = Some (c', r)"
proof -
  have "0 < cc_batchSize (newCmdCache 1)" by (simp add: newCmdCache_def)
  from get_batch_ends [OF this] show ?thesis by blast
qed

lemma full_batch_waits:
  \<comment> \<open>a cache with exactly one batch is not handed out, although \<open>addCommand\<close> has signalled it\<close>
  "int (length (cc_cache c)) = cc_batchSize c \<Longrightarrow> get_batch c [] = Some (c, None)"
  by (subst get_batch.simps) simp

end
