(* ===== verification/EventQueue.thy ===== *)
theory EventQueue
  imports Prelude
begin

text \<open>
  The queue of the event loop, eventloop/queue.go: a ring buffer that drops its oldest entry when it
  is full.  An interface of bounded queues states what a client may rely on, the ring buffer
  implements it, and the facts about sequences of pushes and pops hold for every implementation.

  The channel that wakes up a waiting reader is not modelled.
\<close>

section \<open>The ring buffer\<close>

record 'a queue =
  q_entries :: "'a option list"
  q_head :: int
  q_tail :: int

definition newQueue :: "nat \<Rightarrow> 'a queue" where
  "newQueue capacity = \<lparr>q_entries = replicate capacity None, q_head = - 1, q_tail = - 1\<rparr>"

definition push :: "'a \<Rightarrow> 'a queue \<Rightarrow> ('e, 'a queue) outcome" where
  "push entry q =
     (let n = int (length (q_entries q))
      in if n = 0 then Panic
         else let pos = (if q_tail q + 1 = n then 0 else q_tail q + 1);
                  head = (if pos = q_head q then (if q_head q + 1 = n then 0 else q_head q + 1) else q_head q)
              in bind_o (upd_go (q_entries q) pos (Some entry)) (\<lambda>entries.
                 Return (q\<lparr>q_entries := entries, q_tail := pos, q_head := (if head = - 1 then pos else head)\<rparr>)))"

definition pop :: "'a queue \<Rightarrow> ('e, 'a queue \<times> 'a option) outcome" where
  "pop q =
     (if q_head q = - 1 then Return (q, None)
      else bind_o (nth_go (q_entries q) (q_head q)) (\<lambda>entry.
           Return (if q_head q = q_tail q then q\<lparr>q_head := - 1, q_tail := - 1\<rparr>
                   else q\<lparr>q_head := (if q_head q + 1 = int (length (q_entries q)) then 0 else q_head q + 1)\<rparr>, entry)))"

definition queue_len :: "'a queue \<Rightarrow> int" where
  "queue_len q =
     (if q_head q = - 1 then 0
      else if q_head q \<le> q_tail q then q_tail q - q_head q + 1
      else int (length (q_entries q)) - q_head q + q_tail q + 1)"

section \<open>The interface\<close>

definition push_list :: "nat \<Rightarrow> 'a \<Rightarrow> 'a list \<Rightarrow> 'a list" where
  \<comment> \<open>a queue of bounded length that forgets its oldest entry when it is full\<close>
  "push_list c x xs = (if length xs < c then xs @ [x] else tl xs @ [x])"

fun put_all :: "('a \<Rightarrow> 'q \<Rightarrow> ('e, 'q) outcome) \<Rightarrow> 'a list \<Rightarrow> 'q \<Rightarrow> ('e, 'q) outcome" where
  "put_all put [] q = Return q"
| "put_all put (x # xs) q = bind_o (put x q) (put_all put xs)"

locale bounded_queue =
  fixes new :: "nat \<Rightarrow> 'q" and put :: "'a \<Rightarrow> 'q \<Rightarrow> ('e, 'q) outcome" and get :: "'q \<Rightarrow> ('e, 'q \<times> 'a option) outcome"
    and len :: "'q \<Rightarrow> int" and ok :: "nat \<Rightarrow> 'q \<Rightarrow> bool" and contents :: "'q \<Rightarrow> 'a list"
  assumes new: "0 < c \<Longrightarrow> ok c (new c) \<and> contents (new c) = []"
    and put: "ok c q \<Longrightarrow> \<exists>q'. put x q = Return q' \<and> ok c q' \<and> contents q' = push_list c x (contents q)"
    and get_empty: "ok c q \<Longrightarrow> contents q = [] \<Longrightarrow> get q = Return (q, None)"
    and get: "ok c q \<Longrightarrow> contents q = x # xs \<Longrightarrow> \<exists>q'. get q = Return (q', Some x) \<and> ok c q' \<and> contents q' = xs"
    and len: "ok c q \<Longrightarrow> len q = int (length (contents q))"
    and bound: "ok c q \<Longrightarrow> length (contents q) \<le> c"
begin

lemma put_all_contents:
  assumes "ok c q"
  obtains q' where "put_all put xs q = Return q'" "ok c q'" "contents q' = foldl (\<lambda>ys x. push_list c x ys) (contents q) xs"
  using assms
proof (induction xs arbitrary: q thesis)
  case Nil
  then show ?case by simp
next
  case (Cons x xs)
  obtain q1 where q1: "put x q = Return q1" "ok c q1" "contents q1 = push_list c x (contents q)"
    using put [OF Cons.prems(2)] by blast
  obtain q' where "put_all put xs q1 = Return q'" "ok c q'" "contents q' = foldl (\<lambda>ys x. push_list c x ys) (contents q1) xs"
    using Cons.IH [OF _ q1(2)] by blast
  then show ?case using Cons.prems(1) q1 by simp
qed

end

lemma push_list_drop:
  "0 < c \<Longrightarrow> foldl (\<lambda>ys x. push_list c x ys) [] xs = drop (length xs - c) xs"
proof (induction xs rule: rev_induct)
  case Nil
  then show ?case by simp
next
  case (snoc x xs)
  then show ?case by (auto simp: push_list_def Suc_diff_le tl_drop drop_Suc)
qed

context bounded_queue
begin

lemma newest_survive:
  assumes "0 < c"
  obtains q where "put_all put xs (new c) = Return q" "ok c q" "contents q = drop (length xs - c) xs"
proof -
  have n: "ok c (new c)" "contents (new c) = []" using new [OF assms] by auto
  obtain q where "put_all put xs (new c) = Return q" "ok c q" "contents q = foldl (\<lambda>ys x. push_list c x ys) (contents (new c)) xs"
    by (rule put_all_contents [OF n(1)])
  then show thesis using that [of q] by (simp add: n(2) push_list_drop [OF assms])
qed

end

section \<open>The ring buffer implements the interface\<close>

definition ring_ok :: "nat \<Rightarrow> 'a queue \<Rightarrow> bool" where
  \<comment> \<open>empty, or a run of n filled slots from the head, wrapping around\<close>
  "ring_ok c q \<longleftrightarrow> length (q_entries q) = c \<and> 0 < c \<and>
     (q_head q = - 1 \<and> q_tail q = - 1 \<or>
      (\<exists>h n. h < c \<and> 0 < n \<and> n \<le> c \<and> q_head q = int h \<and> q_tail q = int ((h + n - 1) mod c)
         \<and> (\<forall>k < n. q_entries q ! ((h + k) mod c) \<noteq> None)))"

definition ring_contents :: "'a queue \<Rightarrow> 'a list" where
  "ring_contents q =
     map (\<lambda>k. the (q_entries q ! ((nat (q_head q) + k) mod length (q_entries q)))) [0..<nat (queue_len q)]"

lemma ring_len:
  assumes "h < c" "0 < n" "n \<le> c" "length (q_entries q) = c" "q_head q = int h" "q_tail q = int ((h + n - 1) mod c)"
  shows "queue_len q = int n"
proof (cases "h + n - 1 < c")
  case True
  then show ?thesis using assms by (simp add: queue_len_def)
next
  case False
  then have "(h + n - 1) mod c = h + n - 1 - c" using assms by (simp add: mod_if)
  then show ?thesis using assms False by (simp add: queue_len_def)
qed

lemma next_slot: "x < c \<Longrightarrow> (if int x + 1 = int c then 0 else int x + 1) = int (Suc x mod c)"
  by (auto simp: mod_Suc)

lemma mod_cancel: "(h + a) mod c = (h + b) mod c \<Longrightarrow> a < c \<Longrightarrow> b < c \<Longrightarrow> a = (b :: nat)"
  by (auto simp: nat_mod_eq_iff) (metis mod_mult_self2 mod_less)

lemma ring_new: "0 < c \<Longrightarrow> ring_ok c (newQueue c) \<and> ring_contents (newQueue c) = []"
  by (simp add: ring_ok_def newQueue_def ring_contents_def queue_len_def)

definition ring_at :: "nat \<Rightarrow> 'a queue \<Rightarrow> nat \<Rightarrow> nat \<Rightarrow> bool" where
  "ring_at c q h n \<longleftrightarrow> length (q_entries q) = c \<and> h < c \<and> 0 < n \<and> n \<le> c \<and> q_head q = int h
     \<and> q_tail q = int ((h + n - 1) mod c) \<and> (\<forall>k < n. q_entries q ! ((h + k) mod c) \<noteq> None)"

lemma ring_cases:
  assumes "ring_ok c q"
  obtains (empty) "length (q_entries q) = c" "0 < c" "q_head q = - 1" "q_tail q = - 1"
  | (filled) h n where "ring_at c q h n"
  using assms unfolding ring_ok_def ring_at_def by blast

lemma ring_at_ok: "ring_at c q h n \<Longrightarrow> ring_ok c q"
  unfolding ring_ok_def ring_at_def by auto

lemma ring_at_contents:
  "ring_at c q h n \<Longrightarrow> ring_contents q = map (\<lambda>k. the (q_entries q ! ((h + k) mod c))) [0..<n]"
  using ring_len [of h c n q] by (simp add: ring_at_def ring_contents_def)

lemma ring_empty_contents: "q_head q = - 1 \<Longrightarrow> ring_contents q = []"
  by (simp add: ring_contents_def queue_len_def)

lemma push_empty:
  assumes "length (q_entries q) = c" "0 < c" "q_head q = - 1" "q_tail q = - 1"
  obtains q' where "push x q = Return q'" "ring_at c q' 0 1" "ring_contents q' = [x]"
proof -
  let ?q = "q\<lparr>q_entries := (q_entries q)[0 := Some x], q_tail := 0, q_head := 0\<rparr>"
  have "push x q = Return ?q" using assms by (simp add: push_def Let_def upd_go_def)
  moreover have at: "ring_at c ?q 0 1" using assms by (simp add: ring_at_def)
  moreover have "ring_contents ?q = [x]" using ring_at_contents [OF at] assms by simp
  ultimately show thesis using that by blast
qed

lemma push_room:
  assumes at: "ring_at c q h n" and room: "n < c"
  obtains q' where "push x q = Return q'" "ring_at c q' h (Suc n)" "ring_contents q' = ring_contents q @ [x]"
proof -
  let ?pos = "(h + n) mod c"
  let ?q = "q\<lparr>q_entries := (q_entries q)[?pos := Some x], q_tail := int ?pos\<rparr>"
  have r: "length (q_entries q) = c" "h < c" "0 < n" "q_head q = int h" "q_tail q = int ((h + n - 1) mod c)"
    using at by (simp_all add: ring_at_def)
  have lt: "(h + n - 1) mod c < c" using r(2) by simp
  have suc: "Suc ((h + n - 1) mod c) mod c = ?pos" using r(3) by (simp add: mod_Suc_eq)
  have pos: "(if q_tail q + 1 = int c then 0 else q_tail q + 1) = int ?pos"
    unfolding r(5) next_slot [OF lt] suc ..
  have "?pos \<noteq> h" using mod_cancel [of h n c 0] r room by auto
  then have push: "push x q = Return ?q"
    using r pos by (simp add: push_def Let_def)
  have old: "(h + k) mod c \<noteq> ?pos" if "k < n" for k using mod_cancel [of h k c n] that room by auto
  have at': "ring_at c ?q h (Suc n)"
    using at room r old by (auto simp: ring_at_def less_Suc_eq nth_list_update)
  have same: "(q_entries q)[?pos := Some x] ! ((h + k) mod c) = q_entries q ! ((h + k) mod c)" if "k < n" for k
    by (rule nth_list_update_neq) (use old [OF that] in simp)
  have "ring_contents ?q = ring_contents q @ [x]"
    using ring_at_contents [OF at'] ring_at_contents [OF at] r same by simp
  with push at' show thesis using that by blast
qed

lemma push_full:
  assumes at: "ring_at c q h c"
  obtains q' where "push x q = Return q'" "ring_at c q' (Suc h mod c) c" "ring_contents q' = tl (ring_contents q) @ [x]"
proof -
  let ?h = "Suc h mod c"
  let ?q = "q\<lparr>q_entries := (q_entries q)[h := Some x], q_tail := int h, q_head := int ?h\<rparr>"
  have r: "length (q_entries q) = c" "h < c" "0 < c" "q_head q = int h" "q_tail q = int ((h + c - 1) mod c)"
    using at by (simp_all add: ring_at_def)
  have lt: "(h + c - 1) mod c < c" using r(3) by simp
  have suc: "Suc ((h + c - 1) mod c) mod c = h" using r by (simp add: mod_Suc_eq)
  have pos: "(if q_tail q + 1 = int c then 0 else q_tail q + 1) = int h"
    unfolding r(5) next_slot [OF lt] suc ..
  have push: "push x q = Return ?q"
    unfolding push_def Let_def r(1) pos unfolding r(4) next_slot [OF r(2)] using r(1-3) by simp
  have sh: "(?h + k) mod c = (h + Suc k) mod c" for k by (simp add: mod_add_left_eq)
  have last: "(h + c) mod c = h" using r by simp
  have mid: "(h + Suc k) mod c \<noteq> h" if "Suc k < c" for k using mod_cancel [of h "Suc k" c 0] that r by auto
  have tail: "h = (?h + c - 1) mod c" using sh [of "c - 1"] r last by (simp add: Suc_diff_le)
  have filled: "(q_entries q)[h := Some x] ! ((h + Suc k) mod c) \<noteq> None" if "k < c" for k
  proof (cases "Suc k < c")
    case True
    then have "q_entries q ! ((h + Suc k) mod c) \<noteq> None" using at unfolding ring_at_def by blast
    then show ?thesis using mid [OF True] by simp
  next
    case False
    then have "Suc k = c" using that by simp
    then show ?thesis using last r by simp
  qed
  have at': "ring_at c ?q ?h c"
    using r tail filled unfolding ring_at_def sh by simp
  obtain d where d: "c = Suc d" using r(3) by (cases c) auto
  have same: "(q_entries q)[h := Some x] ! ((h + Suc k) mod c) = q_entries q ! ((h + Suc k) mod c)" if "k < d" for k
    by (rule nth_list_update_neq) (use mid [of k] that d in simp)
  have "ring_contents ?q = map (\<lambda>k. the ((q_entries q)[h := Some x] ! ((h + Suc k) mod c))) [0..<d]
      @ [the ((q_entries q)[h := Some x] ! ((h + Suc d) mod c))]"
    using ring_at_contents [OF at'] unfolding sh by (simp add: d)
  also have "\<dots> = map (\<lambda>k. the (q_entries q ! ((h + Suc k) mod c))) [0..<d] @ [x]"
    using r(1,2) last same by (simp add: d del: add_Suc_right)
  also have "map (\<lambda>k. the (q_entries q ! ((h + Suc k) mod c))) [0..<d] = tl (ring_contents q)"
    unfolding ring_at_contents [OF at] d by (simp add: upt_rec [of 0 "Suc d"] map_Suc_upt [symmetric] comp_def del: upt_Suc)
  finally show thesis using that push at' by blast
qed

lemma ring_put:
  assumes "ring_ok c q"
  shows "\<exists>q'. push x q = (Return q' :: ('e, _) outcome) \<and> ring_ok c q' \<and> ring_contents q' = push_list c x (ring_contents q)"
  using assms
proof (cases rule: ring_cases)
  case empty
  obtain q' where "push x q = (Return q' :: ('e, _) outcome)" "ring_at c q' 0 1" "ring_contents q' = [x]"
    by (rule push_empty [OF empty])
  then show ?thesis using ring_empty_contents [OF empty(3)] empty(2) ring_at_ok by (auto simp: push_list_def)
next
  case (filled h n)
  have l: "length (ring_contents q) = n" "n \<le> c" "0 < n"
    using ring_at_contents [OF filled] filled by (simp_all add: ring_at_def)
  show ?thesis
  proof (cases "n < c")
    case True
    obtain q' where "push x q = (Return q' :: ('e, _) outcome)" "ring_at c q' h (Suc n)" "ring_contents q' = ring_contents q @ [x]"
      by (rule push_room [OF filled True])
    then show ?thesis using l True ring_at_ok by (auto simp: push_list_def)
  next
    case False
    then have at: "ring_at c q h c" using filled l by simp
    obtain q' where "push x q = (Return q' :: ('e, _) outcome)" "ring_at c q' (Suc h mod c) c" "ring_contents q' = tl (ring_contents q) @ [x]"
      by (rule push_full [OF at])
    then show ?thesis using l False ring_at_ok by (auto simp: push_list_def)
  qed
qed

lemma ring_get:
  assumes ok: "ring_ok c q" and ne: "ring_contents q = x # xs"
  shows "\<exists>q'. pop q = (Return (q', Some x) :: ('e, _) outcome) \<and> ring_ok c q' \<and> ring_contents q' = xs"
  using ok
proof (cases rule: ring_cases)
  case empty
  then show ?thesis using ne ring_empty_contents by force
next
  case (filled h n)
  have r: "length (q_entries q) = c" "h < c" "0 < n" "n \<le> c" "q_head q = int h" "q_tail q = int ((h + n - 1) mod c)"
    using filled by (simp_all add: ring_at_def)
  obtain m where m: "n = Suc m" using r(3) by (cases n) auto
  have c: "x # xs = map (\<lambda>k. the (q_entries q ! ((h + k) mod c))) [0..<Suc m]"
    using ring_at_contents [OF filled] ne m by simp
  then have x: "x = the (q_entries q ! h)" and xs: "xs = map (\<lambda>k. the (q_entries q ! ((h + Suc k) mod c))) [0..<m]"
    using r(2) by (simp_all add: upt_rec [of 0 "Suc m"] map_Suc_upt [symmetric] comp_def del: upt_Suc)
  have "q_entries q ! ((h + 0) mod c) \<noteq> None" using filled r(3) unfolding ring_at_def by blast
  then have e: "q_entries q ! h = Some x" using x r(2) by auto
  show ?thesis
  proof (cases m)
    case 0
    let ?q = "q\<lparr>q_head := - 1, q_tail := - 1\<rparr>"
    have "pop q = (Return (?q, Some x) :: ('e, _) outcome)" using r e m 0 by (simp add: pop_def)
    moreover have "ring_ok c ?q" using r by (simp add: ring_ok_def)
    ultimately show ?thesis using xs 0 by (simp add: ring_empty_contents)
  next
    case (Suc j)
    let ?h = "Suc h mod c"
    let ?q = "q\<lparr>q_head := int ?h\<rparr>"
    have ht: "h \<noteq> (h + m) mod c" using mod_cancel [of h m c 0] r m Suc by auto
    then have pop: "pop q = (Return (?q, Some x) :: ('e, _) outcome)"
      using r e m next_slot [OF r(2)] by (auto simp: pop_def)
    have sh: "(?h + k) mod c = (h + Suc k) mod c" for k by (simp add: mod_add_left_eq)
    have "(?h + m - 1) mod c = (h + n - 1) mod c" using sh [of j] m Suc by simp
    then have at: "ring_at c ?q ?h m"
      using filled r m Suc unfolding ring_at_def sh by (auto simp: Suc_less_eq)
    have "ring_contents ?q = xs" using ring_at_contents [OF at] xs unfolding sh by simp
    then show ?thesis using pop ring_at_ok [OF at] by blast
  qed
qed

interpretation ring: bounded_queue newQueue push pop queue_len ring_ok ring_contents
proof unfold_locales
  fix c :: nat and q :: "'a queue" and x :: 'a
  show "0 < c \<Longrightarrow> ring_ok c (newQueue c) \<and> ring_contents (newQueue c :: 'a queue) = []" by (rule ring_new)
  show "ring_ok c q \<Longrightarrow> \<exists>q'. push x q = (Return q' :: ('b, _) outcome) \<and> ring_ok c q' \<and> ring_contents q' = push_list c x (ring_contents q)"
    by (rule ring_put)
  show "ring_ok c q \<Longrightarrow> ring_contents q = [] \<Longrightarrow> pop q = (Return (q, None) :: ('b, _) outcome)"
    by (erule ring_cases) (auto simp: pop_def ring_at_contents ring_at_def)
  show "ring_ok c q \<Longrightarrow> queue_len q = int (length (ring_contents q))"
    by (erule ring_cases) (auto simp: ring_at_def ring_contents_def queue_len_def dest: ring_len)
  show "ring_ok c q \<Longrightarrow> length (ring_contents q) \<le> c"
    by (erule ring_cases) (auto simp: ring_at_contents ring_empty_contents ring_at_def)
qed (rule ring_get)

section \<open>Properties\<close>

text \<open>
  C36: the ring buffer is a bounded queue that forgets its oldest entries.  After pushing any list of
  events to a new queue it holds the newest of them, as many as its capacity, in order; and in every
  state it can be in, a push appends, dropping the oldest entry exactly when it is full, a pop takes
  the oldest, and the length is the number of entries.
\<close>

theorem ring_buffer_is_a_bounded_queue:
  assumes ok: "ring_ok c q" and xs: "0 < c"
  shows "(\<exists>q'. push x q = (Return q' :: (unit, _) outcome) \<and> ring_ok c q' \<and> ring_contents q' = push_list c x (ring_contents q))
    \<and> (case ring_contents q of
         [] \<Rightarrow> pop q = (Return (q, None) :: (unit, _) outcome)
       | y # ys \<Rightarrow> \<exists>q'. pop q = (Return (q', Some y) :: (unit, _) outcome) \<and> ring_ok c q' \<and> ring_contents q' = ys)
    \<and> queue_len q = int (length (ring_contents q)) \<and> length (ring_contents q) \<le> c
    \<and> (\<exists>q'. put_all push xs (newQueue c) = (Return q' :: (unit, _) outcome) \<and> ring_ok c q' \<and> ring_contents q' = drop (length xs - c) xs)"
proof (intro conjI)
  show "\<exists>q'. push x q = (Return q' :: (unit, _) outcome) \<and> ring_ok c q' \<and> ring_contents q' = push_list c x (ring_contents q)"
    by (rule ring.put [OF ok])
  show "case ring_contents q of [] \<Rightarrow> pop q = (Return (q, None) :: (unit, _) outcome)
       | y # ys \<Rightarrow> \<exists>q'. pop q = (Return (q', Some y) :: (unit, _) outcome) \<and> ring_ok c q' \<and> ring_contents q' = ys"
    using ring.get_empty [OF ok, where 'b = unit] ring.get [OF ok, where 'b = unit] by (auto split: list.splits)
  show "queue_len q = int (length (ring_contents q))" by (rule ring.len [OF ok])
  show "length (ring_contents q) \<le> c" by (rule ring.bound [OF ok])
  obtain q' where "put_all push xs (newQueue c) = (Return q' :: (unit, _) outcome)" "ring_ok c q'" "ring_contents q' = drop (length xs - c) xs"
    by (rule ring.newest_survive [OF xs])
  then show "\<exists>q'. put_all push xs (newQueue c) = (Return q' :: (unit, _) outcome) \<and> ring_ok c q' \<and> ring_contents q' = drop (length xs - c) xs"
    by blast
qed

theorem ring_buffer_is_a_bounded_queue_witness:
  "\<exists>q'. put_all push [1, 2, 3 :: nat] (newQueue 2) = (Return q' :: (unit, _) outcome) \<and> ring_contents q' = [2, 3]"
proof -
  have "ring_ok 2 (newQueue 2 :: nat queue)" by (simp add: ring_new)
  from ring_buffer_is_a_bounded_queue [OF this, of 0 "[1, 2, 3 :: nat]"] show ?thesis by auto
qed

end
