(* ===== verification/HsReplica.thy ===== *)
theory HsReplica
  imports HsCrypto CmdCache
begin

text \<open>
  The state of one HotStuff replica and its consensus module: consensus/consensus.go with the parts
  of synchronizer/synchronizer.go it calls, over the block store, the certificates and the command
  queue.  The rules of a protocol variant, \<open>Rules\<close> in the source, are an argument.

  \<^item> The state joins the fields of the modules.  Messages that are sent, and events that are added to
    the event loop, are collected in \<open>rp_out\<close>.  \<open>rp_signed\<close> records what was signed with the key
    of the replica; the code has no such field.
  \<^item> The environment has the configuration of the crypto module, the replies of the network to
    fetches, the commands that arrive while a proposal waits for them, the encoding of batches, and
    the leader rotation, a function of the chain, the committed block and the view.
  \<^item> A handler returns the new state; \<open>Error st\<close> is a crash of the replica in the state \<open>st\<close>; no
    value (\<open>None\<close>) is a handler that does not return.
  \<^item> Certificates are verified by the crypto module itself.  internal/orchestration/worker.go and
    twins/network.go put the signature cache of \<open>HsCache\<close> in front of it, whose defects are shown
    there; the handlers here, and what is proved of them, are those of a replica without this cache.
  \<^item> Timers and the view duration are not modelled, and the optional Handel module is absent.
\<close>

section \<open>State and environment\<close>

datatype signed_item = SignedBlock Block | SignedView View | SignedTimeout TimeoutMsg

datatype out =
    SendPropose ProposeMsg
  | SendVote ID PartialCert
  | SendTimeout TimeoutMsg
  | SendNewView ID SyncInfo
  | AddVote VoteMsg
  | AddNewView ID SyncInfo
  | AddViewChange View bool
  | DelayVote VoteMsg

record replica =
  rp_chain :: blockChain
  rp_lock :: Block
  rp_cmds :: cmdCache
  rp_lastVote :: View
  rp_bExec :: Block
  rp_Count :: int
  rp_executed :: "Block list"
  rp_forked :: "Block list"
  rp_currentView :: View
  rp_highTC :: TimeoutCert
  rp_highQC :: QuorumCert
  rp_lastTimeout :: "TimeoutMsg option"
  rp_isTimeout :: bool
  rp_timeouts :: "(View, (ID, TimeoutMsg) gomap) gomap"
  rp_verifiedVotes :: "(Hash, PartialCert list) gomap"
  rp_signatures :: nat
  rp_signed :: "signed_item list"
  rp_out :: "out list"

record hs_env =
  he_crypto :: crypto_cfg
  he_replies :: "nat \<Rightarrow> Hash \<Rightarrow> pb_Block list"
  he_leader :: "blockChain \<Rightarrow> Block \<Rightarrow> View \<Rightarrow> ID"
  he_useAggQC :: bool
  he_marshal :: "batch \<Rightarrow> Command option"
  he_unmarshal :: "Command \<Rightarrow> batch option"
  he_arrivals :: "batch list"

abbreviation "he_sha e \<equiv> cf_sha (he_crypto e)"
abbreviation "he_self e \<equiv> cf_self (he_crypto e)"
abbreviation "he_fetch e \<equiv> Fetch (he_sha e) (he_replies e)"

definition new_replica :: "(bytes \<Rightarrow> bytes) \<Rightarrow> int \<Rightarrow> replica" where
  "new_replica sha batchSize =
     \<lparr>rp_chain = NewBlockChain sha, rp_lock = GetGenesis sha, rp_cmds = newCmdCache batchSize, rp_lastVote = 0,
      rp_bExec = GetGenesis sha, rp_Count = 0, rp_executed = [], rp_forked = [], rp_currentView = 1,
      rp_highTC = \<lparr>tc_signature = None, tc_view = 0\<rparr>,
      rp_highQC = \<lparr>qc_signature = None, qc_view = 0, qc_hash = b_hash (GetGenesis sha)\<rparr>,
      rp_lastTimeout = None, rp_isTimeout = False, rp_timeouts = [], rp_verifiedVotes = [], rp_signatures = 0,
      rp_signed = [], rp_out = []\<rparr>"

definition leader_of :: "hs_env \<Rightarrow> replica \<Rightarrow> View \<Rightarrow> ID" where
  "leader_of e st view = he_leader e (rp_chain st) (rp_bExec st) view"

definition emit :: "out \<Rightarrow> replica \<Rightarrow> replica" where
  "emit m st = st\<lparr>rp_out := rp_out st @ [m]\<rparr>"

definition rp_get :: "hs_env \<Rightarrow> Hash \<Rightarrow> replica \<Rightarrow> replica \<times> Block option" where
  "rp_get e h st = (let (chain, r) = Get (he_fetch e) h (rp_chain st) in (st\<lparr>rp_chain := chain\<rparr>, r))"

section \<open>Handlers that crash or do not return\<close>

type_synonym 'a handler_result = "(replica, 'a) outcome option"

definition bind_h :: "'a handler_result \<Rightarrow> ('a \<Rightarrow> 'b handler_result) \<Rightarrow> 'b handler_result" where
  "bind_h m f = Option.bind m (\<lambda>r. case r of Return x \<Rightarrow> f x | Error s \<Rightarrow> Some (Error s) | Panic \<Rightarrow> Some Panic)"

definition ret :: "'a \<Rightarrow> 'a handler_result" where
  "ret x = Some (Return x)"

definition loop_h :: "'a option \<Rightarrow> 'a handler_result" where
  \<comment> \<open>the result of a loop that may not end\<close>
  "loop_h m = map_option Return m"

definition crash_h :: "replica \<Rightarrow> ('e, 'a) outcome \<Rightarrow> 'a handler_result" where
  \<comment> \<open>a call that may panic in the state \<open>st\<close>\<close>
  "crash_h st m = (case m of Return x \<Rightarrow> ret x | _ \<Rightarrow> Some (Error st))"

lemma bind_h_simps [simp]:
  "bind_h (ret x) f = f x" "bind_h None f = None" "bind_h (Some (Error s)) f = Some (Error s)"
  "bind_h (Some (Return x)) f = f x" "bind_h (Some Panic) f = Some Panic"
  by (simp_all add: bind_h_def ret_def)

lemma bind_h_mono [partial_function_mono]:
  assumes "mono_option B" "\<And>y. mono_option (\<lambda>f. C y f)"
  shows "mono_option (\<lambda>f. bind_h (B f) (\<lambda>y. C y f))"
proof -
  have "mono_option (\<lambda>f. case r of Return x \<Rightarrow> C x f | Error s \<Rightarrow> Some (Error s) | Panic \<Rightarrow> Some Panic)" for r
    by (cases r) (simp_all add: assms(2) option.const_mono)
  then show ?thesis unfolding bind_h_def by (intro bind_mono assms(1))
qed

section \<open>Verification of certificates\<close>

definition verify_qc :: "hs_env \<Rightarrow> QuorumCert \<Rightarrow> replica \<Rightarrow> (replica \<times> bool) handler_result" where
  "verify_qc e qc st =
     bind_h (crash_h st (VerifyQuorumCert (he_crypto e) (he_fetch e) qc (rp_chain st)))
       (\<lambda>(chain, ok). ret (st\<lparr>rp_chain := chain\<rparr>, ok))"

definition verify_agg :: "hs_env \<Rightarrow> AggregateQC \<Rightarrow> replica \<Rightarrow> (replica \<times> QuorumCert option) handler_result" where
  "verify_agg e agg st =
     bind_h (crash_h st (VerifyAggregateQC (he_crypto e) (he_fetch e) agg (rp_chain st)))
       (\<lambda>(chain, r). ret (st\<lparr>rp_chain := chain\<rparr>, r))"

section \<open>Rules\<close>

record rules =
  r_VoteRule :: "hs_env \<Rightarrow> ProposeMsg \<Rightarrow> replica \<Rightarrow> (replica \<times> bool) option"
  r_CommitRule :: "hs_env \<Rightarrow> Block \<Rightarrow> replica \<Rightarrow> replica \<times> Block option"

section \<open>Committing\<close>

partial_function (option) commitInner :: "hs_env \<Rightarrow> Block \<Rightarrow> replica \<Rightarrow> (replica \<times> bool) option" where
  \<comment> \<open>the flag tells whether all ancestors were found\<close>
  "commitInner e block st =
     (if b_view (rp_bExec st) \<ge> b_view block then Some (st, True)
      else case rp_get e (b_parent block) st of
             (st1, None) \<Rightarrow> Some (st1, False)
           | (st1, Some parent) \<Rightarrow>
               Option.bind (commitInner e parent st1) (\<lambda>(st2, ok).
               if \<not> ok then Some (st2, False)
               else Some (st2\<lparr>rp_executed := rp_executed st2 @ [block], rp_Count := i64 (rp_Count st2 + 1), rp_bExec := block\<rparr>, True)))"

definition commit :: "hs_env \<Rightarrow> Block \<Rightarrow> replica \<Rightarrow> replica option" where
  "commit e block st =
     Option.bind (commitInner e block st) (\<lambda>(st1, ok).
     if \<not> ok then Some st1
     else map_option (\<lambda>(chain, forkedBlocks). st1\<lparr>rp_chain := chain, rp_forked := rp_forked st1 @ forkedBlocks\<rparr>)
            (PruneToHeight (rp_bExec st1) (b_view block) (rp_chain st1)))"

section \<open>Proposals and votes\<close>

definition tell_proposed :: "hs_env \<Rightarrow> QuorumCert \<Rightarrow> replica \<Rightarrow> replica" where
  \<comment> \<open>tell the command queue that the block of a certificate was proposed\<close>
  "tell_proposed e qc st =
     (case rp_get e (qc_hash qc) st of
        (st1, Some qcBlock) \<Rightarrow> st1\<lparr>rp_cmds := Proposed (he_unmarshal e) (b_cmd qcBlock) (rp_cmds st1)\<rparr>
      | (st1, None) \<Rightarrow> st1)"

definition check_agg :: "hs_env \<Rightarrow> ProposeMsg \<Rightarrow> replica \<Rightarrow> (replica \<times> bool) handler_result" where
  "check_agg e proposal st =
     (case pm_AggregateQC proposal of
        Some agg \<Rightarrow>
          if he_useAggQC e
          then bind_h (verify_agg e agg st) (\<lambda>(st1, r).
                 case r of None \<Rightarrow> ret (st1, False)
                 | Some highQC \<Rightarrow> ret (st1, qc_Equals (b_cert (pm_Block proposal)) highQC))
          else ret (st, True)
      | None \<Rightarrow> ret (st, True))"

definition accept_block :: "hs_env \<Rightarrow> rules \<Rightarrow> Block \<Rightarrow> replica \<Rightarrow> replica handler_result" where
  \<comment> \<open>the block is safe and was accepted: store it and commit what can be committed\<close>
  "accept_block e R block st =
     (let st1 = st\<lparr>rp_chain := Store block (rp_chain st)\<rparr>
      in case r_CommitRule R e block st1 of
           (st2, None) \<Rightarrow> ret st2
         | (st2, Some b) \<Rightarrow> loop_h (commit e b st2))"

definition check_proposal :: "hs_env \<Rightarrow> rules \<Rightarrow> ProposeMsg \<Rightarrow> replica \<Rightarrow> (replica \<times> bool) handler_result" where
  \<comment> \<open>the first part of \<open>OnPropose\<close>; the flag tells whether it went on\<close>
  "check_proposal e R proposal st =
     (let block = pm_Block proposal
      in bind_h (check_agg e proposal st) (\<lambda>(st1, ok). if \<not> ok then ret (st1, False) else
         bind_h (verify_qc e (b_cert block) st1) (\<lambda>(st2, ok). if \<not> ok then ret (st2, False) else
         if pm_ID proposal \<noteq> leader_of e st2 (b_view block) then ret (st2, False) else
         bind_h (loop_h (r_VoteRule R e proposal st2)) (\<lambda>(st3, ok). if \<not> ok then ret (st3, False) else
         let st4 = tell_proposed e (b_cert block) st3
         in if \<not> Accept (he_unmarshal e) (b_cmd block) (rp_cmds st4) then ret (st4, False)
            else bind_h (accept_block e R block st4) (\<lambda>st5. ret (st5, True))))))"

definition cast_vote :: "hs_env \<Rightarrow> Block \<Rightarrow> replica \<Rightarrow> replica" where
  \<comment> \<open>the last part of \<open>OnPropose\<close>\<close>
  "cast_vote e block st =
     (if b_view block \<le> rp_lastVote st then st
      else let st1 = st\<lparr>rp_signatures := Suc (rp_signatures st)\<rparr>
           in case CreatePartialCert (he_crypto e) (rp_signatures st) block of
                Return pc \<Rightarrow>
                  let st2 = st1\<lparr>rp_lastVote := b_view block, rp_signed := SignedBlock block # rp_signed st1\<rparr>;
                      leaderID = leader_of e st2 (rp_lastVote st2 + 1)
                  in if leaderID = he_self e
                     then emit (AddVote \<lparr>vm_ID = he_self e, vm_PartialCert = pc, vm_Deferred = False\<rparr>) st2
                     else if leaderID \<in> set (cf_replicas (he_crypto e)) then emit (SendVote leaderID pc) st2
                     else st2
              | _ \<Rightarrow> st1)"

definition StopVoting :: "View \<Rightarrow> replica \<Rightarrow> replica" where
  "StopVoting view st = (if rp_lastVote st < view then st\<lparr>rp_lastVote := view\<rparr> else st)"

definition build_proposal :: "hs_env \<Rightarrow> SyncInfo \<Rightarrow> replica \<Rightarrow> (replica \<times> ProposeMsg) option" where
  \<comment> \<open>\<open>Propose\<close> up to its own \<open>OnPropose\<close>; without a certificate the block has the zero certificate\<close>
  "build_proposal e cert st =
     (let qc = (case si_qc cert of Some qc \<Rightarrow> qc | None \<Rightarrow> zero_qc);
          st1 = (case si_qc cert of Some qc \<Rightarrow> tell_proposed e qc st | None \<Rightarrow> st)
      in map_option (\<lambda>(cmds, cmd, ok).
           let st2 = st1\<lparr>rp_cmds := cmds\<rparr>;
               block = NewBlock (he_sha e) (qc_hash qc) qc cmd (rp_currentView st2) (he_self e);
               proposal = \<lparr>pm_ID = he_self e, pm_Block = block,
                           pm_AggregateQC = (if he_useAggQC e then si_aggQC cert else None)\<rparr>
           in (emit (SendPropose proposal) (st2\<lparr>rp_chain := Store block (rp_chain st2)\<rparr>), proposal))
           (cmd_Get (he_marshal e) (rp_cmds st1) (he_arrivals e)))"

section \<open>Advancing the view\<close>

definition updateHighQC :: "hs_env \<Rightarrow> QuorumCert \<Rightarrow> replica \<Rightarrow> replica" where
  "updateHighQC e qc st =
     (case rp_get e (qc_hash qc) st of
        (st1, None) \<Rightarrow> st1
      | (st1, Some newBlock) \<Rightarrow> if b_view newBlock > qc_view (rp_highQC st1) then st1\<lparr>rp_highQC := qc\<rparr> else st1)"

definition updateHighTC :: "TimeoutCert \<Rightarrow> replica \<Rightarrow> replica" where
  "updateHighTC tc st = (if tc_view tc > tc_view (rp_highTC st) then st\<lparr>rp_highTC := tc\<rparr> else st)"

definition rp_SyncInfo :: "replica \<Rightarrow> SyncInfo" where
  "rp_SyncInfo st = WithTC (rp_highTC st) (WithQC (rp_highQC st) NewSyncInfo)"

definition advance_tc :: "hs_env \<Rightarrow> SyncInfo \<Rightarrow> replica \<Rightarrow> (replica \<times> (View \<times> bool) option) handler_result" where
  \<comment> \<open>the timeout certificate: the view and whether it is a timeout; \<open>None\<close> is a certificate that fails\<close>
  "advance_tc e si st =
     (case si_tc si of
        None \<Rightarrow> ret (st, Some (0, False))
      | Some tc \<Rightarrow>
          bind_h (crash_h st (VerifyTimeoutCert (he_crypto e) tc)) (\<lambda>ok.
          if \<not> ok then ret (st, None) else ret (updateHighTC tc st, Some (tc_view tc, True))))"

definition advance_qc ::
    "hs_env \<Rightarrow> SyncInfo \<Rightarrow> View \<times> bool \<Rightarrow> replica \<Rightarrow> (replica \<times> (SyncInfo \<times> QuorumCert option \<times> View \<times> bool) option) handler_result" where
  \<comment> \<open>the aggregate certificate, if it is used, or the quorum certificate\<close>
  "advance_qc e si vt st =
     (case (si_aggQC si, he_useAggQC e, si_qc si) of
        (Some agg, True, _) \<Rightarrow>
          bind_h (verify_agg e agg st) (\<lambda>(st1, r).
          case r of
            None \<Rightarrow> ret (st1, None)
          | Some highQC \<Rightarrow>
              ret (st1, Some (WithQC highQC si, Some highQC, if ag_view agg \<ge> fst vt then (ag_view agg, True) else vt)))
      | (_, _, Some qc) \<Rightarrow>
          bind_h (verify_qc e qc st) (\<lambda>(st1, ok).
          ret (st1, if ok then Some (si, Some qc, vt) else None))
      | (_, _, None) \<Rightarrow> ret (st, Some (si, None, vt)))"

definition enter_view :: "hs_env \<Rightarrow> SyncInfo \<Rightarrow> View \<Rightarrow> bool \<Rightarrow> replica \<Rightarrow> replica \<times> SyncInfo option" where
  \<comment> \<open>the new view; what to propose if the replica leads it\<close>
  "enter_view e si v timeout st =
     (let newView = v + 1;
          st1 = emit (AddViewChange newView timeout) (st\<lparr>rp_currentView := newView, rp_lastTimeout := None\<rparr>);
          leader = leader_of e st1 newView
      in if leader = he_self e then (st1, Some si)
         else if leader \<in> set (cf_replicas (he_crypto e)) then (emit (SendNewView leader si) st1, None)
         else (st1, None))"

definition reach_view :: "hs_env \<Rightarrow> SyncInfo \<times> QuorumCert option \<times> View \<times> bool \<Rightarrow> replica \<Rightarrow> replica \<times> SyncInfo option" where
  \<comment> \<open>a quorum certificate counts, rather than a timeout, when its view is not lower\<close>
  "reach_view e p st =
     (let (si, haveQC, v, timeout) = p;
          st1 = (case haveQC of None \<Rightarrow> st | Some qc \<Rightarrow> updateHighQC e qc st);
          (v, timeout) = (case haveQC of None \<Rightarrow> (v, timeout) | Some qc \<Rightarrow> if qc_view qc \<ge> v then (qc_view qc, False) else (v, timeout))
      in if v < rp_currentView st1 then (st1, None) else enter_view e si v timeout st1)"

definition advance :: "hs_env \<Rightarrow> SyncInfo \<Rightarrow> replica \<Rightarrow> (replica \<times> SyncInfo option) handler_result" where
  \<comment> \<open>\<open>AdvanceView\<close> up to its own proposal\<close>
  "advance e si st =
     bind_h (advance_tc e si st) (\<lambda>(st1, r).
     case r of
       None \<Rightarrow> ret (st1, None)
     | Some vt \<Rightarrow>
         bind_h (advance_qc e si vt st1) (\<lambda>(st2, r).
         case r of None \<Rightarrow> ret (st2, None) | Some p \<Rightarrow> ret (reach_view e p st2)))"

section \<open>The handlers\<close>

partial_function (option) OnPropose :: "hs_env \<Rightarrow> rules \<Rightarrow> ProposeMsg \<Rightarrow> replica \<Rightarrow> replica handler_result" where
  "OnPropose e R proposal st =
     bind_h (check_proposal e R proposal st) (\<lambda>(st1, ok).
     if \<not> ok then ret st1
     else bind_h (advance e (WithQC (b_cert (pm_Block proposal)) NewSyncInfo) st1) (\<lambda>(st2, r).
          case r of
            None \<Rightarrow> ret (cast_vote e (pm_Block proposal) st2)
          | Some si \<Rightarrow>
              bind_h (loop_h (build_proposal e si st2)) (\<lambda>(st3, own).
              bind_h (OnPropose e R own st3) (\<lambda>st4.
              ret (cast_vote e (pm_Block proposal) st4)))))"

definition Propose :: "hs_env \<Rightarrow> rules \<Rightarrow> SyncInfo \<Rightarrow> replica \<Rightarrow> replica handler_result" where
  "Propose e R cert st =
     bind_h (loop_h (build_proposal e cert st)) (\<lambda>(st1, proposal). OnPropose e R proposal st1)"

definition AdvanceView :: "hs_env \<Rightarrow> rules \<Rightarrow> SyncInfo \<Rightarrow> replica \<Rightarrow> replica handler_result" where
  "AdvanceView e R si st =
     bind_h (advance e si st) (\<lambda>(st1, r).
     case r of None \<Rightarrow> ret st1 | Some si' \<Rightarrow> Propose e R si' st1)"

lemma OnPropose_AdvanceView:
  "OnPropose e R proposal st =
     bind_h (check_proposal e R proposal st) (\<lambda>(st1, ok).
     if \<not> ok then ret st1
     else bind_h (AdvanceView e R (WithQC (b_cert (pm_Block proposal)) NewSyncInfo) st1) (\<lambda>st2.
          ret (cast_vote e (pm_Block proposal) st2)))"
proof -
  have assoc: "bind_h (bind_h m f) g = bind_h m (\<lambda>x. bind_h (f x) g)" for m :: "'a handler_result" and f :: "'a \<Rightarrow> 'b handler_result" and g :: "'b \<Rightarrow> 'c handler_result"
    by (cases m; cases "the m") (auto simp: bind_h_def)
  show ?thesis
    by (subst OnPropose.simps)
       (auto simp: AdvanceView_def Propose_def assoc case_prod_beta intro!: arg_cong [where f = "bind_h _"] ext split: option.splits)
qed

end
