(* ===== verification/HsVoting.thy ===== *)
theory HsVoting
  imports Prelude "HOL-Library.Sublist"
begin

text \<open>
  The abstract voting protocol behind SimpleHotStuff.  A history is the list of votes of honest
  replicas, the newest first.  A replica votes in increasing views, for a block whose parent is
  certified by a quorum, and whose parent is not older than the grandparents of the blocks it voted
  for before.  A block is decided when it starts three certified blocks in consecutive views.

  Any two decided blocks are on one branch.  What is assumed of quorums is the interface
  \<open>voting\<close>; the votes of the replicas are shown elsewhere to be such a history.
\<close>

section \<open>Histories\<close>

type_synonym ('i, 'b) history = "('i \<times> 'b) list"

record ('i, 'b) protocol =
  vp_honest :: "'i set"
  vp_quorum :: "'i set \<Rightarrow> bool"
  vp_view :: "'b \<Rightarrow> nat"
  vp_par :: "'b \<Rightarrow> 'b"
  vp_gen :: 'b

definition certified :: "('i, 'b) protocol \<Rightarrow> ('i, 'b) history \<Rightarrow> 'b \<Rightarrow> bool" where
  "certified P H b \<longleftrightarrow> b = vp_gen P \<or> (\<exists>Q. vp_quorum P Q \<and> (\<forall>i \<in> Q \<inter> vp_honest P. (i, b) \<in> set H))"

definition may_vote :: "('i, 'b) protocol \<Rightarrow> ('i, 'b) history \<Rightarrow> 'i \<Rightarrow> 'b \<Rightarrow> bool" where
  "may_vote P H i b \<longleftrightarrow> vp_view P (vp_gen P) < vp_view P b \<and> certified P H (vp_par P b)
     \<and> (\<forall>c. (i, c) \<in> set H \<longrightarrow> vp_view P c < vp_view P b
          \<and> (vp_par P c \<noteq> vp_gen P \<longrightarrow>
               vp_par P b = vp_par P c \<or> vp_view P (vp_par P (vp_par P c)) \<le> vp_view P (vp_par P b)))"

primrec hist :: "('i, 'b) protocol \<Rightarrow> ('i, 'b) history \<Rightarrow> bool" where
  "hist P [] = True"
| "hist P (v # H) = (may_vote P H (fst v) (snd v) \<and> hist P H)"

definition decided :: "('i, 'b) protocol \<Rightarrow> ('i, 'b) history \<Rightarrow> 'b \<Rightarrow> bool" where
  \<comment> \<open>the block and its child and grandchild are certified, in consecutive views\<close>
  "decided P H b \<longleftrightarrow> (\<exists>c. certified P H c \<and> c \<noteq> vp_gen P \<and> vp_par P c \<noteq> vp_gen P
     \<and> vp_par P (vp_par P c) = b \<and> vp_view P c = vp_view P b + 2)"

inductive anc :: "('i, 'b) protocol \<Rightarrow> 'b \<Rightarrow> 'b \<Rightarrow> bool" for P where
  anc_refl: "anc P b b"
| anc_step: "b \<noteq> vp_gen P \<Longrightarrow> anc P (vp_par P b) a \<Longrightarrow> anc P b a"

inductive path :: "('i, 'b) protocol \<Rightarrow> 'b list \<Rightarrow> 'b \<Rightarrow> bool" for P where
  path_gen: "path P [] (vp_gen P)"
| path_step: "b \<noteq> vp_gen P \<Longrightarrow> path P xs (vp_par P b) \<Longrightarrow> path P (xs @ [b]) b"

lemma hist_append: "hist P (A @ (i, b) # B) \<Longrightarrow> may_vote P B i b \<and> hist P B"
  by (induction A) auto

lemma certified_mono: "certified P H b \<Longrightarrow> certified P (A @ H) b"
  by (fastforce simp: certified_def)

lemma hist_voted_par: "hist P H \<Longrightarrow> (i, b) \<in> set H \<Longrightarrow> certified P H (vp_par P b)"
proof -
  assume h: "hist P H" "(i, b) \<in> set H"
  then obtain A B where H: "H = A @ (i, b) # B" by (meson split_list)
  then have "certified P B (vp_par P b)" using h(1) hist_append [of P A i b B] by (simp add: may_vote_def)
  then show "certified P H (vp_par P b)" using certified_mono [of P B _ "A @ [(i, b)]"] H by simp
qed

lemma later_vote:
  assumes h: "hist P H" and v: "(i, a) \<in> set H" "(i, c) \<in> set H" "vp_view P a < vp_view P c"
  obtains A B where "H = A @ (i, c) # B" "(i, a) \<in> set B"
proof -
  obtain A B where H: "H = A @ (i, c) # B" using v(2) by (meson split_list)
  have "(i, a) \<in> set B"
  proof (rule ccontr)
    assume "(i, a) \<notin> set B"
    then have "(i, a) \<in> set A" using v(1,3) H by auto
    then obtain A1 A2 where A: "A = A1 @ (i, a) # A2" by (meson split_list)
    then have "may_vote P (A2 @ (i, c) # B) i a" using h H hist_append [of P A1 i a "A2 @ (i, c) # B"] by simp
    then have "vp_view P c < vp_view P a" unfolding may_vote_def by fastforce
    then show False using v(3) by simp
  qed
  then show thesis using that H by blast
qed

lemma one_vote_per_view:
  assumes h: "hist P H" and v: "(i, a) \<in> set H" "(i, c) \<in> set H" "vp_view P a = vp_view P c"
  shows "a = c"
proof (rule ccontr)
  assume ne: "a \<noteq> c"
  have one: "vp_view P x \<noteq> vp_view P y" if "(i, x) \<in> set B" "H = A @ (i, y) # B" for A B x y
    using hist_append [of P A i y B] h that unfolding may_vote_def by auto
  obtain A B where H: "H = A @ (i, c) # B" using v(2) by (meson split_list)
  then have "(i, a) \<in> set A \<or> (i, a) \<in> set B" using v(1) ne by auto
  then show False
  proof
    assume "(i, a) \<in> set B"
    then show False using one [OF _ H] v(3) by blast
  next
    assume "(i, a) \<in> set A"
    then obtain A1 A2 where A: "A = A1 @ (i, a) # A2" by (meson split_list)
    then have "H = A1 @ (i, a) # (A2 @ (i, c) # B)" using H by simp
    then show False using one [of c "A2 @ (i, c) # B" A1 a] v(3) by simp
  qed
qed

section \<open>Agreement\<close>

locale voting =
  fixes P :: "('i, 'b) protocol"
  assumes share: "vp_quorum P Q \<Longrightarrow> vp_quorum P Q' \<Longrightarrow> \<exists>i. i \<in> Q \<and> i \<in> Q' \<and> i \<in> vp_honest P"
begin

lemma certified_voter:
  assumes "certified P H b" "b \<noteq> vp_gen P"
  obtains i where "i \<in> vp_honest P" "(i, b) \<in> set H"
  using assms share by (fastforce simp: certified_def)

lemma common_voter:
  assumes "certified P H b" "b \<noteq> vp_gen P" "certified P H' c" "c \<noteq> vp_gen P"
  obtains i where "i \<in> vp_honest P" "(i, b) \<in> set H" "(i, c) \<in> set H'"
proof -
  obtain Q Q' where "vp_quorum P Q" "\<forall>i \<in> Q \<inter> vp_honest P. (i, b) \<in> set H"
    "vp_quorum P Q'" "\<forall>i \<in> Q' \<inter> vp_honest P. (i, c) \<in> set H'" using assms by (auto simp: certified_def)
  then show thesis using share that by blast
qed

lemma certified_above_gen:
  "hist P H \<Longrightarrow> certified P H b \<Longrightarrow> b \<noteq> vp_gen P \<Longrightarrow> vp_view P (vp_gen P) < vp_view P b"
proof -
  assume h: "hist P H" and c: "certified P H b" "b \<noteq> vp_gen P"
  obtain i where "(i, b) \<in> set H" using certified_voter [OF c] by blast
  then obtain A B where "H = A @ (i, b) # B" by (meson split_list)
  then show "vp_view P (vp_gen P) < vp_view P b" using hist_append [of P A i b B] h by (simp add: may_vote_def)
qed

lemma certified_unique:
  assumes h: "hist P H" and c: "certified P H b" "certified P H c" "vp_view P b = vp_view P c"
  shows "b = c"
proof (cases "b = vp_gen P \<or> c = vp_gen P")
  case True
  then show ?thesis using certified_above_gen [OF h c(1)] certified_above_gen [OF h c(2)] c(3) by fastforce
next
  case False
  then obtain i where "(i, b) \<in> set H" "(i, c) \<in> set H" using common_voter [OF c(1) _ c(2)] by blast
  then show ?thesis using one_vote_per_view [OF h _ _ c(3)] by blast
qed

lemma certified_par:
  "hist P H \<Longrightarrow> certified P H b \<Longrightarrow> b \<noteq> vp_gen P \<Longrightarrow> certified P H (vp_par P b)"
  by (meson certified_voter hist_voted_par)

lemma view_par:
  assumes h: "hist P H" and c: "certified P H b" "b \<noteq> vp_gen P"
  shows "vp_view P (vp_par P b) < vp_view P b"
proof -
  obtain j where "(j, b) \<in> set H" using certified_voter [OF c] by blast
  then obtain v where v: "v \<in> set H" "snd v = b" by force
  obtain H1 w H2 where H: "H = H1 @ w # H2" "snd w = b" "\<forall>y \<in> set H2. snd y \<noteq> b"
    using split_list_last_prop [of H "\<lambda>y. snd y = b"] v by blast
  have m: "may_vote P H2 (fst w) b" using hist_append [of P H1 "fst w" b H2] h H(1,2) by (metis surjective_pairing)
  show ?thesis
  proof (cases "vp_par P b = vp_gen P")
    case True
    then show ?thesis using m by (simp add: may_vote_def)
  next
    case False
    have "certified P H2 (vp_par P b)" using m by (simp add: may_vote_def)
    then obtain k where k: "(k, b) \<in> set H" "(k, vp_par P b) \<in> set H2" using common_voter [OF c _ False] by blast
    have "(k, b) \<notin> set H2" using H(3) by auto
    then have "(k, b) \<in> set (H1 @ [w])" using k(1) H(1) by auto
    then obtain A B where "H1 @ [w] = A @ (k, b) # B" by (meson split_list)
    then have "H = A @ (k, b) # (B @ H2)" using H(1) by (metis append.assoc append_Cons append_Nil)
    then have "may_vote P (B @ H2) k b" using hist_append [of P A k b "B @ H2"] h by blast
    then show ?thesis using k(2) by (simp add: may_vote_def)
  qed
qed

lemma anc_par: "c \<noteq> vp_gen P \<Longrightarrow> anc P c (vp_par P c)"
  by (erule anc_step) (rule anc_refl)

lemma decided_certified:
  assumes h: "hist P H" and d: "decided P H b"
  shows "certified P H b"
  using d certified_par [OF h] by (auto simp: decided_def)

lemma decided_anc:
  assumes h: "hist P H" and d: "decided P H b"
  shows "certified P H w \<Longrightarrow> vp_view P b \<le> vp_view P w \<Longrightarrow> anc P w b"
proof (induction "vp_view P w" arbitrary: w rule: less_induct)
  case less
  obtain c where c: "certified P H c" "c \<noteq> vp_gen P" "vp_par P c \<noteq> vp_gen P" "vp_par P (vp_par P c) = b"
    "vp_view P c = vp_view P b + 2" using d by (auto simp: decided_def)
  have cp: "certified P H (vp_par P c)" by (rule certified_par [OF h c(1,2)])
  have mid: "vp_view P (vp_par P c) = vp_view P b + 1"
    using view_par [OF h c(1,2)] view_par [OF h cp c(3)] c(4,5) by simp
  have ca: "anc P (vp_par P c) b" "anc P c b"
    using anc_par [OF c(3)] anc_step [OF c(2), of b] c(4) by simp_all
  consider "vp_view P w = vp_view P b" | "vp_view P w = vp_view P b + 1" | "vp_view P w = vp_view P b + 2" | "vp_view P c < vp_view P w"
    using less.prems(2) c(5) by linarith
  then show ?case
  proof cases
    case 1
    then have "w = b" using certified_unique [OF h less.prems(1) decided_certified [OF h d]] by simp
    then show ?thesis by (simp add: anc_refl)
  next
    case 2
    then show ?thesis using certified_unique [OF h less.prems(1) cp] mid ca(1) by simp
  next
    case 3
    then show ?thesis using certified_unique [OF h less.prems(1) c(1)] c(5) ca(2) by simp
  next
    case 4
    then have wg: "w \<noteq> vp_gen P" using certified_above_gen [OF h c(1,2)] by auto
    obtain i where i: "(i, c) \<in> set H" "(i, w) \<in> set H" using common_voter [OF c(1,2) less.prems(1) wg] by blast
    obtain A B where "H = A @ (i, w) # B" "(i, c) \<in> set B" by (rule later_vote [OF h i 4])
    then have "vp_par P w = vp_par P c \<or> vp_view P b \<le> vp_view P (vp_par P w)"
      using hist_append [of P A i w B] h c(3,4) unfolding may_vote_def by auto
    then have "anc P (vp_par P w) b"
      using less.hyps [OF view_par [OF h less.prems(1) wg] certified_par [OF h less.prems(1) wg]] ca(1) by auto
    then show ?thesis by (rule anc_step [OF wg])
  qed
qed

lemma agreement:
  assumes "hist P H" "decided P H b" "decided P H c"
  shows "anc P b c \<or> anc P c b"
  using decided_anc [OF assms(1)] assms(2,3) decided_certified [OF assms(1)] by (metis linear)

lemma anc_view:
  assumes h: "hist P H"
  shows "anc P b a \<Longrightarrow> certified P H b \<Longrightarrow> a = b \<or> vp_view P a < vp_view P b"
proof (induction rule: anc.induct)
  case (anc_step b a)
  then show ?case using view_par [OF h anc_step.prems anc_step.hyps(1)] certified_par [OF h anc_step.prems anc_step.hyps(1)] by auto
qed simp

end

lemma path_to_gen: "path P ys (vp_gen P) \<Longrightarrow> ys = []"
  by (erule path.cases) simp_all

lemma path_to:
  assumes "path P ys b" "b \<noteq> vp_gen P"
  obtains zs where "ys = zs @ [b]" "path P zs (vp_par P b)"
  using assms by (cases rule: path.cases) simp_all

lemma path_unique: "path P xs b \<Longrightarrow> path P ys b \<Longrightarrow> xs = ys"
proof (induction arbitrary: ys rule: path.induct)
  case path_gen
  then show ?case using path_to_gen [of P ys] by simp
next
  case (path_step b xs)
  obtain zs where "ys = zs @ [b]" "path P zs (vp_par P b)" by (rule path_to [OF path_step.prems path_step.hyps(1)])
  then show ?case using path_step.IH by simp
qed

lemma anc_prefix: "anc P b a \<Longrightarrow> path P ys b \<Longrightarrow> path P xs a \<Longrightarrow> prefix xs ys"
proof (induction arbitrary: ys rule: anc.induct)
  case (anc_refl b)
  then show ?case using path_unique [of P ys b xs] by simp
next
  case (anc_step b a)
  obtain zs where "ys = zs @ [b]" "path P zs (vp_par P b)" by (rule path_to [OF anc_step.prems(1) anc_step.hyps(1)])
  then show ?case using anc_step.IH anc_step.prems(2) by (auto intro: prefix_prefix)
qed

end
