(* ===== verification/HsRules.thy ===== *)
theory HsRules
  imports HsReplica
begin

text \<open>
  The rules of the protocol variants: consensus/chainedhotstuff, consensus/fasthotstuff and
  consensus/simplehotstuff, each a vote rule and a commit rule over the block store and the locked
  block, and the proposals of the replicas of consensus/byzantine, which deviate from the protocol.
\<close>

section \<open>Chained HotStuff\<close>

definition qcRef :: "hs_env \<Rightarrow> QuorumCert \<Rightarrow> replica \<Rightarrow> replica \<times> Block option" where
  "qcRef e qc st = (if zero_hash = qc_hash qc then (st, None) else rp_get e (qc_hash qc) st)"

definition chained_CommitRule :: "hs_env \<Rightarrow> Block \<Rightarrow> replica \<Rightarrow> replica \<times> Block option" where
  "chained_CommitRule e block st =
     (case qcRef e (b_cert block) st of
        (st1, None) \<Rightarrow> (st1, None)
      | (st1, Some block1) \<Rightarrow>
          (case qcRef e (b_cert block1) st1 of
             (st2, None) \<Rightarrow> (st2, None)
           | (st2, Some block2) \<Rightarrow>
               let st3 = (if b_view block2 > b_view (rp_lock st2) then st2\<lparr>rp_lock := block2\<rparr> else st2)
               in case qcRef e (b_cert block2) st3 of
                    (st4, None) \<Rightarrow> (st4, None)
                  | (st4, Some block3) \<Rightarrow>
                      if b_parent block1 = b_hash block2 \<and> b_parent block2 = b_hash block3
                      then (st4, Some block3) else (st4, None)))"

definition chained_VoteRule :: "hs_env \<Rightarrow> ProposeMsg \<Rightarrow> replica \<Rightarrow> (replica \<times> bool) option" where
  "chained_VoteRule e proposal st =
     (let block = pm_Block proposal; (st1, qcBlock) = rp_get e (qc_hash (b_cert block)) st
      in if (case qcBlock of Some q \<Rightarrow> b_view q > b_view (rp_lock st1) | None \<Rightarrow> False)
         then Some (st1, True)
         else map_option (\<lambda>(chain, safe). (st1\<lparr>rp_chain := chain\<rparr>, safe))
                (Extends (he_fetch e) block (rp_lock st1) (rp_chain st1)))"

definition ChainedHotStuff :: rules where
  "ChainedHotStuff = \<lparr>r_VoteRule = chained_VoteRule, r_CommitRule = chained_CommitRule\<rparr>"

section \<open>Fast HotStuff\<close>

definition fast_CommitRule :: "hs_env \<Rightarrow> Block \<Rightarrow> replica \<Rightarrow> replica \<times> Block option" where
  "fast_CommitRule e block st =
     (case qcRef e (b_cert block) st of
        (st1, None) \<Rightarrow> (st1, None)
      | (st1, Some parent) \<Rightarrow>
          (case qcRef e (b_cert parent) st1 of
             (st2, None) \<Rightarrow> (st2, None)
           | (st2, Some grandparent) \<Rightarrow>
               if b_parent block = b_hash parent \<and> b_view block = b_view parent + 1
                  \<and> b_parent parent = b_hash grandparent \<and> b_view parent = b_view grandparent + 1
               then (st2, Some grandparent) else (st2, None)))"

definition fast_VoteRule :: "hs_env \<Rightarrow> ProposeMsg \<Rightarrow> replica \<Rightarrow> (replica \<times> bool) option" where
  "fast_VoteRule e proposal st =
     (let block = pm_Block proposal
      in if pm_AggregateQC proposal \<noteq> None
         then (case rp_get e (qc_hash (b_cert block)) st of
                 (st1, None) \<Rightarrow> Some (st1, False)
               | (st1, Some hqcBlock) \<Rightarrow>
                   map_option (\<lambda>(chain, ok). (st1\<lparr>rp_chain := chain\<rparr>, ok))
                     (Extends (he_fetch e) block hqcBlock (rp_chain st1)))
         else Some (st, b_view block \<ge> rp_currentView st \<and> b_view block = qc_view (b_cert block) + 1))"

definition FastHotStuff :: rules where
  "FastHotStuff = \<lparr>r_VoteRule = fast_VoteRule, r_CommitRule = fast_CommitRule\<rparr>"

section \<open>Simple HotStuff\<close>

definition simple_VoteRule :: "hs_env \<Rightarrow> ProposeMsg \<Rightarrow> replica \<Rightarrow> (replica \<times> bool) option" where
  "simple_VoteRule e proposal st =
     (let block = pm_Block proposal
      in if b_view block < rp_currentView st then Some (st, False)
         else case rp_get e (qc_hash (b_cert block)) st of
                (st1, None) \<Rightarrow> Some (st1, False)
              | (st1, Some parent) \<Rightarrow> Some (st1, \<not> b_view parent < b_view (rp_lock st1)))"

definition simple_CommitRule :: "hs_env \<Rightarrow> Block \<Rightarrow> replica \<Rightarrow> replica \<times> Block option" where
  "simple_CommitRule e block st =
     (case rp_get e (qc_hash (b_cert block)) st of
        (st1, None) \<Rightarrow> (st1, None)
      | (st1, Some p) \<Rightarrow>
          (case rp_get e (qc_hash (b_cert p)) st1 of
             (st2, None) \<Rightarrow> (st2, None)
           | (st2, Some gp) \<Rightarrow>
               let st3 = (if b_view gp > b_view (rp_lock st2) then st2\<lparr>rp_lock := gp\<rparr> else st2)
               in case rp_get e (qc_hash (b_cert gp)) st3 of
                    (st4, None) \<Rightarrow> (st4, None)
                  | (st4, Some ggp) \<Rightarrow> if b_view ggp + 2 = b_view p then (st4, Some ggp) else (st4, None)))"

definition SimpleHotStuff :: rules where
  "SimpleHotStuff = \<lparr>r_VoteRule = simple_VoteRule, r_CommitRule = simple_CommitRule\<rparr>"

section \<open>Byzantine proposals\<close>

definition silence_ProposeRule :: "hs_env \<Rightarrow> SyncInfo \<Rightarrow> Command \<Rightarrow> replica \<Rightarrow> replica \<times> ProposeMsg option" where
  "silence_ProposeRule e cert cmd st = (st, None)"

definition fork_ProposeRule :: "hs_env \<Rightarrow> SyncInfo \<Rightarrow> Command \<Rightarrow> replica \<Rightarrow> replica \<times> ProposeMsg option" where
  "fork_ProposeRule e cert cmd st =
     (case rp_get e (qc_hash (rp_highQC st)) st of
        (st1, None) \<Rightarrow> (st1, None)
      | (st1, Some block) \<Rightarrow>
          (case rp_get e (b_parent block) st1 of
             (st2, None) \<Rightarrow> (st2, None)
           | (st2, Some parent) \<Rightarrow>
               (case rp_get e (b_hash parent) st2 of
                  (st3, None) \<Rightarrow> (st3, None)
                | (st3, Some grandparent) \<Rightarrow>
                    (st3, Some \<lparr>pm_ID = he_self e,
                       pm_Block = NewBlock (he_sha e) (b_hash grandparent) (b_cert grandparent) cmd (rp_currentView st3) (he_self e),
                       pm_AggregateQC = (if he_useAggQC e then si_aggQC cert else None)\<rparr>))))"

section \<open>Chained HotStuff commits conflicting blocks\<close>

text \<open>
  Four replicas, of which replica 4 is faulty and leads every view.  The certificates below need a
  vote of replica 4 and of two others.  The hash of a block is its view, and a signature is the
  signer with the signed hash.
\<close>

definition demo_sha :: "bytes \<Rightarrow> bytes" where
  "demo_sha m = (if take 2 m = [0, 0] then [0] else take 1 (drop 5 m))"

definition demo_env :: "ID \<Rightarrow> hs_env" where
  "demo_env self =
     \<lparr>he_crypto = \<lparr>cf_sha = demo_sha, cf_verify = (\<lambda>i h rs. rs = (unat i, sum_list (map unat h))),
                   cf_sign = (\<lambda>k h. Some (unat self, sum_list (map unat h))), cf_replicas = [1, 2, 3, 4], cf_self = self\<rparr>,
      he_replies = (\<lambda>k h. []), he_leader = (\<lambda>chain b v. 4), he_useAggQC = False,
      he_marshal = (\<lambda>b. Some []), he_unmarshal = (\<lambda>c. Some []), he_arrivals = []\<rparr>"

definition demo_qc :: "ID list \<Rightarrow> 8 word \<Rightarrow> QuorumCert" where
  "demo_qc signers v = \<lparr>qc_signature = Some (map (\<lambda>i. (i, (unat i, unat v))) signers), qc_view = ucast v, qc_hash = [v]\<rparr>"

definition demo_block :: "8 word \<Rightarrow> QuorumCert \<Rightarrow> Block" where
  "demo_block v qc = \<lparr>b_hash = [v], b_parent = qc_hash qc, b_proposer = 4, b_cmd = [], b_cert = qc, b_view = ucast v\<rparr>"

definition demo_left :: "Block list" where
  "demo_left = [demo_block 1 (demo_qc [] 0), demo_block 3 (demo_qc [1, 2, 4] 1),
                demo_block 4 (demo_qc [1, 2, 4] 3), demo_block 5 (demo_qc [1, 2, 4] 4)]"

definition demo_right :: "Block list" where
  "demo_right = [demo_block 2 (demo_qc [] 0), demo_block 6 (demo_qc [2, 3, 4] 2),
                 demo_block 7 (demo_qc [2, 3, 4] 6), demo_block 8 (demo_qc [2, 3, 4] 7)]"

fun handle_proposals :: "hs_env \<Rightarrow> rules \<Rightarrow> Block list \<Rightarrow> replica \<Rightarrow> replica handler_result" where
  \<comment> \<open>proposals of replica 4, handled one after the other\<close>
  "handle_proposals e R [] st = ret st"
| "handle_proposals e R (b # bs) st =
     bind_h (OnPropose e R \<lparr>pm_ID = 4, pm_Block = b, pm_AggregateQC = None\<rparr> st) (handle_proposals e R bs)"

definition voted_and_executed :: "replica handler_result \<Rightarrow> (signed_item list \<times> Block list) option" where
  "voted_and_executed r = (case r of Some (Return st) \<Rightarrow> Some (rev (rp_signed st), rp_executed st) | _ \<Rightarrow> None)"

declare OnPropose.simps [code] commitInner.simps [code] extends_loop.simps [code] committed_views.simps [code] get_batch.simps [code]

lemma demo_blocks_ok: "list_all (block_ok demo_sha) (demo_left @ demo_right)"
  by code_simp

definition demo_proposals :: "ID \<Rightarrow> Block list" where
  \<comment> \<open>the proposals that reach each of the honest replicas, in the order of their views\<close>
  "demo_proposals i =
     (if i = 1 then demo_left
      else if i = 2 then [demo_left ! 0, demo_right ! 0, demo_left ! 1, demo_left ! 2, demo_right ! 1, demo_right ! 2]
      else demo_right)"

definition demo_run :: "rules \<Rightarrow> ID \<Rightarrow> (signed_item list \<times> Block list) option" where
  "demo_run R i = voted_and_executed (handle_proposals (demo_env i) R (demo_proposals i) (new_replica demo_sha 1))"

definition certified_by_votes :: "(ID \<Rightarrow> Block list) \<Rightarrow> ID \<Rightarrow> Block \<Rightarrow> bool" where
  \<comment> \<open>the block extends the block of its certificate, for which all signers but one voted\<close>
  "certified_by_votes votes faulty b \<longleftrightarrow> b_parent b = qc_hash (b_cert b)
     \<and> list_all (\<lambda>(j, rs). j = faulty \<or> list_ex (\<lambda>c. b_hash c = qc_hash (b_cert b)) (votes j))
         (case qc_signature (b_cert b) of Some sig \<Rightarrow> sig | None \<Rightarrow> [])"

lemma demo_runs:
  "demo_run ChainedHotStuff 1 = Some (map SignedBlock (demo_proposals 1), [demo_left ! 0])"
  "demo_run ChainedHotStuff 2 = Some (map SignedBlock (demo_proposals 2), [])"
  "demo_run ChainedHotStuff 3 = Some (map SignedBlock (demo_proposals 3), [demo_right ! 0])"
  by code_simp+

lemma demo_blocks_certified: "list_all (certified_by_votes demo_proposals 4) (demo_left @ demo_right)"
  by code_simp

text \<open>
  C26: ChainedHotStuff, as written, executes conflicting blocks although only one of four replicas is
  faulty.  Every proposal below is well formed and extends the block of its certificate; every
  signature in a certificate is of the faulty replica or of an honest replica that voted for the
  certified block; and the honest replicas vote for all proposals that reach them.  Still replicas
  1 and 3 execute different blocks with the same parent.  The commit rule asks for three linked
  certified blocks but not for consecutive views.
\<close>

theorem chained_hotstuff_executes_conflicting_blocks:
  "list_all (\<lambda>b. block_ok demo_sha b \<and> certified_by_votes demo_proposals 4 b) (demo_left @ demo_right)
   \<and> demo_run ChainedHotStuff 1 = Some (map SignedBlock (demo_proposals 1), [demo_left ! 0])
   \<and> demo_run ChainedHotStuff 2 = Some (map SignedBlock (demo_proposals 2), [])
   \<and> demo_run ChainedHotStuff 3 = Some (map SignedBlock (demo_proposals 3), [demo_right ! 0])
   \<and> b_parent (demo_left ! 0) = b_parent (demo_right ! 0) \<and> b_view (demo_left ! 0) \<noteq> b_view (demo_right ! 0)"
proof -
  have "b_parent (demo_left ! 0) = b_parent (demo_right ! 0) \<and> b_view (demo_left ! 0) \<noteq> b_view (demo_right ! 0)"
    by code_simp
  then show ?thesis using demo_runs demo_blocks_ok demo_blocks_certified by (simp add: list_all_iff)
qed

end
