(* ===== verification/HsSync.thy ===== *)
theory HsSync
  imports HsRules
begin

text \<open>
  The other handlers of a HotStuff replica: timeouts and new views of synchronizer/synchronizer.go,
  and the collection of votes of consensus/votingmachine.go.

  \<^item> Votes are verified at once or in a goroutine: \<open>OnVote\<close> returns the verification that it starts,
    and \<open>verifyCert\<close> is a step of its own.
  \<^item> A deferred clean-up is applied on every return of its function.
\<close>

section \<open>Timeouts and new views\<close>

definition forget_timeouts :: "View \<Rightarrow> replica \<Rightarrow> replica" where
  "forget_timeouts currView st = st\<lparr>rp_timeouts := filter (\<lambda>p. \<not> fst p < currView) (rp_timeouts st)\<rparr>"

definition record_timeout :: "TimeoutMsg \<Rightarrow> replica \<Rightarrow> replica \<times> (ID, TimeoutMsg) gomap" where
  "record_timeout timeout st =
     (let timeouts = (case gm_get (rp_timeouts st) (tm_View timeout) of Some m \<Rightarrow> m | None \<Rightarrow> []);
          timeouts' = (if gm_get timeouts (tm_ID timeout) = None then gm_put (tm_ID timeout) timeout timeouts else timeouts)
      in (st\<lparr>rp_timeouts := gm_put (tm_View timeout) timeouts' (rp_timeouts st)\<rparr>, timeouts'))"

definition timeout_SyncInfo :: "hs_env \<Rightarrow> View \<Rightarrow> TimeoutCert \<Rightarrow> TimeoutMsg list \<Rightarrow> replica \<Rightarrow> SyncInfo handler_result" where
  "timeout_SyncInfo e currView tc timeoutList st =
     (let si = WithTC tc (rp_SyncInfo st)
      in if he_useAggQC e
         then (case CreateAggregateQC currView timeoutList of
                 Return aggQC \<Rightarrow> ret (WithAggQC aggQC si)
               | Error _ \<Rightarrow> ret si
               | Panic \<Rightarrow> Some (Error st))
         else ret si)"

definition OnRemoteTimeout :: "hs_env \<Rightarrow> rules \<Rightarrow> TimeoutMsg \<Rightarrow> replica \<Rightarrow> replica handler_result" where
  "OnRemoteTimeout e R timeout st =
     (let currView = rp_currentView st
      in bind_h (crash_h st (Verify (he_crypto e) (tm_ViewSignature timeout) (view_ToBytes (tm_View timeout)))) (\<lambda>ok.
         if \<not> ok then ret (forget_timeouts currView st)
         else bind_h (AdvanceView e R (tm_SyncInfo timeout) st) (\<lambda>st1.
              let (st2, timeouts) = record_timeout timeout st1
              in if int (length timeouts) < cfg_QuorumSize (he_crypto e) then ret (forget_timeouts currView st2)
                 else case CreateTimeoutCert (tm_View timeout) (map snd timeouts) of
                        Panic \<Rightarrow> Some (Error st2)
                      | Error _ \<Rightarrow> ret (forget_timeouts currView st2)
                      | Return tc \<Rightarrow>
                          bind_h (timeout_SyncInfo e currView tc (map snd timeouts) st2) (\<lambda>si.
                          bind_h (AdvanceView e R si (st2\<lparr>rp_timeouts := gm_del (tm_View timeout) (rp_timeouts st2)\<rparr>)) (\<lambda>st3.
                          ret (forget_timeouts currView st3))))))"

definition sign_item :: "hs_env \<Rightarrow> signed_item \<Rightarrow> bytes \<Rightarrow> replica \<Rightarrow> replica \<times> Multi option" where
  \<comment> \<open>a signature of the replica; \<open>None\<close> is an error of the signing\<close>
  "sign_item e item message st =
     (let st1 = st\<lparr>rp_signatures := Suc (rp_signatures st)\<rparr>
      in case Sign (he_crypto e) (rp_signatures st) message of
           Return sig \<Rightarrow> (st1\<lparr>rp_signed := item # rp_signed st1\<rparr>, Some sig)
         | _ \<Rightarrow> (st1, None))"

definition sign_timeout :: "hs_env \<Rightarrow> replica \<Rightarrow> replica \<times> TimeoutMsg option" where
  "sign_timeout e st =
     (let view = rp_currentView st
      in case sign_item e (SignedView view) (view_ToBytes view) st of
           (st1, None) \<Rightarrow> (st1, None)
         | (st1, Some sig) \<Rightarrow>
             let timeoutMsg = \<lparr>tm_ID = he_self e, tm_View = view, tm_ViewSignature = Some sig, tm_MsgSignature = None,
                               tm_SyncInfo = rp_SyncInfo st1\<rparr>
             in if he_useAggQC e
                then (case sign_item e (SignedTimeout timeoutMsg) (timeout_ToBytes timeoutMsg) st1 of
                        (st2, None) \<Rightarrow> (st2, None)
                      | (st2, Some sig2) \<Rightarrow> (st2, Some (timeoutMsg\<lparr>tm_MsgSignature := Some sig2\<rparr>)))
                else (st1, Some timeoutMsg))"

definition OnLocalTimeout :: "hs_env \<Rightarrow> rules \<Rightarrow> replica \<Rightarrow> replica handler_result" where
  "OnLocalTimeout e R st =
     (let view = rp_currentView st; st1 = st\<lparr>rp_isTimeout := True\<rparr>
      in case (rp_lastTimeout st1, map_option tm_View (rp_lastTimeout st1) = Some view) of
           (Some lastTimeout, True) \<Rightarrow> ret (emit (SendTimeout lastTimeout) st1)
         | _ \<Rightarrow>
             (case sign_timeout e st1 of
                (st2, None) \<Rightarrow> ret st2
              | (st2, Some timeoutMsg) \<Rightarrow>
                  OnRemoteTimeout e R timeoutMsg
                    (emit (SendTimeout timeoutMsg) (StopVoting view (st2\<lparr>rp_lastTimeout := Some timeoutMsg\<rparr>)))))"

definition OnNewView :: "hs_env \<Rightarrow> rules \<Rightarrow> SyncInfo \<Rightarrow> replica \<Rightarrow> replica handler_result" where
  "OnNewView e R si st = AdvanceView e R si st"

section \<open>Votes\<close>

definition OnVote :: "hs_env \<Rightarrow> VoteMsg \<Rightarrow> replica \<Rightarrow> replica \<times> (PartialCert \<times> Block) option" where
  "OnVote e vote st =
     (let cert = vm_PartialCert vote;
          old = (\<lambda>block st. b_view block \<le> qc_view (rp_highQC st))
      in if \<not> vm_Deferred vote
         then (case LocalGet (pc_blockHash cert) (rp_chain st) of
                 None \<Rightarrow> (emit (DelayVote (vote\<lparr>vm_Deferred := True\<rparr>)) st, None)
               | Some block \<Rightarrow> (st, if old block st then None else Some (cert, block)))
         else (case rp_get e (pc_blockHash cert) st of
                 (st1, None) \<Rightarrow> (st1, None)
               | (st1, Some block) \<Rightarrow> (st1, if old block st1 then None else Some (cert, block))))"

definition forget_votes :: "replica \<Rightarrow> replica" where
  "forget_votes st =
     st\<lparr>rp_verifiedVotes := filter (\<lambda>p. case LocalGet (fst p) (rp_chain st) of
          Some block \<Rightarrow> \<not> b_view block \<le> qc_view (rp_highQC st) | None \<Rightarrow> False) (rp_verifiedVotes st)\<rparr>"

definition add_verified :: "PartialCert \<Rightarrow> replica \<Rightarrow> replica \<times> PartialCert list" where
  "add_verified cert st =
     (let votes = (case gm_get (rp_verifiedVotes st) (pc_blockHash cert) of Some vs \<Rightarrow> vs | None \<Rightarrow> []) @ [cert]
      in (st\<lparr>rp_verifiedVotes := gm_put (pc_blockHash cert) votes (rp_verifiedVotes st)\<rparr>, votes))"

definition verifyCert :: "hs_env \<Rightarrow> PartialCert \<Rightarrow> Block \<Rightarrow> replica \<Rightarrow> replica handler_result" where
  "verifyCert e cert block st =
     bind_h (crash_h st (VerifyPartialCert (he_crypto e) (he_fetch e) cert (rp_chain st))) (\<lambda>(chain, ok).
     let st1 = st\<lparr>rp_chain := chain\<rparr>
     in if \<not> ok then ret st1
        else let (st2, votes) = add_verified cert st1
             in if int (length votes) < cfg_QuorumSize (he_crypto e) then ret (forget_votes st2)
                else case CreateQuorumCert (he_crypto e) block votes of
                       Panic \<Rightarrow> Some (Error st2)
                     | Error _ \<Rightarrow> ret (forget_votes st2)
                     | Return qc \<Rightarrow>
                         ret (forget_votes (emit (AddNewView (he_self e) (WithQC qc NewSyncInfo))
                                (st2\<lparr>rp_verifiedVotes := gm_del (pc_blockHash cert) (rp_verifiedVotes st2)\<rparr>))))"

fun handle_votes :: "hs_env \<Rightarrow> VoteMsg list \<Rightarrow> replica \<Rightarrow> replica handler_result" where
  \<comment> \<open>votes that are verified as they come\<close>
  "handle_votes e [] st = ret st"
| "handle_votes e (v # vs) st =
     (case OnVote e v st of
        (st1, None) \<Rightarrow> handle_votes e vs st1
      | (st1, Some (cert, block)) \<Rightarrow> bind_h (verifyCert e cert block st1) (handle_votes e vs))"

section \<open>Collecting the votes for a block\<close>

definition collecting :: "hs_env \<Rightarrow> Block \<Rightarrow> Multi list \<Rightarrow> replica \<Rightarrow> bool" where
  \<comment> \<open>the block is stored and newer than the highest certificate, and these votes for it are recorded\<close>
  "collecting e block ms st \<longleftrightarrow> chain_ok (he_sha e) (rp_chain st)
     \<and> gm_get (bc_blocks (rp_chain st)) (b_hash block) = Some block
     \<and> \<not> b_view block \<le> qc_view (rp_highQC st) \<and> b_hash block \<noteq> b_hash (GetGenesis (he_sha e))
     \<and> map pc_signature (case gm_get (rp_verifiedVotes st) (b_hash block) of Some vs \<Rightarrow> vs | None \<Rightarrow> []) = map Some ms"

definition certificates_for :: "Hash \<Rightarrow> replica \<Rightarrow> out list" where
  "certificates_for h st =
     filter (\<lambda>x. case x of AddNewView i si \<Rightarrow> map_option qc_hash (si_qc si) = Some h | _ \<Rightarrow> False) (rp_out st)"

lemma gm_get_filter: "gm_get (filter (\<lambda>p. Q (fst p)) m) k = (if Q k then gm_get m k else None)"
  by (induction m) (auto simp: gm_get_def)

lemma collecting_forget: "collecting e block ms st \<Longrightarrow> collecting e block ms (forget_votes st)"
  by (simp add: collecting_def forget_votes_def LocalGet_def gm_get_filter [where Q = "\<lambda>h. case gm_get _ h of Some block \<Rightarrow> _ block | None \<Rightarrow> False"])

lemma collecting_grows:
  "collecting e block ms st \<Longrightarrow> grows (rp_chain st) chain \<Longrightarrow> chain_ok (he_sha e) chain \<Longrightarrow> collecting e block ms (st\<lparr>rp_chain := chain\<rparr>)"
  by (auto simp: collecting_def grows_def)

lemma certificates_for_forget [simp]: "certificates_for h (forget_votes st) = certificates_for h st"
  and certificates_for_chain [simp]: "certificates_for h (st\<lparr>rp_chain := chain\<rparr>) = certificates_for h st"
  and certificates_for_votes [simp]: "certificates_for h (st\<lparr>rp_verifiedVotes := vs\<rparr>) = certificates_for h st"
  by (simp_all add: certificates_for_def forget_votes_def)

lemma certificates_for_emit:
  "certificates_for h (emit (AddNewView i (WithQC qc NewSyncInfo)) st)
     = certificates_for h st @ (if qc_hash qc = h then [AddNewView i (WithQC qc NewSyncInfo)] else [])"
  by (simp add: certificates_for_def emit_def WithQC_def)

lemma VerifyPartialCert_stored:
  assumes "collecting e block ms st" "pc_blockHash cert = b_hash block"
  shows "VerifyPartialCert (he_crypto e) fetch cert (rp_chain st)
     = bind_o (Verify (he_crypto e) (pc_signature cert) (block_ToBytes block)) (\<lambda>ok. Return (rp_chain st, ok))"
  using assms Get_stored [of "rp_chain st" "b_hash block" block fetch]
  by (simp add: VerifyPartialCert_def collecting_def)

lemma add_verified_collecting:
  assumes "collecting e block ms st" "add_verified cert st = (st1, votes)"
    "pc_blockHash cert = b_hash block" "pc_signature cert = Some m"
  shows "collecting e block (ms @ [m]) st1" "map pc_signature votes = map Some (ms @ [m])"
    "rp_out st1 = rp_out st" "rp_chain st1 = rp_chain st"
  using assms by (auto simp: collecting_def add_verified_def Let_def)

lemma CreateQuorumCert_votes:
  assumes "b_hash block \<noteq> b_hash (GetGenesis (cf_sha cf))" "map pc_signature votes = map Some ms"
  shows "CreateQuorumCert cf block votes =
     (if length ms < 2 then Error ErrCombineMultiple
      else if distinct (map fst (concat ms))
           then Return \<lparr>qc_signature = Some (concat ms), qc_view = b_view block, qc_hash = b_hash block\<rparr>
           else Error ErrCombineOverlap)"
  using assms unfolding CreateQuorumCert_def by (simp only: Combine_eq) simp

lemma OnVote_collecting:
  assumes "collecting e block ms st" "pc_blockHash (vm_PartialCert v) = b_hash block"
  shows "OnVote e v st = (st, Some (vm_PartialCert v, block))"
  using assms Get_stored [of "rp_chain st" "b_hash block" block "he_fetch e"]
  by (auto simp: OnVote_def collecting_def LocalGet_def rp_get_def Let_def)

definition vote_ok :: "hs_env \<Rightarrow> Block \<Rightarrow> PartialCert \<Rightarrow> Multi \<Rightarrow> bool" where
  \<comment> \<open>a valid vote for the block with this signature\<close>
  "vote_ok e block cert m \<longleftrightarrow> pc_blockHash cert = b_hash block \<and> pc_signature cert = Some m
     \<and> Verify (he_crypto e) (Some m) (block_ToBytes block) = Return True"

lemma verifyCert_collecting:
  assumes st: "collecting e block ms st" and vote: "vote_ok e block cert m"
  shows "\<exists>st'. verifyCert e cert block st = ret st' \<and> rp_chain st' = rp_chain st
     \<and> (if cfg_QuorumSize (he_crypto e) \<le> int (length ms + 1) \<and> 2 \<le> length ms + 1 \<and> distinct (map fst (concat (ms @ [m])))
        then rp_out st' = rp_out st @ [AddNewView (he_self e) (WithQC
               \<lparr>qc_signature = Some (concat (ms @ [m])), qc_view = b_view block, qc_hash = b_hash block\<rparr> NewSyncInfo)]
        else collecting e block (ms @ [m]) st' \<and> rp_out st' = rp_out st)"
proof -
  have h: "pc_blockHash cert = b_hash block" "pc_signature cert = Some m"
    and ok: "Verify (he_crypto e) (Some m) (block_ToBytes block) = Return True" using vote by (simp_all add: vote_ok_def)
  obtain st1 votes where a: "add_verified cert st = (st1, votes)" by force
  note c = add_verified_collecting [OF st a h]
  have g: "b_hash block \<noteq> b_hash (GetGenesis (he_sha e))" using st by (simp add: collecting_def)
  note q = CreateQuorumCert_votes [OF g c(2)]
  have len: "length votes = length ms + 1" using arg_cong [OF c(2), of length] by simp
  have r [simp]: "rp_out (forget_votes s) = rp_out s" "rp_chain (forget_votes s) = rp_chain s" for s
    by (simp_all add: forget_votes_def)
  let ?full = "cfg_QuorumSize (he_crypto e) \<le> int (length ms + 1) \<and> 2 \<le> length ms + 1 \<and> distinct (map fst (concat (ms @ [m])))"
  let ?qc = "\<lparr>qc_signature = Some (concat (ms @ [m])), qc_view = b_view block, qc_hash = b_hash block\<rparr>"
  define st' where "st' = (if ?full
      then forget_votes (emit (AddNewView (he_self e) (WithQC ?qc NewSyncInfo))
             (st1\<lparr>rp_verifiedVotes := gm_del (b_hash block) (rp_verifiedVotes st1)\<rparr>))
      else forget_votes st1)"
  have eq: "verifyCert e cert block st = ret st'"
    unfolding verifyCert_def VerifyPartialCert_stored [OF st h(1)] h(2) ok st'_def
    by (cases ?full) (auto simp: crash_h_def a q len h Suc_le_eq simp del: concat_append map_append distinct_append)
  show ?thesis
    using eq collecting_forget [OF c(1)]
    by (intro exI [of _ st']) (auto simp: st'_def emit_def c(3,4) simp del: concat_append map_append distinct_append)
qed

lemma verifyCert_waits:
  assumes "collecting e block ms st" "vote_ok e block cert m"
    "int (length ms + 1) < cfg_QuorumSize (he_crypto e) \<or> ms = [] \<or> \<not> distinct (map fst (concat (ms @ [m])))"
  obtains st' where "verifyCert e cert block st = ret st'" "rp_chain st' = rp_chain st"
    "collecting e block (ms @ [m]) st'" "rp_out st' = rp_out st"
proof -
  have "\<not> (cfg_QuorumSize (he_crypto e) \<le> int (length ms + 1) \<and> 2 \<le> length ms + 1 \<and> distinct (map fst (concat (ms @ [m]))))"
    using assms(3) by auto
  then show thesis using verifyCert_collecting [OF assms(1,2)] that by (simp only: if_False) blast
qed

lemma handle_votes_collecting:
  assumes "collecting e block ms st"
    "\<And>v. v \<in> set vs \<Longrightarrow> vote_ok e block (vm_PartialCert v) (sig v)"
    "int (length ms + length vs) < cfg_QuorumSize (he_crypto e)"
  shows "\<exists>st'. handle_votes e (vs @ ws) st = handle_votes e ws st' \<and> collecting e block (ms @ map sig vs) st'
     \<and> rp_out st' = rp_out st \<and> rp_chain st' = rp_chain st"
  using assms
proof (induction vs arbitrary: ms st)
  case Nil
  then show ?case by auto
next
  case (Cons v vs)
  have v: "vote_ok e block (vm_PartialCert v) (sig v)" using Cons.prems(2) by auto
  obtain st1 where st1: "verifyCert e (vm_PartialCert v) block st = ret st1" "rp_chain st1 = rp_chain st"
    "collecting e block (ms @ [sig v]) st1" "rp_out st1 = rp_out st"
    using verifyCert_waits [OF Cons.prems(1) v] Cons.prems(3) by auto
  obtain st' where "handle_votes e (vs @ ws) st1 = handle_votes e ws st'" "collecting e block ((ms @ [sig v]) @ map sig vs) st'"
    "rp_out st' = rp_out st1" "rp_chain st' = rp_chain st1"
    using Cons.IH [OF st1(3)] Cons.prems(2,3) by auto
  then show ?case using OnVote_collecting [OF Cons.prems(1), of v] v st1 by (auto simp: vote_ok_def)
qed

lemma length_concat_ge: "\<forall>m \<in> set ms. m \<noteq> [] \<Longrightarrow> length ms \<le> length (concat ms)"
proof (induction ms)
  case (Cons m ms)
  then show ?case by (cases m) (auto intro: le_trans)
qed simp

definition same_keys :: "crypto_cfg \<Rightarrow> crypto_cfg \<Rightarrow> bool" where
  \<comment> \<open>configurations of two replicas of one system: the same hash, replicas and public keys\<close>
  "same_keys cf cf' \<longleftrightarrow> cf_sha cf' = cf_sha cf \<and> cf_replicas cf' = cf_replicas cf \<and> cf_verify cf' = cf_verify cf"

lemma same_keys_eq:
  assumes "same_keys cf cf'"
  shows "Verify cf' s m = Verify cf s m" "cfg_QuorumSize cf' = cfg_QuorumSize cf"
  using assms by (auto simp: same_keys_def Verify_def verifySingle_def cfg_QuorumSize_def cfg_Len_def split: option.split)

lemma VerifyQuorumCert_accepts:
  assumes "gm_get (bc_blocks chain) (qc_hash qc) = Some block" "qc_signature qc = Some s"
    "Verify cf (Some s) (block_ToBytes block) = Return True" "cfg_QuorumSize cf \<le> int (length s)"
  shows "VerifyQuorumCert cf fetch qc chain = Return (chain, True)"
  using assms Get_stored [OF assms(1), of fetch] by (simp add: VerifyQuorumCert_def)

text \<open>
  C27: a quorum of votes makes a certificate.  When a replica that has the block gets valid votes for
  it, as many as the quorum and at least two, from disjoint signers, the last one makes it send a
  new-view event to itself with a certificate of the block.  Every replica that knows the same
  replicas and public keys and has the block stored accepts this certificate, whatever else is in its
  store, whatever its network answers and whatever its own identity and key are.
\<close>

theorem quorum_of_votes_makes_certificate:
  assumes st: "collecting e block [] st" and two: "2 \<le> length votes"
    and votes: "\<And>v. v \<in> set votes \<Longrightarrow> vote_ok e block (vm_PartialCert v) (sig v)"
    and quorum: "int (length votes) = cfg_QuorumSize (he_crypto e)" and disj: "distinct (map fst (concat (map sig votes)))"
  shows "\<exists>st' qc. handle_votes e votes st = ret st' \<and> rp_out st' = rp_out st @ [AddNewView (he_self e) (WithQC qc NewSyncInfo)]
     \<and> qc_hash qc = b_hash block \<and> qc_view qc = b_view block
     \<and> (\<forall>cf fetch chain. same_keys (he_crypto e) cf \<and> gm_get (bc_blocks chain) (b_hash block) = Some block \<longrightarrow>
          VerifyQuorumCert cf fetch qc chain = Return (chain, True))"
proof -
  obtain vs v where vv: "votes = vs @ [v]" using two by (cases votes rule: rev_cases) auto
  let ?qc = "\<lparr>qc_signature = Some (concat (map sig votes)), qc_view = b_view block, qc_hash = b_hash block\<rparr>"
  have v: "vote_ok e block (vm_PartialCert v) (sig v)" using votes vv by auto
  obtain st1 where st1: "handle_votes e votes st = handle_votes e [v] st1" "collecting e block (map sig vs) st1"
    "rp_out st1 = rp_out st" "rp_chain st1 = rp_chain st"
    using handle_votes_collecting [OF st, of vs sig "[v]"] votes quorum vv by auto
  obtain st' where st': "verifyCert e (vm_PartialCert v) block st1 = ret st'" "rp_chain st' = rp_chain st1"
    "rp_out st' = rp_out st1 @ [AddNewView (he_self e) (WithQC ?qc NewSyncInfo)]"
    using verifyCert_collecting [OF st1(2) v] quorum two disj vv by auto
  have each: "sig w \<noteq> [] \<and> (\<forall>s \<in> set (sig w). verifySingle (he_crypto e) s (he_sha e (block_ToBytes block)))" if "w \<in> set votes" for w
    using votes [OF that] by (simp add: vote_ok_def Verify_True)
  have len: "length votes \<le> length (concat (map sig votes))"
    using length_concat_ge [of "map sig votes"] each by auto
  have "concat (map sig votes) \<noteq> []" using each [of v] vv by auto
  then have ok: "Verify (he_crypto e) (Some (concat (map sig votes))) (block_ToBytes block) = Return True"
    using each by (auto simp: Verify_True)
  have "VerifyQuorumCert cf fetch ?qc chain = Return (chain, True)"
    if "same_keys (he_crypto e) cf" "gm_get (bc_blocks chain) (b_hash block) = Some block" for cf fetch chain
    using that(2) ok len quorum [symmetric]
    by (intro VerifyQuorumCert_accepts) (simp_all add: same_keys_eq [OF that(1)])
  then show ?thesis
    using st1 st' OnVote_collecting [OF st1(2), of v] v
    by (intro exI [of _ st'] exI [of _ ?qc]) (simp add: vote_ok_def)
qed

section \<open>A repeated vote\<close>

lemma CreateQuorumCert_hash: "CreateQuorumCert cf block votes = Return qc \<Longrightarrow> qc_hash qc = b_hash block"
  by (auto simp: CreateQuorumCert_def bind_o_Return_iff split: if_splits)

lemma OnVote_keeps:
  assumes "collecting e block ms st" "OnVote e v st = (st1, r)"
  shows "collecting e block ms st1" "certificates_for h st1 = certificates_for h st"
    "r = Some (cert, block') \<Longrightarrow> gm_get (bc_blocks (rp_chain st1)) (pc_blockHash cert) = Some block'"
proof -
  obtain chain b where g: "Get (he_fetch e) (pc_blockHash (vm_PartialCert v)) (rp_chain st) = (chain, b)" by force
  have ok: "chain_ok (he_sha e) (rp_chain st)" using assms(1) by (simp add: collecting_def)
  have c: "collecting e block ms (st\<lparr>rp_chain := chain\<rparr>)"
    using collecting_grows [OF assms(1) Get_grows [OF g] Get_ok(1) [OF g ok Fetch_ok]] .
  have d: "collecting e block ms (emit (DelayVote w) st)" for w using assms(1) by (simp add: collecting_def emit_def)
  have f: "certificates_for h (emit (DelayVote w) st) = certificates_for h st" for w by (simp add: certificates_for_def emit_def)
  show "collecting e block ms st1" "certificates_for h st1 = certificates_for h st"
    "r = Some (cert, block') \<Longrightarrow> gm_get (bc_blocks (rp_chain st1)) (pc_blockHash cert) = Some block'"
    using assms g c d f Get_ok(2) [OF g ok Fetch_ok]
    by (auto simp: OnVote_def rp_get_def LocalGet_def Let_def split: if_splits option.splits)
qed

lemma collecting_other:
  "collecting e block ms st \<Longrightarrow> h \<noteq> b_hash block \<Longrightarrow> collecting e block ms (st\<lparr>rp_verifiedVotes := gm_put h vs (rp_verifiedVotes st)\<rparr>)"
  "collecting e block ms st \<Longrightarrow> h \<noteq> b_hash block \<Longrightarrow> collecting e block ms (st\<lparr>rp_verifiedVotes := gm_del h (rp_verifiedVotes st)\<rparr>)"
  by (simp_all add: collecting_def gm_get_del)

lemma collecting_emit: "collecting e block ms (emit x st) = collecting e block ms st"
  by (simp add: collecting_def emit_def)

lemma verifyCert_blocked:
  assumes st: "collecting e block ms st" "\<not> distinct (map fst (concat ms))"
    and b: "gm_get (bc_blocks (rp_chain st)) (pc_blockHash cert) = Some block'"
    and run: "verifyCert e cert block' st = Some (Return st')"
  shows "\<exists>ms'. collecting e block ms' st' \<and> \<not> distinct (map fst (concat ms')) \<and> certificates_for (b_hash block) st' = certificates_for (b_hash block) st"
proof -
  have hb: "b_hash block' = pc_blockHash cert" using b st(1) by (auto simp: collecting_def chain_ok_def)
  have v: "VerifyPartialCert (he_crypto e) fetch cert (rp_chain st)
      = bind_o (Verify (he_crypto e) (pc_signature cert) (block_ToBytes block')) (\<lambda>ok. Return (rp_chain st, ok))" for fetch
    using Get_stored [OF b] by (simp add: VerifyPartialCert_def)
  obtain ok where ok: "Verify (he_crypto e) (pc_signature cert) (block_ToBytes block') = Return ok"
    using run unfolding verifyCert_def v by (cases "Verify (he_crypto e) (pc_signature cert) (block_ToBytes block')") (auto simp: crash_h_def)
  show ?thesis
  proof (cases "ok \<and> pc_blockHash cert = b_hash block")
    case True
    then have bl: "block' = block" using b st(1) by (simp add: collecting_def)
    obtain m where m: "pc_signature cert = Some m" using ok by (cases "pc_signature cert") (auto simp: Verify_def)
    have "vote_ok e block cert m" using True ok m bl by (simp add: vote_ok_def)
    then have "collecting e block (ms @ [m]) st' \<and> rp_out st' = rp_out st"
      using verifyCert_waits [OF st(1), of cert m] run st(2) bl by (auto simp: ret_def)
    then show ?thesis using st(2) by (intro exI [of _ "ms @ [m]"]) (auto simp: certificates_for_def)
  next
    case False
    obtain st2 votes where a: "add_verified cert st = (st2, votes)" by force
    have c: "collecting e block ms st2" "certificates_for h st2 = certificates_for h st" if "pc_blockHash cert \<noteq> b_hash block" for h
      using a st(1) that collecting_other(1) by (auto simp: add_verified_def Let_def)
    have "collecting e block ms st' \<and> certificates_for (b_hash block) st' = certificates_for (b_hash block) st"
      using run False c st(1) CreateQuorumCert_hash [of "he_crypto e" block' votes] hb unfolding verifyCert_def v ok
      by (auto simp: crash_h_def a ret_def collecting_emit certificates_for_emit intro!: collecting_forget collecting_other split: if_splits outcome.splits)
    then show ?thesis using st(2) by blast
  qed
qed

lemma handle_votes_blocked:
  "collecting e block ms st \<Longrightarrow> \<not> distinct (map fst (concat ms)) \<Longrightarrow> handle_votes e vs st = Some (Return st')
     \<Longrightarrow> certificates_for (b_hash block) st' = certificates_for (b_hash block) st"
proof (induction vs arbitrary: ms st)
  case (Cons v vs)
  obtain st1 r where o: "OnVote e v st = (st1, r)" by force
  note k = OnVote_keeps [OF Cons.prems(1) o]
  show ?case
  proof (cases r)
    case None
    then show ?thesis using Cons.IH [OF k(1) Cons.prems(2)] Cons.prems(3) k(2) o by simp
  next
    case (Some p)
    obtain cert block' where p: "p = (cert, block')" by force
    obtain st2 where st2: "verifyCert e cert block' st1 = Some (Return st2)" "handle_votes e vs st2 = Some (Return st')"
      using Cons.prems(3) o Some p by (auto simp: bind_h_def split: Option.bind_splits outcome.splits)
    obtain ms' where "collecting e block ms' st2" "\<not> distinct (map fst (concat ms'))"
      "certificates_for (b_hash block) st2 = certificates_for (b_hash block) st1"
      using verifyCert_blocked [OF k(1) Cons.prems(2) k(3) st2(1)] Some p by auto
    then show ?thesis using Cons.IH [of ms' st2] st2(2) k(2) by simp
  qed
qed (simp add: ret_def)

text \<open>
  C28: one replica can prevent a certificate.  When the first two valid votes that a replica gets for
  a block have a common signer, for example because a faulty replica sends its vote twice, then no
  votes that it handles next, however many and for whatever blocks, make a certificate of that block:
  the two stay recorded, and the signatures of all recorded votes no longer combine.  This is about
  votes handled one after the other; a message between them that raises the high certificate to the
  view of the block makes the next vote clear the recorded ones.
\<close>

theorem repeated_vote_blocks_certificate:
  assumes "collecting e block [] st" "vote_ok e block (vm_PartialCert v) m" "vote_ok e block (vm_PartialCert w) n"
    and "i \<in> set (map fst m)" "i \<in> set (map fst n)"
    and "handle_votes e (v # w # vs) st = Some (Return st')"
  shows "certificates_for (b_hash block) st' = certificates_for (b_hash block) st"
proof -
  obtain st1 where st1: "verifyCert e (vm_PartialCert v) block st = ret st1" "collecting e block [m] st1" "rp_out st1 = rp_out st"
    using verifyCert_waits [OF assms(1,2)] by (metis append_Nil)
  have nd: "\<not> distinct (map fst (concat ([m] @ [n])))" using assms(4,5) by auto
  then obtain st2 where st2: "verifyCert e (vm_PartialCert w) block st1 = ret st2" "collecting e block [m, n] st2" "rp_out st2 = rp_out st1"
    using verifyCert_waits [OF st1(2) assms(3)] by (metis append_Cons append_Nil)
  have "handle_votes e vs st2 = Some (Return st')"
    using assms(6) st1 st2 OnVote_collecting [OF assms(1), of v] OnVote_collecting [OF st1(2), of w] assms(2,3)
    by (simp add: vote_ok_def)
  then have "certificates_for (b_hash block) st' = certificates_for (b_hash block) st2"
    using handle_votes_blocked [OF st2(2)] nd by simp
  then show ?thesis using st1(3) st2(3) by (simp add: certificates_for_def)
qed

section \<open>Malformed certificates\<close>

text \<open>
  C29: malformed certificates crash a replica.  A new-view message with a certificate of another block
  than genesis that carries no signature, which the decoder of messages produces when the field is
  absent, crashes every replica in every state, leader or not.  A message with nothing but a valid
  timeout certificate of a view not below the current one crashes the leader of the next view when a
  command is available and aggregate certificates are off: it proposes a block with the zero
  certificate and fails to verify it, provided genesis does not hash to zero.
\<close>

theorem malformed_certificates_crash:
  "(qc_signature qc = None \<and> qc_hash qc \<noteq> b_hash (GetGenesis (he_sha e)) \<longrightarrow>
      OnNewView e R (WithQC qc NewSyncInfo) st = Some (Error st))
   \<and> (VerifyTimeoutCert (he_crypto e) tc = Return True \<and> rp_currentView st \<le> tc_view tc
        \<and> he_leader e (rp_chain st) (rp_bExec st) (tc_view tc + 1) = he_self e
        \<and> cmd_Get (he_marshal e) (rp_cmds st) (he_arrivals e) \<noteq> None
        \<and> \<not> he_useAggQC e \<and> zero_hash \<noteq> b_hash (GetGenesis (he_sha e)) \<longrightarrow>
      (\<exists>st'. OnNewView e R (WithTC tc NewSyncInfo) st = Some (Error st')))"
proof (intro conjI impI)
  assume unsigned: "qc_signature qc = None \<and> qc_hash qc \<noteq> b_hash (GetGenesis (he_sha e))"
  then show "OnNewView e R (WithQC qc NewSyncInfo) st = Some (Error st)"
    by (simp add: OnNewView_def AdvanceView_def advance_def advance_tc_def advance_qc_def WithQC_def
        NewSyncInfo_def verify_qc_def VerifyQuorumCert_def crash_h_def)
next
  assume "VerifyTimeoutCert (he_crypto e) tc = Return True \<and> rp_currentView st \<le> tc_view tc
        \<and> he_leader e (rp_chain st) (rp_bExec st) (tc_view tc + 1) = he_self e
        \<and> cmd_Get (he_marshal e) (rp_cmds st) (he_arrivals e) \<noteq> None
        \<and> \<not> he_useAggQC e \<and> zero_hash \<noteq> b_hash (GetGenesis (he_sha e))"
  then have tc: "VerifyTimeoutCert (he_crypto e) tc = Return True" "rp_currentView st \<le> tc_view tc"
    and leader: "he_leader e (rp_chain st) (rp_bExec st) (tc_view tc + 1) = he_self e"
    and cmds: "cmd_Get (he_marshal e) (rp_cmds st) (he_arrivals e) \<noteq> None"
    and agg: "\<not> he_useAggQC e" and zero: "zero_hash \<noteq> b_hash (GetGenesis (he_sha e))" by blast+
  obtain cmds' cmd ok where c: "cmd_Get (he_marshal e) (rp_cmds st) (he_arrivals e) = Some (cmds', cmd, ok)" using cmds by auto
  have a: "\<exists>st1. advance e (WithTC tc NewSyncInfo) st = ret (st1, Some (WithTC tc NewSyncInfo)) \<and> rp_cmds st1 = rp_cmds st"
    using tc leader agg by (auto simp: advance_def advance_tc_def advance_qc_def WithTC_def NewSyncInfo_def crash_h_def
        reach_view_def enter_view_def leader_of_def emit_def updateHighTC_def ret_def Let_def)
  have "\<exists>st'. Propose e R (WithTC tc NewSyncInfo) st1 = Some (Error st')" if "rp_cmds st1 = rp_cmds st" for st1
    using c that agg zero
    by (subst Propose_def, subst OnPropose.simps)
       (auto simp: build_proposal_def WithTC_def NewSyncInfo_def loop_h_def zero_qc_def NewBlock_def check_proposal_def check_agg_def
         verify_qc_def VerifyQuorumCert_def crash_h_def Let_def)
  then show "\<exists>st'. OnNewView e R (WithTC tc NewSyncInfo) st = Some (Error st')"
    using a by (auto simp: OnNewView_def AdvanceView_def)
qed

text \<open>
  C30: a view can be forged.  A certificate that names the genesis block is accepted whatever view and
  signatures it carries, so one message moves a replica that does not lead the next view to any view
  that is not lower, and from the last view to view 0.  Under SimpleHotStuff the replica then refuses
  every block of a lower view.
\<close>

theorem genesis_certificate_forges_view:
  assumes "qc_hash qc = b_hash (GetGenesis (he_sha e))" "rp_currentView st \<le> qc_view qc" "\<not> he_useAggQC e"
    and "\<And>chain. he_leader e chain (rp_bExec st) (qc_view qc + 1) \<noteq> he_self e"
  shows "\<exists>st'. OnNewView e R (WithQC qc NewSyncInfo) st = ret st' \<and> rp_currentView st' = qc_view qc + 1
     \<and> (\<forall>proposal. b_view (pm_Block proposal) < qc_view qc + 1 \<longrightarrow> simple_VoteRule e proposal st' = Some (st', False))"
proof -
  have h: "rp_currentView (updateHighQC e qc st) = rp_currentView st" "rp_bExec (updateHighQC e qc st) = rp_bExec st"
    by (auto simp: updateHighQC_def rp_get_def split: prod.splits option.splits)
  have "\<exists>st'. advance e (WithQC qc NewSyncInfo) st = ret (st', None) \<and> rp_currentView st' = qc_view qc + 1"
    using assms h by (auto simp: advance_def advance_tc_def advance_qc_def WithQC_def NewSyncInfo_def verify_qc_def
        VerifyQuorumCert_def crash_h_def reach_view_def enter_view_def leader_of_def emit_def ret_def Let_def)
  then show ?thesis by (auto simp: OnNewView_def AdvanceView_def simple_VoteRule_def)
qed

section \<open>Examples\<close>

definition demo_state :: "ID \<Rightarrow> replica" where
  "demo_state i = (new_replica demo_sha 1)\<lparr>rp_chain := Store (demo_left ! 0) (NewBlockChain demo_sha)\<rparr>"

definition demo_vote :: "ID \<Rightarrow> VoteMsg" where
  "demo_vote i = \<lparr>vm_ID = i, vm_PartialCert = NewPartialCert [(i, unat i, 1)] [1], vm_Deferred = False\<rparr>"

lemma demo_collecting: "collecting (demo_env 1) (demo_left ! 0) [] (demo_state 1)"
proof -
  have ok: "block_ok demo_sha (demo_left ! 0)" using demo_blocks_ok by (simp add: demo_left_def)
  have "chain_ok demo_sha (Store (demo_left ! 0) (NewBlockChain demo_sha))"
    by (rule chain_ok_Store [OF chain_ok_New ok])
  moreover have "b_hash (demo_left ! 0) \<noteq> b_hash (GetGenesis demo_sha)" "\<not> b_view (demo_left ! 0) \<le> 0" by code_simp+
  ultimately show ?thesis
    by (simp add: collecting_def demo_state_def demo_env_def Store_def new_replica_def)
qed

lemma demo_votes_ok: "vote_ok (demo_env 1) (demo_left ! 0) (vm_PartialCert (demo_vote i)) [(i, unat i, 1)]" if "i \<in> {1, 2, 3, 4}" for i
proof -
  have "\<forall>i \<in> {1, 2, 3, 4}. vote_ok (demo_env 1) (demo_left ! 0) (vm_PartialCert (demo_vote i)) [(i, unat i, 1)]" by code_simp
  then show ?thesis using that by blast
qed

theorem quorum_of_votes_makes_certificate_witness:
  "\<exists>st' qc. handle_votes (demo_env 1) (map demo_vote [1, 2, 4]) (demo_state 1) = ret st'
     \<and> rp_out st' = [AddNewView 1 (WithQC qc NewSyncInfo)] \<and> qc_hash qc = [1]
     \<and> VerifyQuorumCert (he_crypto (demo_env 3)) (he_fetch (demo_env 3)) qc (rp_chain (demo_state 3)) = Return (rp_chain (demo_state 3), True)"
proof -
  let ?sig = "\<lambda>v. [(vm_ID v, unat (vm_ID v), 1)] :: Multi" and ?votes = "map demo_vote [1, 2, 4]"
  have "\<forall>v \<in> set ?votes. vote_ok (demo_env 1) (demo_left ! 0) (vm_PartialCert v) (?sig v)" by code_simp
  then have ok: "vote_ok (demo_env 1) (demo_left ! 0) (vm_PartialCert v) (?sig v)" if "v \<in> set ?votes" for v
    using that by blast
  have q: "int (length ?votes) = cfg_QuorumSize (he_crypto (demo_env 1))" "distinct (map fst (concat (map ?sig ?votes)))"
    and s: "rp_out (demo_state 1) = []" "he_self (demo_env 1) = 1" "b_hash (demo_left ! 0) = [1]" by code_simp+
  obtain st' qc where "handle_votes (demo_env 1) ?votes (demo_state 1) = ret st'"
    "rp_out st' = rp_out (demo_state 1) @ [AddNewView (he_self (demo_env 1)) (WithQC qc NewSyncInfo)]" "qc_hash qc = b_hash (demo_left ! 0)"
    "\<forall>cf fetch chain. same_keys (he_crypto (demo_env 1)) cf \<and> gm_get (bc_blocks chain) (b_hash (demo_left ! 0)) = Some (demo_left ! 0) \<longrightarrow>
       VerifyQuorumCert cf fetch qc chain = Return (chain, True)"
    using quorum_of_votes_makes_certificate [OF demo_collecting _ ok q] by auto
  note r = this
  have "same_keys (he_crypto (demo_env 1)) (he_crypto (demo_env 3))"
    "gm_get (bc_blocks (rp_chain (demo_state 3))) (b_hash (demo_left ! 0)) = Some (demo_left ! 0)"
    by (simp_all add: same_keys_def demo_env_def demo_state_def Store_def)
  then have "VerifyQuorumCert (he_crypto (demo_env 3)) (he_fetch (demo_env 3)) qc (rp_chain (demo_state 3)) = Return (rp_chain (demo_state 3), True)"
    using r(4) by blast
  then show ?thesis using r(1-3) unfolding s append_Nil by blast
qed

theorem repeated_vote_blocks_certificate_witness:
  "\<exists>st'. handle_votes (demo_env 1) (map demo_vote [4, 4, 1, 2, 3]) (demo_state 1) = Some (Return st')
     \<and> certificates_for [1] st' = []"
proof -
  have "case handle_votes (demo_env 1) (map demo_vote [4, 4, 1, 2, 3]) (demo_state 1) of Some (Return st') \<Rightarrow> True | _ \<Rightarrow> False"
    by code_simp
  then obtain st' where r: "handle_votes (demo_env 1) (map demo_vote [4, 4, 1, 2, 3]) (demo_state 1) = Some (Return st')"
    by (auto split: option.splits outcome.splits)
  have r': "handle_votes (demo_env 1) (demo_vote 4 # demo_vote 4 # map demo_vote [1, 2, 3]) (demo_state 1) = Some (Return st')"
    using r by (simp only: list.map)
  have v: "vote_ok (demo_env 1) (demo_left ! 0) (vm_PartialCert (demo_vote 4)) [(4, unat (4 :: ID), 1)]" by (rule demo_votes_ok) simp
  have "certificates_for (b_hash (demo_left ! 0)) st' = certificates_for (b_hash (demo_left ! 0)) (demo_state 1)"
    by (rule repeated_vote_blocks_certificate [OF demo_collecting v v _ _ r', of 4]) simp_all
  moreover have "b_hash (demo_left ! 0) = [1]" "certificates_for [1] (demo_state 1) = []" by code_simp+
  ultimately show ?thesis using r by auto
qed

theorem malformed_certificates_crash_witness:
  "OnNewView (demo_env 2) SimpleHotStuff (WithQC \<lparr>qc_signature = None, qc_view = 1, qc_hash = [1]\<rparr> NewSyncInfo) (new_replica demo_sha 1)
     = Some (Error (new_replica demo_sha 1))
   \<and> (\<exists>st'. OnNewView (demo_env 4) SimpleHotStuff (WithTC \<lparr>tc_signature = Some [(1, 1, 0), (2, 2, 0), (3, 3, 0)], tc_view = 9\<rparr> NewSyncInfo)
        (new_replica demo_sha 1) = Some (Error st'))"
proof
  show "OnNewView (demo_env 2) SimpleHotStuff (WithQC \<lparr>qc_signature = None, qc_view = 1, qc_hash = [1]\<rparr> NewSyncInfo) (new_replica demo_sha 1)
     = Some (Error (new_replica demo_sha 1))"
    by (rule malformed_certificates_crash [THEN conjunct1, rule_format]) code_simp
  show "\<exists>st'. OnNewView (demo_env 4) SimpleHotStuff (WithTC \<lparr>tc_signature = Some [(1, 1, 0), (2, 2, 0), (3, 3, 0)], tc_view = 9\<rparr> NewSyncInfo)
        (new_replica demo_sha 1) = Some (Error st')"
    by (rule malformed_certificates_crash [THEN conjunct2, rule_format]) code_simp
qed

theorem genesis_certificate_forges_view_witness:
  "\<exists>st'. OnNewView (demo_env 1) SimpleHotStuff (WithQC \<lparr>qc_signature = None, qc_view = - 1, qc_hash = [0]\<rparr> NewSyncInfo) (new_replica demo_sha 1)
       = ret st' \<and> rp_currentView st' = 0"
proof -
  have "b_hash (GetGenesis (he_sha (demo_env 1))) = [0]" by code_simp
  then show ?thesis
    using genesis_certificate_forges_view [of "\<lparr>qc_signature = None, qc_view = - 1, qc_hash = [0]\<rparr>" "demo_env 1" "new_replica demo_sha 1" SimpleHotStuff]
    by (auto simp: demo_env_def new_replica_def)
qed

end
