(* ===== verification/HsFrame.thy ===== *)
theory HsFrame
  imports HsSync HsVoting
begin

text \<open>
  The system of HotStuff replicas that run SimpleHotStuff, as an instance of the abstract voting
  protocol, and what one replica keeps: its store holds blocks of the system under their hashes,
  its votes are in the history, its lock is not older than the grandparents of the blocks it voted
  for, and the last block it executed is decided.  Frame lemmas say which operations leave votes,
  lock and execution alone; the last sections are about the rules and execution.

  Results of handlers are reasoned about with \<open>post_h\<close>, a postcondition for a crash and for a
  returned value.  What is assumed of the blocks of a system is \<open>universe_ok\<close>: their hashes are
  different and are not hashes of views nor zero.  That every block but the genesis block names as its
  parent the block of its certificate is a separate condition, \<open>linked\<close>: no code checks it, and only
  under this condition is what a replica executed the path to its last block.
\<close>

section \<open>The system\<close>

record hs_system =
  sy_sha :: "bytes \<Rightarrow> bytes"
  sy_replicas :: "ID list"
  sy_honest :: "ID set"
  sy_blocks :: "Block set"

abbreviation "sy_gen S \<equiv> GetGenesis (sy_sha S)"

definition universe_ok :: "hs_system \<Rightarrow> bool" where
  "universe_ok S \<longleftrightarrow> sy_gen S \<in> sy_blocks S \<and> inj_on b_hash (sy_blocks S) \<and> zero_hash \<notin> b_hash ` sy_blocks S
     \<and> (\<forall>v. sy_sha S (view_ToBytes v) \<notin> b_hash ` sy_blocks S)
     \<and> (\<forall>b \<in> sy_blocks S. block_ok (sy_sha S) b
          \<and> (case qc_signature (b_cert b) of Some s \<Rightarrow> gm_wf s | None \<Rightarrow> True))"

definition linked :: "hs_system \<Rightarrow> bool" where
  \<comment> \<open>the parent of every block of the system, those of faulty replicas included, is the block of its certificate\<close>
  "linked S \<longleftrightarrow> (\<forall>b \<in> sy_blocks S. b \<noteq> sy_gen S \<longrightarrow> b_parent b = qc_hash (b_cert b))"

definition par_in :: "hs_system \<Rightarrow> Block \<Rightarrow> Block" where
  \<comment> \<open>the block of the certificate\<close>
  "par_in S b = (THE c. c \<in> sy_blocks S \<and> b_hash c = qc_hash (b_cert b))"

definition is_quorum :: "hs_system \<Rightarrow> ID set \<Rightarrow> bool" where
  "is_quorum S Q \<longleftrightarrow> Q \<subseteq> set (sy_replicas S) \<and> QuorumSize (int (length (sy_replicas S))) \<le> int (card Q)
     \<and> sy_replicas S \<noteq> [] \<and> distinct (sy_replicas S)
     \<and> int (card (set (sy_replicas S) - sy_honest S)) \<le> NumFaulty (int (length (sy_replicas S)))"

definition protocol_of :: "hs_system \<Rightarrow> (ID, Block) protocol" where
  "protocol_of S = \<lparr>vp_honest = sy_honest S, vp_quorum = is_quorum S, vp_view = (\<lambda>b. unat (b_view b)),
                    vp_par = par_in S, vp_gen = sy_gen S\<rparr>"

lemma protocol_of_simps [simp]:
  "vp_honest (protocol_of S) = sy_honest S" "vp_quorum (protocol_of S) = is_quorum S"
  "vp_view (protocol_of S) b = unat (b_view b)" "vp_par (protocol_of S) = par_in S" "vp_gen (protocol_of S) = sy_gen S"
  by (simp_all add: protocol_of_def)

interpretation simple: voting "protocol_of S" for S
proof
  fix Q Q' assume "vp_quorum (protocol_of S) Q" "vp_quorum (protocol_of S) Q'"
  then have q: "is_quorum S Q" "is_quorum S Q'" by simp_all
  let ?R = "set (sy_replicas S)"
  have n: "int (length (sy_replicas S)) = int (card ?R)" using q(1) by (simp add: is_quorum_def distinct_card)
  have h: "?R \<noteq> {}" "Q \<subseteq> ?R" "QuorumSize (int (card ?R)) \<le> int (card Q)" "Q' \<subseteq> ?R" "QuorumSize (int (card ?R)) \<le> int (card Q')"
    "int (card (?R - sy_honest S)) \<le> NumFaulty (int (card ?R))" using q n by (simp_all add: is_quorum_def)
  obtain i where "i \<in> Q" "i \<in> Q'" "i \<in> sy_honest S" by (rule hs.quorums_share_honest [OF finite_set h])
  then show "\<exists>i. i \<in> Q \<and> i \<in> Q' \<and> i \<in> vp_honest (protocol_of S)" unfolding protocol_of_simps by blast
qed

lemma par_in_eq: "universe_ok S \<Longrightarrow> c \<in> sy_blocks S \<Longrightarrow> b_hash c = qc_hash (b_cert b) \<Longrightarrow> par_in S b = c"
  unfolding par_in_def universe_ok_def by (rule the_equality) (simp, metis inj_onD)

section \<open>What leaves votes and execution alone\<close>

definition store_in :: "Block set \<Rightarrow> blockChain \<Rightarrow> bool" where
  "store_in U chain \<longleftrightarrow> (\<forall>h b. gm_get (bc_blocks chain) h = Some b \<longrightarrow> b \<in> U \<and> b_hash b = h)"

definition proposals_in :: "Block set \<Rightarrow> replica \<Rightarrow> bool" where
  "proposals_in U st \<longleftrightarrow> (\<forall>p. SendPropose p \<in> set (rp_out st) \<longrightarrow> pm_Block p \<in> U)"

definition stores :: "Block set \<Rightarrow> replica \<Rightarrow> replica \<Rightarrow> bool" where
  \<comment> \<open>the store stays in \<open>U\<close>, if the own proposals do, and only grows\<close>
  "stores U st st' \<longleftrightarrow> set (rp_out st) \<subseteq> set (rp_out st')
     \<and> (proposals_in U st' \<longrightarrow> store_in U (rp_chain st) \<longrightarrow> store_in U (rp_chain st') \<and> grows (rp_chain st) (rp_chain st'))"

definition frame :: "Block set \<Rightarrow> replica \<Rightarrow> replica \<Rightarrow> bool" where
  "frame U st st' \<longleftrightarrow> stores U st st' \<and> rp_lock st' = rp_lock st \<and> rp_bExec st' = rp_bExec st
     \<and> rp_executed st' = rp_executed st \<and> rp_lastVote st \<le> rp_lastVote st'
     \<and> (\<forall>b. SignedBlock b \<in> set (rp_signed st') \<longleftrightarrow> SignedBlock b \<in> set (rp_signed st))
     \<and> (\<forall>m. SignedTimeout m \<in> set (rp_signed st') \<longrightarrow> SignedTimeout m \<in> set (rp_signed st))"

definition feeds :: "Block set \<Rightarrow> hs_env \<Rightarrow> bool" where
  "feeds U e \<longleftrightarrow> (\<forall>n h b. he_fetch e n h = Some b \<longrightarrow> b \<in> U)"

lemma proposals_in_mono: "proposals_in U st' \<Longrightarrow> set (rp_out st) \<subseteq> set (rp_out st') \<Longrightarrow> proposals_in U st"
  by (auto simp: proposals_in_def)

lemma stores_refl [simp]: "stores U st st"
  by (simp add: stores_def)

lemma stores_trans: "stores U st st1 \<Longrightarrow> stores U st1 st2 \<Longrightarrow> stores U st st2"
  unfolding stores_def using proposals_in_mono [of U st2 st1] grows_trans by blast

lemma frame_refl [simp]: "frame U st st"
  by (simp add: frame_def)

lemma frame_trans: "frame U st st1 \<Longrightarrow> frame U st1 st2 \<Longrightarrow> frame U st st2"
  unfolding frame_def using stores_trans [of U st st1 st2] by auto

lemma frame_stores: "frame U st st' \<Longrightarrow> stores U st st'"
  by (simp add: frame_def)

lemma frame_same:
  assumes "rp_chain st' = rp_chain st" "set (rp_out st) \<subseteq> set (rp_out st')" "rp_lock st' = rp_lock st"
    "rp_bExec st' = rp_bExec st" "rp_executed st' = rp_executed st" "rp_lastVote st \<le> rp_lastVote st'" "rp_signed st' = rp_signed st"
  shows "frame U st st'"
  using assms by (simp add: frame_def stores_def)

lemma Get_in:
  assumes g: "Get (he_fetch e) h chain = (chain', r)" and U: "feeds U e" "store_in U chain"
  shows "store_in U chain' \<and> grows chain chain' \<and> (\<forall>b. r = Some b \<longrightarrow> b \<in> U \<and> b_hash b = h \<and> gm_get (bc_blocks chain') h = Some b)"
  using g
proof (cases rule: Get_cases)
  case (stored b)
  then show ?thesis using U(2) by (auto simp: store_in_def)
next
  case missing
  then show ?thesis using U(2) by (simp add: store_in_def grows_def)
next
  case (fetched b)
  have "b_hash b = h" using fetched(2) Fetch_ok [of "he_sha e" "he_replies e"] unfolding fetch_ok_def by blast
  moreover have "b \<in> U" using U(1) fetched(2) unfolding feeds_def by blast
  ultimately show ?thesis
    using U(2) fetched(1,3) unfolding store_in_def grows_def fetched(4) gm_get_put by auto
qed

lemma rp_get_frame:
  assumes g: "rp_get e h st = (st', r)" and U: "feeds U e"
  shows "frame U st st'"
    and "store_in U (rp_chain st) \<Longrightarrow> r = Some b \<Longrightarrow> b \<in> U \<and> b_hash b = h \<and> gm_get (bc_blocks (rp_chain st')) h = Some b"
    and "rp_out st' = rp_out st"
proof -
  obtain chain where c: "Get (he_fetch e) h (rp_chain st) = (chain, r)" "st' = st\<lparr>rp_chain := chain\<rparr>"
    using g by (auto simp: rp_get_def split: prod.splits)
  show "frame U st st'" unfolding c(2) using Get_in [OF c(1) U] by (simp add: frame_def stores_def)
  show "store_in U (rp_chain st) \<Longrightarrow> r = Some b \<Longrightarrow> b \<in> U \<and> b_hash b = h \<and> gm_get (bc_blocks (rp_chain st')) h = Some b"
    unfolding c(2) using Get_in [OF c(1) U] by simp
  show "rp_out st' = rp_out st" by (simp add: c(2))
qed

lemma rp_get_stored: "gm_get (bc_blocks (rp_chain st)) h = Some b \<Longrightarrow> rp_get e h st = (st, Some b)"
  by (simp add: rp_get_def Get_stored)

section \<open>Conditions on results\<close>

definition post_h :: "'a handler_result \<Rightarrow> (replica \<Rightarrow> bool) \<Rightarrow> ('a \<Rightarrow> bool) \<Rightarrow> bool" where
  \<comment> \<open>the condition of a crash and of a result\<close>
  "post_h m E Q \<longleftrightarrow> (case m of Some (Return x) \<Rightarrow> Q x | Some (Error s) \<Rightarrow> E s | _ \<Rightarrow> True)"

lemma post_h_ret [simp]: "post_h (ret x) E Q = Q x"
  and post_h_None [simp]: "post_h None E Q"
  and post_h_Return [simp]: "post_h (Some (Return x)) E Q = Q x"
  and post_h_Error [simp]: "post_h (Some (Error s)) E Q = E s"
  and post_h_Panic [simp]: "post_h (Some Panic) E Q"
  by (simp_all add: post_h_def ret_def)

lemma post_h_bind: "post_h (bind_h m f) E Q = post_h m E (\<lambda>x. post_h (f x) E Q)"
  by (cases m; cases "the m") (auto simp: post_h_def bind_h_def)

lemma post_h_mono: "post_h m E Q \<Longrightarrow> (\<And>s. E s \<Longrightarrow> E' s) \<Longrightarrow> (\<And>x. Q x \<Longrightarrow> Q' x) \<Longrightarrow> post_h m E' Q'"
  by (auto simp: post_h_def split: option.splits outcome.splits)

lemma post_h_loop: "post_h (loop_h m) E Q = (\<forall>x. m = Some x \<longrightarrow> Q x)"
  by (cases m) (auto simp: post_h_def loop_h_def)

lemma post_h_crash: "post_h (crash_h st m) E Q = (case m of Return x \<Rightarrow> Q x | _ \<Rightarrow> E st)"
  by (cases m) (simp_all add: crash_h_def)

lemma VerifyQuorumCert_chain:
  "VerifyQuorumCert cf fetch qc chain = Return (chain', ok) \<Longrightarrow> chain' = chain \<or> (\<exists>r. Get fetch (qc_hash qc) chain = (chain', r))"
  by (auto simp: VerifyQuorumCert_def bind_o_Return_iff split: if_splits option.splits prod.splits)

lemma chain_frame:
  assumes "chain = rp_chain st \<or> (\<exists>r. Get (he_fetch e) h (rp_chain st) = (chain, r))" "feeds U e"
  shows "frame U st (st\<lparr>rp_chain := chain\<rparr>)"
  using assms(1)
proof
  assume "\<exists>r. Get (he_fetch e) h (rp_chain st) = (chain, r)"
  then obtain r where "rp_get e h st = (st\<lparr>rp_chain := chain\<rparr>, r)" by (auto simp: rp_get_def)
  then show ?thesis by (rule rp_get_frame(1) [OF _ assms(2)])
qed simp

lemma verify_qc_frame: "feeds U e \<Longrightarrow> post_h (verify_qc e qc st) (frame U st) (\<lambda>(st', ok). frame U st st')"
  unfolding verify_qc_def post_h_bind post_h_crash
  by (auto split: outcome.splits intro!: chain_frame [OF VerifyQuorumCert_chain])

lemma tell_proposed_frame:
  assumes "feeds U e"
  shows "frame U st (tell_proposed e qc st)"
proof -
  obtain st1 r where g: "rp_get e (qc_hash qc) st = (st1, r)" by force
  have "frame U st1 (st1\<lparr>rp_cmds := c\<rparr>)" for c by (simp add: frame_same)
  then show ?thesis
    using rp_get_frame(1) [OF g assms] g by (auto simp: tell_proposed_def intro: frame_trans split: option.splits)
qed

lemma updateHighQC_frame:
  assumes "feeds U e"
  shows "frame U st (updateHighQC e qc st)"
proof -
  obtain st1 r where g: "rp_get e (qc_hash qc) st = (st1, r)" by force
  have "frame U st1 (st1\<lparr>rp_highQC := c\<rparr>)" for c by (simp add: frame_same)
  then show ?thesis
    using rp_get_frame(1) [OF g assms] g by (auto simp: updateHighQC_def intro: frame_trans split: option.splits)
qed

lemma enter_view_frame: "enter_view e si v t st = (st', r) \<Longrightarrow> frame U st st' \<and> (\<forall>si'. r = Some si' \<longrightarrow> si' = si)"
  by (auto simp: enter_view_def emit_def Let_def intro!: frame_same split: if_splits)

lemma advance_tc_frame: "post_h (advance_tc e si st) (frame U st) (\<lambda>(st', r). frame U st st')"
  unfolding advance_tc_def
  by (auto simp: post_h_bind post_h_crash updateHighTC_def intro!: frame_same split: option.splits outcome.splits)

lemma advance_qc_frame:
  assumes "feeds U e" "\<not> he_useAggQC e"
  shows "post_h (advance_qc e si vt st) (frame U st) (\<lambda>(st', r). frame U st st' \<and> (\<forall>p. r = Some p \<longrightarrow> fst p = si))"
proof -
  have "advance_qc e si vt st = (case si_qc si of None \<Rightarrow> ret (st, Some (si, None, vt))
     | Some qc \<Rightarrow> bind_h (verify_qc e qc st) (\<lambda>(st1, ok). ret (st1, if ok then Some (si, Some qc, vt) else None)))"
    using assms(2) by (simp add: advance_qc_def split: option.splits)
  then show ?thesis
    using post_h_mono [OF verify_qc_frame [OF assms(1)]] by (auto simp: post_h_bind split: option.splits)
qed

lemma reach_view_frame:
  assumes "feeds U e" "reach_view e p st = (st', r)"
  shows "frame U st st' \<and> (\<forall>si. r = Some si \<longrightarrow> si = fst p)"
proof -
  obtain si haveQC v t where p: "p = (si, haveQC, v, t)" by (cases p) auto
  let ?st1 = "case haveQC of None \<Rightarrow> st | Some qc \<Rightarrow> updateHighQC e qc st"
  have f: "frame U st ?st1" using updateHighQC_frame [OF assms(1)] by (simp split: option.split)
  obtain v' t' where v: "(case haveQC of None \<Rightarrow> (v, t) | Some qc \<Rightarrow> if qc_view qc \<ge> v then (qc_view qc, False) else (v, t)) = (v', t')" by force
  have "reach_view e p st = (if v' < rp_currentView ?st1 then (?st1, None) else enter_view e si v' t' ?st1)"
    using v by (simp add: reach_view_def p Let_def)
  then show ?thesis using assms(2) f p by (auto intro: frame_trans dest: enter_view_frame split: if_splits)
qed

lemma advance_frame:
  assumes e: "feeds U e" "\<not> he_useAggQC e"
  shows "post_h (advance e si st) (frame U st) (\<lambda>(st', r). frame U st st' \<and> (\<forall>si'. r = Some si' \<longrightarrow> si' = si))"
  unfolding advance_def post_h_bind
proof (rule post_h_mono [OF advance_tc_frame [of e si st U]]; clarsimp split: option.splits)
  fix st1 v t assume f: "frame U st st1"
  show "post_h (bind_h (advance_qc e si (v, t) st1) (\<lambda>(st2, r). case r of None \<Rightarrow> ret (st2, None) | Some p \<Rightarrow> ret (reach_view e p st2)))
     (frame U st) (\<lambda>(st', r). frame U st st' \<and> (\<forall>si'. r = Some si' \<longrightarrow> si' = si))"
    unfolding post_h_bind
    by (rule post_h_mono [OF advance_qc_frame [OF e]])
       (auto intro: frame_trans [OF f] frame_trans [OF frame_trans [OF f]] dest!: reach_view_frame [OF e(1)] split: option.splits)
qed

lemma Store_stores:
  assumes "universe_ok S" "b \<in> sy_blocks S" "store_in (sy_blocks S) chain"
  shows "store_in (sy_blocks S) (Store b chain) \<and> grows chain (Store b chain)"
proof -
  have "inj_on b_hash (sy_blocks S)" using assms(1) by (simp add: universe_ok_def)
  then show ?thesis
    using assms(2,3) unfolding store_in_def grows_def Store_def by (auto simp: gm_get_put dest: inj_onD)
qed

lemma build_proposal_frame:
  assumes "universe_ok S" "feeds (sy_blocks S) e" "build_proposal e si st = Some (st', own)"
  shows "frame (sy_blocks S) st st'" "SendPropose own \<in> set (rp_out st')"
    "b_cert (pm_Block own) = (case si_qc si of Some qc \<Rightarrow> qc | None \<Rightarrow> zero_qc)"
proof -
  let ?qc = "case si_qc si of Some qc \<Rightarrow> qc | None \<Rightarrow> zero_qc"
  define st1 where "st1 = (case si_qc si of Some qc \<Rightarrow> tell_proposed e qc st | None \<Rightarrow> st)"
  have f: "frame (sy_blocks S) st st1"
    using tell_proposed_frame [OF assms(2)] by (simp add: st1_def split: option.split)
  obtain cmds cmd v where o: "pm_Block own = NewBlock (he_sha e) (qc_hash ?qc) ?qc cmd v (he_self e)"
    "st' = emit (SendPropose own) (st1\<lparr>rp_cmds := cmds, rp_chain := Store (pm_Block own) (rp_chain st1)\<rparr>)"
    using assms(3) by (auto simp: build_proposal_def st1_def [symmetric] Let_def)
  show "SendPropose own \<in> set (rp_out st')" by (simp add: o(2) emit_def)
  show "b_cert (pm_Block own) = ?qc" by (simp add: o(1) NewBlock_def)
  have "proposals_in (sy_blocks S) st' \<Longrightarrow> pm_Block own \<in> sy_blocks S" by (simp add: proposals_in_def o(2) emit_def)
  then have "frame (sy_blocks S) st1 st'"
    using Store_stores [OF assms(1)] by (auto simp: frame_def stores_def o(2) emit_def)
  then show "frame (sy_blocks S) st st'" by (rule frame_trans [OF f])
qed

section \<open>The invariant of a replica\<close>

definition system_ok :: "hs_system \<Rightarrow> bool" where
  "system_ok S \<longleftrightarrow> universe_ok S \<and> sy_replicas S \<noteq> [] \<and> distinct (sy_replicas S)
     \<and> int (card (set (sy_replicas S) - sy_honest S)) \<le> NumFaulty (int (length (sy_replicas S)))"

definition history_ok :: "hs_system \<Rightarrow> (ID \<times> Block) list \<Rightarrow> bool" where
  "history_ok S H \<longleftrightarrow> hist (protocol_of S) H
     \<and> (\<forall>j b. (j, b) \<in> set H \<longrightarrow> b \<in> sy_blocks S \<and> (\<exists>c \<in> sy_blocks S. b_hash c = qc_hash (b_cert b)))"

definition env_sound :: "hs_system \<Rightarrow> (ID \<times> Block) list \<Rightarrow> hs_env \<Rightarrow> ID \<Rightarrow> bool" where
  "env_sound S H e i \<longleftrightarrow> he_sha e = sy_sha S \<and> cf_replicas (he_crypto e) = sy_replicas S \<and> he_self e = i
     \<and> \<not> he_useAggQC e \<and> feeds (sy_blocks S) e
     \<and> (\<forall>j \<in> sy_honest S. \<forall>h rs. cf_verify (he_crypto e) j h rs \<longrightarrow>
          (\<exists>c. (j, c) \<in> set H \<and> h = b_hash c) \<or> (\<exists>v. h = sy_sha S (view_ToBytes v)))
     \<and> (\<forall>j c n. (j, c) \<in> set H \<longrightarrow> he_fetch e n (b_hash c) = Some c)"

definition chain_in :: "hs_system \<Rightarrow> replica \<Rightarrow> bool" where
  "chain_in S st \<longleftrightarrow> store_in (sy_blocks S) (rp_chain st)
     \<and> gm_get (bc_blocks (rp_chain st)) (b_hash (sy_gen S)) = Some (sy_gen S)"

definition rinv :: "hs_system \<Rightarrow> (ID \<times> Block) list \<Rightarrow> ID \<Rightarrow> replica \<Rightarrow> bool" where
  "rinv S H i st \<longleftrightarrow> chain_in S st
     \<and> (\<forall>b. SignedBlock b \<in> set (rp_signed st) \<longleftrightarrow> (i, b) \<in> set H) \<and> (\<forall>m. SignedTimeout m \<notin> set (rp_signed st))
     \<and> (\<forall>b. (i, b) \<in> set H \<longrightarrow> b_view b \<le> rp_lastVote st
          \<and> (par_in S b \<noteq> sy_gen S \<longrightarrow> b_view (par_in S (par_in S b)) \<le> b_view (rp_lock st)))
     \<and> (linked S \<longrightarrow> path (protocol_of S) (rp_executed st) (rp_bExec st))
     \<and> (rp_bExec st = sy_gen S \<or> decided (protocol_of S) H (rp_bExec st))"

lemma chain_in_stores: "chain_in S st \<Longrightarrow> stores (sy_blocks S) st st' \<Longrightarrow> proposals_in (sy_blocks S) st' \<Longrightarrow> chain_in S st'"
  by (auto simp: chain_in_def stores_def grows_def)

lemma rinv_frame:
  assumes "rinv S H i st" "frame (sy_blocks S) st st'" "proposals_in (sy_blocks S) st'"
  shows "rinv S H i st'"
proof -
  have "chain_in S st'" using assms chain_in_stores by (auto simp: rinv_def frame_def)
  moreover have "rp_lastVote st \<le> rp_lastVote st'" using assms(2) by (simp add: frame_def)
  ultimately show ?thesis using assms(1,2) unfolding rinv_def frame_def by (auto intro: order_trans)
qed

section \<open>Certified blocks\<close>

lemma certified_set: "certified P H b \<Longrightarrow> set H \<subseteq> set H' \<Longrightarrow> certified P H' b"
  by (auto simp: certified_def)

lemma decided_set: "decided P H b \<Longrightarrow> set H \<subseteq> set H' \<Longrightarrow> decided P H' b"
  unfolding decided_def using certified_set by metis

lemma certified_voted:
  "certified (protocol_of S) H b \<Longrightarrow> b \<noteq> sy_gen S \<Longrightarrow> \<exists>j. (j, b) \<in> set H"
  using simple.certified_voter [of S H b] by auto

lemma certified_in: "system_ok S \<Longrightarrow> history_ok S H \<Longrightarrow> certified (protocol_of S) H b \<Longrightarrow> b \<in> sy_blocks S"
  using certified_voted [of S H b] by (cases "b = sy_gen S") (auto simp: system_ok_def universe_ok_def history_ok_def)

lemma certified_parent:
  assumes "system_ok S" "history_ok S H" "certified (protocol_of S) H b" "b \<noteq> sy_gen S"
  shows "par_in S b \<in> sy_blocks S" "b_hash (par_in S b) = qc_hash (b_cert b)"
    "certified (protocol_of S) H (par_in S b)" "b_view (par_in S b) < b_view b"
proof -
  have h: "hist (protocol_of S) H" using assms(2) by (simp add: history_ok_def)
  obtain j where "(j, b) \<in> set H" using certified_voted [OF assms(3,4)] by blast
  then obtain c where "c \<in> sy_blocks S" "b_hash c = qc_hash (b_cert b)" using assms(2) by (auto simp: history_ok_def)
  moreover then have "par_in S b = c" using par_in_eq assms(1) by (simp add: system_ok_def)
  ultimately show "par_in S b \<in> sy_blocks S" "b_hash (par_in S b) = qc_hash (b_cert b)" by simp_all
  show "certified (protocol_of S) H (par_in S b)" using simple.certified_par [OF h assms(3)] assms(4) by simp
  show "b_view (par_in S b) < b_view b" using simple.view_par [OF h assms(3)] assms(4) by (simp add: word_less_nat_alt)
qed

lemma certified_anc_gen:
  assumes "system_ok S" "history_ok S H"
  shows "certified (protocol_of S) H b \<Longrightarrow> anc (protocol_of S) b (sy_gen S)"
proof (induction "unat (b_view b)" arbitrary: b rule: less_induct)
  case less
  show ?case
  proof (cases "b = sy_gen S")
    case False
    then have "anc (protocol_of S) (par_in S b) (sy_gen S)"
      using less.hyps certified_parent [OF assms less.prems] by (simp add: word_less_nat_alt)
    then show ?thesis using anc_step [of b "protocol_of S"] False by simp
  qed (simp add: anc_refl)
qed

lemma universe_hash: "universe_ok S \<Longrightarrow> b \<in> sy_blocks S \<Longrightarrow> c \<in> sy_blocks S \<Longrightarrow> b_hash b = b_hash c \<Longrightarrow> b = c"
  by (auto simp: universe_ok_def dest: inj_onD)

lemma signed_by_quorum:
  assumes S: "system_ok S" "history_ok S H" "env_sound S H e i"
    and q: "q \<in> sy_blocks S" "gm_wf s" "certifies (he_crypto e) s (block_ToBytes q)"
  shows "certified (protocol_of S) H q"
proof -
  let ?Q = "set (map fst s)"
  have u: "universe_ok S" using S(1) by (simp add: system_ok_def)
  have hq: "he_sha e (block_ToBytes q) = b_hash q" using u q(1) S(3) by (auto simp: universe_ok_def env_sound_def block_ok_def)
  have e: "cf_replicas (he_crypto e) = sy_replicas S" using S(3) by (simp add: env_sound_def)
  have "card ?Q = length s" using q(2) distinct_card unfolding gm_wf_def by force
  then have "is_quorum S ?Q"
    using q(3) S(1) by (auto simp: certifies_def verifySingle_def is_quorum_def system_ok_def cfg_QuorumSize_def cfg_Len_def e)
  moreover have "(j, q) \<in> set H" if j: "j \<in> ?Q" "j \<in> sy_honest S" for j
  proof -
    obtain rs where "cf_verify (he_crypto e) j (b_hash q) rs" using q(3) j(1) hq by (fastforce simp: certifies_def verifySingle_def)
    then consider c where "(j, c) \<in> set H" "b_hash q = b_hash c" | v where "b_hash q = sy_sha S (view_ToBytes v)"
      using S(3) j(2) unfolding env_sound_def by blast
    then show ?thesis
    proof cases
      case 1
      then have "c \<in> sy_blocks S" using S(2) by (simp add: history_ok_def)
      then show ?thesis using universe_hash [OF u q(1)] 1 by simp
    next
      case 2
      then show ?thesis using u q(1) unfolding universe_ok_def by force
    qed
  qed
  ultimately show ?thesis unfolding certified_def protocol_of_simps by blast
qed

lemma chain_in_ok: "universe_ok S \<Longrightarrow> chain_in S st \<Longrightarrow> chain_ok (sy_sha S) (rp_chain st)"
  by (auto simp: chain_in_def store_in_def chain_ok_def universe_ok_def)

lemma verified_certified:
  assumes S: "system_ok S" "history_ok S H" "env_sound S H e i" and st: "chain_in S st" and b: "b \<in> sy_blocks S"
  shows "post_h (verify_qc e (b_cert b) st) (frame (sy_blocks S) st) (\<lambda>(st', ok). frame (sy_blocks S) st st'
     \<and> (ok \<longrightarrow> (\<exists>q \<in> sy_blocks S. b_hash q = qc_hash (b_cert b) \<and> certified (protocol_of S) H q)))"
proof -
  have e: "he_sha e = sy_sha S" "feeds (sy_blocks S) e" using S(3) by (simp_all add: env_sound_def)
  have u: "universe_ok S" using S(1) by (simp add: system_ok_def)
  have "\<exists>q \<in> sy_blocks S. b_hash q = qc_hash (b_cert b) \<and> certified (protocol_of S) H q"
    if v: "VerifyQuorumCert (he_crypto e) (he_fetch e) (b_cert b) (rp_chain st) = Return (chain', True)" for chain'
    using v chain_in_ok [OF u st, folded e(1)] Fetch_ok
  proof (cases rule: VerifyQuorumCert_True)
    case genesis
    then show ?thesis using u e(1) by (intro bexI [of _ "sy_gen S"]) (simp_all add: certified_def universe_ok_def)
  next
    case (quorum s q)
    have "q \<in> sy_blocks S" "b_hash q = qc_hash (b_cert b)"
      using Get_in [OF quorum(4) e(2)] st by (simp_all add: chain_in_def)
    moreover have "gm_wf s" using u b quorum(1) by (auto simp: universe_ok_def)
    ultimately show ?thesis using signed_by_quorum [OF S _ _ quorum(3)] by blast
  qed
  then show ?thesis
    unfolding verify_qc_def post_h_bind post_h_crash
    using e(2) by (auto split: outcome.splits intro!: chain_frame [OF VerifyQuorumCert_chain])
qed

lemma get_certified:
  assumes S: "system_ok S" "history_ok S H" "env_sound S H e i" and st: "chain_in S st" and q: "certified (protocol_of S) H q"
  shows "\<exists>st'. rp_get e (b_hash q) st = (st', Some q)"
proof -
  have u: "universe_ok S" using S(1) by (simp add: system_ok_def)
  have qU: "q \<in> sy_blocks S" by (rule certified_in [OF S(1,2) q])
  obtain st' r where g: "rp_get e (b_hash q) st = (st', r)" by force
  have "r \<noteq> None"
  proof
    assume n: "r = None"
    then have m: "gm_get (bc_blocks (rp_chain st)) (b_hash q) = None" "\<exists>n. he_fetch e n (b_hash q) = None"
      using g by (auto simp: rp_get_def elim!: Get_cases split: prod.splits)
    then have "q \<noteq> sy_gen S" using st by (auto simp: chain_in_def)
    then obtain j where "(j, q) \<in> set H" using certified_voted [OF q] by blast
    then show False using m(2) S(3) by (auto simp: env_sound_def)
  qed
  then obtain c where "r = Some c" by blast
  moreover then have "c \<in> sy_blocks S" "b_hash c = b_hash q"
    using rp_get_frame(2) [OF g, of "sy_blocks S" c] S(3) st by (auto simp: env_sound_def chain_in_def)
  ultimately show ?thesis using universe_hash [OF u qU] g by metis
qed

lemma get_zero:
  assumes "universe_ok S" "feeds (sy_blocks S) e" "chain_in S st" "rp_get e zero_hash st = (st', r)"
  shows "r = None"
proof (rule ccontr)
  assume "r \<noteq> None"
  then obtain c where "r = Some c" by blast
  then have "c \<in> sy_blocks S" "b_hash c = zero_hash"
    using rp_get_frame(2) [OF assms(4,2)] assms(3) by (simp_all add: chain_in_def)
  then show False using assms(1) unfolding universe_ok_def by force
qed

section \<open>The rules\<close>

definition same_votes :: "replica \<Rightarrow> replica \<Rightarrow> bool" where
  "same_votes st st' \<longleftrightarrow> rp_out st' = rp_out st \<and> rp_lastVote st' = rp_lastVote st \<and> rp_signed st' = rp_signed st"

lemma rp_get_same: "rp_get e h st = (st', r) \<Longrightarrow> same_votes st st' \<and> rp_lock st' = rp_lock st \<and> rp_bExec st' = rp_bExec st \<and> rp_executed st' = rp_executed st"
  by (auto simp: rp_get_def same_votes_def split: prod.splits)

lemma rp_get_chain_in:
  "rp_get e h st = (st', r) \<Longrightarrow> feeds (sy_blocks S) e \<Longrightarrow> chain_in S st \<Longrightarrow> chain_in S st'"
proof -
  assume g: "rp_get e h st = (st', r)" and f: "feeds (sy_blocks S) e" and c: "chain_in S st"
  obtain chain where "Get (he_fetch e) h (rp_chain st) = (chain, r)" "st' = st\<lparr>rp_chain := chain\<rparr>"
    using g by (auto simp: rp_get_def split: prod.splits)
  then show "chain_in S st'" using Get_in [of e h "rp_chain st" chain r, OF _ f] c by (auto simp: chain_in_def grows_def)
qed

lemma view_plus_two:
  fixes a b c :: View
  assumes "a + 2 = c" "a < b" "b < c"
  shows "unat c = unat a + 2"
proof -
  have ab: "unat a < unat b" "unat b < unat c" using assms(2,3) by (simp_all add: word_less_nat_alt)
  have "unat c = (unat a + 2) mod 2 ^ 64" using assms(1) by (auto simp: unat_word_ariths)
  then have "unat c \<le> unat a + 2" by (metis mod_less_eq_dividend)
  then show ?thesis using ab by linarith
qed

lemma simple_CommitRule_certified:
  assumes S: "system_ok S" "history_ok S H" "env_sound S H e i" and st: "chain_in S st"
    and q: "certified (protocol_of S) H q" "b_hash q = qc_hash (b_cert b)"
    and r: "simple_CommitRule e b st = (st', r)"
  shows "chain_in S st' \<and> same_votes st st' \<and> rp_bExec st' = rp_bExec st \<and> rp_executed st' = rp_executed st
     \<and> b_view (rp_lock st) \<le> b_view (rp_lock st')
     \<and> (q \<noteq> sy_gen S \<longrightarrow> b_view (par_in S q) \<le> b_view (rp_lock st'))
     \<and> (\<forall>g. r = Some g \<longrightarrow> decided (protocol_of S) H g)"
proof -
  have u: "universe_ok S" and f: "feeds (sy_blocks S) e" using S(1,3) by (simp_all add: system_ok_def env_sound_def)
  have zero: "qc_hash (b_cert (sy_gen S)) = zero_hash" by (simp add: GetGenesis_def NewBlock_def zero_qc_def)
  obtain st1 where g1: "rp_get e (qc_hash (b_cert b)) st = (st1, Some q)" using get_certified [OF S st q(1)] q(2) by auto
  note k1 = rp_get_same [OF g1] rp_get_chain_in [OF g1 f st]
  obtain st2 r2 where g2: "rp_get e (qc_hash (b_cert q)) st1 = (st2, r2)" by force
  note k2 = rp_get_same [OF g2] rp_get_chain_in [OF g2 f k1(2)]
  show ?thesis
  proof (cases "q = sy_gen S")
    case True
    then have "r2 = None" using get_zero [OF u f k1(2)] g2 zero by simp
    then show ?thesis using r g1 g2 k1 k2 True by (auto simp: simple_CommitRule_def same_votes_def)
  next
    case False
    note p = certified_parent [OF S(1,2) q(1) False]
    have r2: "r2 = Some (par_in S q)" using get_certified [OF S k1(2) p(3)] p(2) g2 by auto
    define st3 where "st3 = (if b_view (par_in S q) > b_view (rp_lock st2) then st2\<lparr>rp_lock := par_in S q\<rparr> else st2)"
    have k3: "chain_in S st3" "same_votes st2 st3" "rp_bExec st3 = rp_bExec st2" "rp_executed st3 = rp_executed st2"
      "b_view (rp_lock st2) \<le> b_view (rp_lock st3)" "b_view (par_in S q) \<le> b_view (rp_lock st3)"
      using k2(2) by (auto simp: st3_def chain_in_def same_votes_def)
    obtain st4 r4 where g4: "rp_get e (qc_hash (b_cert (par_in S q))) st3 = (st4, r4)" by force
    note k4 = rp_get_same [OF g4] rp_get_chain_in [OF g4 f k3(1)]
    have res: "st' = st4" "r = (case r4 of None \<Rightarrow> None | Some ggp \<Rightarrow> if b_view ggp + 2 = b_view q then Some ggp else None)"
      using r g1 g2 r2 g4 by (auto simp: simple_CommitRule_def st3_def [symmetric] Let_def split: option.splits if_splits)
    have "decided (protocol_of S) H g" if g: "r = Some g" for g
    proof -
      have r4: "r4 = Some g" "b_view g + 2 = b_view q" using g res(2) by (auto split: option.splits if_splits)
      have ne: "par_in S q \<noteq> sy_gen S" using get_zero [OF u f k3(1)] g4 zero r4(1) by auto
      note pp = certified_parent [OF S(1,2) p(3) ne]
      have "g = par_in S (par_in S q)" using get_certified [OF S k3(1) pp(3)] pp(2) g4 r4(1) by auto
      then show ?thesis
        using view_plus_two [OF r4(2)] p(4) pp(4) q(1) False ne by (auto simp: decided_def)
    qed
    then show ?thesis using res(1) k1 k2 k3 k4 by (auto simp: same_votes_def)
  qed
qed

section \<open>Execution\<close>

lemma commitInner_induct [consumes 1, case_names stop missing failed step]:
  assumes run: "commitInner e block st = Some (st', ok)"
    and stop: "\<And>block st. b_view block \<le> b_view (rp_bExec st) \<Longrightarrow> P block st st True"
    and missing: "\<And>block st st1. \<not> b_view block \<le> b_view (rp_bExec st) \<Longrightarrow> rp_get e (b_parent block) st = (st1, None) \<Longrightarrow> P block st st1 False"
    and failed: "\<And>block st st1 parent st2. \<not> b_view block \<le> b_view (rp_bExec st) \<Longrightarrow> rp_get e (b_parent block) st = (st1, Some parent)
        \<Longrightarrow> P parent st1 st2 False \<Longrightarrow> P block st st2 False"
    and step: "\<And>block st st1 parent st2. \<not> b_view block \<le> b_view (rp_bExec st) \<Longrightarrow> rp_get e (b_parent block) st = (st1, Some parent)
        \<Longrightarrow> P parent st1 st2 True
        \<Longrightarrow> P block st (st2\<lparr>rp_executed := rp_executed st2 @ [block], rp_Count := i64 (rp_Count st2 + 1), rp_bExec := block\<rparr>) True"
  shows "P block st st' ok"
proof -
  have "case (st', ok) of (st', ok) \<Rightarrow> P block st st' ok"
  proof (rule commitInner.raw_induct [where P = "\<lambda>e' block st r. e' = e \<longrightarrow> (case r of (st', ok) \<Rightarrow> P block st st' ok)", OF _ run, THEN mp], goal_cases)
    case (1 f e' block st r)
    show ?case
    proof (intro impI)
      assume e: "e' = e"
      obtain st1 p where g: "rp_get e (b_parent block) st = (st1, p)" by force
      show "case r of (st', ok) \<Rightarrow> P block st st' ok"
      proof (cases "b_view block \<le> b_view (rp_bExec st)")
        case True
        then show ?thesis using 1(2) stop by auto
      next
        case False
        show ?thesis
        proof (cases p)
          case None
          then show ?thesis using 1(2) False g e missing by auto
        next
          case (Some parent)
          then obtain st2 ok2 where i: "f e parent st1 = Some (st2, ok2)"
            and rr: "r = (if \<not> ok2 then (st2, False) else (st2\<lparr>rp_executed := rp_executed st2 @ [block], rp_Count := i64 (rp_Count st2 + 1), rp_bExec := block\<rparr>, True))"
            using 1(2) False g e by (auto simp: Option.bind_eq_Some_conv split: if_splits)
          have "P parent st1 st2 ok2" using 1(1) [OF i] by simp
          then show ?thesis using rr False g Some failed step by (cases ok2) auto
        qed
      qed
    qed
  qed simp
  then show ?thesis by simp
qed

lemma commitInner_last:
  assumes run: "commitInner e g st = Some (st', ok)" and f: "feeds (sy_blocks S) e"
  shows "chain_in S st \<Longrightarrow> chain_in S st' \<and> same_votes st st' \<and> rp_lock st' = rp_lock st
     \<and> (if ok \<and> \<not> b_view g \<le> b_view (rp_bExec st) then rp_bExec st' = g
        else rp_bExec st' = rp_bExec st \<and> rp_executed st' = rp_executed st)"
  using run
proof (induction rule: commitInner_induct)
  case (missing g st st1)
  then show ?case using rp_get_same [OF missing.hyps(2)] rp_get_chain_in [OF missing.hyps(2) f missing.prems] by simp
next
  case (failed g st st1 parent st2)
  then show ?case using rp_get_same [OF failed.hyps(2)] rp_get_chain_in [OF failed.hyps(2) f failed.prems] by (simp add: same_votes_def)
next
  case (step g st st1 parent st2)
  then show ?case using rp_get_same [OF step.hyps(2)] rp_get_chain_in [OF step.hyps(2) f step.prems] by (simp add: same_votes_def chain_in_def)
qed (simp add: same_votes_def)

lemma parent_step:
  assumes S: "system_ok S" "history_ok S H" "linked S" and f: "feeds (sy_blocks S) e" and st: "chain_in S st"
    and g: "certified (protocol_of S) H g" "anc (protocol_of S) g (rp_bExec st)" "\<not> b_view g \<le> b_view (rp_bExec st)"
    and p: "rp_get e (b_parent g) st = (st1, Some parent)"
  shows "g \<noteq> sy_gen S" "parent = par_in S g" "certified (protocol_of S) H parent" "anc (protocol_of S) parent (rp_bExec st1)"
    "chain_in S st1"
proof -
  have u: "universe_ok S" using S(1) by (simp add: system_ok_def)
  have "g \<noteq> rp_bExec st" using g(3) by auto
  then have a: "g \<noteq> sy_gen S" "anc (protocol_of S) (par_in S g) (rp_bExec st)"
    using g(2) by (auto elim: anc.cases)
  note c = certified_parent [OF S(1,2) g(1) a(1)]
  have "parent \<in> sy_blocks S" "b_hash parent = b_parent g"
    using rp_get_frame(2) [OF p f] st by (simp_all add: chain_in_def)
  moreover have "b_parent g = qc_hash (b_cert g)"
    using S(3) a(1) certified_in [OF S(1,2) g(1)] by (auto simp: linked_def)
  ultimately show pp: "parent = par_in S g" using universe_hash [OF u _ c(1)] c(2) by simp
  show "g \<noteq> sy_gen S" "certified (protocol_of S) H parent" "anc (protocol_of S) parent (rp_bExec st1)" "chain_in S st1"
    using a c(3) pp rp_get_same [OF p] rp_get_chain_in [OF p f st] by simp_all
qed

lemma commitInner_path:
  assumes run: "commitInner e g st = Some (st', ok)" and S: "system_ok S" "history_ok S H" "linked S" and f: "feeds (sy_blocks S) e"
  shows "chain_in S st \<Longrightarrow> certified (protocol_of S) H g \<Longrightarrow> anc (protocol_of S) g (rp_bExec st)
     \<Longrightarrow> path (protocol_of S) (rp_executed st) (rp_bExec st)
     \<Longrightarrow> chain_in S st' \<and> same_votes st st' \<and> rp_lock st' = rp_lock st
        \<and> (if ok then rp_bExec st' = g \<and> path (protocol_of S) (rp_executed st') g
           else rp_bExec st' = rp_bExec st \<and> rp_executed st' = rp_executed st)"
  using run
proof (induction rule: commitInner_induct)
  case (stop g st)
  have "hist (protocol_of S) H" using S(2) by (simp add: history_ok_def)
  then have "rp_bExec st = g"
    using simple.anc_view [OF _ stop.prems(3,2)] stop.hyps by (auto simp: word_le_nat_alt)
  then show ?case using stop.prems by (simp add: same_votes_def)
next
  case (missing g st st1)
  then show ?case using rp_get_same [OF missing.hyps(2)] rp_get_chain_in [OF missing.hyps(2) f missing.prems(1)] by simp
next
  case (failed g st st1 parent st2)
  note p = parent_step [OF S f failed.prems(1-3) failed.hyps(1,2)]
  show ?case using failed.IH [OF p(5,3,4)] failed.prems(4) rp_get_same [OF failed.hyps(2)] by (simp add: same_votes_def)
next
  case (step g st st1 parent st2)
  note p = parent_step [OF S f step.prems(1-3) step.hyps(1,2)]
  have IH: "chain_in S st2 \<and> same_votes st1 st2 \<and> rp_lock st2 = rp_lock st1 \<and> path (protocol_of S) (rp_executed st2) (par_in S g)"
    using step.IH [OF p(5,3,4)] step.prems(4) rp_get_same [OF step.hyps(2)] p(2) by simp
  then have "path (protocol_of S) (rp_executed st2 @ [g]) g" using path_step [of g "protocol_of S"] p(1) by simp
  then show ?case using IH rp_get_same [OF step.hyps(2)] by (simp add: same_votes_def chain_in_def)
qed

lemma PruneToHeight_blocks: "PruneToHeight b h chain = Some (chain', fs) \<Longrightarrow> bc_blocks chain' = bc_blocks chain"
  by (auto simp: PruneToHeight_def Let_def case_prod_beta)

lemma commit_decided:
  assumes run: "commit e g st = Some st'" and S: "system_ok S" "history_ok S H" and f: "feeds (sy_blocks S) e"
    and st: "chain_in S st" and g: "decided (protocol_of S) H g"
    and ex: "linked S \<longrightarrow> path (protocol_of S) (rp_executed st) (rp_bExec st)" "rp_bExec st = sy_gen S \<or> decided (protocol_of S) H (rp_bExec st)"
  shows "chain_in S st' \<and> same_votes st st' \<and> rp_lock st' = rp_lock st
     \<and> (linked S \<longrightarrow> path (protocol_of S) (rp_executed st') (rp_bExec st')) \<and> (rp_bExec st' = sy_gen S \<or> decided (protocol_of S) H (rp_bExec st'))"
proof -
  have h: "hist (protocol_of S) H" using S(2) by (simp add: history_ok_def)
  have c: "certified (protocol_of S) H g" by (rule simple.decided_certified [OF h g])
  obtain st1 ok where i: "commitInner e g st = Some (st1, ok)" using run by (auto simp: commit_def Option.bind_eq_Some_conv)
  have one: "chain_in S st1 \<and> same_votes st st1 \<and> rp_lock st1 = rp_lock st
     \<and> (linked S \<longrightarrow> path (protocol_of S) (rp_executed st1) (rp_bExec st1)) \<and> (rp_bExec st1 = sy_gen S \<or> decided (protocol_of S) H (rp_bExec st1))"
  proof (cases "b_view g \<le> b_view (rp_bExec st)")
    case True
    then have "st1 = st" using i by (subst (asm) commitInner.simps) simp
    then show ?thesis using st ex by (simp add: same_votes_def)
  next
    case False
    then have "anc (protocol_of S) g (rp_bExec st)"
      using ex(2) certified_anc_gen [OF S c] simple.decided_anc [OF h _ c] by (auto simp: word_le_nat_alt)
    moreover have "if ok then rp_bExec st1 = g else rp_bExec st1 = rp_bExec st \<and> rp_executed st1 = rp_executed st"
      using commitInner_last [OF i f st] False by (cases ok) simp_all
    moreover have "linked S \<longrightarrow> path (protocol_of S) (rp_executed st1) (rp_bExec st1)"
      using calculation commitInner_path [OF i S _ f st c] ex(1) by (cases ok) simp_all
    ultimately show ?thesis using commitInner_last [OF i f st] ex(2) g by (cases ok) auto
  qed
  obtain chain fs where "st' = st1\<lparr>rp_chain := chain, rp_forked := fs\<rparr>" "bc_blocks chain = bc_blocks (rp_chain st1)"
    using run i that [of "rp_forked st1" "rp_chain st1"] by (auto simp: commit_def dest: PruneToHeight_blocks split: if_splits)
  then show ?thesis using one by (simp add: same_votes_def chain_in_def store_in_def)
qed

end
