(* ===== verification/HsAgreement.thy ===== *)
theory HsAgreement
  imports HsFrame
begin

text \<open>
  Agreement of SimpleHotStuff: in every run of the replicas, with faulty replicas, lost and delayed
  messages, the last blocks that two honest replicas executed are on one branch of certified blocks.
  The votes of honest replicas are shown to be a history of the abstract protocol of \<open>HsVoting\<close>,
  handler by handler.

  What is assumed of the surroundings of a replica is \<open>env_ok\<close>: signatures of honest replicas are of
  what they signed, aggregate certificates are not in use, and every fetch of a block that an honest
  replica voted for succeeds (\<open>fetches_voted\<close>).  The latter matters because the commit rule does not
  lock a block when it fails to get it, and the replica votes all the same.

  Execution follows the parents of blocks, not their certificates.  Only if the two agree for every
  block of the system (\<open>linked\<close>), also for those that faulty replicas propose, are the executed blocks
  of two honest replicas prefixes of one another; no code checks that they agree, and the last
  section has a run in which one faulty proposal makes two honest replicas execute different blocks.
\<close>

section \<open>Handling a proposal\<close>

definition ready :: "hs_system \<Rightarrow> (ID \<times> Block) list \<Rightarrow> ID \<Rightarrow> Block \<Rightarrow> replica \<Rightarrow> bool" where
  \<comment> \<open>the block may be voted for, as far as its parent is concerned\<close>
  "ready S H i b st \<longleftrightarrow> certified (protocol_of S) H (par_in S b) \<and> (\<exists>c \<in> sy_blocks S. b_hash c = qc_hash (b_cert b))
     \<and> (par_in S b \<noteq> sy_gen S \<longrightarrow> b_view (par_in S (par_in S b)) \<le> b_view (rp_lock st))
     \<and> (\<forall>c. (i, c) \<in> set H \<longrightarrow> par_in S c \<noteq> sy_gen S
          \<longrightarrow> par_in S b = par_in S c \<or> b_view (par_in S (par_in S c)) \<le> b_view (par_in S b))"

lemma cast_vote_none:
  assumes "b_view b \<le> rp_lastVote st \<or> (\<forall>pc. CreatePartialCert (he_crypto e) (rp_signatures st) b \<noteq> Return pc)"
  shows "cast_vote e b st = st \<or> cast_vote e b st = st\<lparr>rp_signatures := Suc (rp_signatures st)\<rparr>"
proof (cases "b_view b \<le> rp_lastVote st")
  case True
  then show ?thesis by (simp only: cast_vote_def if_True simp_thms)
next
  case False
  then show ?thesis
    using assms by (cases "CreatePartialCert (he_crypto e) (rp_signatures st) b") (blast, simp_all only: cast_vote_def if_False Let_def outcome.case simp_thms)
qed

lemma cast_vote_some:
  assumes "rp_lastVote st < b_view b" "CreatePartialCert (he_crypto e) (rp_signatures st) b = Return pc"
  shows "rp_lock (cast_vote e b st) = rp_lock st" "rp_chain (cast_vote e b st) = rp_chain st" "rp_lastVote (cast_vote e b st) = b_view b"
    "rp_signed (cast_vote e b st) = SignedBlock b # rp_signed st" "rp_executed (cast_vote e b st) = rp_executed st"
    "rp_bExec (cast_vote e b st) = rp_bExec st"
  using assms(2) less_le_not_le [of "rp_lastVote st" "b_view b"] assms(1) by (simp_all add: cast_vote_def emit_def Let_def)

lemma cast_vote_ready:
  assumes H: "history_ok S H" and st: "rinv S H i st" and b: "b \<in> sy_blocks S" "ready S H i b st"
  shows "\<exists>bs. set bs \<subseteq> {b} \<and> rinv S (map (Pair i) bs @ H) i (cast_vote e b st) \<and> history_ok S (map (Pair i) bs @ H)
     \<and> rp_lock (cast_vote e b st) = rp_lock st"
proof (cases "b_view b \<le> rp_lastVote st \<or> (\<forall>pc. CreatePartialCert (he_crypto e) (rp_signatures st) b \<noteq> Return pc)")
  case True
  note cast_vote_none [OF this]
  moreover have "rinv S H i (st\<lparr>rp_signatures := Suc (rp_signatures st)\<rparr>)" using st by (simp add: rinv_def chain_in_def)
  ultimately show ?thesis using H st by (intro exI [of _ "[]"]) (elim disjE; simp)
next
  case False
  then obtain pc where v: "rp_lastVote st < b_view b" "CreatePartialCert (he_crypto e) (rp_signatures st) b = Return pc" by auto
  have gen: "b_view (sy_gen S) < b_view b"
    using order.strict_trans1 [OF word_zero_le v(1)] by (simp add: GetGenesis_def NewBlock_def)
  have mv: "may_vote (protocol_of S) H i b"
    unfolding may_vote_def protocol_of_simps
  proof (intro conjI allI impI)
    show "unat (b_view (sy_gen S)) < unat (b_view b)"
      using gen unfolding word_less_nat_alt .
    show "certified (protocol_of S) H (par_in S b)" using b(2) by (simp add: ready_def)
    fix c assume c: "(i, c) \<in> set H"
    then show "unat (b_view c) < unat (b_view b)" 
      using st v(1) unfolding rinv_def word_less_nat_alt word_le_nat_alt by (meson order.strict_trans1)
    assume "par_in S c \<noteq> sy_gen S"
    then show "par_in S b = par_in S c \<or> unat (b_view (par_in S (par_in S c))) \<le> unat (b_view (par_in S b))"
      using b(2) c unfolding ready_def word_le_nat_alt by blast
  qed
  have h: "history_ok S ((i, b) # H)" using H mv b by (auto simp: history_ok_def ready_def)
  note same = cast_vote_some [OF v]
  have "b_view c \<le> b_view b" if "(i, c) \<in> set H" for c using st v(1) that unfolding rinv_def by force
  then have "rinv S ((i, b) # H) i (cast_vote e b st)"
    using st b(2) decided_set [of "protocol_of S" H "rp_bExec st" "(i, b) # H"]
    unfolding rinv_def chain_in_def same ready_def by (simp add: subset_insertI) blast
  then show ?thesis using h same(1) by (intro exI [of _ "[b]"]) simp
qed

lemma rinv_execute:
  assumes "rinv S H i st" "chain_in S st'" "same_votes st st'" "b_view (rp_lock st) \<le> b_view (rp_lock st')"
    "linked S \<longrightarrow> path (protocol_of S) (rp_executed st') (rp_bExec st')" "rp_bExec st' = sy_gen S \<or> decided (protocol_of S) H (rp_bExec st')"
  shows "rinv S H i st'"
proof -
  have "b_view (par_in S (par_in S b)) \<le> b_view (rp_lock st')" if "(i, b) \<in> set H" "par_in S b \<noteq> sy_gen S" for b
    using assms(1,4) that unfolding rinv_def by (meson order_trans)
  then show ?thesis using assms unfolding rinv_def same_votes_def by simp
qed

lemma accept_block_post:
  assumes S: "system_ok S" "history_ok S H0" "env_sound S H0 e i" "history_ok S H" "set H0 \<subseteq> set H"
    and st: "rinv S H i st" and b: "b \<in> sy_blocks S"
    and q: "certified (protocol_of S) H0 q" "b_hash q = qc_hash (b_cert b)"
    and run: "accept_block e SimpleHotStuff b st = ret st'"
  shows "rinv S H i st' \<and> b_view (rp_lock st) \<le> b_view (rp_lock st') \<and> (q \<noteq> sy_gen S \<longrightarrow> b_view (par_in S q) \<le> b_view (rp_lock st'))"
proof -
  have u: "universe_ok S" and f: "feeds (sy_blocks S) e" using S(1,3) by (simp_all add: system_ok_def env_sound_def)
  let ?st1 = "st\<lparr>rp_chain := Store b (rp_chain st)\<rparr>"
  have c1: "chain_in S ?st1" using Store_stores [OF u b] st by (auto simp: rinv_def chain_in_def grows_def)
  obtain st2 r where r: "simple_CommitRule e b ?st1 = (st2, r)" by force
  note k = simple_CommitRule_certified [OF S(1,2,3) c1 q r]
  have ex: "linked S \<longrightarrow> path (protocol_of S) (rp_executed st2) (rp_bExec st2)" "rp_bExec st2 = sy_gen S \<or> decided (protocol_of S) H (rp_bExec st2)"
    using k st by (auto simp: rinv_def)
  have k': "chain_in S st' \<and> same_votes st2 st' \<and> rp_lock st' = rp_lock st2
     \<and> (linked S \<longrightarrow> path (protocol_of S) (rp_executed st') (rp_bExec st')) \<and> (rp_bExec st' = sy_gen S \<or> decided (protocol_of S) H (rp_bExec st'))"
  proof (cases r)
    case None
    then show ?thesis using run r k ex by (simp add: accept_block_def SimpleHotStuff_def ret_def same_votes_def)
  next
    case (Some g)
    then have "commit e g st2 = Some st'" using run r by (auto simp: accept_block_def SimpleHotStuff_def ret_def loop_h_def)
    then show ?thesis using commit_decided [OF _ S(1,4) f] k Some decided_set [OF _ S(5)] ex by blast
  qed
  moreover have "same_votes st st'" using k k' by (simp add: same_votes_def)
  moreover have "b_view (rp_lock st) \<le> b_view (rp_lock st')" using k k' by simp
  ultimately show ?thesis using rinv_execute [OF st] k by simp
qed

lemma post_h_conj: "post_h m E Q \<Longrightarrow> post_h m E' Q' \<Longrightarrow> post_h m (\<lambda>s. E s \<and> E' s) (\<lambda>x. Q x \<and> Q' x)"
  by (auto simp: post_h_def split: option.splits outcome.splits)

lemma rp_get_out: "rp_get e h st = (st', r) \<Longrightarrow> rp_out st' = rp_out st"
  by (auto simp: rp_get_def split: prod.splits)

lemma verify_qc_out: "post_h (verify_qc e qc st) (\<lambda>s. rp_out s = rp_out st) (\<lambda>(s, ok). rp_out s = rp_out st)"
  unfolding verify_qc_def post_h_bind post_h_crash by (auto split: outcome.splits)

lemma tell_proposed_out: "rp_out (tell_proposed e qc st) = rp_out st"
  by (auto simp: tell_proposed_def dest: rp_get_out split: prod.splits option.splits)

lemma simple_VoteRule_cases:
  assumes "simple_VoteRule e pm st = Some (st', ok)"
  shows "st' = st \<and> \<not> ok \<or> (\<exists>r. rp_get e (qc_hash (b_cert (pm_Block pm))) st = (st', r)
     \<and> (ok \<longrightarrow> (\<exists>p. r = Some p \<and> \<not> b_view p < b_view (rp_lock st'))))"
  using assms by (auto simp: simple_VoteRule_def Let_def split: if_splits prod.splits option.splits)

lemma simple_VoteRule_out: "simple_VoteRule e pm st = Some (st', ok) \<Longrightarrow> rp_out st' = rp_out st"
  by (drule simple_VoteRule_cases) (auto dest: rp_get_out)

lemma simple_CommitRule_out: "simple_CommitRule e b st = (st', r) \<Longrightarrow> rp_out st' = rp_out st"
  by (auto simp: simple_CommitRule_def Let_def dest!: rp_get_out split: prod.splits option.splits if_splits)

lemma commitInner_out: "commitInner e b st = Some (st', ok) \<Longrightarrow> rp_out st' = rp_out st"
  by (induction rule: commitInner_induct) (auto dest: rp_get_out)

lemma commit_out: "commit e b st = Some st' \<Longrightarrow> rp_out st' = rp_out st"
  by (auto simp: commit_def Option.bind_eq_Some_conv dest!: commitInner_out split: if_splits)

lemma accept_block_out: "accept_block e SimpleHotStuff b st = ret st' \<Longrightarrow> rp_out st' = rp_out st"
  by (auto simp: accept_block_def SimpleHotStuff_def loop_h_def ret_def Let_def dest!: simple_CommitRule_out commit_out split: prod.splits option.splits)

lemma loop_h_ret [simp]: "loop_h m = ret x \<longleftrightarrow> m = Some x"
  by (cases m) (simp_all add: loop_h_def ret_def)

lemma accept_block_post_h: "(\<And>s'. accept_block e R b s = ret s' \<Longrightarrow> Q s') \<Longrightarrow> post_h (accept_block e R b s) E Q"
  unfolding accept_block_def by (cases "r_CommitRule R e b (s\<lparr>rp_chain := Store b (rp_chain s)\<rparr>)") (auto simp: post_h_loop split: option.splits)

lemma check_proposal_rule:
  assumes e: "\<not> he_useAggQC e"
    and verify: "post_h (verify_qc e (b_cert (pm_Block pm)) st) E (\<lambda>(s, ok). I s \<and> (ok \<longrightarrow> I1 s))"
    and vote: "\<And>s s' ok. I1 s \<Longrightarrow> simple_VoteRule e pm s = Some (s', ok) \<Longrightarrow> I s' \<and> (ok \<longrightarrow> I2 s')"
    and told: "\<And>s. I2 s \<Longrightarrow> I (tell_proposed e (b_cert (pm_Block pm)) s) \<and> I3 (tell_proposed e (b_cert (pm_Block pm)) s)"
    and acc: "\<And>s s'. I3 s \<Longrightarrow> accept_block e SimpleHotStuff (pm_Block pm) s = ret s' \<Longrightarrow> J s'"
  shows "post_h (check_proposal e SimpleHotStuff pm st) E (\<lambda>(s, ok). (ok \<longrightarrow> J s) \<and> (\<not> ok \<longrightarrow> I s))"
proof -
  let ?Q = "\<lambda>(s, ok). (ok \<longrightarrow> J s) \<and> (\<not> ok \<longrightarrow> I s)"
  have agg: "check_agg e pm st = ret (st, True)" using e by (simp add: check_agg_def split: option.split)
  have accept: "post_h (bind_h (accept_block e SimpleHotStuff (pm_Block pm) s) (\<lambda>s. ret (s, True))) E ?Q" if "I3 s" for s
    unfolding post_h_bind using accept_block_post_h [of e SimpleHotStuff "pm_Block pm" s J E] acc that by simp
  have voted: "post_h (bind_h (loop_h (r_VoteRule SimpleHotStuff e pm s)) (\<lambda>(st3, ok). if \<not> ok then ret (st3, False) else
         let st4 = tell_proposed e (b_cert (pm_Block pm)) st3
         in if \<not> Accept (he_unmarshal e) (b_cmd (pm_Block pm)) (rp_cmds st4) then ret (st4, False)
            else bind_h (accept_block e SimpleHotStuff (pm_Block pm) st4) (\<lambda>st5. ret (st5, True)))) E ?Q" if "I1 s" for s
    unfolding post_h_bind [of "loop_h _"] post_h_loop
    using vote [OF that] told accept by (auto simp: SimpleHotStuff_def Let_def)
  have "post_h (bind_h (verify_qc e (b_cert (pm_Block pm)) st) (\<lambda>(st2, ok). if \<not> ok then ret (st2, False) else
         if pm_ID pm \<noteq> leader_of e st2 (b_view (pm_Block pm)) then ret (st2, False) else
         bind_h (loop_h (r_VoteRule SimpleHotStuff e pm st2)) (\<lambda>(st3, ok). if \<not> ok then ret (st3, False) else
         let st4 = tell_proposed e (b_cert (pm_Block pm)) st3
         in if \<not> Accept (he_unmarshal e) (b_cmd (pm_Block pm)) (rp_cmds st4) then ret (st4, False)
            else bind_h (accept_block e SimpleHotStuff (pm_Block pm) st4) (\<lambda>st5. ret (st5, True))))) E ?Q"
    unfolding post_h_bind [of "verify_qc _ _ _"]
    by (rule post_h_mono [OF verify]) (use voted in auto)
  then show ?thesis unfolding check_proposal_def Let_def agg bind_h_simps by simp
qed

lemma check_proposal_out:
  assumes "\<not> he_useAggQC e"
  shows "post_h (check_proposal e SimpleHotStuff pm st) (\<lambda>s. rp_out s = rp_out st) (\<lambda>(s, ok). rp_out s = rp_out st)"
  by (rule post_h_mono [OF check_proposal_rule [OF assms, where I = "\<lambda>s. rp_out s = rp_out st" and ?I1.0 = "\<lambda>s. rp_out s = rp_out st"
        and ?I2.0 = "\<lambda>s. rp_out s = rp_out st" and ?I3.0 = "\<lambda>s. rp_out s = rp_out st" and J = "\<lambda>s. rp_out s = rp_out st"
        and E = "\<lambda>s. rp_out s = rp_out st"]])
     (auto simp: tell_proposed_out dest: simple_VoteRule_out accept_block_out intro: post_h_mono [OF verify_qc_out] split: if_splits)

lemma check_proposal_post:
  assumes S: "system_ok S" "history_ok S H0" "env_sound S H0 e i" "history_ok S H" "set H0 \<subseteq> set H"
    and st: "rinv S H i st" "proposals_in (sy_blocks S) st" and b: "pm_Block pm \<in> sy_blocks S"
  shows "post_h (check_proposal e SimpleHotStuff pm st) (\<lambda>s. rinv S H i s \<and> b_view (rp_lock st) \<le> b_view (rp_lock s))
     (\<lambda>(s, ok). rinv S H i s \<and> b_view (rp_lock st) \<le> b_view (rp_lock s) \<and> (ok \<longrightarrow> ready S H i (pm_Block pm) s))"
proof -
  let ?b = "pm_Block pm" and ?U = "sy_blocks S" and ?P = "protocol_of S"
  have u: "universe_ok S" and f: "feeds ?U e" and agg: "\<not> he_useAggQC e" using S(1,3) by (simp_all add: system_ok_def env_sound_def)
  define I where "I s \<longleftrightarrow> rinv S H i s \<and> rp_out s = rp_out st \<and> rp_lock s = rp_lock st" for s
  define cert where "cert q \<longleftrightarrow> q \<in> ?U \<and> b_hash q = qc_hash (b_cert ?b) \<and> certified ?P H0 q" for q
  have frame: "I s'" if "I s" "frame ?U s s'" "rp_out s' = rp_out s" for s s'
    using that rinv_frame [of S H i s s'] st(2) by (auto simp: I_def proposals_in_def frame_def)
  have I: "I st" using st by (simp add: I_def)
  have c: "chain_in S st" using st(1) by (simp add: rinv_def)
  have verify: "post_h (verify_qc e (b_cert ?b) st) I (\<lambda>(s, ok). I s \<and> (ok \<longrightarrow> I s \<and> (\<exists>q. cert q)))"
    by (rule post_h_mono [OF post_h_conj [OF verified_certified [OF S(1-3) c b] verify_qc_out [of e "b_cert ?b" st]]])
       (use frame [OF I] in \<open>auto simp: cert_def\<close>)
  have vote: "I s' \<and> (ok \<longrightarrow> I s' \<and> (\<exists>q. cert q \<and> \<not> b_view q < b_view (rp_lock st)))"
    if s: "I s \<and> (\<exists>q. cert q)" and v: "simple_VoteRule e pm s = Some (s', ok)" for s s' ok
    using simple_VoteRule_cases [OF v]
  proof (elim disjE exE conjE)
    fix r assume g: "rp_get e (qc_hash (b_cert ?b)) s = (s', r)" and r: "ok \<longrightarrow> (\<exists>p. r = Some p \<and> \<not> b_view p < b_view (rp_lock s'))"
    have i: "I s'" using frame [OF _ rp_get_frame(1) [OF g f] rp_get_out [OF g]] s by blast
    obtain q where q: "cert q" using s by blast
    have "p = q" if "r = Some p" for p
      using rp_get_frame(2) [OF g f _ that] s q universe_hash [OF u] by (auto simp: I_def rinv_def chain_in_def cert_def)
    then show ?thesis using i q r by (auto simp: I_def)
  qed (use s in simp)
  have told: "I (tell_proposed e (b_cert ?b) s) \<and> (I (tell_proposed e (b_cert ?b) s) \<and> (\<exists>q. cert q \<and> \<not> b_view q < b_view (rp_lock st)))"
    if "I s \<and> (\<exists>q. cert q \<and> \<not> b_view q < b_view (rp_lock st))" for s
    using that frame [OF _ tell_proposed_frame [OF f] tell_proposed_out] by blast
  have acc: "rinv S H i s' \<and> b_view (rp_lock st) \<le> b_view (rp_lock s') \<and> ready S H i ?b s'"
    if s: "I s \<and> (\<exists>q. cert q \<and> \<not> b_view q < b_view (rp_lock st))" and a: "accept_block e SimpleHotStuff ?b s = ret s'" for s s'
  proof -
    obtain q where q: "cert q" "b_view (rp_lock st) \<le> b_view q" using s by (auto simp: not_less)
    then have p: "par_in S ?b = q" "certified ?P H q" using par_in_eq [OF u] certified_set [OF _ S(5)] by (auto simp: cert_def)
    have k: "rinv S H i s' \<and> b_view (rp_lock s) \<le> b_view (rp_lock s') \<and> (q \<noteq> sy_gen S \<longrightarrow> b_view (par_in S q) \<le> b_view (rp_lock s'))"
      using accept_block_post [OF S _ b _ _ a] s q(1) by (auto simp: I_def cert_def)
    have "b_view (par_in S (par_in S c)) \<le> b_view q" if "(i, c) \<in> set H" "par_in S c \<noteq> sy_gen S" for c
      using st(1) that q(2) unfolding rinv_def by (meson order_trans)
    then show ?thesis using k s p q(1) by (auto simp: ready_def I_def cert_def)
  qed
  show ?thesis
    by (rule post_h_mono [OF check_proposal_rule [OF agg verify vote told acc]]) (auto simp: I_def)
qed

definition votes_post :: "hs_system \<Rightarrow> (ID \<times> Block) list \<Rightarrow> ID \<Rightarrow> bool \<Rightarrow> (Block \<Rightarrow> bool) \<Rightarrow> replica \<Rightarrow> replica \<Rightarrow> bool" where
  \<comment> \<open>the history is extended by votes for blocks of a kind, if the condition \<open>A\<close> holds\<close>
  "votes_post S H i A kind st s \<longleftrightarrow> set (rp_out st) \<subseteq> set (rp_out s)
     \<and> (A \<and> rinv S H i st \<and> proposals_in (sy_blocks S) s \<longrightarrow>
          (\<exists>bs. rinv S (map (Pair i) bs @ H) i s \<and> history_ok S (map (Pair i) bs @ H) \<and> (\<forall>b \<in> set bs. kind b)
             \<and> b_view (rp_lock st) \<le> b_view (rp_lock s)))"

lemma votes_post_frame:
  assumes "frame (sy_blocks S) st s" "history_ok S H"
  shows "votes_post S H i A kind st s"
  unfolding votes_post_def
proof (intro conjI impI)
  show "set (rp_out st) \<subseteq> set (rp_out s)" using assms(1) by (simp add: frame_def stores_def)
  assume a: "A \<and> rinv S H i st \<and> proposals_in (sy_blocks S) s"
  then have "rinv S H i s" using rinv_frame [OF _ assms(1)] by blast
  moreover have "rp_lock s = rp_lock st" using assms(1) by (simp add: frame_def)
  ultimately show "\<exists>bs. rinv S (map (Pair i) bs @ H) i s \<and> history_ok S (map (Pair i) bs @ H) \<and> (\<forall>b \<in> set bs. kind b)
      \<and> b_view (rp_lock st) \<le> b_view (rp_lock s)"
    using assms(2) by (intro exI [of _ "[]"]) simp
qed

lemma votes_post_after_frame:
  assumes f: "frame (sy_blocks S) st s1" and v: "votes_post S H i A kind s1 s"
  shows "votes_post S H i A kind st s"
proof -
  have o: "set (rp_out st) \<subseteq> set (rp_out s1)" "rp_lock s1 = rp_lock st" using f by (simp_all add: frame_def stores_def)
  have v1: "set (rp_out s1) \<subseteq> set (rp_out s)" using v by (simp add: votes_post_def)
  show ?thesis
    unfolding votes_post_def
  proof (intro conjI impI)
    show "set (rp_out st) \<subseteq> set (rp_out s)" using o(1) v1 by blast
    assume a: "A \<and> rinv S H i st \<and> proposals_in (sy_blocks S) s"
    then have "rinv S H i s1" using rinv_frame [OF _ f] proposals_in_mono [OF _ v1] by blast
    then show "\<exists>bs. rinv S (map (Pair i) bs @ H) i s \<and> history_ok S (map (Pair i) bs @ H) \<and> (\<forall>b \<in> set bs. kind b)
        \<and> b_view (rp_lock st) \<le> b_view (rp_lock s)"
      using v a unfolding votes_post_def o(2) by simp
  qed
qed

lemma ready_later:
  assumes "ready S H i b s1" "b_view (rp_lock s1) \<le> b_view (rp_lock s)" "\<forall>c \<in> set bs. par_in S c = par_in S b"
  shows "ready S (map (Pair i) bs @ H) i b s"
  unfolding ready_def
proof (intro conjI allI impI)
  show "certified (protocol_of S) (map (Pair i) bs @ H) (par_in S b)"
    using assms(1) unfolding ready_def by (intro certified_mono) blast
  show "\<exists>c \<in> sy_blocks S. b_hash c = qc_hash (b_cert b)" using assms(1) by (simp add: ready_def)
  show "b_view (par_in S (par_in S b)) \<le> b_view (rp_lock s)" if "par_in S b \<noteq> sy_gen S"
    using assms(1,2) that unfolding ready_def by (meson order_trans)
  fix c assume "(i, c) \<in> set (map (Pair i) bs @ H)" and n: "par_in S c \<noteq> sy_gen S"
  then consider "c \<in> set bs" | "(i, c) \<in> set H" by auto
  then show "par_in S b = par_in S c \<or> b_view (par_in S (par_in S c)) \<le> b_view (par_in S b)"
    using assms(1,3) n by cases (auto simp: ready_def)
qed

lemma cast_vote_out: "set (rp_out st) \<subseteq> set (rp_out (cast_vote e b st))"
  by (auto simp: cast_vote_def emit_def Let_def split: outcome.splits)

lemma cast_vote_votes:
  assumes v: "votes_post S H i A (\<lambda>c. par_in S c = par_in S b) s1 s" and r: "A \<Longrightarrow> rinv S H i s1 \<Longrightarrow> ready S H i b s1 \<and> b \<in> sy_blocks S"
  shows "votes_post S H i A (\<lambda>c. par_in S c = par_in S b) s1 (cast_vote e b s)"
  unfolding votes_post_def
proof (intro conjI impI)
  have v1: "set (rp_out s1) \<subseteq> set (rp_out s)" using v by (simp add: votes_post_def)
  then show "set (rp_out s1) \<subseteq> set (rp_out (cast_vote e b s))" using cast_vote_out by (rule subset_trans)
  assume a: "A \<and> rinv S H i s1 \<and> proposals_in (sy_blocks S) (cast_vote e b s)"
  then have "proposals_in (sy_blocks S) s" using proposals_in_mono [OF _ cast_vote_out] by blast
  then obtain bs where bs: "rinv S (map (Pair i) bs @ H) i s" "history_ok S (map (Pair i) bs @ H)"
    "\<forall>c \<in> set bs. par_in S c = par_in S b" "b_view (rp_lock s1) \<le> b_view (rp_lock s)"
    using v a unfolding votes_post_def by blast
  have b: "ready S H i b s1" "b \<in> sy_blocks S" using r a by blast+
  obtain cs where cs: "set cs \<subseteq> {b}" "rinv S (map (Pair i) cs @ map (Pair i) bs @ H) i (cast_vote e b s)"
    "history_ok S (map (Pair i) cs @ map (Pair i) bs @ H)" "rp_lock (cast_vote e b s) = rp_lock s"
    using cast_vote_ready [OF bs(2,1) b(2) ready_later [OF b(1) bs(4,3)]] by blast
  have "\<forall>c \<in> set (cs @ bs). par_in S c = par_in S b" using cs(1) bs(3) by auto
  then show "\<exists>bs. rinv S (map (Pair i) bs @ H) i (cast_vote e b s) \<and> history_ok S (map (Pair i) bs @ H)
      \<and> (\<forall>c \<in> set bs. par_in S c = par_in S b) \<and> b_view (rp_lock s1) \<le> b_view (rp_lock (cast_vote e b s))"
    using bs(4) cs by (intro exI [of _ "cs @ bs"]) simp
qed

lemma votes_post_own:
  assumes "SendPropose own \<in> set (rp_out st)" "votes_post S H i (pm_Block own \<in> sy_blocks S) kind st s"
  shows "votes_post S H i A kind st s"
proof -
  have o: "set (rp_out st) \<subseteq> set (rp_out s)" using assms(2) by (simp add: votes_post_def)
  have "pm_Block own \<in> sy_blocks S" if "proposals_in (sy_blocks S) s" using that assms(1) o unfolding proposals_in_def by blast
  then show ?thesis using assms(2) unfolding votes_post_def by blast
qed

definition vote_after :: "(hs_env \<Rightarrow> rules \<Rightarrow> ProposeMsg \<Rightarrow> replica \<Rightarrow> replica handler_result) \<Rightarrow> hs_env \<Rightarrow> Block \<Rightarrow> replica \<Rightarrow> replica handler_result" where
  \<comment> \<open>\<open>OnPropose\<close> after its checks, with \<open>f\<close> in place of the handler of the own proposal\<close>
  "vote_after f e b st1 = bind_h (advance e (WithQC (b_cert b) NewSyncInfo) st1) (\<lambda>(st2, r).
          case r of
            None \<Rightarrow> ret (cast_vote e b st2)
          | Some si \<Rightarrow>
              bind_h (loop_h (build_proposal e si st2)) (\<lambda>(st3, own).
              bind_h (f e SimpleHotStuff own st3) (\<lambda>st4.
              ret (cast_vote e b st4))))"

abbreviation "same_parent S b c \<equiv> par_in S c = par_in S b"

definition handles_votes :: "hs_system \<Rightarrow> (ID \<times> Block) list \<Rightarrow> ID \<Rightarrow> (hs_env \<Rightarrow> rules \<Rightarrow> ProposeMsg \<Rightarrow> replica \<Rightarrow> replica handler_result) \<Rightarrow> hs_env \<Rightarrow> bool" where
  "handles_votes S H i f e \<longleftrightarrow> (\<forall>pm st. post_h (f e SimpleHotStuff pm st) (votes_post S H i (pm_Block pm \<in> sy_blocks S) (same_parent S (pm_Block pm)) st)
    (votes_post S H i (pm_Block pm \<in> sy_blocks S) (same_parent S (pm_Block pm)) st))"

lemma own_proposal_votes:
  assumes u: "universe_ok S" and f: "feeds (sy_blocks S) e" and IH: "handles_votes S H i f e"
    and s2: "frame (sy_blocks S) s1 s2" and b: "build_proposal e (WithQC (b_cert b) NewSyncInfo) s2 = Some (s3, own)"
  shows "post_h (f e SimpleHotStuff own s3) (votes_post S H i A (same_parent S b) s1) (votes_post S H i A (same_parent S b) s1)"
proof -
  note p = build_proposal_frame [OF u f b]
  have k: "par_in S (pm_Block own) = par_in S b" using p(3) by (simp add: par_in_def WithQC_def)
  have "votes_post S H i A (same_parent S b) s1 s"
    if "votes_post S H i (pm_Block own \<in> sy_blocks S) (same_parent S (pm_Block own)) s3 s" for s
    by (rule votes_post_after_frame [OF frame_trans [OF s2 p(1)] votes_post_own [OF p(2) that [unfolded k]]])
  then show ?thesis using post_h_mono [OF IH [unfolded handles_votes_def, rule_format, of own s3]] by blast
qed

lemma vote_after_votes:
  assumes S: "universe_ok S" "history_ok S H" and e: "feeds (sy_blocks S) e" "\<not> he_useAggQC e" and IH: "handles_votes S H i f e"
    and r: "A \<Longrightarrow> ready S H i b s1 \<and> b \<in> sy_blocks S"
  shows "post_h (vote_after f e b s1) (votes_post S H i A (same_parent S b) s1) (votes_post S H i A (same_parent S b) s1)"
  unfolding vote_after_def post_h_bind [of "advance _ _ _"]
proof (rule post_h_mono [OF advance_frame [OF e]])
  let ?K = "votes_post S H i A (same_parent S b) s1"
  have cast: "?K (cast_vote e b s)" if "?K s" for s by (rule cast_vote_votes [OF that]) (use r in blast)
  fix x assume x: "case x of (s2, r) \<Rightarrow> frame (sy_blocks S) s1 s2 \<and> (\<forall>si'. r = Some si' \<longrightarrow> si' = WithQC (b_cert b) NewSyncInfo)"
  obtain s2 o2 where x2: "x = (s2, o2)" by force
  then have s2: "frame (sy_blocks S) s1 s2" and si: "\<And>si'. o2 = Some si' \<Longrightarrow> si' = WithQC (b_cert b) NewSyncInfo" using x by simp_all
  have own: "post_h (bind_h (f e SimpleHotStuff own s3) (\<lambda>st4. ret (cast_vote e b st4))) ?K ?K"
    if "build_proposal e (WithQC (b_cert b) NewSyncInfo) s2 = Some (s3, own)" for s3 own
    unfolding post_h_bind by (rule post_h_mono [OF own_proposal_votes [OF S(1) e(1) IH s2 that]]) (assumption, unfold post_h_ret, erule cast)
  show "post_h (case x of (st2, r) \<Rightarrow> (case r of None \<Rightarrow> ret (cast_vote e b st2)
          | Some si \<Rightarrow> bind_h (loop_h (build_proposal e si st2)) (\<lambda>(st3, own).
              bind_h (f e SimpleHotStuff own st3) (\<lambda>st4. ret (cast_vote e b st4))))) ?K ?K"
  proof (cases o2)
    case None
    then show ?thesis using x2 cast [OF votes_post_frame [OF s2 S(2)]] by simp
  next
    case (Some si')
    then show ?thesis unfolding x2 si [OF Some] by (simp add: post_h_bind [of "loop_h _"] post_h_loop own)
  qed
qed (rule votes_post_frame [OF _ S(2)])

lemma votes_post_after_check:
  assumes s1: "rp_out s1 = rp_out st" and A: "A \<longleftrightarrow> B \<and> rinv S H i st \<and> proposals_in (sy_blocks S) st"
    and inv: "A \<Longrightarrow> rinv S H i s1 \<and> b_view (rp_lock st) \<le> b_view (rp_lock s1)" and v: "votes_post S H i A kind s1 s"
  shows "votes_post S H i B kind st s"
  unfolding votes_post_def
proof (intro conjI impI)
  show o: "set (rp_out st) \<subseteq> set (rp_out s)" using s1 v by (simp add: votes_post_def)
  assume a: "B \<and> rinv S H i st \<and> proposals_in (sy_blocks S) s"
  then have h: A using proposals_in_mono [OF _ o] A by blast
  obtain bs where "rinv S (map (Pair i) bs @ H) i s" "history_ok S (map (Pair i) bs @ H)" "\<forall>c \<in> set bs. kind c"
    "b_view (rp_lock s1) \<le> b_view (rp_lock s)"
    using v a inv [OF h] h unfolding votes_post_def by blast
  then show "\<exists>bs. rinv S (map (Pair i) bs @ H) i s \<and> history_ok S (map (Pair i) bs @ H) \<and> (\<forall>c \<in> set bs. kind c)
      \<and> b_view (rp_lock st) \<le> b_view (rp_lock s)"
    using inv [OF h] order_trans by blast
qed

lemma OnPropose_body:
  assumes S: "system_ok S" "history_ok S H0" "env_sound S H0 e i" "history_ok S H" "set H0 \<subseteq> set H"
    and IH: "handles_votes S H i f e"
  shows "post_h (bind_h (check_proposal e SimpleHotStuff pm st) (\<lambda>(st1, ok). if \<not> ok then ret st1 else vote_after f e (pm_Block pm) st1))
       (votes_post S H i (pm_Block pm \<in> sy_blocks S) (same_parent S (pm_Block pm)) st)
       (votes_post S H i (pm_Block pm \<in> sy_blocks S) (same_parent S (pm_Block pm)) st)"
    (is "post_h _ ?K ?K")
  unfolding post_h_bind
proof -
  let ?b = "pm_Block pm"
  define A where "A \<longleftrightarrow> ?b \<in> sy_blocks S \<and> rinv S H i st \<and> proposals_in (sy_blocks S) st"
  have u: "universe_ok S" and f: "feeds (sy_blocks S) e" and agg: "\<not> he_useAggQC e" using S(1,3) by (simp_all add: system_ok_def env_sound_def)
  let ?inv = "\<lambda>s. A \<longrightarrow> rinv S H i s \<and> b_view (rp_lock st) \<le> b_view (rp_lock s)"
  have chk: "post_h (check_proposal e SimpleHotStuff pm st) ?inv (\<lambda>(s, ok). ?inv s \<and> (ok \<longrightarrow> A \<longrightarrow> ready S H i ?b s))"
  proof (cases A)
    case True
    then show ?thesis by (intro post_h_mono [OF check_proposal_post [OF S, of st pm]]) (auto simp: A_def)
  next
    case False
    then show ?thesis by (intro post_h_mono [OF check_proposal_out [OF agg, of pm st]]) auto
  qed
  show "post_h (check_proposal e SimpleHotStuff pm st) ?K (\<lambda>x. post_h (case x of (st1, ok) \<Rightarrow> if \<not> ok then ret st1 else vote_after f e ?b st1) ?K ?K)"
  proof (rule post_h_mono [OF post_h_conj [OF check_proposal_out [OF agg] chk]])
    fix s assume "rp_out s = rp_out st \<and> ?inv s"
    then show "?K s" using votes_post_after_check [OF _ A_def] votes_post_frame [OF frame_refl S(4)] by blast
  next
    fix x assume "(case x of (s, ok) \<Rightarrow> rp_out s = rp_out st) \<and> (case x of (s, ok) \<Rightarrow> ?inv s \<and> (ok \<longrightarrow> A \<longrightarrow> ready S H i ?b s))"
    then obtain s ok where xs: "x = (s, ok)" "rp_out s = rp_out st" "?inv s" "ok \<longrightarrow> A \<longrightarrow> ready S H i ?b s" by (cases x) auto
    have fin: "?K s'" if "votes_post S H i A (same_parent S ?b) s s'" for s'
      by (rule votes_post_after_check [OF xs(2) A_def _ that]) (use xs(3) in blast)
    show "post_h (case x of (st1, ok) \<Rightarrow> if \<not> ok then ret st1 else vote_after f e ?b st1) ?K ?K"
    proof (cases ok)
      case False
      then show ?thesis using xs(1) fin [OF votes_post_frame [OF frame_refl S(4)]] by simp
    next
      case True
      then have "A \<Longrightarrow> ready S H i ?b s \<and> ?b \<in> sy_blocks S" using xs(4) A_def by blast
      from post_h_mono [OF vote_after_votes [OF u S(4) f agg IH this] fin fin] show ?thesis using xs(1) True by simp
    qed
  qed
qed

lemma OnPropose_votes:
  assumes S: "system_ok S" "history_ok S H0" "env_sound S H0 e i" "history_ok S H" "set H0 \<subseteq> set H"
  shows "handles_votes S H i OnPropose e"
  unfolding handles_votes_def
proof (intro allI)
  fix pm st
  let ?K = "\<lambda>pm st. votes_post S H i (pm_Block pm \<in> sy_blocks S) (same_parent S (pm_Block pm)) st"
  show "post_h (OnPropose e SimpleHotStuff pm st) (?K pm st) (?K pm st)"
  proof (cases "OnPropose e SimpleHotStuff pm st")
    case (Some r)
    show ?thesis
      unfolding Some
    proof (rule OnPropose.raw_induct [where P = "\<lambda>e' R pm st r. e' = e \<and> R = SimpleHotStuff \<longrightarrow> post_h (Some r) (?K pm st) (?K pm st)",
          OF _ Some, THEN mp], goal_cases)
      case (1 f e' R pm st r)
      show ?case
      proof (intro impI, elim conjE)
        assume e: "e' = e" "R = SimpleHotStuff"
        have "post_h (f e SimpleHotStuff pm st) (?K pm st) (?K pm st)" for pm st
          using 1(1) by (cases "f e SimpleHotStuff pm st") simp_all
        then have "handles_votes S H i f e" by (simp add: handles_votes_def)
        from OnPropose_body [OF S this, of pm st] show "post_h (Some r) (?K pm st) (?K pm st)"
          using 1(2) unfolding e vote_after_def by simp
      qed
    qed simp
  qed simp
qed

section \<open>Every handler extends the history\<close>

definition steps :: "hs_system \<Rightarrow> (ID \<times> Block) list \<Rightarrow> ID \<Rightarrow> replica \<Rightarrow> replica \<Rightarrow> bool" where
  "steps S H0 i st s \<longleftrightarrow> set (rp_out st) \<subseteq> set (rp_out s)
     \<and> (\<forall>H. history_ok S H \<and> set H0 \<subseteq> set H \<and> rinv S H i st \<and> proposals_in (sy_blocks S) s
          \<longrightarrow> (\<exists>bs. rinv S (map (Pair i) bs @ H) i s \<and> history_ok S (map (Pair i) bs @ H)))"

lemma steps_votes:
  assumes "\<And>H. history_ok S H \<Longrightarrow> set H0 \<subseteq> set H \<Longrightarrow> votes_post S H i True kind st s" "history_ok S H0"
  shows "steps S H0 i st s"
  unfolding steps_def
proof (intro conjI allI impI)
  show "set (rp_out st) \<subseteq> set (rp_out s)" using assms(1) [OF assms(2)] by (simp add: votes_post_def)
  fix H assume h: "history_ok S H \<and> set H0 \<subseteq> set H \<and> rinv S H i st \<and> proposals_in (sy_blocks S) s"
  then have "votes_post S H i True kind st s" using assms(1) by blast
  then show "\<exists>bs. rinv S (map (Pair i) bs @ H) i s \<and> history_ok S (map (Pair i) bs @ H)"
    using h unfolding votes_post_def by blast
qed

lemma steps_frame: "frame (sy_blocks S) st s \<Longrightarrow> history_ok S H0 \<Longrightarrow> steps S H0 i st s"
  by (rule steps_votes [where kind = "\<lambda>b. True"]) (rule votes_post_frame)

lemma steps_trans:
  assumes "steps S H0 i st s1" "steps S H0 i s1 s"
  shows "steps S H0 i st s"
  unfolding steps_def
proof (intro conjI allI impI)
  have o: "set (rp_out st) \<subseteq> set (rp_out s1)" "set (rp_out s1) \<subseteq> set (rp_out s)" using assms by (simp_all add: steps_def)
  then show "set (rp_out st) \<subseteq> set (rp_out s)" by blast
  fix H assume h: "history_ok S H \<and> set H0 \<subseteq> set H \<and> rinv S H i st \<and> proposals_in (sy_blocks S) s"
  have p: "proposals_in (sy_blocks S) s1" using proposals_in_mono [OF _ o(2)] h by blast
  obtain bs where bs: "rinv S (map (Pair i) bs @ H) i s1" "history_ok S (map (Pair i) bs @ H)"
    using assms(1) h p unfolding steps_def by blast
  have "set H0 \<subseteq> set (map (Pair i) bs @ H)" using h by auto
  then obtain cs where "rinv S (map (Pair i) cs @ map (Pair i) bs @ H) i s" "history_ok S (map (Pair i) cs @ map (Pair i) bs @ H)"
    using assms(2) bs h unfolding steps_def by blast
  then show "\<exists>bs. rinv S (map (Pair i) bs @ H) i s \<and> history_ok S (map (Pair i) bs @ H)"
    by (intro exI [of _ "cs @ bs"]) simp
qed

lemma post_h_all:
  assumes "\<And>x. G x \<Longrightarrow> post_h m (E x) (Q x)"
  shows "post_h m (\<lambda>s. \<forall>x. G x \<longrightarrow> E x s) (\<lambda>r. \<forall>x. G x \<longrightarrow> Q x r)"
  using assms by (cases m; cases "the m") (auto simp: post_h_def)

lemma OnPropose_steps:
  assumes S: "system_ok S" "history_ok S H0" "env_sound S H0 e i"
    and own: "pm_Block pm \<in> sy_blocks S \<or> SendPropose pm \<in> set (rp_out st)"
  shows "post_h (OnPropose e SimpleHotStuff pm st) (steps S H0 i st) (steps S H0 i st)"
proof -
  let ?K = "\<lambda>H. votes_post S H i (pm_Block pm \<in> sy_blocks S) (same_parent S (pm_Block pm)) st"
  have v: "votes_post S H i True (same_parent S (pm_Block pm)) st s" if "?K H s" for H s
    using own votes_post_own [OF _ that] that by auto
  have all: "post_h (OnPropose e SimpleHotStuff pm st) (\<lambda>s. \<forall>H. history_ok S H \<and> set H0 \<subseteq> set H \<longrightarrow> ?K H s)
      (\<lambda>s. \<forall>H. history_ok S H \<and> set H0 \<subseteq> set H \<longrightarrow> ?K H s)"
    using OnPropose_votes [OF S] unfolding handles_votes_def by (intro post_h_all) blast
  have "steps S H0 i st s" if "\<forall>H. history_ok S H \<and> set H0 \<subseteq> set H \<longrightarrow> ?K H s" for s
    by (rule steps_votes [OF _ S(2)]) (use that v in blast)
  from post_h_mono [OF all this this] show ?thesis .
qed

lemma post_h_steps:
  assumes "steps S H0 i st s1" "post_h m (steps S H0 i s1) (steps S H0 i s1)"
  shows "post_h m (steps S H0 i st) (steps S H0 i st)"
  by (rule post_h_mono [OF assms(2)]) (rule steps_trans [OF assms(1)], assumption)+

lemma AdvanceView_steps:
  assumes S: "system_ok S" "history_ok S H0" "env_sound S H0 e i"
  shows "post_h (AdvanceView e SimpleHotStuff si st) (steps S H0 i st) (steps S H0 i st)"
  unfolding AdvanceView_def post_h_bind
proof (rule post_h_mono [OF advance_frame])
  have u: "universe_ok S" and f: "feeds (sy_blocks S) e" and agg: "\<not> he_useAggQC e" using S(1,3) by (simp_all add: system_ok_def env_sound_def)
  show "feeds (sy_blocks S) e" "\<not> he_useAggQC e" by fact+
  fix x assume "case x of (s, r) \<Rightarrow> frame (sy_blocks S) st s \<and> (\<forall>si'. r = Some si' \<longrightarrow> si' = si)"
  then obtain s r where x: "x = (s, r)" "steps S H0 i st s" by (cases x) (auto intro: steps_frame [OF _ S(2)])
  have "post_h (Propose e SimpleHotStuff si' s) (steps S H0 i s) (steps S H0 i s)" for si'
    unfolding Propose_def post_h_bind post_h_loop
  proof (intro allI impI; clarify)
    fix s1 own assume b: "build_proposal e si' s = Some (s1, own)"
    note p = build_proposal_frame [OF u f b]
    from post_h_steps [OF steps_frame [OF p(1) S(2)] OnPropose_steps [OF S disjI2 [OF p(2)]]]
    show "post_h (OnPropose e SimpleHotStuff own s1) (steps S H0 i s) (steps S H0 i s)" .
  qed
  from post_h_steps [OF x(2) this]
  show "post_h (case x of (st1, r) \<Rightarrow> case r of None \<Rightarrow> ret st1 | Some si' \<Rightarrow> Propose e SimpleHotStuff si' st1) (steps S H0 i st) (steps S H0 i st)"
    using x by (simp split: option.split)
qed (rule steps_frame [OF _ S(2)])

lemma forget_timeouts_frame: "frame U st (forget_timeouts v st)"
  and record_timeout_frame: "record_timeout t st = (st', m) \<Longrightarrow> frame U st st'"
  and forget_votes_frame: "frame U st (forget_votes st)"
  by (auto simp: forget_timeouts_def record_timeout_def forget_votes_def Let_def intro!: frame_same)

lemma OnRemoteTimeout_steps:
  assumes S: "system_ok S" "history_ok S H0" "env_sound S H0 e i"
  shows "post_h (OnRemoteTimeout e SimpleHotStuff t st) (steps S H0 i st) (steps S H0 i st)"
proof -
  let ?K = "steps S H0 i st" and ?cv = "rp_currentView st"
  have agg: "\<not> he_useAggQC e" using S(3) by (simp add: env_sound_def)
  have fin: "?K (forget_timeouts v s)" if "?K s" for v s
    using steps_trans [OF that steps_frame [OF forget_timeouts_frame S(2)]] .
  have adv: "post_h (bind_h (AdvanceView e SimpleHotStuff si s) (\<lambda>st3. ret (forget_timeouts ?cv st3))) ?K ?K" if "?K s" for si s
    unfolding post_h_bind by (rule post_h_mono [OF post_h_steps [OF that AdvanceView_steps [OF S]]]) (assumption, unfold post_h_ret, erule fin)
  have after: "post_h (let (st2, timeouts) = record_timeout t s
              in if int (length timeouts) < cfg_QuorumSize (he_crypto e) then ret (forget_timeouts ?cv st2)
                 else case CreateTimeoutCert (tm_View t) (map snd timeouts) of
                        Panic \<Rightarrow> Some (Error st2)
                      | Error _ \<Rightarrow> ret (forget_timeouts ?cv st2)
                      | Return tc \<Rightarrow>
                          bind_h (timeout_SyncInfo e ?cv tc (map snd timeouts) st2) (\<lambda>si.
                          bind_h (AdvanceView e SimpleHotStuff si (st2\<lparr>rp_timeouts := gm_del (tm_View t) (rp_timeouts st2)\<rparr>)) (\<lambda>st3.
                          ret (forget_timeouts ?cv st3)))) ?K ?K" if s: "?K s" for s
  proof -
    obtain s2 m where r: "record_timeout t s = (s2, m)" by force
    have k2: "?K s2" using steps_trans [OF s steps_frame [OF record_timeout_frame [OF r] S(2)]] .
    have "frame (sy_blocks S) s2 (s2\<lparr>rp_timeouts := gm_del (tm_View t) (rp_timeouts s2)\<rparr>)" by (simp add: frame_same)
    then have k3: "?K (s2\<lparr>rp_timeouts := gm_del (tm_View t) (rp_timeouts s2)\<rparr>)" using steps_trans [OF k2 steps_frame [OF _ S(2)]] by blast
    show ?thesis
      using agg by (simp add: r timeout_SyncInfo_def fin [OF k2] k2 adv [OF k3] split: outcome.split)
  qed
  show ?thesis
    unfolding OnRemoteTimeout_def Let_def post_h_bind [of "crash_h _ _"] post_h_crash
  proof (cases "Verify (he_crypto e) (tm_ViewSignature t) (view_ToBytes (tm_View t))", goal_cases)
    case (1 ok)
    have "?K st" by (rule steps_frame [OF frame_refl S(2)])
    then show ?case
      using 1 fin post_h_mono [OF AdvanceView_steps [OF S, of "tm_SyncInfo t" st]] after [unfolded Let_def]
      by (auto simp: post_h_bind [of "AdvanceView _ _ _ _"])
  qed (simp_all add: steps_frame [OF frame_refl S(2)])
qed

lemma sign_timeout_frame:
  assumes "sign_timeout e st = (st', r)" "\<not> he_useAggQC e"
  shows "frame U st st'"
proof -
  obtain s o1 where s: "sign_item e (SignedView (rp_currentView st)) (view_ToBytes (rp_currentView st)) st = (s, o1)" by force
  then have "st' = s" using assms by (auto simp: sign_timeout_def Let_def split: option.splits)
  then show ?thesis using s by (auto simp: sign_item_def Let_def frame_def stores_def split: outcome.splits)
qed

lemma OnLocalTimeout_steps:
  assumes S: "system_ok S" "history_ok S H0" "env_sound S H0 e i"
  shows "post_h (OnLocalTimeout e SimpleHotStuff st) (steps S H0 i st) (steps S H0 i st)"
proof -
  let ?U = "sy_blocks S" and ?st1 = "st\<lparr>rp_isTimeout := True\<rparr>"
  have agg: "\<not> he_useAggQC e" using S(3) by (simp add: env_sound_def)
  have f1: "frame ?U st ?st1" by (simp add: frame_same)
  have f2: "frame ?U st (emit (SendTimeout t) ?st1)" for t by (rule frame_same) (auto simp: emit_def)
  obtain st2 r where r: "sign_timeout e ?st1 = (st2, r)" by force
  have k2: "frame ?U st st2" using frame_trans [OF f1 sign_timeout_frame [OF r agg]] .
  have "frame ?U st2 (emit (SendTimeout t) (StopVoting v (st2\<lparr>rp_lastTimeout := l\<rparr>)))" for t v l
    by (rule frame_same) (auto simp: emit_def StopVoting_def)
  then have k3: "frame ?U st (emit (SendTimeout t) (StopVoting v (st2\<lparr>rp_lastTimeout := l\<rparr>)))" for t v l
    using frame_trans [OF k2] by blast
  have rt: "post_h (OnRemoteTimeout e SimpleHotStuff t (emit (SendTimeout t) (StopVoting v (st2\<lparr>rp_lastTimeout := l\<rparr>))))
      (steps S H0 i st) (steps S H0 i st)" for t v l
    by (rule post_h_steps [OF steps_frame [OF k3 S(2)] OnRemoteTimeout_steps [OF S]])
  show ?thesis
    unfolding OnLocalTimeout_def Let_def r
    by (auto simp: steps_frame [OF f2 S(2)] steps_frame [OF k2 S(2)] rt split: option.splits bool.splits)
qed

lemma OnVote_frame:
  assumes "feeds U e" "OnVote e v st = (st', r)"
  shows "frame U st st'"
proof -
  obtain s b where g: "rp_get e (pc_blockHash (vm_PartialCert v)) st = (s, b)" by force
  have "frame U st (emit (DelayVote w) st)" for w by (rule frame_same) (auto simp: emit_def)
  then show ?thesis using assms(2) g rp_get_frame(1) [OF g assms(1)] by (auto simp: OnVote_def Let_def split: if_splits option.splits)
qed

lemma verifyCert_frame:
  assumes "feeds U e"
  shows "post_h (verifyCert e cert block st) (frame U st) (frame U st)"
proof -
  have chain: "frame U st (st\<lparr>rp_chain := chain\<rparr>)"
    if "VerifyPartialCert (he_crypto e) (he_fetch e) cert (rp_chain st) = Return (chain, ok)" for chain ok
  proof (rule chain_frame [OF _ assms])
    show "chain = rp_chain st \<or> (\<exists>r. Get (he_fetch e) (pc_blockHash cert) (rp_chain st) = (chain, r))"
      using that by (auto simp: VerifyPartialCert_def bind_o_Return_iff split: prod.splits option.splits)
  qed
  have add: "frame U s s2" if "add_verified cert s = (s2, votes)" for s s2 votes
    using that by (auto simp: add_verified_def Let_def intro!: frame_same)
  have out: "frame U s (emit x (s\<lparr>rp_verifiedVotes := vs\<rparr>))" for s x vs
    by (rule frame_same) (auto simp: emit_def)
  show ?thesis
    unfolding verifyCert_def post_h_bind post_h_crash
    by (auto split: outcome.splits intro!: frame_trans [OF _ forget_votes_frame] frame_trans [OF frame_trans [OF chain add]] out chain
        intro: frame_trans [OF chain add] simp: Let_def split: prod.splits)
qed

section \<open>Runs\<close>

datatype hs_message =
    MPropose ProposeMsg
  | MVote VoteMsg
  | MVerified PartialCert Block
  | MNewView SyncInfo
  | MTimeout TimeoutMsg
  | MLocalTimeout
  | MCommand clientCommand

fun handle :: "hs_env \<Rightarrow> rules \<Rightarrow> hs_message \<Rightarrow> replica \<Rightarrow> replica handler_result" where
  "handle e R (MPropose pm) st = OnPropose e R pm st"
| "handle e R (MVote v) st = ret (fst (OnVote e v st))"
| "handle e R (MVerified cert block) st = verifyCert e cert block st"
| "handle e R (MNewView si) st = OnNewView e R si st"
| "handle e R (MTimeout t) st = OnRemoteTimeout e R t st"
| "handle e R MLocalTimeout st = OnLocalTimeout e R st"
| "handle e R (MCommand c) st = ret (st\<lparr>rp_cmds := addCommand c (rp_cmds st)\<rparr>)"

lemma handle_steps:
  assumes S: "system_ok S" "history_ok S H" "env_sound S H e i" and m: "\<And>pm. m = MPropose pm \<Longrightarrow> pm_Block pm \<in> sy_blocks S"
  shows "post_h (handle e SimpleHotStuff m st) (steps S H i st) (steps S H i st)"
proof -
  have f: "feeds (sy_blocks S) e" using S(3) by (simp add: env_sound_def)
  note k = steps_frame [OF _ S(2)]
  show ?thesis
  proof (cases m)
    case (MVote v)
    then show ?thesis using OnVote_frame [OF f, of v st] k by (cases "OnVote e v st") simp
  next
    case (MVerified cert block)
    then show ?thesis using post_h_mono [OF verifyCert_frame [OF f] k k] by simp
  next
    case (MCommand c)
    have "frame (sy_blocks S) st (st\<lparr>rp_cmds := addCommand c (rp_cmds st)\<rparr>)" by (simp add: frame_same)
    then show ?thesis using MCommand k by simp
  qed (use m OnPropose_steps [OF S disjI1] AdvanceView_steps [OF S] OnRemoteTimeout_steps [OF S] OnLocalTimeout_steps [OF S] in \<open>simp_all add: OnNewView_def\<close>)
qed

fun item_bytes :: "signed_item \<Rightarrow> bytes" where
  "item_bytes (SignedBlock b) = block_ToBytes b"
| "item_bytes (SignedView v) = view_ToBytes v"
| "item_bytes (SignedTimeout m) = timeout_ToBytes m"

definition fetches_voted :: "hs_system \<Rightarrow> (ID \<Rightarrow> replica) \<Rightarrow> hs_env \<Rightarrow> bool" where
  \<comment> \<open>every attempt to fetch a block that an honest replica voted for succeeds\<close>
  "fetches_voted S w e \<longleftrightarrow>
     (\<forall>j \<in> sy_honest S. \<forall>c n. SignedBlock c \<in> set (rp_signed (w j)) \<longrightarrow> he_fetch e n (b_hash c) = Some c)"

definition env_ok :: "hs_system \<Rightarrow> (ID \<Rightarrow> replica) \<Rightarrow> hs_env \<Rightarrow> ID \<Rightarrow> bool" where
  \<comment> \<open>the surroundings of replica \<open>i\<close> while it handles a message\<close>
  "env_ok S w e i \<longleftrightarrow> he_sha e = sy_sha S \<and> cf_replicas (he_crypto e) = sy_replicas S \<and> he_self e = i
     \<and> \<not> he_useAggQC e \<and> feeds (sy_blocks S) e
     \<and> (\<forall>j \<in> sy_honest S. \<forall>h rs. cf_verify (he_crypto e) j h rs \<longrightarrow> (\<exists>x \<in> set (rp_signed (w j)). h = sy_sha S (item_bytes x)))
     \<and> fetches_voted S w e"

inductive hs_run :: "hs_system \<Rightarrow> (ID \<Rightarrow> replica) \<Rightarrow> bool" for S where
  start: "hs_run S (\<lambda>i. new_replica (sy_sha S) (batch i))"
| step: "hs_run S w \<Longrightarrow> i \<in> sy_honest S \<Longrightarrow> env_ok S w e i \<Longrightarrow> (\<And>pm. m = MPropose pm \<Longrightarrow> pm_Block pm \<in> sy_blocks S)
    \<Longrightarrow> handle e SimpleHotStuff m (w i) \<in> {Some (Return st'), Some (Error st')} \<Longrightarrow> proposals_in (sy_blocks S) st'
    \<Longrightarrow> hs_run S (w(i := st'))"

definition winv :: "hs_system \<Rightarrow> (ID \<times> Block) list \<Rightarrow> (ID \<Rightarrow> replica) \<Rightarrow> bool" where
  "winv S H w \<longleftrightarrow> history_ok S H \<and> fst ` set H \<subseteq> sy_honest S \<and> (\<forall>i \<in> sy_honest S. rinv S H i (w i))"

lemma winv_start: "winv S [] (\<lambda>i. new_replica (sy_sha S) (batch i))" if "system_ok S"
proof -
  have "sy_gen S \<in> sy_blocks S" using that by (simp add: system_ok_def universe_ok_def)
  then have "chain_in S (new_replica (sy_sha S) n)" for n
    by (auto simp: chain_in_def store_in_def new_replica_def NewBlockChain_def Store_def gm_get_def)
  moreover have "path (protocol_of S) [] (sy_gen S)" using path_gen [of "protocol_of S"] by simp
  ultimately show ?thesis by (auto simp: winv_def history_ok_def rinv_def new_replica_def)
qed

lemma env_sound_of:
  assumes S: "system_ok S" and w: "winv S H w" and e: "env_ok S w e i"
  shows "env_sound S H e i"
  unfolding env_sound_def
proof (intro conjI ballI allI impI)
  show "he_sha e = sy_sha S" "cf_replicas (he_crypto e) = sy_replicas S" "he_self e = i" "\<not> he_useAggQC e" "feeds (sy_blocks S) e"
    using e by (simp_all add: env_ok_def)
  show "he_fetch e n (b_hash c) = Some c" if "(j, c) \<in> set H" for j c n
  proof -
    have "j \<in> sy_honest S" using w that unfolding winv_def by force
    moreover then have "SignedBlock c \<in> set (rp_signed (w j))" using w that by (auto simp: winv_def rinv_def)
    ultimately show ?thesis using e unfolding env_ok_def fetches_voted_def by blast
  qed
  fix j h rs assume j: "j \<in> sy_honest S" and v: "cf_verify (he_crypto e) j h rs"
  then obtain x where x: "x \<in> set (rp_signed (w j))" "h = sy_sha S (item_bytes x)" using e unfolding env_ok_def by blast
  have r: "rinv S H j (w j)" using w j by (simp add: winv_def)
  show "(\<exists>c. (j, c) \<in> set H \<and> h = b_hash c) \<or> (\<exists>v. h = sy_sha S (view_ToBytes v))"
  proof (cases x)
    case (SignedBlock c)
    then have c: "(j, c) \<in> set H" using r x(1) by (simp add: rinv_def)
    then have "block_ok (sy_sha S) c" using w S unfolding winv_def history_ok_def system_ok_def universe_ok_def by blast
    then show ?thesis using c x(2) SignedBlock by (auto simp: block_ok_def)
  qed (use r x in \<open>auto simp: rinv_def\<close>)
qed

lemma rinv_others:
  assumes "rinv S H j st" "j \<noteq> i"
  shows "rinv S (map (Pair i) bs @ H) j st"
proof -
  have v: "(j, b) \<in> set (map (Pair i) bs @ H) \<longleftrightarrow> (j, b) \<in> set H" for b using assms(2) by auto
  show ?thesis
    using assms(1) decided_set [of "protocol_of S" H "rp_bExec st" "map (Pair i) bs @ H"] unfolding rinv_def v by auto
qed

lemma winv_step:
  assumes S: "system_ok S" and w: "winv S H w" and i: "i \<in> sy_honest S" "env_ok S w e i"
    and m: "\<And>pm. m = MPropose pm \<Longrightarrow> pm_Block pm \<in> sy_blocks S"
    and h: "handle e SimpleHotStuff m (w i) \<in> {Some (Return st'), Some (Error st')}" and p: "proposals_in (sy_blocks S) st'"
  shows "\<exists>H'. winv S H' (w(i := st'))"
proof -
  have H: "history_ok S H" "rinv S H i (w i)" using w i(1) by (simp_all add: winv_def)
  have "steps S H i (w i) st'"
    using handle_steps [OF S H(1) env_sound_of [OF S w i(2)], of m "w i"] m h by auto
  then obtain bs where "rinv S (map (Pair i) bs @ H) i st'" "history_ok S (map (Pair i) bs @ H)"
    using H p unfolding steps_def by blast
  then have "winv S (map (Pair i) bs @ H) (w(i := st'))"
    using w i(1) rinv_others [of S H] by (auto simp: winv_def)
  then show ?thesis ..
qed

lemma run_winv: "hs_run S w \<Longrightarrow> system_ok S \<Longrightarrow> \<exists>H. winv S H w"
proof (induction rule: hs_run.induct)
  case (start batch)
  then show ?case using winv_start by blast
next
  case (step w i e m st')
  then show ?case using winv_step [of S _ w i e m st'] by blast
qed

lemma executed_prefix:
  assumes H: "history_ok S H" "linked S" and i: "rinv S H i st" and j: "rinv S H j st'" and a: "anc (protocol_of S) (rp_bExec st') (rp_bExec st)"
  shows "prefix (rp_executed st) (rp_executed st')"
  using anc_prefix [OF a, of "rp_executed st'" "rp_executed st"] H(2) i j by (simp add: rinv_def)

text \<open>
  C2: SimpleHotStuff agrees.  In every reachable state of the system, with at most a third of the
  replicas faulty, the last block executed by one honest replica is, over the certificates of blocks,
  an ancestor of the last block executed by any other honest replica, or the other way round.  Faulty
  replicas propose and vote as they like; the messages that reach a replica, their order and the
  times of its timeouts are arbitrary.  If moreover the parent of every block of the system is the
  block of its certificate, which restricts also the proposals of faulty replicas and which no code
  checks, then the blocks executed by one honest replica are a prefix of those executed by the other,
  or the other way round.  Both parts assume that different blocks have different hashes, that
  signatures are not forged and are verified without the signature cache, that aggregate certificates
  are off, and that every fetch of a block that an honest replica voted for succeeds.
\<close>

theorem simple_hotstuff_agrees:
  assumes S: "system_ok S" and run: "hs_run S w" and ij: "i \<in> sy_honest S" "j \<in> sy_honest S"
  shows "(anc (protocol_of S) (rp_bExec (w i)) (rp_bExec (w j)) \<or> anc (protocol_of S) (rp_bExec (w j)) (rp_bExec (w i)))
    \<and> (linked S \<longrightarrow> prefix (rp_executed (w i)) (rp_executed (w j)) \<or> prefix (rp_executed (w j)) (rp_executed (w i)))"
proof -
  obtain H where "winv S H w" using run_winv [OF run S] by blast
  then have H: "history_ok S H" and r: "rinv S H i (w i)" "rinv S H j (w j)" using ij by (simp_all add: winv_def)
  have h: "hist (protocol_of S) H" using H by (simp add: history_ok_def)
  have gen: "anc (protocol_of S) b (sy_gen S)" if "b = sy_gen S \<or> decided (protocol_of S) H b" for b
    using that certified_anc_gen [OF S H] simple.decided_certified [OF h] by (auto simp: anc_refl)
  have a: "anc (protocol_of S) (rp_bExec (w i)) (rp_bExec (w j)) \<or> anc (protocol_of S) (rp_bExec (w j)) (rp_bExec (w i))"
    using r simple.agreement [OF h] gen unfolding rinv_def by metis
  then show ?thesis using executed_prefix [OF H] r by blast
qed

section \<open>A run that executes a block\<close>

text \<open>
  Four replicas, the last one faulty and the leader of every view; replicas 1 and 2 handle the
  proposals of a chain of four blocks in turn.  The hash of a block is one more than its view.
\<close>

definition run_sha :: "bytes \<Rightarrow> bytes" where
  "run_sha m = (if length m \<le> 36 then [] else (m ! 36 + 1) # replicate 31 0)"

definition run_block :: "8 word \<Rightarrow> ID list \<Rightarrow> Block" where
  "run_block v signers =
     \<lparr>b_hash = (v + 1) # replicate 31 0, b_parent = v # replicate 31 0, b_proposer = 4, b_cmd = [],
      b_cert = \<lparr>qc_signature = Some (map (\<lambda>i. (i, (1, 1))) signers), qc_view = ucast (v - 1), qc_hash = v # replicate 31 0\<rparr>,
      b_view = ucast v\<rparr>"

definition run_blocks :: "Block list" where
  "run_blocks = run_block 1 [] # map (\<lambda>v. run_block v [1, 2, 4]) [2, 3, 4]"

definition run_replies :: "Hash \<Rightarrow> pb_Block list" where
  "run_replies h = map BlockToProto (filter (\<lambda>b. b_hash b = h) run_blocks)"

definition run_env :: "ID \<Rightarrow> nat \<Rightarrow> hs_env" where
  "run_env self k =
     \<lparr>he_crypto = \<lparr>cf_sha = run_sha, cf_verify = (\<lambda>i h rs. i = 4 \<or> (i = 1 \<or> i = 2) \<and> list_ex (\<lambda>b. b_hash b = h) (take k run_blocks)),
                   cf_sign = (\<lambda>k h. Some (1, 1)), cf_replicas = [1, 2, 3, 4], cf_self = self\<rparr>,
      he_replies = (\<lambda>k. run_replies), he_leader = (\<lambda>chain b v. 4), he_useAggQC = False,
      he_marshal = (\<lambda>b. Some []), he_unmarshal = (\<lambda>c. Some []), he_arrivals = []\<rparr>"

definition run_proposal :: "nat \<Rightarrow> ProposeMsg" where
  "run_proposal k = \<lparr>pm_ID = 4, pm_Block = run_blocks ! k, pm_AggregateQC = None\<rparr>"

fun run_state :: "ID \<Rightarrow> nat \<Rightarrow> replica handler_result" where
  "run_state i 0 = ret (new_replica run_sha 1)"
| "run_state i (Suc k) = bind_h (run_state i k) (handle (run_env i k) SimpleHotStuff (MPropose (run_proposal k)))"

definition run_summary :: "replica handler_result \<Rightarrow> (signed_item list \<times> Block list \<times> bool) option" where
  "run_summary r = (case r of
     Some (Return st) \<Rightarrow> Some (rp_signed st, rp_executed st, list_ex (\<lambda>x. case x of SendPropose _ \<Rightarrow> True | _ \<Rightarrow> False) (rp_out st))
   | _ \<Rightarrow> None)"

fun run_scan :: "ID \<Rightarrow> nat list \<Rightarrow> replica handler_result \<Rightarrow> (signed_item list \<times> Block list \<times> bool) option list" where
  "run_scan i [] r = []"
| "run_scan i (k # ks) r =
     (let r' = bind_h r (handle (run_env i k) SimpleHotStuff (MPropose (run_proposal k))) in run_summary r' # run_scan i ks r')"

definition run_system :: hs_system where
  "run_system = \<lparr>sy_sha = run_sha, sy_replicas = [1, 2, 3, 4], sy_honest = {1, 2, 3}, sy_blocks = set (GetGenesis run_sha # run_blocks)\<rparr>"

lemma run_scan_eval:
  "run_scan 1 [0, 1, 2, 3] (run_state 1 0) = map (\<lambda>k. Some (map SignedBlock (rev (take k run_blocks)), if k = 4 then [run_blocks ! 0] else [], False)) [1, 2, 3, 4]"
  "run_scan 2 [0, 1, 2] (run_state 2 0) = map (\<lambda>k. Some (map SignedBlock (rev (take k run_blocks)), [], False)) [1, 2, 3]"
  by code_simp+

lemma run_blocks_ok:
  "list_all (\<lambda>b. block_ok run_sha b \<and> (case qc_signature (b_cert b) of Some s \<Rightarrow> gm_wf s | None \<Rightarrow> True)
      \<and> (b_view b \<noteq> 0 \<longrightarrow> b_parent b = qc_hash (b_cert b)) \<and> b_hash b \<noteq> [] \<and> b_hash b \<noteq> zero_hash) (GetGenesis run_sha # run_blocks)"
  "distinct (map b_hash (GetGenesis run_sha # run_blocks))"
  "list_all (\<lambda>b. BlockFromProto run_sha (BlockToProto b) = b \<and> b_view b \<noteq> 0) run_blocks"
  by code_simp+

lemma run_scan_states: "run_scan i [k..<k + n] (run_state i k) = map (\<lambda>k. run_summary (run_state i (Suc k))) [k..<k + n]"
proof (induction n arbitrary: k)
  case (Suc n)
  have "[k..<k + Suc n] = k # [Suc k..<Suc k + n]" by (simp add: upt_rec)
  then show ?case using Suc [of "Suc k"] by simp
qed simp

definition run_at :: "ID \<Rightarrow> nat \<Rightarrow> replica" where
  "run_at i k = (case run_state i k of Some (Return st) \<Rightarrow> st | _ \<Rightarrow> new_replica run_sha 1)"

definition in_run :: "ID \<Rightarrow> nat \<Rightarrow> bool" where
  "in_run i k \<longleftrightarrow> i = 1 \<and> k \<le> 4 \<or> i = 2 \<and> k \<le> 3"

lemma run_state_summary:
  assumes "in_run i (Suc k)"
  shows "\<exists>ex. run_summary (run_state i (Suc k)) = Some (map SignedBlock (rev (take (Suc k) run_blocks)), ex, False)
     \<and> (ex = (if Suc k = 4 then [run_blocks ! 0] else []))"
proof -
  have u: "[0::nat..<0 + 4] = [0, 1, 2, 3]" "[0::nat..<0 + 3] = [0, 1, 2]" by (simp_all add: upt_rec)
  have ev: "map (\<lambda>k. run_summary (run_state 1 (Suc k))) [0, 1, 2, 3]
      = map (\<lambda>k. Some (map SignedBlock (rev (take k run_blocks)), if k = 4 then [run_blocks ! 0] else [], False)) [1, 2, 3, 4]"
    "map (\<lambda>k. run_summary (run_state 2 (Suc k))) [0, 1, 2] = map (\<lambda>k. Some (map SignedBlock (rev (take k run_blocks)), [], False)) [1, 2, 3]"
    using run_scan_eval run_scan_states [of 1 0 4] run_scan_states [of 2 0 3] unfolding u by (simp_all only:)
  consider "i = 1" "k = 0" | "i = 1" "k = 1" | "i = 1" "k = 2" | "i = 1" "k = 3" | "i = 2" "k = 0" | "i = 2" "k = 1" | "i = 2" "k = 2"
    using assms by (auto simp: in_run_def le_Suc_eq numeral_eq_Suc)
  then show ?thesis by cases (use ev in \<open>simp_all del: run_state.simps take_Suc_Cons add: numeral_eq_Suc\<close>)
qed

lemma run_at:
  assumes "in_run i k"
  shows "run_state i k = ret (run_at i k) \<and> rp_signed (run_at i k) = map SignedBlock (rev (take k run_blocks))
     \<and> rp_executed (run_at i k) = (if k = 4 then [run_blocks ! 0] else []) \<and> proposals_in U (run_at i k)"
proof (cases k)
  case 0
  then show ?thesis by (simp add: run_at_def ret_def new_replica_def proposals_in_def)
next
  case (Suc m)
  then obtain st where "run_state i k = Some (Return st)" "rp_signed st = map SignedBlock (rev (take k run_blocks))"
    "rp_executed st = (if k = 4 then [run_blocks ! 0] else [])"
    "\<not> list_ex (\<lambda>x. case x of SendPropose _ \<Rightarrow> True | _ \<Rightarrow> False) (rp_out st)"
    using run_state_summary [of i m] assms unfolding run_summary_def by (auto split: option.splits outcome.splits)
  then show ?thesis by (auto simp: run_at_def ret_def proposals_in_def list_ex_iff)
qed

lemma run_universe: "system_ok run_system" "linked run_system"
proof -
  have "sy_gen run_system = GetGenesis run_sha" by (simp add: run_system_def)
  moreover have "inj_on b_hash (set (GetGenesis run_sha # run_blocks))" using run_blocks_ok(2) by (simp only: distinct_map)
  moreover have "run_sha (view_ToBytes v) = []" for v by (simp add: run_sha_def view_ToBytes_def)
  moreover have "b_view b \<noteq> 0" if "b \<in> set run_blocks" for b using run_blocks_ok(3) that by (auto simp: list_all_iff)
  ultimately have "universe_ok run_system" and l: "linked run_system"
    using run_blocks_ok(1) unfolding universe_ok_def linked_def run_system_def by (auto simp: list_all_iff)
  show "linked run_system" by (rule l)
  note \<open>universe_ok run_system\<close>
  moreover have "{1, 2, 3, 4} - {1, 2, 3} = {4 :: ID}" by auto
  ultimately show "system_ok run_system" by (simp add: system_ok_def run_system_def NumFaulty_def)
qed

lemma run_fetch: "c \<in> set run_blocks \<Longrightarrow> he_fetch (run_env i k) n (b_hash c) = Some c" "feeds (sy_blocks run_system) (run_env i k)"
proof -
  have rt: "BlockFromProto run_sha (BlockToProto b) = b" if "b \<in> set run_blocks" for b
    using run_blocks_ok(3) that by (auto simp: list_all_iff)
  then show "feeds (sy_blocks run_system) (run_env i k)"
    unfolding feeds_def by (auto simp: run_env_def run_replies_def run_system_def dest!: Fetch_in)
  have inj: "inj_on b_hash (set run_blocks)" using run_blocks_ok(2) by (simp add: distinct_map)
  assume c: "c \<in> set run_blocks"
  have "find (\<lambda>b. b_hash c = b_hash (BlockFromProto run_sha b)) (run_replies (b_hash c)) \<noteq> None"
    using c rt unfolding find_None_iff by (force simp: run_replies_def)
  then obtain p where p: "find (\<lambda>b. b_hash c = b_hash (BlockFromProto run_sha b)) (run_replies (b_hash c)) = Some p" by blast
  then have "p \<in> set (run_replies (b_hash c))" by (metis find_Some_iff nth_mem)
  then obtain d where "d \<in> set run_blocks" "b_hash d = b_hash c" "p = BlockToProto d" by (auto simp: run_replies_def)
  then show "he_fetch (run_env i k) n (b_hash c) = Some c"
    using p rt inj_onD [OF inj, of d c] c by (simp add: Fetch_def FetchQF_def run_env_def)
qed

definition run_world :: "nat \<Rightarrow> nat \<Rightarrow> ID \<Rightarrow> replica" where
  "run_world k1 k2 = (\<lambda>i. new_replica run_sha 1)(1 := run_at 1 k1, 2 := run_at 2 k2)"

lemma run_env_ok:
  assumes k: "in_run 1 k1" "in_run 2 k2" "k \<le> k1" "k \<le> k2"
  shows "env_ok run_system (run_world k1 k2) (run_env i k) i"
  unfolding env_ok_def
proof (intro conjI ballI allI impI)
  have s: "rp_signed (run_world k1 k2 j) = (if j = 1 then map SignedBlock (rev (take k1 run_blocks)) else if j = 2 then map SignedBlock (rev (take k2 run_blocks)) else [])"
    for j using run_at [OF k(1)] run_at [OF k(2)] by (simp add: run_world_def new_replica_def)
  have "he_fetch (run_env i k) n (b_hash c) = Some c" if "SignedBlock c \<in> set (rp_signed (run_world k1 k2 j))" for j c n
  proof -
    have "c \<in> set (take k1 run_blocks) \<union> set (take k2 run_blocks)" using that unfolding s by (auto split: if_splits)
    then have "c \<in> set run_blocks" using in_set_takeD by fast
    then show ?thesis by (rule run_fetch(1))
  qed
  then show "fetches_voted run_system (run_world k1 k2) (run_env i k)" by (simp add: fetches_voted_def)
  fix j h rs assume j: "j \<in> sy_honest run_system" "cf_verify (he_crypto (run_env i k)) j h rs"
  then obtain b where b: "b \<in> set (take k run_blocks)" "b_hash b = h" "j = 1 \<or> j = 2" by (auto simp: run_env_def run_system_def list_ex_iff)
  then have "SignedBlock b \<in> set (rp_signed (run_world k1 k2 j))"
    using set_take_subset_set_take [OF k(3), of run_blocks] set_take_subset_set_take [OF k(4), of run_blocks] by (auto simp: s)
  moreover have "block_ok run_sha b" using run_blocks_ok(1) in_set_takeD [OF b(1)] by (auto simp: list_all_iff)
  ultimately show "\<exists>x \<in> set (rp_signed (run_world k1 k2 j)). h = sy_sha run_system (item_bytes x)"
    using b(2) by (intro bexI [of _ "SignedBlock b"]) (auto simp: run_system_def block_ok_def)
qed (use run_fetch(2) in \<open>simp_all add: run_env_def run_system_def\<close>)

lemma run_step:
  assumes w: "hs_run run_system (run_world k1 k2)" and k: "in_run 1 k1" "in_run 2 k2" "k \<le> k1" "k \<le> k2"
    and i: "in_run i (Suc k)" "run_world k1 k2 i = run_at i k"
  shows "hs_run run_system ((run_world k1 k2)(i := run_at i (Suc k)))"
proof (rule hs_run.step [OF w _ run_env_ok [OF k]])
  have i12: "i = 1 \<or> i = 2" "k < 4" "in_run i k" using i(1) by (auto simp: in_run_def)
  then show "i \<in> sy_honest run_system" by (auto simp: run_system_def)
  show "pm_Block pm \<in> sy_blocks run_system" if "MPropose (run_proposal k) = MPropose pm" for pm
    using that i12(2) nth_mem [of k run_blocks] by (auto simp: run_proposal_def run_system_def run_blocks_def)
  show "handle (run_env i k) SimpleHotStuff (MPropose (run_proposal k)) (run_world k1 k2 i) \<in> {Some (Return (run_at i (Suc k))), Some (Error (run_at i (Suc k)))}"
    using run_at [OF i(1)] run_at [OF i12(3)] i(2) by (simp add: ret_def)
  show "proposals_in (sy_blocks run_system) (run_at i (Suc k))" using run_at [OF i(1)] by blast
qed

lemma run_reaches: "hs_run run_system (run_world 4 3)"
proof -
  have upd: "(run_world k1 k2)(1 := run_at 1 k) = run_world k k2" "(run_world k1 k2)(2 := run_at 2 k) = run_world k1 k"
    "run_world k1 k2 1 = run_at 1 k1" "run_world k1 k2 2 = run_at 2 k2" for k1 k2 k
    by (auto simp: run_world_def)
  have one: "hs_run run_system (run_world (Suc k) k)" if "hs_run run_system (run_world k k)" "k \<le> 3" for k
    using run_step [OF that(1), of k 1] that(2) by (simp add: upd in_run_def)
  have two: "hs_run run_system (run_world (Suc k) (Suc k))" if "hs_run run_system (run_world (Suc k) k)" "k \<le> 2" for k
    using run_step [OF that(1), of k 2] that(2) by (simp add: upd in_run_def)
  have "run_world 0 0 = (\<lambda>i. new_replica (sy_sha run_system) 1)" by (auto simp: run_world_def run_at_def ret_def run_system_def)
  then have "hs_run run_system (run_world 0 0)" using hs_run.start [of run_system "\<lambda>i. 1"] by simp
  then have "hs_run run_system (run_world 3 3)" using one two by (simp add: numeral_eq_Suc)
  then show ?thesis using one [of 3] by (simp add: numeral_eq_Suc)
qed

theorem simple_hotstuff_agrees_witness:
  "prefix (rp_executed (run_world 4 3 2)) (rp_executed (run_world 4 3 1)) \<and> rp_executed (run_world 4 3 1) = [run_blocks ! 0]
   \<and> (anc (protocol_of run_system) (rp_bExec (run_world 4 3 1)) (rp_bExec (run_world 4 3 2))
      \<or> anc (protocol_of run_system) (rp_bExec (run_world 4 3 2)) (rp_bExec (run_world 4 3 1)))"
proof -
  have "1 \<in> sy_honest run_system" "2 \<in> sy_honest run_system" by (simp_all add: run_system_def)
  note agree = simple_hotstuff_agrees [OF run_universe(1) run_reaches this]
  then have "prefix (rp_executed (run_world 4 3 1)) (rp_executed (run_world 4 3 2)) \<or> prefix (rp_executed (run_world 4 3 2)) (rp_executed (run_world 4 3 1))"
    using run_universe(2) by blast
  moreover have "rp_executed (run_world 4 3 1) = [run_blocks ! 0]" "rp_executed (run_world 4 3 2) = []"
    using run_at [of 1 4] run_at [of 2 3] by (simp_all add: run_world_def in_run_def)
  ultimately show ?thesis using agree by simp
qed

section \<open>A parent that is not the certified block\<close>

text \<open>
  The second of five blocks certifies the first but names genesis as its parent.  Replicas 1 and 3
  handle and vote for all five, so that each certificate is signed by them and by the faulty replica
  4, and execute the first two.  Replica 2 gets only the last proposal and fetches the others; it
  commits the second block as well, follows its parent to genesis, and never executes the first.
\<close>

definition split_blocks :: "Block list" where
  "split_blocks = [run_block 1 [], (run_block 2 [1, 3, 4])\<lparr>b_parent := b_hash (GetGenesis run_sha)\<rparr>,
                   run_block 3 [1, 3, 4], run_block 4 [1, 3, 4], run_block 5 [1, 3, 4]]"

definition split_env :: "ID \<Rightarrow> hs_env" where
  "split_env self =
     \<lparr>he_crypto = \<lparr>cf_sha = run_sha, cf_verify = (\<lambda>i h rs. i = 4 \<or> (i = 1 \<or> i = 3) \<and> list_ex (\<lambda>b. b_hash b = h) split_blocks),
                   cf_sign = (\<lambda>k h. Some (1, 1)), cf_replicas = [1, 2, 3, 4], cf_self = self\<rparr>,
      he_replies = (\<lambda>k h. map BlockToProto (filter (\<lambda>b. b_hash b = h) split_blocks)), he_leader = (\<lambda>chain b v. 4), he_useAggQC = False,
      he_marshal = (\<lambda>b. Some []), he_unmarshal = (\<lambda>c. Some []), he_arrivals = []\<rparr>"

definition split_run :: "ID \<Rightarrow> Block list \<Rightarrow> (signed_item list \<times> Block list) option" where
  "split_run i bs = voted_and_executed (handle_proposals (split_env i) SimpleHotStuff bs (new_replica run_sha 1))"

lemma unlinked_block_splits_execution:
  "list_all (block_ok run_sha) split_blocks"
  "split_run 1 split_blocks = Some (map SignedBlock split_blocks, take 2 split_blocks)"
  "split_run 3 split_blocks = Some (map SignedBlock split_blocks, take 2 split_blocks)"
  "split_run 2 [split_blocks ! 4] = Some ([SignedBlock (split_blocks ! 4)], [split_blocks ! 1])"
  by code_simp+

end
