(* ===== verification/Merkle.thy ===== *)
theory Merkle
  imports Blocks
begin

text \<open>
  Merkle trees of \<open>crypto/merkle\<close>: the recursive and the iterative root hash (\<open>tree.go\<close>), and
  inclusion proofs (\<open>proof.go\<close>) with the linked proof nodes from which they are made.  SHA-256 is
  the argument \<open>H\<close>.  The reference definition is \<open>mtn\<close>, the root over a list of node hashes as
  RFC 6962 defines it.

  A byte slice that may be nil is an option; \<open>bytes.Equal\<close> does not tell nil from empty.
\<close>

section \<open>Hashes and the split point\<close>

definition emptyHash :: "(bytes \<Rightarrow> bytes) \<Rightarrow> bytes" where
  "emptyHash H = H []"

definition leafHash :: "(bytes \<Rightarrow> bytes) \<Rightarrow> bytes \<Rightarrow> bytes" where
  "leafHash H leaf = H (0 # leaf)"

definition innerHash :: "(bytes \<Rightarrow> bytes) \<Rightarrow> bytes \<Rightarrow> bytes \<Rightarrow> bytes" where
  "innerHash H left right = H (1 # left @ right)"

fun bits_Len :: "nat \<Rightarrow> nat" where
  \<comment> \<open>\<open>bits.Len\<close> of the standard library: the number of bits of a number\<close>
  "bits_Len n = (if n = 0 then 0 else Suc (bits_Len (n div 2)))"

declare bits_Len.simps [simp del]

definition getSplitPoint :: "int \<Rightarrow> ('e, int) outcome" where
  "getSplitPoint len =
     (if len < 1 then Panic
      else let k = 2 ^ (bits_Len (nat len) - 1)
           in Return (if k = len then k div 2 else k))"

definition split_point :: "nat \<Rightarrow> nat" where
  \<comment> \<open>the largest power of two below a number that is at least two\<close>
  "split_point n = 2 ^ (bits_Len (n - 1) - 1)"

lemma bits_Len_bounds: "0 < n \<Longrightarrow> 2 ^ (bits_Len n - 1) \<le> n \<and> n < 2 ^ bits_Len n"
proof (induction n rule: bits_Len.induct)
  case (1 n)
  show ?case
  proof (cases "n = 1")
    case True
    then show ?thesis by (simp add: bits_Len.simps)
  next
    case False
    then have half: "0 < n div 2" using 1 by auto
    then have len: "bits_Len n = Suc (bits_Len (n div 2))" and pos: "0 < bits_Len (n div 2)"
      using 1 by (simp_all add: bits_Len.simps [of n] bits_Len.simps [of "n div 2"])
    have "2 ^ (bits_Len (n div 2) - 1) \<le> n div 2" "n div 2 < 2 ^ bits_Len (n div 2)"
      using 1 half by simp_all
    moreover have "2 ^ bits_Len (n div 2) = (2 :: nat) * 2 ^ (bits_Len (n div 2) - 1)"
      using pos by (simp flip: power_Suc)
    ultimately have "2 * 2 ^ (bits_Len (n div 2) - 1) \<le> n" "n < 2 * 2 ^ bits_Len (n div 2)"
      by linarith+
    then show ?thesis using pos by (simp add: len flip: power_Suc)
  qed
qed

lemma power_2_bracket:
  fixes n :: nat
  assumes "2 ^ a \<le> n" "n < 2 ^ Suc a" "2 ^ b \<le> n" "n < 2 ^ Suc b"
  shows "a = b"
proof (rule ccontr)
  assume "a \<noteq> b"
  then consider "Suc a \<le> b" | "Suc b \<le> a" by linarith
  then show False
  proof cases
    case 1
    then have "(2 :: nat) ^ Suc a \<le> 2 ^ b" by (rule power_increasing) simp
    then show ?thesis using assms by linarith
  next
    case 2
    then have "(2 :: nat) ^ Suc b \<le> 2 ^ a" by (rule power_increasing) simp
    then show ?thesis using assms by linarith
  qed
qed

lemma split_point_bracket:
  assumes "2 \<le> n"
  obtains j where "split_point n = 2 ^ j" "2 ^ j < n" "n \<le> 2 ^ Suc j"
proof -
  have pos: "0 < n - 1" using assms by simp
  then have "0 < bits_Len (n - 1)" using bits_Len.simps [of "n - 1"] by simp
  then obtain j where j: "bits_Len (n - 1) = Suc j" by (cases "bits_Len (n - 1)") auto
  show thesis
  proof (rule that)
    show "split_point n = 2 ^ j" using j by (simp add: split_point_def)
    show "2 ^ j < n" "n \<le> 2 ^ Suc j" using bits_Len_bounds [OF pos, unfolded j] assms by auto
  qed
qed

lemma split_point_unique:
  assumes "2 \<le> n" "2 ^ j < n" "n \<le> 2 ^ Suc j"
  shows "split_point n = 2 ^ j"
proof -
  obtain i where i: "split_point n = 2 ^ i" "2 ^ i < n" "n \<le> 2 ^ Suc i"
    using assms(1) by (rule split_point_bracket)
  have "i = j" using assms i by (intro power_2_bracket [of i "n - 1"]) auto
  then show ?thesis using i by simp
qed

lemma split_point_less: "2 \<le> n \<Longrightarrow> split_point n < n"
  by (elim split_point_bracket) simp

lemma split_point_pos [simp]: "0 < split_point n"
  by (simp add: split_point_def)

lemma getSplitPoint_eq:
  assumes "2 \<le> n"
  shows "(getSplitPoint (int n) :: ('e, int) outcome) = Return (int (split_point n))"
proof -
  have b: "2 ^ (bits_Len n - 1) \<le> n" "n < 2 ^ bits_Len n" using bits_Len_bounds assms by auto
  have "0 < bits_Len n" using assms by (simp add: bits_Len.simps [of n])
  then obtain j where j: "bits_Len n = Suc j" by (cases "bits_Len n") auto
  show ?thesis
  proof (cases "2 ^ j = n")
    case True
    then obtain i where i: "j = Suc i" using assms by (cases j) auto
    then have "split_point n = 2 ^ i" using True assms by (intro split_point_unique) auto
    moreover have "(2 :: int) ^ j = int n" using True by (metis of_nat_numeral of_nat_power)
    ultimately show ?thesis using assms by (simp add: getSplitPoint_def Let_def j i)
  next
    case False
    then have "split_point n = 2 ^ j" using b assms by (intro split_point_unique) (auto simp: j)
    moreover have "(2 :: int) ^ j \<noteq> int n" using False by (metis of_nat_eq_iff of_nat_numeral of_nat_power)
    ultimately show ?thesis using assms by (simp add: getSplitPoint_def j)
  qed
qed

section \<open>The root hash\<close>

lemma getSplitPoint_Suc_Suc:
  assumes "getSplitPoint (2 + int n) = Return k"
  shows "nat k < Suc (Suc n) \<and> 0 < nat k"
proof -
  have two: "2 \<le> Suc (Suc n)" and eq: "2 + int n = int (Suc (Suc n))" by simp_all
  have "k = int (split_point (Suc (Suc n)))"
    using assms unfolding eq getSplitPoint_eq [OF two] by simp
  then show ?thesis using split_point_less [OF two] by simp
qed

function HashFromByteSlices :: "(bytes \<Rightarrow> bytes) \<Rightarrow> bytes list \<Rightarrow> ('e, bytes) outcome" where
  "HashFromByteSlices H [] = Return (emptyHash H)"
| "HashFromByteSlices H [x] = Return (leafHash H x)"
| "HashFromByteSlices H (x # y # zs) =
     bind_o (getSplitPoint (int (length (x # y # zs)))) (\<lambda>k.
     bind_o (HashFromByteSlices H (take (nat k) (x # y # zs))) (\<lambda>left.
     bind_o (HashFromByteSlices H (drop (nat k) (x # y # zs))) (\<lambda>right.
     Return (innerHash H left right))))"
  by pat_completeness auto
termination
  by (relation "measure (\<lambda>(H, items). length items)") (auto dest!: getSplitPoint_Suc_Suc)

function iter_pass ::
    "(bytes \<Rightarrow> bytes) \<Rightarrow> nat \<Rightarrow> bytes list \<Rightarrow> nat \<Rightarrow> nat \<Rightarrow> ('e, bytes list \<times> nat) outcome" where
  \<comment> \<open>the loop over one level of \<open>sz\<close> hashes, from a read and a write position\<close>
  "iter_pass H sz items rp wp =
     (if rp < sz
      then if rp + 1 < sz
           then bind_o (nth_go items (int rp)) (\<lambda>l.
                bind_o (nth_go items (int (rp + 1))) (\<lambda>r.
                bind_o (upd_go items (int wp) (innerHash H l r)) (\<lambda>items'.
                iter_pass H sz items' (rp + 2) (wp + 1))))
           else bind_o (nth_go items (int rp)) (\<lambda>l.
                bind_o (upd_go items (int wp) l) (\<lambda>items'.
                iter_pass H sz items' (rp + 1) (wp + 1)))
      else Return (items, wp))"
  by pat_completeness auto
termination
  by (relation "measure (\<lambda>(H, sz, items, rp, wp). sz - rp)") auto

declare iter_pass.simps [simp del]

lemma iter_pass_shrinks:
  "(iter_pass H sz items rp wp :: ('e, bytes list \<times> nat) outcome) = Return (items', wp') \<Longrightarrow>
     rp \<le> sz \<Longrightarrow> 2 * wp' \<le> sz - rp + 1 + 2 * wp"
proof (induction "sz - rp" arbitrary: items rp wp rule: less_induct)
  case less
  show ?case
  proof (cases "rp < sz")
    case False
    then show ?thesis using less.prems by (simp add: iter_pass.simps)
  next
    case True
    show ?thesis
    proof (cases "rp + 1 < sz")
      case True
      then obtain items1
        where "(iter_pass H sz items1 (rp + 2) (wp + 1) :: ('e, bytes list \<times> nat) outcome) = Return (items', wp')"
        using less.prems(1) unfolding iter_pass.simps [of H sz items] by (auto simp: bind_o_Return_iff)
      with less.hyps [OF _ this] True have "2 * wp' \<le> sz - (rp + 2) + 1 + 2 * (wp + 1)" by simp
      then show ?thesis using True by simp
    next
      case False
      then obtain items1
        where "(iter_pass H sz items1 (rp + 1) (wp + 1) :: ('e, bytes list \<times> nat) outcome) = Return (items', wp')"
        using less.prems(1) True unfolding iter_pass.simps [of H sz items] by (auto simp: bind_o_Return_iff)
      with less.hyps [OF _ this] True have "2 * wp' \<le> sz - (rp + 1) + 1 + 2 * (wp + 1)" by simp
      then show ?thesis using True False by presburger
    qed
  qed
qed

function iter_loop :: "(bytes \<Rightarrow> bytes) \<Rightarrow> nat \<Rightarrow> bytes list \<Rightarrow> ('e, bytes) outcome" where
  "iter_loop H sz items =
     (if sz = 0 then Return (emptyHash H)
      else if sz = 1 then nth_go items 0
      else bind_o (iter_pass H sz items 0 0) (\<lambda>(items', wp). iter_loop H wp items'))"
  by pat_completeness auto
termination
  by (relation "measure (\<lambda>(H, sz, items). sz)") (auto dest!: iter_pass_shrinks)

declare iter_loop.simps [simp del]

definition HashFromByteSlicesIterative :: "(bytes \<Rightarrow> bytes) \<Rightarrow> bytes list \<Rightarrow> ('e, bytes) outcome" where
  "HashFromByteSlicesIterative H input =
     (let items = map (leafHash H) input in iter_loop H (length items) items)"

section \<open>Both root hashes agree\<close>

function mtn :: "(bytes \<Rightarrow> bytes) \<Rightarrow> bytes list \<Rightarrow> bytes" where
  \<comment> \<open>the root over a list of node hashes\<close>
  "mtn H [] = emptyHash H"
| "mtn H [x] = x"
| "mtn H (x # y # zs) =
     (let k = split_point (length (x # y # zs))
      in innerHash H (mtn H (take k (x # y # zs))) (mtn H (drop k (x # y # zs))))"
  by pat_completeness auto
termination
  by (relation "measure (\<lambda>(H, xs). length xs)") (simp_all add: split_point_less)

declare mtn.simps(3) [simp del]

lemma mtn_split:
  assumes "2 \<le> length xs"
  shows "mtn H xs = innerHash H (mtn H (take (split_point (length xs)) xs)) (mtn H (drop (split_point (length xs)) xs))"
proof -
  obtain x y zs where "xs = x # y # zs" using assms by (auto simp: numeral_2_eq_2 Suc_le_length_iff)
  then show ?thesis using mtn.simps(3) [of H x y zs] by (simp add: Let_def)
qed

lemma split_induct [case_names nil one split]:
  \<comment> \<open>induction along the splits of a list\<close>
  assumes "P []" and "\<And>x. P [x]"
    and "\<And>xs. 2 \<le> length xs \<Longrightarrow> P (take (split_point (length xs)) xs) \<Longrightarrow>
          P (drop (split_point (length xs)) xs) \<Longrightarrow> P xs"
  shows "P xs"
proof (induction "length xs" arbitrary: xs rule: less_induct)
  case less
  consider "xs = []" | x where "xs = [x]" | "2 \<le> length xs"
    by (cases xs rule: list.exhaust; cases "tl xs") auto
  then show ?case
  proof cases
    case 3
    show ?thesis
    proof (rule assms(3) [OF 3])
      show "P (take (split_point (length xs)) xs)" by (rule less) (use split_point_less [OF 3] in simp)
      show "P (drop (split_point (length xs)) xs)"
        by (rule less) (use 3 in \<open>simp only: length_drop, intro diff_less, auto\<close>)
    qed
  qed (simp_all add: assms)
qed

lemma HashFromByteSlices_mtn:
  "(HashFromByteSlices H items :: ('e, bytes) outcome) = Return (mtn H (map (leafHash H) items))"
proof (induction items rule: split_induct)
  case (split xs)
  let ?k = "split_point (length xs)"
  obtain x y zs where xs: "xs = x # y # zs" using split(1) by (auto simp: numeral_2_eq_2 Suc_le_length_iff)
  have "(HashFromByteSlices H xs :: ('e, bytes) outcome) =
      bind_o (getSplitPoint (int (length xs))) (\<lambda>k.
      bind_o (HashFromByteSlices H (take (nat k) xs)) (\<lambda>left.
      bind_o (HashFromByteSlices H (drop (nat k) xs)) (\<lambda>right. Return (innerHash H left right))))"
    unfolding xs by (rule HashFromByteSlices.simps)
  also have "\<dots> = Return (innerHash H (mtn H (map (leafHash H) (take ?k xs))) (mtn H (map (leafHash H) (drop ?k xs))))"
    using split by (simp add: getSplitPoint_eq)
  also have "\<dots> = Return (mtn H (map (leafHash H) xs))"
    using split(1) mtn_split [of "map (leafHash H) xs" H] by (simp add: take_map drop_map)
  finally show ?case .
qed simp_all

fun pair_up :: "(bytes \<Rightarrow> bytes) \<Rightarrow> bytes list \<Rightarrow> bytes list" where
  \<comment> \<open>one level up: neighbours are joined, an odd last one is kept\<close>
  "pair_up H (x # y # zs) = innerHash H x y # pair_up H zs"
| "pair_up H xs = xs"

lemma length_pair_up: "length (pair_up H xs) = (length xs + 1) div 2"
  by (induction H xs rule: pair_up.induct) auto

lemma pair_up_append: "even (length xs) \<Longrightarrow> pair_up H (xs @ ys) = pair_up H xs @ pair_up H ys"
  by (induction H xs rule: pair_up.induct) auto

lemma split_point_half:
  assumes "3 \<le> n"
  shows "even (split_point n)" "split_point ((n + 1) div 2) = split_point n div 2" "2 \<le> split_point n"
proof -
  have "2 \<le> n" using assms by simp
  then obtain j where j: "split_point n = 2 ^ j" "2 ^ j < n" "n \<le> 2 ^ Suc j" by (rule split_point_bracket)
  then obtain i where i: "j = Suc i" using assms by (cases j) auto
  show "even (split_point n)" "2 \<le> split_point n" by (simp_all add: j i)
  have "split_point ((n + 1) div 2) = 2 ^ i" using assms j i by (intro split_point_unique) auto
  then show "split_point ((n + 1) div 2) = split_point n div 2" by (simp add: j i)
qed

lemma mtn_pair_up: "mtn H (pair_up H xs) = mtn H xs"
proof (induction xs rule: split_induct)
  case (split xs)
  let ?n = "length xs" and ?k = "split_point (length xs)"
  show ?case
  proof (cases "?n = 2")
    case True
    then obtain x y where xs: "xs = [x, y]" by (auto simp: numeral_2_eq_2 length_Suc_conv)
    have "split_point (Suc (Suc 0)) = 2 ^ 0" by (rule split_point_unique) simp_all
    then show ?thesis using mtn_split [of xs H] by (simp add: xs)
  next
    case False
    then have n: "3 \<le> ?n" using split(1) by simp
    have k: "?k < ?n" using split(1) by (rule split_point_less)
    have len: "length (take ?k xs) = ?k" using k by simp
    have pu: "pair_up H xs = pair_up H (take ?k xs) @ pair_up H (drop ?k xs)"
      using pair_up_append [of "take ?k xs" H "drop ?k xs"] split_point_half(1) [OF n] len by simp
    have half: "length (pair_up H (take ?k xs)) = split_point (length (pair_up H xs))"
      using split_point_half(1,2) [OF n] len by (simp add: length_pair_up)
    have "2 \<le> length (pair_up H xs)" using n by (simp add: length_pair_up)
    then have "mtn H (pair_up H xs) = innerHash H
        (mtn H (take (length (pair_up H (take ?k xs))) (pair_up H xs)))
        (mtn H (drop (length (pair_up H (take ?k xs))) (pair_up H xs)))"
      unfolding half by (rule mtn_split)
    also have "\<dots> = innerHash H (mtn H (pair_up H (take ?k xs))) (mtn H (pair_up H (drop ?k xs)))"
      unfolding pu by simp
    also have "\<dots> = mtn H xs" unfolding split(2,3) by (rule mtn_split [OF split(1), symmetric])
    finally show ?thesis .
  qed
qed simp_all

lemma iter_pass_pair_up:
  assumes "sz \<le> length items" "rp \<le> sz" "wp \<le> rp"
  shows "\<exists>items'. (iter_pass H sz items rp wp :: ('e, bytes list \<times> nat) outcome) =
           Return (items', wp + length (pair_up H (drop rp (take sz items)))) \<and>
           length items' = length items \<and>
           take (wp + length (pair_up H (drop rp (take sz items)))) items' =
             take wp items @ pair_up H (drop rp (take sz items))"
  using assms
proof (induction "sz - rp" arbitrary: items rp wp rule: less_induct)
  case less
  consider "rp = sz" | "rp + 1 = sz" | "rp + 1 < sz" using less.prems by linarith
  then show ?case
  proof cases
    case 1
    then show ?thesis by (simp add: iter_pass.simps)
  next
    case 2
    let ?items = "items[wp := items ! rp]"
    have "drop rp (take sz items) = [items ! rp]"
      using less.prems by (simp add: take_Suc_conv_app_nth flip: 2)
    moreover have "take (Suc wp) ?items = take wp items @ [items ! rp]"
      using 2 less.prems by (simp add: take_Suc_conv_app_nth)
    ultimately show ?thesis using 2 less.prems by (simp add: iter_pass.simps [of H sz])
  next
    case 3
    let ?x = "innerHash H (items ! rp) (items ! (rp + 1))"
    let ?items = "items[wp := ?x]"
    have d: "drop rp (take sz items) = items ! rp # items ! (rp + 1) # drop (rp + 2) (take sz items)"
      using 3 less.prems Cons_nth_drop_Suc [of rp "take sz items"] Cons_nth_drop_Suc [of "Suc rp" "take sz items"]
      by simp
    have same: "drop (rp + 2) (take sz ?items) = drop (rp + 2) (take sz items)"
      using less.prems by (simp add: take_update_swap)
    have "iter_pass H sz items rp wp = (iter_pass H sz ?items (rp + 2) (wp + 1) :: ('e, bytes list \<times> nat) outcome)"
      using 3 less.prems by (subst iter_pass.simps) (simp del: of_nat_add of_nat_Suc)
    moreover have "take (wp + 1) ?items = take wp items @ [?x]"
      using 3 less.prems by (simp add: take_Suc_conv_app_nth)
    ultimately show ?thesis
      using less.hyps [of "rp + 2" ?items "wp + 1"] 3 less.prems unfolding same by (auto simp: d)
  qed
qed

lemma iter_loop_mtn:
  "sz \<le> length items \<Longrightarrow> (iter_loop H sz items :: ('e, bytes) outcome) = Return (mtn H (take sz items))"
proof (induction sz arbitrary: items rule: less_induct)
  case (less sz)
  consider "sz = 0" | "sz = 1" | "2 \<le> sz" by linarith
  then show ?case
  proof cases
    case 1
    then show ?thesis by (simp add: iter_loop.simps)
  next
    case 2
    then obtain x xs where "items = x # xs" using less.prems by (cases items) auto
    then show ?thesis using 2 by (simp add: iter_loop.simps nth_go_def)
  next
    case 3
    let ?up = "pair_up H (take sz items)"
    obtain items'
      where pass: "(iter_pass H sz items 0 0 :: ('e, bytes list \<times> nat) outcome) = Return (items', length ?up)"
      and len: "length items' = length items" and up: "take (length ?up) items' = ?up"
      using iter_pass_pair_up [of sz items 0 0 H] less.prems by auto
    have "length ?up < sz" using 3 less.prems by (simp add: length_pair_up)
    moreover have "length ?up \<le> length items'" using calculation less.prems len by simp
    ultimately show ?thesis
      using 3 less.IH [of "length ?up" items'] by (simp add: iter_loop.simps [of H sz] pass up mtn_pair_up)
  qed
qed

text \<open>C5: the iterative root hash, which works in place on one slice, returns for every list of
  items and gives the same hash as the recursive one.\<close>

theorem iterative_root_is_recursive_root:
  "HashFromByteSlicesIterative H items = HashFromByteSlices H items"
  unfolding HashFromByteSlicesIterative_def Let_def HashFromByteSlices_mtn
  by (simp add: iter_loop_mtn)

section \<open>Inclusion proofs\<close>

record Proof =
  p_Total :: int
  p_Index :: int
  p_LeafHash :: "bytes option"
  p_Aunts :: "bytes list"

datatype proof_error = ProofTotal | ProofIndex | InvalidLeafHash | InvalidRootHash | ProofSizes | NilProof

definition slice :: "bytes option \<Rightarrow> bytes" where
  \<comment> \<open>the bytes of a slice: nil has none\<close>
  "slice b = (case b of None \<Rightarrow> [] | Some x \<Rightarrow> x)"

function computeHashFromAunts ::
    "(bytes \<Rightarrow> bytes) \<Rightarrow> int \<Rightarrow> int \<Rightarrow> bytes option \<Rightarrow> bytes list \<Rightarrow> ('e, bytes option) outcome" where
  "computeHashFromAunts H index tot leaf innerHashes =
     (if index \<ge> tot \<or> index < 0 \<or> tot \<le> 0 then Return None
      else if tot = 1 then Return (if innerHashes = [] then leaf else None)
      else if innerHashes = [] then Return None
      else bind_o (getSplitPoint tot) (\<lambda>numLeft.
           if index < numLeft
           then bind_o (computeHashFromAunts H index numLeft leaf (butlast innerHashes)) (\<lambda>leftHash.
                Return (map_option (\<lambda>l. innerHash H l (last innerHashes)) leftHash))
           else bind_o (computeHashFromAunts H (index - numLeft) (tot - numLeft) leaf (butlast innerHashes)) (\<lambda>rightHash.
                Return (map_option (innerHash H (last innerHashes)) rightHash))))"
  by pat_completeness auto
termination
  by (relation "measure (\<lambda>(H, index, tot, leaf, innerHashes). length innerHashes)") auto

declare computeHashFromAunts.simps [simp del]

definition ComputeRootHash :: "(bytes \<Rightarrow> bytes) \<Rightarrow> Proof \<Rightarrow> ('e, bytes option) outcome" where
  "ComputeRootHash H sp = computeHashFromAunts H (p_Index sp) (p_Total sp) (p_LeafHash sp) (p_Aunts sp)"

definition proof_Verify :: "(bytes \<Rightarrow> bytes) \<Rightarrow> Proof \<Rightarrow> bytes \<Rightarrow> bytes \<Rightarrow> (proof_error, unit) outcome" where
  "proof_Verify H sp rootHash leaf =
     (if p_Total sp < 0 then Error ProofTotal
      else if p_Index sp < 0 then Error ProofIndex
      else if slice (p_LeafHash sp) \<noteq> leafHash H leaf then Error InvalidLeafHash
      else bind_o (ComputeRootHash H sp) (\<lambda>computedHash.
           if slice computedHash \<noteq> rootHash then Error InvalidRootHash else Return ()))"

definition MaxAunts :: nat where
  "MaxAunts = 100"

definition proof_ValidateBasic :: "Proof \<Rightarrow> (proof_error, unit) outcome" where
  "proof_ValidateBasic sp =
     (if p_Total sp < 0 then Error ProofTotal
      else if p_Index sp < 0 then Error ProofIndex
      else if length (slice (p_LeafHash sp)) \<noteq> tmhash_Size then Error ProofSizes
      else if length (p_Aunts sp) > MaxAunts then Error ProofSizes
      else if list_ex (\<lambda>aunt. length aunt \<noteq> tmhash_Size) (p_Aunts sp) then Error ProofSizes
      else Return ())"

text \<open>
  The nodes from which proofs are made are linked by pointers and changed after they were made:
  a node is an address into a list of nodes, to which allocation appends.
\<close>

record ProofNode =
  pn_Hash :: bytes
  pn_Parent :: "nat option"
  pn_Left :: "nat option"
  pn_Right :: "nat option"

type_synonym nodes = "ProofNode list"

definition new_node :: "bytes \<Rightarrow> ProofNode" where
  "new_node hash = \<lparr>pn_Hash = hash, pn_Parent = None, pn_Left = None, pn_Right = None\<rparr>"

partial_function (option) flatten_loop :: "nodes \<Rightarrow> nat option \<Rightarrow> bytes list \<Rightarrow> bytes list option" where
  [code]: "flatten_loop h spn innerHashes =
     (case spn of
        None \<Rightarrow> Some innerHashes
      | Some a \<Rightarrow>
          (let node = h ! a
           in flatten_loop h (pn_Parent node)
                (case pn_Left node of
                   Some l \<Rightarrow> innerHashes @ [pn_Hash (h ! l)]
                 | None \<Rightarrow> (case pn_Right node of
                            Some r \<Rightarrow> innerHashes @ [pn_Hash (h ! r)]
                          | None \<Rightarrow> innerHashes))))"

definition FlattenAunts :: "nodes \<Rightarrow> nat \<Rightarrow> bytes list option" where
  "FlattenAunts h spn = flatten_loop h (Some spn) []"

definition join_nodes :: "(bytes \<Rightarrow> bytes) \<Rightarrow> nodes \<Rightarrow> nat \<Rightarrow> nat \<Rightarrow> nodes" where
  \<comment> \<open>the new root over two roots, and the links between the three nodes\<close>
  "join_nodes H h leftRoot rightRoot =
     (let root = length h;
          h1 = h @ [new_node (innerHash H (pn_Hash (h ! leftRoot)) (pn_Hash (h ! rightRoot)))];
          h2 = h1[leftRoot := (h1 ! leftRoot)\<lparr>pn_Parent := Some root, pn_Right := Some rightRoot\<rparr>]
      in h2[rightRoot := (h2 ! rightRoot)\<lparr>pn_Parent := Some root, pn_Left := Some leftRoot\<rparr>])"

function trailsFromByteSlices ::
    "(bytes \<Rightarrow> bytes) \<Rightarrow> bytes list \<Rightarrow> nodes \<Rightarrow> ('e, nodes \<times> nat list \<times> nat) outcome" where
  "trailsFromByteSlices H [] h = Return (h @ [new_node (emptyHash H)], [], length h)"
| "trailsFromByteSlices H [x] h = Return (h @ [new_node (leafHash H x)], [length h], length h)"
| "trailsFromByteSlices H (x # y # zs) h =
     bind_o (getSplitPoint (int (length (x # y # zs)))) (\<lambda>k.
     bind_o (trailsFromByteSlices H (take (nat k) (x # y # zs)) h) (\<lambda>(h1, lefts, leftRoot).
     bind_o (trailsFromByteSlices H (drop (nat k) (x # y # zs)) h1) (\<lambda>(h2, rights, rightRoot).
     Return (join_nodes H h2 leftRoot rightRoot, lefts @ rights, length h2))))"
  by pat_completeness auto
termination
  by (relation "measure (\<lambda>(H, items, h). length items)") (auto dest!: getSplitPoint_Suc_Suc)

fun proofs_loop :: "nodes \<Rightarrow> int \<Rightarrow> int \<Rightarrow> nat list \<Rightarrow> Proof list option" where
  "proofs_loop h tot i [] = Some []"
| "proofs_loop h tot i (trail # trails) =
     (case FlattenAunts h trail of
        None \<Rightarrow> None
      | Some aunts \<Rightarrow>
          map_option ((#) \<lparr>p_Total = tot, p_Index = i, p_LeafHash = Some (pn_Hash (h ! trail)), p_Aunts = aunts\<rparr>)
            (proofs_loop h tot (i + 1) trails))"

definition ProofsFromByteSlices ::
    "(bytes \<Rightarrow> bytes) \<Rightarrow> bytes list \<Rightarrow> ('e, (bytes \<times> Proof list) option) outcome" where
  \<comment> \<open>\<open>None\<close>: following the parents does not end\<close>
  "ProofsFromByteSlices H items =
     bind_o (trailsFromByteSlices H items []) (\<lambda>(h, trails, root).
     Return (map_option (Pair (pn_Hash (h ! root))) (proofs_loop h (int (length items)) 0 trails)))"

section \<open>Proofs that are made are accepted\<close>

function aunts :: "(bytes \<Rightarrow> bytes) \<Rightarrow> bytes list \<Rightarrow> nat \<Rightarrow> bytes list" where
  \<comment> \<open>the hashes beside the way from a leaf to the root\<close>
  "aunts H xs i =
     (if length xs < 2 then []
      else let k = split_point (length xs)
           in if i < k then aunts H (take k xs) i @ [mtn H (drop k xs)]
              else aunts H (drop k xs) (i - k) @ [mtn H (take k xs)])"
  by pat_completeness auto
termination
  by (relation "measure (\<lambda>(H, xs, i). length xs)") (auto simp: split_point_less intro!: diff_less)

declare aunts.simps [simp del]

lemma computeHashFromAunts_complete:
  "i < length xs \<Longrightarrow>
     (computeHashFromAunts H (int i) (int (length xs)) (Some (xs ! i)) (aunts H xs i) :: ('e, bytes option) outcome) =
       Return (Some (mtn H xs))"
proof (induction xs arbitrary: i rule: split_induct)
  case (split xs)
  let ?k = "split_point (length xs)"
  have k: "?k < length xs" using split(1) by (rule split_point_less)
  have au: "aunts H xs i = (if i < ?k then aunts H (take ?k xs) i @ [mtn H (drop ?k xs)]
      else aunts H (drop ?k xs) (i - ?k) @ [mtn H (take ?k xs)])"
    using split(1) by (simp add: aunts.simps [of H xs] Let_def)
  have left: "(computeHashFromAunts H (int i) (int ?k) (Some (xs ! i)) (aunts H (take ?k xs) i) :: ('e, bytes option) outcome) =
      Return (Some (mtn H (take ?k xs)))" if "i < ?k"
    using split(2) [of i] that k by simp
  have right: "(computeHashFromAunts H (int i - int ?k) (int (length xs) - int ?k) (Some (xs ! i)) (aunts H (drop ?k xs) (i - ?k))
      :: ('e, bytes option) outcome) = Return (Some (mtn H (drop ?k xs)))" if "\<not> i < ?k"
    using split(3) [of "i - ?k"] that k split.prems by (simp add: of_nat_diff)
  show ?case
    using split(1) split.prems left right
    by (subst computeHashFromAunts.simps)
       (auto simp: au getSplitPoint_eq mtn_split [OF split(1), of H])
qed (simp_all add: computeHashFromAunts.simps aunts.simps)

inductive trail :: "nat \<Rightarrow> nodes \<Rightarrow> nat \<Rightarrow> bytes list \<Rightarrow> nat \<Rightarrow> bool" for lo h where
  \<comment> \<open>the way up from a node, over nodes from \<open>lo\<close> on, and the hashes beside it\<close>
  trail_end: "trail lo h r [] r"
| trail_left: "trail lo h a (pn_Hash (h ! l) # ss) r"
    if "lo \<le> a" "a < length h" "pn_Parent (h ! a) = Some p" "pn_Left (h ! a) = Some l" "l < length h"
      "trail lo h p ss r"
| trail_right: "trail lo h a (pn_Hash (h ! s) # ss) r"
    if "lo \<le> a" "a < length h" "pn_Parent (h ! a) = Some p" "pn_Left (h ! a) = None"
      "pn_Right (h ! a) = Some s" "s < length h" "trail lo h p ss r"

lemma trail_trans: "trail lo h a ss r \<Longrightarrow> trail lo h r ts q \<Longrightarrow> trail lo h a (ss @ ts) q"
  by (induction rule: trail.induct) (auto intro: trail.intros)

lemma trail_lower: "trail lo h a ss r \<Longrightarrow> lo' \<le> lo \<Longrightarrow> trail lo' h a ss r"
  by (induction rule: trail.induct) (auto intro: trail.intros)

lemma trail_keep:
  assumes "trail lo h a ss r" and "length h \<le> length h'" and "pn_Parent (h ! r) = None"
    and "\<And>b. lo \<le> b \<Longrightarrow> b < length h \<Longrightarrow> b \<noteq> r \<Longrightarrow> h' ! b = h ! b"
    and "\<And>b. b < length h \<Longrightarrow> pn_Hash (h' ! b) = pn_Hash (h ! b)"
  shows "trail lo h' a ss r"
  using assms
proof (induction rule: trail.induct)
  case (trail_end r)
  show ?case by (rule trail.trail_end)
next
  case (trail_left a p l ss r)
  have "h' ! a = h ! a" using trail_left(1-3) trail_left.prems(2,3) by (cases "a = r") auto
  then show ?case
    using trail.trail_left [of lo a h' p l ss r] trail_left by auto
next
  case (trail_right a p s ss r)
  have "h' ! a = h ! a" using trail_right(1-3) trail_right.prems(2,3) by (cases "a = r") auto
  then show ?case
    using trail.trail_right [of lo a h' p s ss r] trail_right by auto
qed

lemma flatten_trail:
  "trail lo h a ss r \<Longrightarrow> h ! r = new_node x \<Longrightarrow> flatten_loop h (Some a) acc = Some (acc @ ss)"
proof (induction arbitrary: acc rule: trail.induct)
  case (trail_end r)
  then show ?case by (simp add: flatten_loop.simps new_node_def)
qed (simp_all add: flatten_loop.simps [of h "Some _"])

lemma join_nodes_facts:
  assumes "l < length h" "r < length h" "l \<noteq> r" "h ! l = new_node x" "h ! r = new_node y"
  shows "length (join_nodes H h l r) = Suc (length h)"
    and "join_nodes H h l r ! length h = new_node (innerHash H x y)"
    and "join_nodes H h l r ! l = (new_node x)\<lparr>pn_Parent := Some (length h), pn_Right := Some r\<rparr>"
    and "join_nodes H h l r ! r = (new_node y)\<lparr>pn_Parent := Some (length h), pn_Left := Some l\<rparr>"
    and "\<And>b. b < length h \<Longrightarrow> b \<noteq> l \<Longrightarrow> b \<noteq> r \<Longrightarrow> join_nodes H h l r ! b = h ! b"
    and "\<And>b. b < length h \<Longrightarrow> pn_Hash (join_nodes H h l r ! b) = pn_Hash (h ! b)"
proof -
  show "length (join_nodes H h l r) = Suc (length h)" by (simp add: join_nodes_def Let_def)
  show "join_nodes H h l r ! length h = new_node (innerHash H x y)"
    using assms by (simp add: join_nodes_def Let_def nth_append new_node_def)
  show "join_nodes H h l r ! l = (new_node x)\<lparr>pn_Parent := Some (length h), pn_Right := Some r\<rparr>"
    using assms by (simp add: join_nodes_def Let_def nth_append)
  show "join_nodes H h l r ! r = (new_node y)\<lparr>pn_Parent := Some (length h), pn_Left := Some l\<rparr>"
    using assms by (simp add: join_nodes_def Let_def nth_append)
  show other: "join_nodes H h l r ! b = h ! b" if "b < length h" "b \<noteq> l" "b \<noteq> r" for b
    using that by (simp add: join_nodes_def Let_def nth_append)
  show "pn_Hash (join_nodes H h l r ! b) = pn_Hash (h ! b)" if "b < length h" for b
    using that assms by (cases "b = l"; cases "b = r") (simp_all add: join_nodes_def Let_def nth_append)
qed

definition trails_ok :: "(bytes \<Rightarrow> bytes) \<Rightarrow> bytes list \<Rightarrow> nodes \<Rightarrow> nodes \<times> nat list \<times> nat \<Rightarrow> bool" where
  \<comment> \<open>what the construction promises: old nodes are kept, the root is fresh, and every leaf leads to it\<close>
  "trails_ok H items h = (\<lambda>(h', trails, root).
     length h \<le> root \<and> root < length h' \<and> take (length h) h' = h \<and>
     h' ! root = new_node (mtn H (map (leafHash H) items)) \<and> length trails = length items \<and>
     (\<forall>i<length items. length h \<le> trails ! i \<and> trails ! i < length h' \<and>
        pn_Hash (h' ! (trails ! i)) = leafHash H (items ! i) \<and>
        trail (length h) h' (trails ! i) (aunts H (map (leafHash H) items) i) root))"

lemma trails_ok_join:
  assumes two: "2 \<le> length items"
    and left: "trails_ok H (take (split_point (length items)) items) h (h1, lefts, l)"
    and right: "trails_ok H (drop (split_point (length items)) items) h1 (h2, rights, r)"
  shows "trails_ok H items h (join_nodes H h2 l r, lefts @ rights, length h2)"
proof -
  let ?k = "split_point (length items)" and ?xs = "map (leafHash H) items" and ?h = "join_nodes H h2 l r"
  have k: "?k < length items" using two by (rule split_point_less)
  note L = left [unfolded trails_ok_def prod.case] and R = right [unfolded trails_ok_def prod.case]
  have len: "length h \<le> length h1" "length h1 \<le> length h2"
    using L R by (auto dest: arg_cong [where f = length])
  have old: "h2 ! b = h1 ! b" if "b < length h1" for b
    using R that by (metis nth_take)
  have lr: "l < length h2" "r < length h2" "l \<noteq> r" using L R len by auto
  have nl: "h2 ! l = new_node (mtn H (take ?k ?xs))" using L old by (simp add: take_map)
  have nr: "h2 ! r = new_node (mtn H (drop ?k ?xs))" using R by (simp add: drop_map)
  note J = join_nodes_facts [OF lr nl nr, where H = H]
  have au: "aunts H ?xs i = (if i < ?k then aunts H (take ?k ?xs) i @ [mtn H (drop ?k ?xs)]
      else aunts H (drop ?k ?xs) (i - ?k) @ [mtn H (take ?k ?xs)])" for i
    using two by (simp add: aunts.simps [of H ?xs] Let_def)
  have up_l: "trail (length h) ?h l [mtn H (drop ?k ?xs)] (length h2)"
    using trail_right [of "length h" l ?h "length h2" r "[]" "length h2"] L lr J(1,3,4) nr
    by (simp add: trail_end new_node_def)
  have up_r: "trail (length h) ?h r [mtn H (take ?k ?xs)] (length h2)"
    using trail_left [of "length h" r ?h "length h2" l "[]" "length h2"] R len lr J(1,3,4) nl
    by (simp add: trail_end new_node_def)
  have goal: "length h \<le> (lefts @ rights) ! i \<and> (lefts @ rights) ! i < length ?h \<and>
      pn_Hash (?h ! ((lefts @ rights) ! i)) = leafHash H (items ! i) \<and>
      trail (length h) ?h ((lefts @ rights) ! i) (aunts H ?xs i) (length h2)" if i: "i < length items" for i
  proof (cases "i < ?k")
    case True
    then have a: "length h \<le> lefts ! i" "lefts ! i < length h1" "(lefts @ rights) ! i = lefts ! i"
      "pn_Hash (h1 ! (lefts ! i)) = leafHash H (items ! i)"
      and t: "trail (length h) h1 (lefts ! i) (aunts H (take ?k ?xs) i) l"
      using L i k by (auto simp: nth_append take_map)
    have "trail (length h) ?h (lefts ! i) (aunts H (take ?k ?xs) i) l"
      using t by (rule trail_keep) (use L R len J old nl in \<open>auto simp: new_node_def\<close>)
    from trail_trans [OF this up_l] show ?thesis using a len J old True by (simp add: au)
  next
    case False
    let ?i = "i - ?k"
    have a: "length h1 \<le> rights ! ?i" "rights ! ?i < length h2" "(lefts @ rights) ! i = rights ! ?i"
      "pn_Hash (h2 ! (rights ! ?i)) = leafHash H (items ! i)"
      and t: "trail (length h1) h2 (rights ! ?i) (aunts H (drop ?k ?xs) ?i) r"
      using L R i k False by (auto simp: nth_append drop_map)
    have "trail (length h1) ?h (rights ! ?i) (aunts H (drop ?k ?xs) ?i) r"
      using t by (rule trail_keep) (use L R len J nr in \<open>auto simp: new_node_def\<close>)
    from trail_trans [OF trail_lower [OF this len(1)] up_r] show ?thesis using a len J False by (simp add: au)
  qed
  have "take (length h) ?h = h"
  proof (rule nth_equalityI)
    show "length (take (length h) ?h) = length h" using len J(1) by simp
    fix b assume "b < length (take (length h) ?h)"
    then have b: "b < length h" by simp
    then have "?h ! b = h1 ! b" using J(5) [of b] L R len old [of b] by auto
    then show "take (length h) ?h ! b = h ! b" using b L by (metis nth_take)
  qed
  then show ?thesis
    using L R len J(1,2) goal two k mtn_split [of ?xs H] by (auto simp: trails_ok_def)
qed

lemma trails_correct:
  "\<exists>res. (trailsFromByteSlices H items h :: ('e, nodes \<times> nat list \<times> nat) outcome) = Return res \<and> trails_ok H items h res"
proof (induction items arbitrary: h rule: split_induct)
  case nil
  show ?case by (simp add: trails_ok_def)
next
  case (one x)
  show ?case by (auto simp: trails_ok_def new_node_def aunts.simps trail_end)
next
  case (split xs)
  let ?k = "split_point (length xs)"
  obtain h1 lefts l where left: "(trailsFromByteSlices H (take ?k xs) h :: ('e, nodes \<times> nat list \<times> nat) outcome) = Return (h1, lefts, l)"
      "trails_ok H (take ?k xs) h (h1, lefts, l)"
    using split(2) [of h] by auto
  obtain h2 rights r where right: "(trailsFromByteSlices H (drop ?k xs) h1 :: ('e, nodes \<times> nat list \<times> nat) outcome) = Return (h2, rights, r)"
      "trails_ok H (drop ?k xs) h1 (h2, rights, r)"
    using split(3) [of h1] by auto
  obtain x y zs where xs: "xs = x # y # zs" using split(1) by (auto simp: numeral_2_eq_2 Suc_le_length_iff)
  have "(trailsFromByteSlices H xs h :: ('e, nodes \<times> nat list \<times> nat) outcome) =
      bind_o (getSplitPoint (int (length xs))) (\<lambda>k.
      bind_o (trailsFromByteSlices H (take (nat k) xs) h) (\<lambda>(h1, lefts, leftRoot).
      bind_o (trailsFromByteSlices H (drop (nat k) xs) h1) (\<lambda>(h2, rights, rightRoot).
      Return (join_nodes H h2 leftRoot rightRoot, lefts @ rights, length h2))))"
    unfolding xs by (rule trailsFromByteSlices.simps)
  also have "\<dots> = Return (join_nodes H h2 l r, lefts @ rights, length h2)"
    by (simp add: getSplitPoint_eq [OF split(1)] left right)
  finally show ?case using trails_ok_join [OF split(1) left(2) right(2)] by blast
qed

lemma proofs_loop_trails:
  assumes "\<And>j. j < length trails \<Longrightarrow> FlattenAunts h (trails ! j) = Some (as j)"
  shows "proofs_loop h tot i trails = Some (map (\<lambda>j. \<lparr>p_Total = tot, p_Index = i + int j,
           p_LeafHash = Some (pn_Hash (h ! (trails ! j))), p_Aunts = as j\<rparr>) [0..<length trails])"
  using assms
proof (induction trails arbitrary: i as)
  case (Cons a trails)
  have "FlattenAunts h a = Some (as 0)" using Cons.prems [of 0] by simp
  moreover have "proofs_loop h tot (i + 1) trails = Some (map (\<lambda>j. \<lparr>p_Total = tot, p_Index = i + 1 + int j,
      p_LeafHash = Some (pn_Hash (h ! (trails ! j))), p_Aunts = as (Suc j)\<rparr>) [0..<length trails])"
    using Cons.prems [of "Suc _"] by (intro Cons.IH) simp
  ultimately show ?case
    by (simp add: map_upt_Suc add.assoc del: upt_Suc)
qed simp

lemma ProofsFromByteSlices_eq:
  "(ProofsFromByteSlices H items :: ('e, (bytes \<times> Proof list) option) outcome) =
     Return (Some (mtn H (map (leafHash H) items),
       map (\<lambda>i. \<lparr>p_Total = int (length items), p_Index = int i, p_LeafHash = Some (leafHash H (items ! i)),
                 p_Aunts = aunts H (map (leafHash H) items) i\<rparr>) [0..<length items]))"
proof -
  obtain h trails root
    where run: "(trailsFromByteSlices H items [] :: ('e, nodes \<times> nat list \<times> nat) outcome) = Return (h, trails, root)"
      and ok: "trails_ok H items [] (h, trails, root)"
    using trails_correct [of H items "[]"] by auto
  note T = ok [unfolded trails_ok_def prod.case]
  have "FlattenAunts h (trails ! j) = Some (aunts H (map (leafHash H) items) j)" if "j < length trails" for j
    using T that flatten_trail [of 0 h "trails ! j" _ root _ "[]"] by (auto simp: FlattenAunts_def)
  from proofs_loop_trails [OF this] show ?thesis
    unfolding ProofsFromByteSlices_def run using T by (auto simp: new_node_def intro!: map_cong)
qed

lemma proof_Verify_made:
  assumes "i < length items"
  shows "proof_Verify H \<lparr>p_Total = int (length items), p_Index = int i, p_LeafHash = Some (leafHash H (items ! i)),
       p_Aunts = aunts H (map (leafHash H) items) i\<rparr> (mtn H (map (leafHash H) items)) (items ! i) = Return ()"
  using computeHashFromAunts_complete [where 'e = proof_error, of i "map (leafHash H) items" H] assms
  by (simp add: proof_Verify_def ComputeRootHash_def slice_def)

text \<open>C6: \<open>ProofsFromByteSlices\<close> returns for every list of items (the walk up the linked nodes
  ends), its root is the root hash of the items, and the \<open>i\<close>-th proof carries the index \<open>i\<close> and is
  accepted by \<open>Verify\<close> for the \<open>i\<close>-th item.\<close>

theorem made_proofs_are_accepted:
  "\<exists>root proofs. ProofsFromByteSlices H items = Return (Some (root, proofs)) \<and>
     HashFromByteSlices H items = Return root \<and> length proofs = length items \<and>
     (\<forall>i<length items. p_Index (proofs ! i) = int i \<and> p_Total (proofs ! i) = int (length items) \<and>
        proof_Verify H (proofs ! i) root (items ! i) = Return ())"
  unfolding ProofsFromByteSlices_eq HashFromByteSlices_mtn by (simp add: proof_Verify_made)

theorem made_proofs_are_accepted_witness:
  "\<exists>root proofs. (ProofsFromByteSlices (\<lambda>x. x) [[7], [8, 9], [7]] :: (proof_error, _) outcome) = Return (Some (root, proofs)) \<and>
     proof_Verify (\<lambda>x. x) (proofs ! 2) root [7] = Return ()"
proof -
  obtain root proofs where "(ProofsFromByteSlices (\<lambda>x. x) [[7], [8, 9], [7]] :: (proof_error, _) outcome) = Return (Some (root, proofs))"
    and acc: "\<forall>i<length [[7], [8, 9], [7 :: byte]].
      p_Index (proofs ! i) = int i \<and> p_Total (proofs ! i) = int (length [[7], [8, 9], [7 :: byte]]) \<and>
      proof_Verify (\<lambda>x. x) (proofs ! i) root ([[7], [8, 9], [7]] ! i) = Return ()"
    using made_proofs_are_accepted [of "\<lambda>x. x" "[[7], [8, 9], [7]]"] by blast
  moreover have "proof_Verify (\<lambda>x. x) (proofs ! 2) root [7] = Return ()"
    using acc [rule_format, of 2] by simp
  ultimately show ?thesis by blast
qed

section \<open>Accepted proofs are honest\<close>

function tree_strings :: "(bytes \<Rightarrow> bytes) \<Rightarrow> bytes list \<Rightarrow> bytes list" where
  \<comment> \<open>the strings that are hashed for the root of a list of items\<close>
  "tree_strings H [] = [[]]"
| "tree_strings H [x] = [0 # x]"
| "tree_strings H (x # y # zs) =
     (let k = split_point (length (x # y # zs)); l = take k (x # y # zs); r = drop k (x # y # zs)
      in (1 # mtn H (map (leafHash H) l) @ mtn H (map (leafHash H) r)) # tree_strings H l @ tree_strings H r)"
  by pat_completeness auto
termination
  by (relation "measure (\<lambda>(H, items). length items)") (simp_all add: split_point_less)

declare tree_strings.simps(3) [simp del]

function proof_strings :: "(bytes \<Rightarrow> bytes) \<Rightarrow> int \<Rightarrow> int \<Rightarrow> bytes \<Rightarrow> bytes list \<Rightarrow> bytes list" where
  \<comment> \<open>the inner strings that are hashed when a proof is verified\<close>
  "proof_strings H idx tot lh as =
     (if idx \<ge> tot \<or> idx < 0 \<or> tot \<le> 1 \<or> as = [] then []
      else case (getSplitPoint tot :: (proof_error, int) outcome) of
             Return k \<Rightarrow>
               (let i = (if idx < k then idx else idx - k); t = (if idx < k then k else tot - k)
                in (case (computeHashFromAunts H i t (Some lh) (butlast as) :: (proof_error, bytes option) outcome) of
                      Return (Some h) \<Rightarrow> [1 # (if idx < k then h @ last as else last as @ h)]
                    | _ \<Rightarrow> [])
                   @ proof_strings H i t lh (butlast as))
           | _ \<Rightarrow> [])"
  by pat_completeness auto
termination
  by (relation "measure (\<lambda>(H, idx, tot, lh, as). length as)") auto

declare proof_strings.simps [simp del]

lemma tree_strings_split:
  assumes "2 \<le> length items"
  shows "tree_strings H items =
    (1 # mtn H (map (leafHash H) (take (split_point (length items)) items)) @
         mtn H (map (leafHash H) (drop (split_point (length items)) items)))
    # tree_strings H (take (split_point (length items)) items) @ tree_strings H (drop (split_point (length items)) items)"
proof -
  obtain x y zs where "items = x # y # zs" using assms by (auto simp: numeral_2_eq_2 Suc_le_length_iff)
  then show ?thesis using tree_strings.simps(3) [of H x y zs] by (simp add: Let_def)
qed

lemma getSplitPoint_int:
  assumes "1 < tot"
  shows "(getSplitPoint tot :: ('e, int) outcome) = Return (int (split_point (nat tot)))" "split_point (nat tot) < nat tot"
  using getSplitPoint_eq [where 'e = 'e, of "nat tot"] split_point_less [of "nat tot"] assms by auto

lemma computeHashFromAunts_SomeD:
  assumes "(computeHashFromAunts H idx tot lh as :: ('e, bytes option) outcome) = Return (Some h)"
  obtains (leaf) "tot = 1" "idx = 0" "as = []" "lh = Some h"
  | (left) l k where "1 < tot" "0 \<le> idx" "k = int (split_point (nat tot))" "idx < k" "as \<noteq> []"
      "(computeHashFromAunts H idx k lh (butlast as) :: ('e, bytes option) outcome) = Return (Some l)"
      "h = H (1 # l @ last as)"
  | (right) r k where "1 < tot" "k = int (split_point (nat tot))" "k \<le> idx" "idx < tot" "as \<noteq> []"
      "(computeHashFromAunts H (idx - k) (tot - k) lh (butlast as) :: ('e, bytes option) outcome) = Return (Some r)"
      "h = H (1 # last as @ r)"
proof -
  have in_range: "0 \<le> idx" "idx < tot"
    using assms by (auto simp: computeHashFromAunts.simps [of H idx] split: if_splits)
  show thesis
  proof (cases "tot = 1")
    case True
    then show thesis using assms in_range
      by (intro leaf) (auto simp: computeHashFromAunts.simps [of H idx] split: if_splits)
  next
    case False
    let ?k = "int (split_point (nat tot))"
    have tot: "1 < tot" using False in_range by linarith
    note sp = getSplitPoint_int(1) [OF tot]
    have ne: "as \<noteq> []"
      using assms tot in_range by (auto simp: computeHashFromAunts.simps [of H idx])
    show thesis
    proof (cases "idx < ?k")
      case True
      with assms tot in_range ne obtain l
        where "(computeHashFromAunts H idx ?k lh (butlast as) :: ('e, bytes option) outcome) = Return (Some l)"
          "h = innerHash H l (last as)"
        by (subst (asm) computeHashFromAunts.simps) (auto simp: sp bind_o_Return_iff)
      then show thesis using tot in_range True ne by (intro left) (auto simp: innerHash_def)
    next
      case False
      with assms tot in_range ne obtain r
        where "(computeHashFromAunts H (idx - ?k) (tot - ?k) lh (butlast as) :: ('e, bytes option) outcome) = Return (Some r)"
          "h = innerHash H (last as) r"
        by (subst (asm) computeHashFromAunts.simps) (auto simp: sp bind_o_Return_iff)
      then show thesis using tot in_range False ne by (intro right) (auto simp: innerHash_def)
    qed
  qed
qed

lemma mtn_size:
  assumes "\<And>x. length (H x) = n"
  shows "(\<And>x. x \<in> set xs \<Longrightarrow> length x = n) \<Longrightarrow> length (mtn H xs) = n"
proof (induction xs rule: split_induct)
  case (split xs)
  then show ?case by (simp add: mtn_split [OF split(1), of H] innerHash_def assms)
qed (simp_all add: emptyHash_def assms)

lemma computeHashFromAunts_size:
  assumes "\<And>x. length (H x) = n" "length lh = n"
    and "(computeHashFromAunts H idx tot (Some lh) as :: ('e, bytes option) outcome) = Return (Some h)"
  shows "length h = n"
  using assms(3) by (cases rule: computeHashFromAunts_SomeD) (use assms(1,2) in simp_all)

lemma root_string:
  \<comment> \<open>the root hash is the hash of one of the strings of the tree\<close>
  obtains (empty) "items = []" "mtn H (map (leafHash H) items) = H []" "[] \<in> set (tree_strings H items)"
  | (leaf) x where "items = [x]" "mtn H (map (leafHash H) items) = H (0 # x)" "0 # x \<in> set (tree_strings H items)"
  | (inner) l r where "2 \<le> length items" "mtn H (map (leafHash H) items) = H (1 # l @ r)"
      "1 # l @ r \<in> set (tree_strings H items)"
      "l = mtn H (map (leafHash H) (take (split_point (length items)) items))"
      "r = mtn H (map (leafHash H) (drop (split_point (length items)) items))"
      "set (tree_strings H (take (split_point (length items)) items)) \<subseteq> set (tree_strings H items)"
      "set (tree_strings H (drop (split_point (length items)) items)) \<subseteq> set (tree_strings H items)"
proof -
  consider "items = []" | x where "items = [x]" | "2 \<le> length items"
    by (cases items rule: list.exhaust; cases "tl items") auto
  then show thesis
  proof cases
    case 1
    then show thesis by (intro empty) (simp_all add: emptyHash_def)
  next
    case 2
    then show thesis by (intro leaf) (simp_all add: leafHash_def)
  next
    case 3
    then show thesis
      using mtn_split [of "map (leafHash H) items" H] tree_strings_split [OF 3, of H]
      by (intro inner) (auto simp: innerHash_def take_map drop_map)
  qed
qed

lemma proof_strings_step:
  assumes "1 < tot" "0 \<le> idx" "idx < tot" "as \<noteq> []" "k = int (split_point (nat tot))"
    and "i = (if idx < k then idx else idx - k)" "t = (if idx < k then k else tot - k)"
    and "(computeHashFromAunts H i t (Some lh) (butlast as) :: (proof_error, bytes option) outcome) = Return (Some h)"
  shows "set (proof_strings H idx tot lh as) =
    insert (1 # (if idx < k then h @ last as else last as @ h)) (set (proof_strings H i t lh (butlast as)))"
  using assms getSplitPoint_int(1) [where 'e = proof_error, OF assms(1)]
  by (subst proof_strings.simps) (auto simp: Let_def)

lemma accepted_leaf_core:
  assumes len: "\<And>x. length (H x) = n"
  shows "(computeHashFromAunts H idx tot (Some (H (0 # leaf))) as :: (proof_error, bytes option) outcome) =
      Return (Some (mtn H (map (leafHash H) items))) \<Longrightarrow>
    inj_on H (insert (0 # leaf) (set (tree_strings H items) \<union> set (proof_strings H idx tot (H (0 # leaf)) as))) \<Longrightarrow>
    leaf \<in> set items \<and> (tot = int (length items) \<longrightarrow> leaf = items ! nat idx)"
proof (induction "length as" arbitrary: idx tot as items rule: less_induct)
  case less
  let ?S = "insert (0 # leaf) (set (tree_strings H items) \<union> set (proof_strings H idx tot (H (0 # leaf)) as))"
  note inj = inj_onD [OF less.prems(2)]
  let ?k = "split_point (length items)"
  have size: "length (mtn H (map (leafHash H) ys)) = n" for ys
    by (rule mtn_size) (auto simp: len leafHash_def)
  from less.prems(1) show ?case
  proof (cases rule: computeHashFromAunts_SomeD)
    case leaf
    have root: "0 # leaf = y" if "mtn H (map (leafHash H) items) = H y" "y \<in> set (tree_strings H items)" for y
      by (rule inj) (use leaf(4) that in auto)
    show ?thesis by (rule root_string [of items H]) (use root leaf(2) in fastforce)+
  next
    case (left l k)
    have S: "set (proof_strings H idx tot (H (0 # leaf)) as) =
        insert (1 # l @ last as) (set (proof_strings H idx k (H (0 # leaf)) (butlast as)))"
      using left getSplitPoint_int(2) [of tot] by (subst proof_strings_step [where k = k and h = l]) auto
    have l_size: "length l = n" by (rule computeHashFromAunts_size [OF len len left(6)])
    have root: "1 # l @ last as = y" if "mtn H (map (leafHash H) items) = H y" "y \<in> set (tree_strings H items)" for y
      by (rule inj) (use left(7) S that in auto)
    show ?thesis
    proof (rule root_string [of items H])
      fix l' r' assume inner: "2 \<le> length items" "mtn H (map (leafHash H) items) = H (1 # l' @ r')"
        "1 # l' @ r' \<in> set (tree_strings H items)" "l' = mtn H (map (leafHash H) (take ?k items))"
        "set (tree_strings H (take ?k items)) \<subseteq> set (tree_strings H items)"
      have "1 # l @ last as = 1 # l' @ r'" using inner(2,3) by (rule root)
      then have "l = mtn H (map (leafHash H) (take ?k items))" using l_size size inner(4) by simp
      then have run: "(computeHashFromAunts H idx k (Some (H (0 # leaf))) (butlast as) :: (proof_error, bytes option) outcome) =
          Return (Some (mtn H (map (leafHash H) (take ?k items))))" using left(6) by simp
      have sub: "inj_on H (insert (0 # leaf)
          (set (tree_strings H (take ?k items)) \<union> set (proof_strings H idx k (H (0 # leaf)) (butlast as))))"
        by (rule inj_on_subset [OF less.prems(2)]) (use inner(5) S in blast)
      have "leaf \<in> set (take ?k items) \<and> (k = int (length (take ?k items)) \<longrightarrow> leaf = take ?k items ! nat idx)"
        using left(5) by (intro less.hyps [OF _ run sub]) simp
      then show ?thesis using left(2-4) split_point_less [OF inner(1)] by (auto dest: in_set_takeD)
    qed (use root in fastforce)+
  next
    case (right r k)
    have S: "set (proof_strings H idx tot (H (0 # leaf)) as) =
        insert (1 # last as @ r) (set (proof_strings H (idx - k) (tot - k) (H (0 # leaf)) (butlast as)))"
      using right by (subst proof_strings_step [where k = k and h = r]) auto
    have r_size: "length r = n" by (rule computeHashFromAunts_size [OF len len right(6)])
    have root: "1 # last as @ r = y" if "mtn H (map (leafHash H) items) = H y" "y \<in> set (tree_strings H items)" for y
      by (rule inj) (use right(7) S that in auto)
    show ?thesis
    proof (rule root_string [of items H])
      fix l' r' assume inner: "2 \<le> length items" "mtn H (map (leafHash H) items) = H (1 # l' @ r')"
        "1 # l' @ r' \<in> set (tree_strings H items)" "r' = mtn H (map (leafHash H) (drop ?k items))"
        "set (tree_strings H (drop ?k items)) \<subseteq> set (tree_strings H items)"
      have "1 # last as @ r = 1 # l' @ r'" using inner(2,3) by (rule root)
      then have "r = mtn H (map (leafHash H) (drop ?k items))" using r_size size inner(4) by simp
      then have run: "(computeHashFromAunts H (idx - k) (tot - k) (Some (H (0 # leaf))) (butlast as) :: (proof_error, bytes option) outcome) =
          Return (Some (mtn H (map (leafHash H) (drop ?k items))))" using right(6) by simp
      have sub: "inj_on H (insert (0 # leaf)
          (set (tree_strings H (drop ?k items)) \<union> set (proof_strings H (idx - k) (tot - k) (H (0 # leaf)) (butlast as))))"
        by (rule inj_on_subset [OF less.prems(2)]) (use inner(5) S in blast)
      have "leaf \<in> set (drop ?k items) \<and>
          (tot - k = int (length (drop ?k items)) \<longrightarrow> leaf = drop ?k items ! nat (idx - k))"
        using right(5) by (intro less.hyps [OF _ run sub]) simp
      then show ?thesis
        using right(1-4) split_point_less [OF inner(1)] by (auto dest: in_set_dropD simp: nat_diff_distrib)
    qed (use root in fastforce)+
  qed
qed

definition verify_strings :: "(bytes \<Rightarrow> bytes) \<Rightarrow> Proof \<Rightarrow> bytes \<Rightarrow> bytes list" where
  \<comment> \<open>the strings that \<open>Verify\<close> hashes\<close>
  "verify_strings H sp leaf = (0 # leaf) # proof_strings H (p_Index sp) (p_Total sp) (leafHash H leaf) (p_Aunts sp)"

lemma proof_Verify_ReturnD:
  assumes "\<And>x. length (H x) = 32" "proof_Verify H sp rootHash leaf = Return ()" "length rootHash = 32"
  shows "p_LeafHash sp = Some (leafHash H leaf)"
    and "(computeHashFromAunts H (p_Index sp) (p_Total sp) (Some (H (0 # leaf))) (p_Aunts sp) :: (proof_error, bytes option) outcome) =
      Return (Some rootHash)"
proof -
  have "slice (p_LeafHash sp) = leafHash H leaf" using assms(2) by (auto simp: proof_Verify_def split: if_splits)
  moreover have "leafHash H leaf \<noteq> []" using assms(1) by (metis leafHash_def list.size(3) zero_neq_numeral)
  ultimately show leaf: "p_LeafHash sp = Some (leafHash H leaf)" by (cases "p_LeafHash sp") (auto simp: slice_def)
  obtain c where "(ComputeRootHash H sp :: (proof_error, bytes option) outcome) = Return c" "slice c = rootHash"
    using assms(2) by (auto simp: proof_Verify_def bind_o_Return_iff split: if_splits)
  moreover have "rootHash \<noteq> []" using assms(3) by auto
  ultimately show "(computeHashFromAunts H (p_Index sp) (p_Total sp) (Some (H (0 # leaf))) (p_Aunts sp) :: (proof_error, bytes option) outcome) =
      Return (Some rootHash)"
    using leaf by (cases c) (auto simp: slice_def ComputeRootHash_def leafHash_def)
qed

text \<open>C7: soundness of Merkle proofs.  If \<open>Verify\<close> accepts a proof for a leaf and the root of
  some items, and SHA-256 has no collision among the strings hashed for the root and for the
  verification, then the leaf is one of the items, whatever total and index the proof claims;
  and it is the item at the claimed index when the claimed total is the number of items.\<close>

theorem accepted_proofs_are_honest:
  assumes "\<And>x. length (H x) = 32"
    and "HashFromByteSlices H items = (Return rootHash :: (proof_error, bytes) outcome)"
    and "proof_Verify H sp rootHash leaf = Return ()"
    and "inj_on H (set (tree_strings H items) \<union> set (verify_strings H sp leaf))"
  shows "leaf \<in> set items \<and> (p_Total sp = int (length items) \<longrightarrow> leaf = items ! nat (p_Index sp))"
proof -
  have root: "rootHash = mtn H (map (leafHash H) items)" using assms(2) by (simp add: HashFromByteSlices_mtn)
  then have "length rootHash = 32" using mtn_size [of H 32 "map (leafHash H) items"] assms(1) by (auto simp: leafHash_def)
  from proof_Verify_ReturnD(2) [OF assms(1,3) this] show ?thesis
    unfolding root by (rule accepted_leaf_core [OF assms(1)])
      (use assms(4) in \<open>simp add: verify_strings_def leafHash_def\<close>)
qed

definition sum_hash :: "bytes \<Rightarrow> bytes" where
  "sum_hash x = replicate 31 0 @ [foldl (\<lambda>a b. 3 * a + b) 7 x]"

theorem accepted_proofs_are_honest_witness:
  "proof_Verify sum_hash \<lparr>p_Total = 2, p_Index = 1, p_LeafHash = Some (sum_hash [0, 8]), p_Aunts = [sum_hash [0, 7]]\<rparr>
     (sum_hash (1 # sum_hash [0, 7] @ sum_hash [0, 8])) [8] = Return () \<and>
   [8 :: byte] \<in> set [[7], [8]] \<and> [8 :: byte] = [[7], [8]] ! nat 1"
proof -
  let ?sp = "\<lparr>p_Total = 2, p_Index = 1, p_LeafHash = Some (sum_hash [0, 8]), p_Aunts = [sum_hash [0, 7]]\<rparr>"
  let ?root = "sum_hash (1 # sum_hash [0, 7] @ sum_hash [0, 8])"
  have size: "length (sum_hash x) = 32" for x by (simp add: sum_hash_def)
  have root: "HashFromByteSlices sum_hash [[7], [8]] = (Return ?root :: (proof_error, bytes) outcome)"
    by code_simp
  have ok: "proof_Verify sum_hash ?sp ?root [8] = Return ()" by code_simp
  have inj: "inj_on sum_hash (set (tree_strings sum_hash [[7], [8]]) \<union> set (verify_strings sum_hash ?sp [8]))"
    unfolding inj_on_def by code_simp
  from ok accepted_proofs_are_honest [OF size root ok inj] show ?thesis by simp
qed

end
