(* ===== verification/PartSets.thy ===== *)
theory PartSets
  imports Merkle Bits
begin

text \<open>
  Part sets of \<open>types/part_set.go\<close>: a block is cut into parts, each with a Merkle proof; a node
  that only knows the header collects parts in any order and reads the block back through a
  \<open>PartSetReader\<close>.  A nil \<open>*PartSet\<close> is \<open>None\<close>.

  The invariant \<open>ps_ok\<close> ties the counter, the bit array and the byte size to the slots that are
  filled.
\<close>

section \<open>Parts and part sets\<close>

record Part =
  part_Index :: "32 word"
  part_Bytes :: bytes
  part_Proof :: Proof

record PartSet =
  ps_total :: "32 word"
  ps_hash :: bytes
  ps_parts :: "Part option list"
  ps_partsBitArray :: "bit_array option"
  ps_count :: "32 word"
  ps_byteSize :: int

datatype part_error = ErrPartSetUnexpectedIndex | ErrPartSetInvalidProof | PartTooBig | WrongProof proof_error

definition BlockPartSizeBytes :: "32 word" where
  "BlockPartSizeBytes = 65536"

definition part_ValidateBasic :: "Part \<Rightarrow> (part_error, unit) outcome" where
  "part_ValidateBasic part =
     (if length (part_Bytes part) > unat BlockPartSizeBytes then Error PartTooBig
      else case proof_ValidateBasic (part_Proof part) of
             Return _ \<Rightarrow> Return ()
           | Error e \<Rightarrow> Error (WrongProof e)
           | Panic \<Rightarrow> Panic)"

definition NewPartSetFromHeader :: "PartSetHeader \<Rightarrow> PartSet" where
  "NewPartSetFromHeader header =
     \<lparr>ps_total = psh_Total header, ps_hash = psh_Hash header,
      ps_parts = replicate (unat (psh_Total header)) None,
      ps_partsBitArray = NewBitArray (uint (psh_Total header)), ps_count = 0, ps_byteSize = 0\<rparr>"

definition ps_Header :: "PartSet option \<Rightarrow> PartSetHeader" where
  "ps_Header ps =
     (case ps of None \<Rightarrow> \<lparr>psh_Total = 0, psh_Hash = []\<rparr>
      | Some s \<Rightarrow> \<lparr>psh_Total = ps_total s, psh_Hash = ps_hash s\<rparr>)"

definition HasHeader :: "PartSet option \<Rightarrow> PartSetHeader \<Rightarrow> bool" where
  "HasHeader ps header = (case ps of None \<Rightarrow> False | Some _ \<Rightarrow> psh_Equals (ps_Header ps) header)"

definition ps_Hash :: "(bytes \<Rightarrow> bytes) \<Rightarrow> PartSet option \<Rightarrow> (part_error, bytes) outcome" where
  "ps_Hash H ps = (case ps of None \<Rightarrow> HashFromByteSlices H [] | Some s \<Rightarrow> Return (ps_hash s))"

definition ps_HashesTo :: "PartSet option \<Rightarrow> bytes \<Rightarrow> bool" where
  "ps_HashesTo ps hash = (case ps of None \<Rightarrow> False | Some s \<Rightarrow> ps_hash s = hash)"

definition ByteSize :: "PartSet option \<Rightarrow> int" where
  "ByteSize ps = (case ps of None \<Rightarrow> 0 | Some s \<Rightarrow> ps_byteSize s)"

definition ps_Total :: "PartSet option \<Rightarrow> 32 word" where
  "ps_Total ps = (case ps of None \<Rightarrow> 0 | Some s \<Rightarrow> ps_total s)"

definition AddPart :: "(bytes \<Rightarrow> bytes) \<Rightarrow> PartSet option \<Rightarrow> Part \<Rightarrow> (part_error, bool \<times> PartSet option) outcome" where
  "AddPart H ps part =
     (case ps of
        None \<Rightarrow> Return (False, None)
      | Some s \<Rightarrow>
          if part_Index part \<ge> ps_total s then Error ErrPartSetUnexpectedIndex
          else bind_o (nth_go (ps_parts s) (uint (part_Index part))) (\<lambda>slot.
            if slot \<noteq> None then Return (False, ps)
            else bind_o (ps_Hash H ps) (\<lambda>root.
              case proof_Verify H (part_Proof part) root (part_Bytes part) of
                Panic \<Rightarrow> Panic
              | Error _ \<Rightarrow> Error ErrPartSetInvalidProof
              | Return _ \<Rightarrow>
                  bind_o (upd_go (ps_parts s) (uint (part_Index part)) (Some part)) (\<lambda>parts.
                  bind_o (SetIndex (ps_partsBitArray s) (uint (part_Index part)) True) (\<lambda>(_, bits).
                  Return (True, Some (s\<lparr>ps_parts := parts, ps_partsBitArray := bits, ps_count := ps_count s + 1,
                    ps_byteSize := i64 (ps_byteSize s + int (length (part_Bytes part)))\<rparr>)))))))"

definition GetPart :: "PartSet \<Rightarrow> int \<Rightarrow> (part_error, Part option) outcome" where
  "GetPart s index = nth_go (ps_parts s) index"

definition IsComplete :: "PartSet \<Rightarrow> bool" where
  "IsComplete s \<longleftrightarrow> ps_count s = ps_total s"

section \<open>Cutting data into parts\<close>

definition go_slice :: "'a list \<Rightarrow> int \<Rightarrow> int \<Rightarrow> (part_error, 'a list) outcome" where
  \<comment> \<open>\<open>xs[lo:hi]\<close>\<close>
  "go_slice xs lo hi =
     (if 0 \<le> lo \<and> lo \<le> hi \<and> hi \<le> int (length xs)
      then Return (take (nat hi - nat lo) (drop (nat lo) xs)) else Panic)"

definition part_bytes :: "bytes \<Rightarrow> 32 word \<Rightarrow> 32 word \<Rightarrow> (part_error, bytes) outcome" where
  \<comment> \<open>the bytes of one part; the products are computed on 32 bits\<close>
  "part_bytes data partSize i =
     go_slice data (uint (i * partSize)) (min (int (length data)) (uint ((i + 1) * partSize)))"

fun cut_loop ::
    "bytes \<Rightarrow> 32 word \<Rightarrow> nat list \<Rightarrow> bit_array option \<Rightarrow> (part_error, bytes list \<times> bit_array option) outcome" where
  "cut_loop data partSize [] bits = Return ([], bits)"
| "cut_loop data partSize (i # is) bits =
     bind_o (part_bytes data partSize (word_of_nat i)) (\<lambda>b.
     bind_o (SetIndex bits (int i) True) (\<lambda>(_, bits').
     bind_o (cut_loop data partSize is bits') (\<lambda>(bs, bits'').
     Return (b # bs, bits''))))"

definition NewPartSetFromData ::
    "(bytes \<Rightarrow> bytes) \<Rightarrow> bytes \<Rightarrow> 32 word \<Rightarrow> (part_error, PartSet option) outcome" where
  \<comment> \<open>\<open>None\<close>: making the proofs does not end\<close>
  "NewPartSetFromData H data partSize =
     (if partSize = 0 then Panic
      else let n = (word_of_nat (length data) + partSize - 1) div partSize
           in bind_o (cut_loop data partSize [0..<unat n] (NewBitArray (uint n))) (\<lambda>(partsBytes, bits).
              bind_o (ProofsFromByteSlices H partsBytes) (\<lambda>res.
              case res of
                None \<Rightarrow> Return None
              | Some (rootHash, proofs) \<Rightarrow>
                  Return (Some \<lparr>ps_total = n, ps_hash = rootHash,
                    ps_parts = map (\<lambda>(i, b, pr). Some \<lparr>part_Index = word_of_nat i, part_Bytes = b, part_Proof = pr\<rparr>)
                                 (zip [0..<unat n] (zip partsBytes proofs)),
                    ps_partsBitArray = bits, ps_count = n, ps_byteSize = int (length data)\<rparr>))))"

section \<open>Reading the data back\<close>

record PartSetReader =
  psr_i :: int
  psr_parts :: "Part option list"
  psr_reader :: bytes  \<comment> \<open>what is left of the current part\<close>

definition NewPartSetReader :: "Part option list \<Rightarrow> (part_error, PartSetReader) outcome" where
  "NewPartSetReader parts =
     bind_o (nth_go parts 0) (\<lambda>p.
     case p of
       None \<Rightarrow> Panic
     | Some part \<Rightarrow> Return \<lparr>psr_i = 0, psr_parts = parts, psr_reader = part_Bytes part\<rparr>)"

definition GetReader :: "PartSet \<Rightarrow> (part_error, PartSetReader) outcome" where
  "GetReader s = (if \<not> IsComplete s then Panic else NewPartSetReader (ps_parts s))"

definition reader_Read :: "nat \<Rightarrow> PartSetReader \<Rightarrow> bytes \<times> bool \<times> PartSetReader" where
  \<comment> \<open>\<open>bytes.Reader.Read\<close> of the current part into \<open>n\<close> bytes: what was read, end of file\<close>
  "reader_Read n psr =
     (if psr_reader psr = [] then ([], True, psr)
      else (take n (psr_reader psr), False, psr\<lparr>psr_reader := drop n (psr_reader psr)\<rparr>))"

function psr_Read :: "nat \<Rightarrow> PartSetReader \<Rightarrow> (part_error, bytes \<times> bool \<times> PartSetReader) outcome" where
  \<comment> \<open>the first recursive call of the second branch asks for exactly what is left, which is the
    first branch\<close>
  "psr_Read n psr =
     (let readerLen = length (psr_reader psr)
      in if readerLen \<ge> n then Return (reader_Read n psr)
         else if readerLen > 0
         then (case reader_Read readerLen psr of
                 (b1, eof1, psr1) \<Rightarrow>
                   if eof1 then Return (b1, eof1, psr1)
                   else bind_o (psr_Read (n - readerLen) psr1) (\<lambda>(b2, eof2, psr2).
                        Return (b1 @ b2, eof2, psr2)))
         else let i = psr_i psr + 1
              in if i \<ge> int (length (psr_parts psr)) then Return ([], True, psr\<lparr>psr_i := i\<rparr>)
                 else bind_o (nth_go (psr_parts psr) i) (\<lambda>p.
                      case p of
                        None \<Rightarrow> Panic
                      | Some part \<Rightarrow> psr_Read n (psr\<lparr>psr_i := i, psr_reader := part_Bytes part\<rparr>)))"
  by pat_completeness auto
termination
  by (relation "measures [\<lambda>(n, psr). nat (int (length (psr_parts psr)) - psr_i psr), \<lambda>(n, psr). n]")
     (auto simp: reader_Read_def split: if_splits)

declare psr_Read.simps [simp del]

partial_function (option) read_all_loop ::
    "(nat \<Rightarrow> nat) \<Rightarrow> nat \<Rightarrow> PartSetReader \<Rightarrow> bytes \<Rightarrow> (part_error, bytes) outcome option" where
  \<comment> \<open>\<open>io.ReadAll\<close>: the buffer offered to the \<open>k\<close>-th read has room for \<open>room k\<close> bytes\<close>
  [code]: "read_all_loop room k psr acc =
     (case psr_Read (room k) psr of
        Return (b, eof, psr') \<Rightarrow>
          if eof then Some (Return (acc @ b)) else read_all_loop room (k + 1) psr' (acc @ b)
      | Error e \<Rightarrow> Some (Error e)
      | Panic \<Rightarrow> Some Panic)"

definition ReadAll :: "(nat \<Rightarrow> nat) \<Rightarrow> PartSetReader \<Rightarrow> (part_error, bytes) outcome option" where
  "ReadAll room psr = read_all_loop room 0 psr []"

section \<open>The reader gives the bytes of all parts\<close>

definition unread :: "PartSetReader \<Rightarrow> bytes" where
  "unread psr = psr_reader psr @ concat (map (part_Bytes \<circ> the) (drop (nat (psr_i psr + 1)) (psr_parts psr)))"

definition psr_ok :: "PartSetReader \<Rightarrow> bool" where
  "psr_ok psr \<longleftrightarrow> 0 \<le> psr_i psr \<and> None \<notin> set (psr_parts psr)"

definition read_post :: "PartSetReader \<Rightarrow> bytes \<times> bool \<times> PartSetReader \<Rightarrow> bool" where
  "read_post psr = (\<lambda>(b, eof, psr'). psr_ok psr' \<and> unread psr = b @ unread psr' \<and>
     (eof \<longrightarrow> unread psr' = []) \<and> (\<not> eof \<longrightarrow> b \<noteq> []))"

lemma unread_next:
  assumes "0 \<le> i" "i < int (length parts)" "parts ! nat i = Some part"
  shows "concat (map (part_Bytes \<circ> the) (drop (nat i) parts)) =
     part_Bytes part @ concat (map (part_Bytes \<circ> the) (drop (nat (i + 1)) parts))"
proof -
  have "drop (nat i) parts = parts ! nat i # drop (Suc (nat i)) parts"
    using assms by (intro Cons_nth_drop_Suc [symmetric]) simp
  moreover have "Suc (nat i) = nat (i + 1)" using assms by simp
  ultimately show ?thesis using assms by simp
qed

lemma psr_Read_here:
  assumes "psr_ok psr" "psr_reader psr \<noteq> []" "n \<le> length (psr_reader psr)" "0 < n"
  shows "\<exists>res. psr_Read n psr = Return res \<and> read_post psr res"
proof -
  have "psr_reader psr @ c = take n (psr_reader psr) @ drop n (psr_reader psr) @ c" for c
    by (metis append_assoc append_take_drop_id)
  then show ?thesis
    using assms by (simp add: psr_Read.simps [of n psr] reader_Read_def read_post_def psr_ok_def unread_def)
qed

lemma psr_Read_split:
  assumes ne: "psr_reader psr \<noteq> []" and n: "length (psr_reader psr) < n"
    and run: "psr_Read (n - length (psr_reader psr)) (psr\<lparr>psr_reader := []\<rparr>) = Return res"
    and post: "read_post (psr\<lparr>psr_reader := []\<rparr>) res"
  shows "\<exists>res. psr_Read n psr = Return res \<and> read_post psr res"
proof -
  obtain b eof psr' where res: "res = (b, eof, psr')" by (cases res)
  have "psr_Read n psr = Return (psr_reader psr @ b, eof, psr')"
    using ne n run by (simp add: psr_Read.simps [of n psr] reader_Read_def Let_def res)
  then show ?thesis using post ne by (auto simp: res read_post_def unread_def)
qed

lemma psr_Read_post:
  assumes "psr_ok psr" "0 < n"
  shows "\<exists>res. (psr_Read n psr :: (part_error, _) outcome) = Return res \<and> read_post psr res"
  using assms
proof (induction "nat (int (length (psr_parts psr)) - psr_i psr)" arbitrary: psr n rule: less_induct)
  case less
  have next_part: "\<exists>res. (psr_Read m p :: (part_error, _) outcome) = Return res \<and> read_post p res"
    if p: "p = psr\<lparr>psr_reader := []\<rparr>" and m: "0 < m" for p m
  proof (cases "psr_i psr + 1 \<ge> int (length (psr_parts psr))")
    case True
    then have "psr_Read m p = Return ([], True, p\<lparr>psr_i := psr_i psr + 1\<rparr>)"
      using m unfolding p by (subst psr_Read.simps) simp
    then show ?thesis using True less.prems p
      by (intro exI [of _ "([], True, p\<lparr>psr_i := psr_i psr + 1\<rparr>)"])
         (auto simp: read_post_def psr_ok_def unread_def nat_le_iff)
  next
    case False
    let ?i = "psr_i psr + 1"
    have i: "0 \<le> ?i" "?i < int (length (psr_parts psr))" using False less.prems by (auto simp: psr_ok_def)
    then obtain part where part: "psr_parts psr ! nat ?i = Some part"
      using less.prems by (metis nat_less_iff nth_mem option.exhaust psr_ok_def)
    let ?q = "p\<lparr>psr_i := ?i, psr_reader := part_Bytes part\<rparr>"
    have "(psr_Read m p :: (part_error, _) outcome) = psr_Read m ?q"
      using m i part unfolding p by (subst psr_Read.simps) (simp add: nth_go_def)
    moreover have "\<exists>res. (psr_Read m ?q :: (part_error, _) outcome) = Return res \<and> read_post ?q res"
      using less.prems i m by (intro less.hyps) (auto simp: p psr_ok_def)
    moreover have "unread ?q = unread p"
      using unread_next [OF i part] by (simp add: unread_def p)
    ultimately show ?thesis by (auto simp: read_post_def)
  qed
  show ?case
  proof (cases "psr_reader psr = []")
    case True
    then have "psr = psr\<lparr>psr_reader := []\<rparr>" by simp
    then show ?thesis using next_part less.prems by metis
  next
    case ne: False
    show ?thesis
    proof (cases "n \<le> length (psr_reader psr)")
      case True
      then show ?thesis using psr_Read_here less.prems ne by blast
    next
      case False
      then show ?thesis
        using next_part [OF refl, of "n - length (psr_reader psr)"] psr_Read_split [OF ne, of n] by auto
    qed
  qed
qed

lemma read_all_loop_eq:
  "psr_ok psr \<Longrightarrow> (\<And>k. 0 < room k) \<Longrightarrow> read_all_loop room k psr acc = Some (Return (acc @ unread psr))"
proof (induction "length (unread psr)" arbitrary: psr k acc rule: less_induct)
  case less
  obtain b eof psr' where run: "(psr_Read (room k) psr :: (part_error, _) outcome) = Return (b, eof, psr')"
    and post: "read_post psr (b, eof, psr')"
    using psr_Read_post [OF less.prems(1), of "room k"] less.prems(2) by auto
  show ?case
  proof (cases eof)
    case True
    then show ?thesis using post by (simp add: read_all_loop.simps [of room k] run read_post_def)
  next
    case False
    then have "read_all_loop room (k + 1) psr' (acc @ b) = Some (Return ((acc @ b) @ unread psr'))"
      using post less.prems by (intro less.hyps) (auto simp: read_post_def)
    then show ?thesis using post False by (simp add: read_all_loop.simps [of room k] run read_post_def)
  qed
qed

lemma reader_of_full_set:
  assumes "None \<notin> set parts" "parts \<noteq> []"
  obtains psr where "NewPartSetReader parts = Return psr" "psr_ok psr"
    "unread psr = concat (map (part_Bytes \<circ> the) parts)"
proof -
  obtain part ps where parts: "parts = Some part # ps"
    using assms by (cases parts; cases "hd parts") auto
  show thesis
    by (rule that [of "\<lparr>psr_i = 0, psr_parts = parts, psr_reader = part_Bytes part\<rparr>"])
       (use assms in \<open>simp_all add: parts NewPartSetReader_def nth_go_def psr_ok_def unread_def\<close>)
qed

section \<open>The invariant of a part set\<close>

definition filled :: "PartSet \<Rightarrow> nat" where
  "filled s = length (filter (\<lambda>p. p \<noteq> None) (ps_parts s))"

definition slots_size :: "Part option list \<Rightarrow> int" where
  "slots_size parts = (\<Sum>p\<leftarrow>parts. case p of None \<Rightarrow> 0 | Some part \<Rightarrow> int (length (part_Bytes part)))"

definition ps_ok :: "PartSet \<Rightarrow> bool" where
  "ps_ok s \<longleftrightarrow>
     length (ps_parts s) = unat (ps_total s) \<and> unat (ps_count s) = filled s \<and>
     ps_byteSize s = i64 (slots_size (ps_parts s)) \<and>
     (case ps_partsBitArray s of
        None \<Rightarrow> ps_total s = 0
      | Some b \<Rightarrow> ba_wf b \<and> Bits b = uint (ps_total s) \<and>
          (\<forall>i<unat (ps_total s). ba_get b i \<longleftrightarrow> ps_parts s ! i \<noteq> None))"

definition put_part :: "PartSet \<Rightarrow> Part \<Rightarrow> PartSet" where
  \<comment> \<open>the effect of adding a part\<close>
  "put_part s part =
     s\<lparr>ps_parts := (ps_parts s)[unat (part_Index part) := Some part],
       ps_partsBitArray := map_option (\<lambda>b. put_bit b (unat (part_Index part)) True) (ps_partsBitArray s),
       ps_count := ps_count s + 1,
       ps_byteSize := i64 (ps_byteSize s + int (length (part_Bytes part)))\<rparr>"

lemma computeHashFromAunts_returns:
  "\<exists>h. (computeHashFromAunts H idx tot lh as :: ('e, bytes option) outcome) = Return h"
proof (induction "length as" arbitrary: idx tot as rule: less_induct)
  case less
  show ?case
  proof (cases "1 < tot \<and> as \<noteq> []")
    case False
    then show ?thesis by (subst computeHashFromAunts.simps) auto
  next
    case True
    then obtain l r where
      "(computeHashFromAunts H idx (int (split_point (nat tot))) lh (butlast as) :: ('e, bytes option) outcome) = Return l"
      "(computeHashFromAunts H (idx - int (split_point (nat tot))) (tot - int (split_point (nat tot))) lh (butlast as)
        :: ('e, bytes option) outcome) = Return r"
      using less [of "butlast as"] by (metis One_nat_def diff_less length_butlast length_greater_0_conv zero_less_one)
    then show ?thesis using True getSplitPoint_int(1) [where 'e = 'e, of tot]
      by (subst computeHashFromAunts.simps) auto
  qed
qed

lemma proof_Verify_no_panic: "proof_Verify H sp rt leaf \<noteq> Panic"
  using computeHashFromAunts_returns [where 'e = proof_error, of H "p_Index sp" "p_Total sp" "p_LeafHash sp" "p_Aunts sp"]
  by (auto simp: proof_Verify_def ComputeRootHash_def split: if_splits)

lemma AddPart_eq:
  assumes "ps_ok s"
  shows "AddPart H (Some s) part =
    (if part_Index part \<ge> ps_total s then Error ErrPartSetUnexpectedIndex
     else if ps_parts s ! unat (part_Index part) \<noteq> None then Return (False, Some s)
     else if proof_Verify H (part_Proof part) (ps_hash s) (part_Bytes part) = Return ()
     then Return (True, Some (put_part s part)) else Error ErrPartSetInvalidProof)"
proof (cases "part_Index part \<ge> ps_total s")
  case True
  then show ?thesis by (simp add: AddPart_def)
next
  case False
  let ?i = "unat (part_Index part)"
  have i: "?i < unat (ps_total s)" using False by (simp add: word_less_nat_alt not_le)
  have len: "length (ps_parts s) = unat (ps_total s)" using assms by (simp add: ps_ok_def)
  obtain b where b: "ps_partsBitArray s = Some b" "ba_wf b" "Bits b = uint (ps_total s)"
    using assms i by (auto simp: ps_ok_def split: option.splits)
  have u: "uint (part_Index part) = int ?i" and i_bits: "?i < nat (Bits b)" using b i by simp_all
  have access: "nth_go (ps_parts s) (uint (part_Index part)) = Return (ps_parts s ! ?i)"
      "upd_go (ps_parts s) (uint (part_Index part)) x = Return ((ps_parts s)[?i := x])"
      "SetIndex (ps_partsBitArray s) (uint (part_Index part)) True = Return (True, Some (put_bit b ?i True))" for x
    unfolding u using i len
    by (simp_all only: SetIndex_def b(1) option.case setIndex_in [OF b(2) i_bits] map_outcome_val.simps
        prod.case nth_go_in upd_go_in)
  show ?thesis
    using False b(1) proof_Verify_no_panic [of H "part_Proof part" "ps_hash s" "part_Bytes part"]
    by (cases "proof_Verify H (part_Proof part) (ps_hash s) (part_Bytes part)")
       (auto simp: AddPart_def access access(3) [unfolded b(1)] ps_Hash_def put_part_def)
qed

lemma filled_update:
  assumes "i < length xs" "xs ! i = None"
  shows "length (filter (\<lambda>p. p \<noteq> None) (xs[i := Some x])) = Suc (length (filter (\<lambda>p. p \<noteq> None) xs))"
  using assms by (induction xs arbitrary: i) (auto split: nat.split simp: nth_Cons)

lemma slots_size_update:
  assumes "i < length xs" "xs ! i = None"
  shows "slots_size (xs[i := Some part]) = slots_size xs + int (length (part_Bytes part))"
  using assms by (induction xs arbitrary: i) (auto split: nat.split simp: nth_Cons slots_size_def)

lemma filled_put_part:
  assumes "ps_ok s" "part_Index part < ps_total s" "ps_parts s ! unat (part_Index part) = None"
  shows "filled (put_part s part) = Suc (filled s)"
  using filled_update [of "unat (part_Index part)" "ps_parts s" part] assms
  by (simp add: filled_def put_part_def ps_ok_def word_less_nat_alt)

lemma ps_ok_put_part:
  assumes ok: "ps_ok s" and i: "part_Index part < ps_total s" and free: "ps_parts s ! unat (part_Index part) = None"
  shows "ps_ok (put_part s part)"
proof -
  let ?i = "unat (part_Index part)"
  have i': "?i < unat (ps_total s)" using i by (simp add: word_less_nat_alt)
  have len: "length (ps_parts s) = unat (ps_total s)" using ok by (simp add: ps_ok_def)
  note up = slots_size_update [of ?i "ps_parts s" part]
  have fits: "filled (put_part s part) = Suc (filled s)" using ok i free by (rule filled_put_part)
  have "filled (put_part s part) \<le> unat (ps_total s)"
    using len by (simp add: filled_def put_part_def) (metis length_filter_le length_list_update)
  then have "unat (ps_count s) + 1 < 2 ^ 32"
    using ok fits unsigned_less [of "ps_total s", where 'a = nat] by (simp add: ps_ok_def)
  then have "unat (ps_count s + 1) = filled (put_part s part)"
    using ok fits by (simp add: ps_ok_def unat_word_ariths)
  moreover obtain b where "ps_partsBitArray s = Some b" "ba_wf b" "Bits b = uint (ps_total s)"
    "\<forall>i<unat (ps_total s). ba_get b i \<longleftrightarrow> ps_parts s ! i \<noteq> None"
    using ok i' by (auto simp: ps_ok_def split: option.splits)
  ultimately show ?thesis
    using ok up i' len free
    by (auto simp: ps_ok_def put_part_def ba_get_put_bit nth_list_update i64_i64_add)
qed

lemma ps_ok_new: "ps_ok (NewPartSetFromHeader header)"
proof (cases "psh_Total header = 0")
  case True
  then show ?thesis by (simp add: ps_ok_def NewPartSetFromHeader_def filled_def slots_size_def NewBitArray_def i64_def)
next
  case False
  then have "0 < uint (psh_Total header)" by (simp add: less_le unsigned_eq_0_iff)
  then obtain b where "NewBitArray (uint (psh_Total header)) = Some b" "ba_wf b" "Bits b = uint (psh_Total header)"
    "\<And>i. i < nat (uint (psh_Total header)) \<Longrightarrow> \<not> ba_get b i"
    by (rule NewBitArray_spec) blast
  moreover have "slots_size (replicate n None) = 0" for n by (induction n) (simp_all add: slots_size_def)
  ultimately show ?thesis by (simp add: ps_ok_def NewPartSetFromHeader_def filled_def i64_def)
qed

fun add_parts :: "(bytes \<Rightarrow> bytes) \<Rightarrow> PartSet option \<Rightarrow> Part list \<Rightarrow> (part_error, PartSet option) outcome" where
  \<comment> \<open>parts that arrive one after the other, none of them refused with an error\<close>
  "add_parts H ps [] = Return ps"
| "add_parts H ps (part # parts) = bind_o (AddPart H ps part) (\<lambda>(_, ps'). add_parts H ps' parts)"

lemma add_parts_collect:
  assumes "ps_ok s"
    and "\<And>p. p \<in> set ps \<Longrightarrow> part_Index p < ps_total s \<and>
      (proof_Verify H (part_Proof p) (ps_hash s) (part_Bytes p) = Return ()) \<and>
      want (unat (part_Index p)) = Some p"
    and "\<And>i. i < length (ps_parts s) \<Longrightarrow> ps_parts s ! i = None \<or> ps_parts s ! i = want i"
  shows "\<exists>s'. add_parts H (Some s) ps = Return (Some s') \<and> ps_ok s' \<and> ps_total s' = ps_total s \<and>
    length (ps_parts s') = length (ps_parts s) \<and>
    (\<forall>i<length (ps_parts s). ps_parts s' ! i = (if \<exists>p\<in>set ps. unat (part_Index p) = i then want i else ps_parts s ! i))"
  using assms
proof (induction ps arbitrary: s)
  case (Cons p ps)
  let ?i = "unat (part_Index p)"
  have p: "part_Index p < ps_total s" "proof_Verify H (part_Proof p) (ps_hash s) (part_Bytes p) = Return ()" "want ?i = Some p"
    using Cons.prems(2) [of p] by simp_all
  have i: "?i < length (ps_parts s)" using p(1) Cons.prems(1) by (simp add: ps_ok_def word_less_nat_alt)
  show ?case
  proof (cases "ps_parts s ! ?i = None")
    case False
    then have eq: "ps_parts s ! ?i = want ?i" using Cons.prems(3) [OF i] by (elim disjE) (erule notE, assumption, assumption)
    have "AddPart H (Some s) p = Return (False, Some s)"
      using AddPart_eq [OF Cons.prems(1), of H p] p(1) False by (simp add: not_le)
    then show ?thesis using Cons.IH [OF Cons.prems(1)] Cons.prems(2,3) eq by auto
  next
    case True
    have add: "AddPart H (Some s) p = Return (True, Some (put_part s p))"
      using AddPart_eq [OF Cons.prems(1), of H p] p(1,2) True by (simp add: not_le)
    have kept: "(ps_parts s)[?i := Some p] ! j = None \<or> (ps_parts s)[?i := Some p] ! j = want j"
      if "j < length (ps_parts s)" for j
      using Cons.prems(3) [OF that] p(3) that by (cases "j = ?i") auto
    have "\<exists>s'. add_parts H (Some (put_part s p)) ps = Return (Some s') \<and> ps_ok s' \<and> ps_total s' = ps_total (put_part s p) \<and>
      length (ps_parts s') = length (ps_parts (put_part s p)) \<and>
      (\<forall>i<length (ps_parts (put_part s p)). ps_parts s' ! i =
        (if \<exists>p\<in>set ps. unat (part_Index p) = i then want i else ps_parts (put_part s p) ! i))"
      using Cons.prems(2) kept ps_ok_put_part [OF Cons.prems(1) p(1) True]
      by (intro Cons.IH) (simp_all add: put_part_def)
    then show ?thesis using add i p(3) by (auto simp: put_part_def nth_list_update)
  qed
qed auto

lemma length_filter_full: "length (filter P xs) = length xs \<longleftrightarrow> (\<forall>x\<in>set xs. P x)"
proof (induction xs)
  case (Cons x xs)
  have "length (filter P xs) \<noteq> Suc (length xs)" using length_filter_le [of P xs] by linarith
  then show ?case using Cons by auto
qed simp

lemma complete_iff_full: "ps_ok s \<Longrightarrow> IsComplete s \<longleftrightarrow> None \<notin> set (ps_parts s)"
proof -
  assume ok: "ps_ok s"
  have "IsComplete s \<longleftrightarrow> unat (ps_count s) = unat (ps_total s)" by (simp add: IsComplete_def word_unat_eq_iff)
  also have "\<dots> \<longleftrightarrow> length (filter (\<lambda>p. p \<noteq> None) (ps_parts s)) = length (ps_parts s)"
    using ok by (simp add: ps_ok_def filled_def)
  also have "\<dots> \<longleftrightarrow> None \<notin> set (ps_parts s)"
    unfolding length_filter_full by (metis)
  finally show ?thesis .
qed

lemma read_complete_set:
  assumes "ps_ok s" "None \<notin> set (ps_parts s)" "ps_parts s \<noteq> []" "\<And>k. 0 < room k"
  shows "IsComplete s \<and> (\<exists>r. GetReader s = Return r \<and>
    ReadAll room r = Some (Return (concat (map (part_Bytes \<circ> the) (ps_parts s)))))"
proof -
  obtain psr where psr: "NewPartSetReader (ps_parts s) = Return psr" "psr_ok psr"
    "unread psr = concat (map (part_Bytes \<circ> the) (ps_parts s))"
    using reader_of_full_set [OF assms(2,3)] by blast
  moreover have "IsComplete s" using complete_iff_full [OF assms(1)] assms(2) by simp
  ultimately show ?thesis
    using read_all_loop_eq [OF psr(2) assms(4), where k = 0 and acc = "[]"] by (simp add: GetReader_def ReadAll_def)
qed

section \<open>Cutting and collecting\<close>

lemma concat_chunks: "concat (map (\<lambda>i. take p (drop (i * p) d)) [0..<m]) = take (m * p) d"
proof (induction m)
  case (Suc m)
  have "take (m * p) d @ take p (drop (m * p) d) = take (m * p + p) d" by (simp add: take_add)
  then show ?case using Suc by (simp add: add.commute)
qed simp

lemma go_slice_nat: "lo \<le> hi \<Longrightarrow> hi \<le> length xs \<Longrightarrow> go_slice xs (int lo) (int hi) = Return (take (hi - lo) (drop lo xs))"
  by (simp add: go_slice_def)

lemma part_bytes_eq:
  assumes "length d + unat p \<le> 2 ^ 32" "i * unat p < length d"
  shows "(part_bytes d p (word_of_nat i) :: (part_error, bytes) outcome) = Return (take (unat p) (drop (i * unat p) d))"
proof -
  have "unat (word_of_nat i * p) = i * unat p" "unat ((word_of_nat i + 1) * p) = (i + 1) * unat p"
  proof -
    have fits: "unat (word_of_nat m :: 32 word) = m" if "m < 2 ^ 32" for m
      using that by (simp add: unat_of_nat)
    have less: "(i + 1) * unat p < 2 ^ 32" using assms by (simp add: algebra_simps)
    then have "i * unat p < 2 ^ 32" by simp
    moreover have eq: "word_of_nat i * p = (word_of_nat (i * unat p) :: 32 word)"
      "(word_of_nat i + 1) * p = (word_of_nat ((i + 1) * unat p) :: 32 word)"
      by (simp_all add: algebra_simps)
    ultimately show "unat (word_of_nat i * p) = i * unat p" "unat ((word_of_nat i + 1) * p) = (i + 1) * unat p"
      using less unfolding eq by (simp_all only: fits)
  qed
  then have u: "uint (word_of_nat i * p) = int (i * unat p)" "uint ((word_of_nat i + 1) * p) = int ((i + 1) * unat p)"
    by (metis uint_nat)+
  let ?lo = "i * unat p" and ?hi = "min (length d) ((i + 1) * unat p)"
  have "go_slice d (int ?lo) (int ?hi) = (Return (take (?hi - ?lo) (drop ?lo d)) :: (part_error, bytes) outcome)"
    using assms by (intro go_slice_nat) simp_all
  moreover have "take (?hi - ?lo) (drop ?lo d) = take (unat p) (drop ?lo d)"
    by (cases "(i + 1) * unat p \<le> length d") (simp_all add: min_def)
  ultimately show ?thesis unfolding part_bytes_def u by (simp only: of_nat_min)
qed

lemma cut_loop_eq:
  assumes "length d + unat p \<le> 2 ^ 32" "\<And>i. i \<in> set is \<Longrightarrow> i * unat p < length d \<and> i < n"
    and "bits = Some b" "ba_wf b" "Bits b = int n"
  shows "\<exists>bits'. cut_loop d p is bits = Return (map (\<lambda>i. take (unat p) (drop (i * unat p) d)) is, bits')"
  using assms(2-)
proof (induction "is" arbitrary: bits b)
  case (Cons i "is")
  have "SetIndex bits (int i) True = (Return (True, Some (put_bit b i True)) :: (part_error, _) outcome)"
    using Cons.prems by (simp add: SetIndex_def setIndex_in)
  moreover have "part_bytes d p (word_of_nat i) = Return (take (unat p) (drop (i * unat p) d))"
    using Cons.prems(1) [of i] by (intro part_bytes_eq [OF assms(1)]) simp
  moreover have "\<exists>bits'. cut_loop d p is (Some (put_bit b i True)) =
      Return (map (\<lambda>i. take (unat p) (drop (i * unat p) d)) is, bits')"
    using Cons.prems by (intro Cons.IH [OF _ refl]) simp_all
  ultimately show ?case by auto
qed simp

lemma NewPartSetFromData_parts:
  assumes p: "p \<noteq> 0" and len: "length d + unat p \<le> 2 ^ 32" and ne: "d \<noteq> []"
  shows "\<exists>s. NewPartSetFromData H d p = Return (Some s) \<and> 0 < unat (ps_total s) \<and>
    length (ps_parts s) = unat (ps_total s) \<and>
    concat (map (part_Bytes \<circ> the) (ps_parts s)) = d \<and>
    (\<forall>i<unat (ps_total s). \<exists>part. ps_parts s ! i = Some part \<and> unat (part_Index part) = i \<and>
       proof_Verify H (part_Proof part) (ps_hash s) (part_Bytes part) = Return ())"
proof -
  let ?p = "unat p" and ?n = "(word_of_nat (length d) + p - 1) div p :: 32 word"
  let ?chunk = "\<lambda>i. take ?p (drop (i * ?p) d)" and ?m = "(length d + unat p - 1) div unat p"
  have p0: "0 < ?p" using p by (simp add: unat_gt_0)
  have "word_of_nat (length d) + p - 1 = (word_of_nat (length d + ?p - 1) :: 32 word)"
    using p0 by (simp add: of_nat_diff)
  moreover have "unat (word_of_nat (length d + ?p - 1) :: 32 word) = length d + ?p - 1"
    using len p0 by (subst unat_of_nat) simp
  ultimately have n: "unat ?n = ?m" by (simp only: unat_div)
  have "?p \<le> length d + ?p - 1" using ne by (cases d) simp_all
  then have n0: "0 < ?m" using p0 by (simp add: div_greater_zero_iff)
  have cover: "length d \<le> ?m * ?p" using dividend_less_div_times [OF p0, of "length d + ?p - 1"] by linarith
  have below: "i * ?p < length d" if "i < ?m" for i
  proof -
    have "(i + 1) * ?p \<le> length d + ?p - 1"
      using that p0 by (intro less_eq_div_iff_mult_less_eq [THEN iffD1]) simp_all
    then show ?thesis using p0 by simp
  qed
  have u: "uint ?n = int ?m" by (metis n uint_nat)
  then obtain b where b: "NewBitArray (uint ?n) = Some b" "ba_wf b" "Bits b = int ?m"
    using NewBitArray_spec [of "int ?m"] n0 by (metis of_nat_0_less_iff)
  obtain bits' where cut: "cut_loop d p [0..<?m] (NewBitArray (uint ?n)) = Return (map ?chunk [0..<?m], bits')"
    using cut_loop_eq [OF len _ b, of "[0..<?m]"] below by auto
  let ?items = "map ?chunk [0..<?m]"
  let ?proofs = "map (\<lambda>i. \<lparr>p_Total = int (length ?items), p_Index = int i, p_LeafHash = Some (leafHash H (?items ! i)),
                 p_Aunts = aunts H (map (leafHash H) ?items) i\<rparr>) [0..<length ?items]"
  let ?part = "\<lambda>i. \<lparr>part_Index = word_of_nat i, part_Bytes = ?items ! i, part_Proof = ?proofs ! i\<rparr>"
  let ?s = "\<lparr>ps_total = ?n, ps_hash = mtn H (map (leafHash H) ?items), ps_parts = map (Some \<circ> ?part) [0..<?m],
      ps_partsBitArray = bits', ps_count = ?n, ps_byteSize = int (length d)\<rparr>"
  have zip: "map (\<lambda>(i, b, pr). Some \<lparr>part_Index = word_of_nat i, part_Bytes = b, part_Proof = pr\<rparr>)
      (zip [0..<?m] (zip ?items ?proofs)) = map (Some \<circ> ?part) [0..<?m]"
    by (rule nth_equalityI) simp_all
  have "NewPartSetFromData H d p = Return (Some ?s)"
    using p unfolding NewPartSetFromData_def Let_def n cut bind_o.simps prod.case ProofsFromByteSlices_eq option.case zip
    by simp
  moreover have "concat (map (part_Bytes \<circ> the) (ps_parts ?s)) = d"
  proof -
    have eq: "map (part_Bytes \<circ> the) (ps_parts ?s) = ?items" by (rule nth_equalityI) simp_all
    show ?thesis unfolding eq concat_chunks using cover by simp
  qed
  moreover have "?m < 2 ^ 32" using unsigned_less [of ?n, where 'a = nat] n by simp
  then have "unat (word_of_nat i :: 32 word) = i" if "i < ?m" for i using that by (simp add: unat_of_nat)
  ultimately show ?thesis
    using n n0 proof_Verify_made [of _ ?items H] by (intro exI [of _ ?s]) simp
qed

text \<open>C8: a block that is cut into parts is read back.  For data that 32-bit positions can address,
  \<open>NewPartSetFromData\<close> returns, and a node that starts from the header alone and is given the
  parts in any order, with repetitions, accepts them all, ends with a complete set, and reads
  back exactly the data, whatever the sizes of the buffers it reads with.\<close>

theorem parts_in_any_order_give_the_data:
  assumes "partSize \<noteq> 0" "length data + unat partSize \<le> 2 ^ 32" "data \<noteq> []" "\<And>k. 0 < room k"
  shows "\<exists>s. NewPartSetFromData H data partSize = Return (Some s) \<and>
    (\<forall>ps. Some ` set ps = set (ps_parts s) \<longrightarrow>
       (\<exists>s' r. add_parts H (Some (NewPartSetFromHeader (ps_Header (Some s)))) ps = Return (Some s') \<and>
          IsComplete s' \<and> GetReader s' = Return r \<and> ReadAll room r = Some (Return data)))"
proof -
  obtain s where new: "NewPartSetFromData H data partSize = Return (Some s)"
    and n0: "0 < unat (ps_total s)" and len: "length (ps_parts s) = unat (ps_total s)"
    and data: "concat (map (part_Bytes \<circ> the) (ps_parts s)) = data"
    and parts: "\<And>i. i < unat (ps_total s) \<Longrightarrow> \<exists>part. ps_parts s ! i = Some part \<and> unat (part_Index part) = i \<and>
       proof_Verify H (part_Proof part) (ps_hash s) (part_Bytes part) = Return ()"
    using NewPartSetFromData_parts [OF assms(1-3), of H] by blast
  let ?new = "NewPartSetFromHeader (ps_Header (Some s))"
  have "\<exists>s' r. add_parts H (Some ?new) ps = Return (Some s') \<and>
      IsComplete s' \<and> GetReader s' = Return r \<and> ReadAll room r = Some (Return data)"
    if ps: "Some ` set ps = set (ps_parts s)" for ps
  proof -
    have each: "part_Index p < ps_total ?new \<and> proof_Verify H (part_Proof p) (ps_hash ?new) (part_Bytes p) = Return () \<and>
        ps_parts s ! unat (part_Index p) = Some p" if p: "p \<in> set ps" for p
    proof -
      obtain i where "i < unat (ps_total s)" "ps_parts s ! i = Some p"
        using ps p len by (metis imageI in_set_conv_nth)
      then show ?thesis using parts [of i] by (auto simp: NewPartSetFromHeader_def ps_Header_def word_less_nat_alt)
    qed
    have empty: "length (ps_parts ?new) = unat (ps_total s)" "i < unat (ps_total s) \<Longrightarrow> ps_parts ?new ! i = None" for i
      by (simp_all add: NewPartSetFromHeader_def ps_Header_def)
    obtain s' where s': "add_parts H (Some ?new) ps = Return (Some s')" "ps_ok s'"
        "length (ps_parts s') = unat (ps_total s)"
        "\<And>i. i < unat (ps_total s) \<Longrightarrow> ps_parts s' ! i =
           (if \<exists>p\<in>set ps. unat (part_Index p) = i then ps_parts s ! i else ps_parts ?new ! i)"
      using add_parts_collect [where s = ?new and ps = ps and H = H and want = "\<lambda>i. ps_parts s ! i", OF ps_ok_new each] empty
      by (auto simp: NewPartSetFromHeader_def)
    have "\<exists>p\<in>set ps. unat (part_Index p) = i" if "i < unat (ps_total s)" for i
      using parts [OF that] ps len that by (metis imageE nth_mem option.inject)
    then have all: "ps_parts s' = ps_parts s" using s'(3,4) len by (intro nth_equalityI) auto
    have "None \<notin> set (ps_parts s)" using parts len by (metis in_set_conv_nth option.distinct(1))
    moreover have "ps_parts s \<noteq> []" using n0 len by auto
    ultimately show ?thesis
      using read_complete_set [where s = s' and room = room, OF s'(2) _ _ assms(4)] s'(1) all data by auto
  qed
  then show ?thesis using new by blast
qed

theorem parts_in_any_order_give_the_data_witness:
  "\<exists>s s' r. NewPartSetFromData (\<lambda>x. x) [1, 2, 3] 2 = Return (Some s) \<and>
     add_parts (\<lambda>x. x) (Some (NewPartSetFromHeader (ps_Header (Some s)))) (rev (map the (ps_parts s))) = Return (Some s') \<and>
     GetReader s' = Return r \<and> ReadAll (\<lambda>k. k + 1) r = Some (Return [1, 2, 3])"
proof -
  obtain s where s: "NewPartSetFromData (\<lambda>x. x) [1, 2, 3] 2 = Return (Some s)"
    and each: "\<forall>ps. Some ` set ps = set (ps_parts s) \<longrightarrow>
       (\<exists>s' r. add_parts (\<lambda>x. x) (Some (NewPartSetFromHeader (ps_Header (Some s)))) ps = Return (Some s') \<and>
          IsComplete s' \<and> GetReader s' = Return r \<and> ReadAll (\<lambda>k. k + 1) r = Some (Return [1, 2, 3]))"
    using parts_in_any_order_give_the_data [of 2 "[1, 2, 3]" "\<lambda>k. k + 1" "\<lambda>x. x"] by auto
  have "None \<notin> set (ps_parts s)"
    using s NewPartSetFromData_parts [of 2 "[1, 2, 3]" "\<lambda>x. x"] by (auto simp: in_set_conv_nth)
  then have "(\<lambda>p. Some (the p)) ` set (ps_parts s) = (\<lambda>p. p) ` set (ps_parts s)"
    by (intro image_cong refl) (metis option.collapse)
  then have "Some ` set (rev (map the (ps_parts s))) = set (ps_parts s)"
    by (simp add: image_image)
  with each s show ?thesis by blast
qed

text \<open>C9: \<open>AddPart\<close> never compares the index in a part's proof with the index of the part.  One
  part with a valid proof is accepted under every index: sent once per slot, it completes the set
  of any header with that root, the true parts are refused as already present, and what is read
  is that part repeated.\<close>

theorem one_part_fills_every_slot:
  assumes "proof_Verify H pr (psh_Hash header) b = Return ()" "psh_Total header \<noteq> 0" "\<And>k. 0 < room k"
  shows "\<exists>s r. add_parts H (Some (NewPartSetFromHeader header))
       (map (\<lambda>i. \<lparr>part_Index = word_of_nat i, part_Bytes = b, part_Proof = pr\<rparr>) [0..<unat (psh_Total header)]) = Return (Some s) \<and>
     IsComplete s \<and> (\<forall>part. part_Index part < psh_Total header \<longrightarrow> AddPart H (Some s) part = Return (False, Some s)) \<and>
     GetReader s = Return r \<and> ReadAll room r = Some (Return (concat (replicate (unat (psh_Total header)) b)))"
proof -
  let ?n = "unat (psh_Total header)" and ?new = "NewPartSetFromHeader header"
  let ?part = "\<lambda>i. \<lparr>part_Index = word_of_nat i, part_Bytes = b, part_Proof = pr\<rparr>"
  have n: "?n < 2 ^ 32" using unsigned_less [of "psh_Total header", where 'a = nat] by simp
  have idx: "unat (word_of_nat i :: 32 word) = i" if "i < ?n" for i using that n by (simp add: unat_of_nat)
  have each: "part_Index p < ps_total ?new \<and> proof_Verify H (part_Proof p) (ps_hash ?new) (part_Bytes p) = Return () \<and>
      Some (?part (unat (part_Index p))) = Some p" if "p \<in> set (map ?part [0..<?n])" for p
    using that assms(1) idx by (auto simp: NewPartSetFromHeader_def word_less_nat_alt)
  have empty: "length (ps_parts ?new) = ?n" "i < ?n \<Longrightarrow> ps_parts ?new ! i = None" for i
    by (simp_all add: NewPartSetFromHeader_def)
  obtain s where s: "add_parts H (Some ?new) (map ?part [0..<?n]) = Return (Some s)" "ps_ok s" "ps_total s = psh_Total header"
      "length (ps_parts s) = ?n"
      "\<And>i. i < ?n \<Longrightarrow> ps_parts s ! i = (if \<exists>p\<in>set (map ?part [0..<?n]). unat (part_Index p) = i
         then Some (?part i) else ps_parts ?new ! i)"
    using add_parts_collect [where s = ?new and ps = "map ?part [0..<?n]" and H = H and want = "\<lambda>i. Some (?part i)",
        OF ps_ok_new each] empty by (auto simp: NewPartSetFromHeader_def)
  have "\<exists>p\<in>set (map ?part [0..<?n]). unat (part_Index p) = i" if "i < ?n" for i
    using that idx [OF that] by (intro bexI [of _ "?part i"]) auto
  then have full: "ps_parts s = map (Some \<circ> ?part) [0..<?n]" using s(4,5) by (intro nth_equalityI) auto
  have "map (part_Bytes \<circ> the) (ps_parts s) = replicate ?n b"
    unfolding full by (rule nth_equalityI) simp_all
  moreover have "AddPart H (Some s) part = Return (False, Some s)" if "part_Index part < psh_Total header" for part
    using that AddPart_eq [OF s(2), of H part] s(3) full by (simp add: word_less_nat_alt not_le)
  moreover have "None \<notin> set (ps_parts s)" "ps_parts s \<noteq> []" using full assms(2) by (auto simp: unat_eq_0)
  ultimately show ?thesis
    using read_complete_set [where s = s and room = room, OF s(2) _ _ assms(3)] s(1) by auto
qed

theorem one_part_fills_every_slot_witness:
  "\<exists>s r. add_parts (\<lambda>x. x) (Some (NewPartSetFromHeader \<lparr>psh_Total = 2, psh_Hash = [1, 0, 7, 0, 8]\<rparr>))
       (map (\<lambda>i. \<lparr>part_Index = word_of_nat i, part_Bytes = [7],
          part_Proof = \<lparr>p_Total = 2, p_Index = 0, p_LeafHash = Some [0, 7], p_Aunts = [[0, 8]]\<rparr>\<rparr>) [0..<2]) = Return (Some s) \<and>
     GetReader s = Return r \<and> ReadAll (\<lambda>k. 512) r = Some (Return [7, 7])"
proof -
  let ?pr = "\<lparr>p_Total = 2, p_Index = 0, p_LeafHash = Some [0, 7], p_Aunts = [[0, 8]]\<rparr>"
  let ?h = "\<lparr>psh_Total = 2, psh_Hash = [1, 0, 7, 0, 8]\<rparr>"
  have valid: "proof_Verify (\<lambda>x. x) ?pr (psh_Hash ?h) [7] = Return ()" by code_simp
  have ne: "psh_Total ?h \<noteq> 0" and room: "0 < (512 :: nat)" and two: "unat (psh_Total ?h) = 2"
    by simp_all
  have rep: "concat (replicate 2 [7]) = [7, 7 :: byte]" by (simp add: numeral_2_eq_2)
  from one_part_fills_every_slot [OF valid ne room] show ?thesis unfolding two rep by blast
qed

text \<open>C10: the record of a part set stays well formed.  A set made from a header, and after any
  part, keeps the counter equal to the number of filled slots, the bit array equal to the slots,
  the byte size equal to the bytes held, and its header; adding a part never panics, and it
  fills one more slot exactly when it reports so.\<close>

theorem part_set_stays_well_formed:
  "ps_ok (NewPartSetFromHeader header) \<and>
   (ps_ok s \<longrightarrow>
     (case AddPart H (Some s) part of
        Panic \<Rightarrow> False
      | Error _ \<Rightarrow> True
      | Return (added, s') \<Rightarrow> \<exists>t. s' = Some t \<and> ps_ok t \<and> ps_Header s' = ps_Header (Some s) \<and>
          filled t = filled s + (if added then 1 else 0)))"
  using ps_ok_new ps_ok_put_part [of s part] filled_put_part [of s part] AddPart_eq [of s H part]
  by (auto simp: ps_Header_def not_le put_part_def split: if_splits)

theorem part_set_stays_well_formed_witness:
  "\<exists>t. AddPart (\<lambda>x. x) (Some (NewPartSetFromHeader \<lparr>psh_Total = 1, psh_Hash = [0, 7]\<rparr>))
       \<lparr>part_Index = 0, part_Bytes = [7], part_Proof = \<lparr>p_Total = 1, p_Index = 0, p_LeafHash = Some [0, 7], p_Aunts = []\<rparr>\<rparr> =
     Return (True, Some t) \<and> ps_ok t \<and> filled t = 1"
proof -
  let ?s = "NewPartSetFromHeader \<lparr>psh_Total = 1, psh_Hash = [0, 7]\<rparr>"
  let ?part = "\<lparr>part_Index = 0, part_Bytes = [7], part_Proof = \<lparr>p_Total = 1, p_Index = 0, p_LeafHash = Some [0, 7], p_Aunts = []\<rparr>\<rparr>"
  have "case AddPart (\<lambda>x. x) (Some ?s) ?part of Return (added, _) \<Rightarrow> added | _ \<Rightarrow> False" by code_simp
  moreover have "filled ?s = 0" by code_simp
  ultimately show ?thesis
    using part_set_stays_well_formed [of "\<lparr>psh_Total = 1, psh_Hash = [0, 7]\<rparr>" ?s "\<lambda>x. x" ?part] ps_ok_new
    by (cases "AddPart (\<lambda>x. x) (Some ?s) ?part") auto
qed

end
