(* ===== verification/HeightVotes.thy ===== *)
theory HeightVotes
  imports VoteSets SafeMath
begin

text \<open>
  The votes of one height: \<open>consensus/types/height_vote_set.go\<close>.  A \<open>HeightVoteSet\<close> holds a prevote
  and a precommit set for every round up to the current one and the next, and for up to two
  further rounds per peer.

  A computation that may also fail to return is a \<open>run\<close>: \<open>None\<close> is not returning, and a run that
  returns has an outcome.
\<close>

declare not_None_eq [iff]

section \<open>Runs\<close>

type_synonym 'a run = "(unit, 'a) outcome option"

abbreviation done_r :: "'a \<Rightarrow> 'a run" where "done_r x \<equiv> Some (Return x)"

abbreviation halt_r :: "'a run" where "halt_r \<equiv> Some Panic"

fun bind_r :: "'a run \<Rightarrow> ('a \<Rightarrow> 'b run) \<Rightarrow> 'b run" where
  "bind_r None f = None"
| "bind_r (Some (Return x)) f = f x"
| "bind_r (Some (Error e)) f = Some (Error e)"
| "bind_r (Some Panic) f = Some Panic"

definition post_r :: "'a run \<Rightarrow> ('a \<Rightarrow> bool) \<Rightarrow> bool" where
  \<comment> \<open>what holds if the run returns a value\<close>
  "post_r m Q \<longleftrightarrow> (\<forall>x. m = done_r x \<longrightarrow> Q x)"

lemma post_rI: "(\<And>x. m = done_r x \<Longrightarrow> Q x) \<Longrightarrow> post_r m Q"
  by (simp add: post_r_def)

lemma post_rD: "post_r m Q \<Longrightarrow> m = done_r x \<Longrightarrow> Q x"
  by (simp add: post_r_def)

lemma post_r_done [simp]: "post_r (done_r x) Q = Q x"
  by (simp add: post_r_def)

lemma post_r_stop [simp]: "post_r None Q" "post_r halt_r Q" "post_r (Some (Error e)) Q"
  by (simp_all add: post_r_def)

lemma bind_r_done_iff: "bind_r m f = done_r y \<longleftrightarrow> (\<exists>x. m = done_r x \<and> f x = done_r y)"
  by (cases "(m, f)" rule: bind_r.cases) auto

lemma post_r_bind: "post_r (bind_r m f) Q = post_r m (\<lambda>x. post_r (f x) Q)"
  by (auto simp: post_r_def bind_r_done_iff)

lemma post_r_mono: "post_r m P \<Longrightarrow> (\<And>x. P x \<Longrightarrow> Q x) \<Longrightarrow> post_r m Q"
  by (auto simp: post_r_def)

section \<open>Operations\<close>

record RoundVoteSet =
  rvs_Prevotes :: VoteSet
  rvs_Precommits :: VoteSet

record HeightVoteSet =
  hvs_chainID :: string
  hvs_height :: int
  hvs_valSet :: validator_set
  hvs_round :: int
  hvs_roundVoteSets :: "(int, RoundVoteSet) gomap"
  hvs_peerCatchupRounds :: "(string, int list) gomap"

datatype hvs_error = VoteErr vote_error | ErrGotVoteFromUnwantedRound

definition addRound :: "int \<Rightarrow> HeightVoteSet \<Rightarrow> ('e, HeightVoteSet) outcome" where
  "addRound rnd hvs =
     (if gm_get (hvs_roundVoteSets hvs) rnd \<noteq> None then Panic
      else bind_o (NewVoteSet (hvs_chainID hvs) (hvs_height hvs) rnd PrevoteType (hvs_valSet hvs)) (\<lambda>prevotes.
           bind_o (NewVoteSet (hvs_chainID hvs) (hvs_height hvs) rnd PrecommitType (hvs_valSet hvs)) (\<lambda>precommits.
           Return (hvs\<lparr>hvs_roundVoteSets :=
             gm_put rnd \<lparr>rvs_Prevotes = prevotes, rvs_Precommits = precommits\<rparr> (hvs_roundVoteSets hvs)\<rparr>))))"

definition hvs_Reset :: "int \<Rightarrow> validator_set \<Rightarrow> HeightVoteSet \<Rightarrow> ('e, HeightVoteSet) outcome" where
  "hvs_Reset height valSet hvs =
     bind_o (addRound 0 (hvs\<lparr>hvs_height := height, hvs_valSet := valSet, hvs_roundVoteSets := [],
                             hvs_peerCatchupRounds := []\<rparr>)) (\<lambda>hvs'.
     Return (hvs'\<lparr>hvs_round := 0\<rparr>))"

definition NewHeightVoteSet :: "string \<Rightarrow> int \<Rightarrow> validator_set \<Rightarrow> ('e, HeightVoteSet) outcome" where
  "NewHeightVoteSet chainID height valSet =
     hvs_Reset height valSet \<lparr>hvs_chainID = chainID, hvs_height = 0, hvs_valSet = valSet, hvs_round = 0,
       hvs_roundVoteSets = [], hvs_peerCatchupRounds = []\<rparr>"

partial_function (option) set_round_loop :: "int \<Rightarrow> int \<Rightarrow> HeightVoteSet \<Rightarrow> HeightVoteSet run" where
  \<comment> \<open>for r := ...; r <= round; r++, where the counter is an int32\<close>
  [code]: "set_round_loop r rnd hvs =
     (if r \<le> rnd
      then if gm_get (hvs_roundVoteSets hvs) r \<noteq> None then set_round_loop (i32 (r + 1)) rnd hvs
           else (case addRound r hvs of
                   Return hvs' \<Rightarrow> set_round_loop (i32 (r + 1)) rnd hvs'
                 | Error e \<Rightarrow> Some (Error e)
                 | Panic \<Rightarrow> halt_r)
      else done_r hvs)"

definition SetRound :: "int \<Rightarrow> HeightVoteSet \<Rightarrow> HeightVoteSet run" where
  "SetRound rnd hvs =
     bind_r (Some (SafeSubInt32 (hvs_round hvs) 1)) (\<lambda>newRound.
     if hvs_round hvs \<noteq> 0 \<and> rnd < newRound then halt_r
     else bind_r (set_round_loop newRound rnd hvs) (\<lambda>hvs'. done_r (hvs'\<lparr>hvs_round := rnd\<rparr>)))"

definition getVoteSet :: "int \<Rightarrow> SignedMsgType \<Rightarrow> HeightVoteSet \<Rightarrow> ('e, VoteSet option) outcome" where
  "getVoteSet rnd voteType hvs =
     (case gm_get (hvs_roundVoteSets hvs) rnd of
        None \<Rightarrow> Return None
      | Some rvs \<Rightarrow>
          (case voteType of
             PrevoteType \<Rightarrow> Return (Some (rvs_Prevotes rvs))
           | PrecommitType \<Rightarrow> Return (Some (rvs_Precommits rvs))
           | _ \<Rightarrow> Panic))"

definition Prevotes :: "int \<Rightarrow> HeightVoteSet \<Rightarrow> VoteSet option" where
  "Prevotes rnd hvs = map_option rvs_Prevotes (gm_get (hvs_roundVoteSets hvs) rnd)"

definition Precommits :: "int \<Rightarrow> HeightVoteSet \<Rightarrow> VoteSet option" where
  "Precommits rnd hvs = map_option rvs_Precommits (gm_get (hvs_roundVoteSets hvs) rnd)"

definition store_votes :: "int \<Rightarrow> SignedMsgType \<Rightarrow> VoteSet \<Rightarrow> HeightVoteSet \<Rightarrow> HeightVoteSet" where
  \<comment> \<open>the vote set behind the pointer that \<open>getVoteSet\<close> returns has changed\<close>
  "store_votes rnd voteType vs hvs =
     (case gm_get (hvs_roundVoteSets hvs) rnd of
        None \<Rightarrow> hvs
      | Some rvs \<Rightarrow>
          hvs\<lparr>hvs_roundVoteSets := gm_put rnd
            (if voteType = PrevoteType then rvs\<lparr>rvs_Prevotes := vs\<rparr> else rvs\<lparr>rvs_Precommits := vs\<rparr>)
            (hvs_roundVoteSets hvs)\<rparr>)"

definition catchup :: "string \<Rightarrow> HeightVoteSet \<Rightarrow> int list" where
  "catchup peerID hvs = (case gm_get (hvs_peerCatchupRounds hvs) peerID of None \<Rightarrow> [] | Some rndz \<Rightarrow> rndz)"

definition hvs_AddVote ::
    "crypto_env \<Rightarrow> Vote \<Rightarrow> string \<Rightarrow> HeightVoteSet \<Rightarrow> ('e, bool \<times> hvs_error option \<times> HeightVoteSet) outcome" where
  "hvs_AddVote env vote peerID hvs =
     (if \<not> IsVoteTypeValid (v_Type vote) then Return (False, None, hvs)
      else let add = (\<lambda>hvs. bind_o (getVoteSet (v_Round vote) (v_Type vote) hvs) (\<lambda>voteSet.
                 bind_o (AddVote env voteSet (Some vote)) (\<lambda>(added, err, vs).
                 Return (added, map_option VoteErr err, store_votes (v_Round vote) (v_Type vote) vs hvs))))
           in bind_o (getVoteSet (v_Round vote) (v_Type vote) hvs) (\<lambda>voteSet.
              if voteSet \<noteq> None then add hvs
              else let rndz = catchup peerID hvs
                   in if length rndz < 2
                      then bind_o (addRound (v_Round vote) hvs) (\<lambda>hvs1.
                           add (hvs1\<lparr>hvs_peerCatchupRounds :=
                                  gm_put peerID (rndz @ [v_Round vote]) (hvs_peerCatchupRounds hvs1)\<rparr>))
                      else Return (False, Some ErrGotVoteFromUnwantedRound, hvs)))"

function pol_loop :: "int \<Rightarrow> HeightVoteSet \<Rightarrow> int \<times> BlockID" where
  "pol_loop r hvs =
     (if r \<ge> 0
      then (case TwoThirdsMajority (Prevotes r hvs) of
              (polBlockID, True) \<Rightarrow> (r, polBlockID)
            | (_, False) \<Rightarrow> pol_loop (r - 1) hvs)
      else (-1, zero_bid))"
  by pat_completeness auto
termination
  by (relation "measure (\<lambda>(r, hvs). nat (r + 1))") auto

declare pol_loop.simps [simp del]

definition POLInfo :: "HeightVoteSet \<Rightarrow> int \<times> BlockID" where
  "POLInfo hvs = pol_loop (hvs_round hvs) hvs"

definition hvs_SetPeerMaj23 ::
    "int \<Rightarrow> SignedMsgType \<Rightarrow> string \<Rightarrow> BlockID \<Rightarrow> HeightVoteSet \<Rightarrow> ('e, bool \<times> HeightVoteSet) outcome" where
  \<comment> \<open>True: no error\<close>
  "hvs_SetPeerMaj23 rnd voteType peerID blockID hvs =
     (if \<not> IsVoteTypeValid voteType then Return (False, hvs)
      else bind_o (getVoteSet rnd voteType hvs) (\<lambda>voteSet.
           case voteSet of
             None \<Rightarrow> Return (True, hvs)
           | Some vs \<Rightarrow>
               (case SetPeerMaj23 vs peerID blockID of
                  (ok, vs') \<Rightarrow> Return (ok, store_votes rnd voteType vs' hvs))))"

section \<open>The votes a vote set holds\<close>

definition held :: "VoteSet \<Rightarrow> Vote set" where
  "held vs = {v. Some v \<in> set (vs_votes vs)}
     \<union> {v. \<exists>k bv. gm_get (vs_byBlock vs) k = Some bv \<and> Some v \<in> set (bv_votes bv)}"

lemma set_upd_go:
  "upd_go xs i (Some v) = Return ys \<Longrightarrow> Some w \<in> set ys \<Longrightarrow> w = v \<or> Some w \<in> set xs"
  using set_update_subset_insert [of xs "nat i" "Some v"] by (auto simp: upd_go_def split: if_splits)

lemma set_copy_votes:
  "copy_votes src dst = (Return r :: (unit, _) outcome) \<Longrightarrow> set r \<subseteq> set src \<union> set dst"
proof (induction src arbitrary: dst r)
  case (Cons a src)
  show ?case using Cons.prems Cons.IH [of "tl dst"]
    by (cases a; cases dst) (fastforce simp: bind_o_Return_iff)+
qed simp

lemma held_bv_add:
  assumes "bv_addVerifiedVote bv v p = (Return bv' :: (unit, _) outcome)" "Some w \<in> set (bv_votes bv')"
  shows "w = v \<or> Some w \<in> set (bv_votes bv)"
  using assms set_upd_go [of "bv_votes bv" "v_ValidatorIndex v" v _ w]
  by (auto simp: bv_addVerifiedVote_def bind_o_Return_iff split: option.splits)

lemma held_primary:
  assumes "primary_vote vs v k p = (Return (c, vs1) :: (unit, _) outcome)"
  shows "held vs1 \<subseteq> insert v (held vs)"
proof -
  have "held vs' \<subseteq> insert v (held vs)" if "set_primary vs v = (Return vs' :: (unit, _) outcome)" for vs'
    using that set_upd_go [of "vs_votes vs" "v_ValidatorIndex v" v]
    by (fastforce simp: set_primary_def bind_o_Return_iff held_def)
  moreover have "held (vs'\<lparr>vs_sum := x\<rparr>) = held vs'" for vs' x by (simp add: held_def)
  moreover have "vs1 = vs \<or> (\<exists>vs'. set_primary vs v = (Return vs' :: (unit, _) outcome)
      \<and> (vs1 = vs' \<or> (\<exists>x. vs1 = vs'\<lparr>vs_sum := x\<rparr>)))"
  proof -
    obtain e where e: "nth_go (vs_votes vs) (v_ValidatorIndex v) = (Return e :: (unit, _) outcome)"
      using assms by (auto simp: primary_vote_def bind_o_Return_iff)
    show ?thesis using assms
      by (cases e) (auto simp: e primary_vote_def bind_o_Return_iff split: if_splits)
  qed
  ultimately show ?thesis by fastforce
qed

lemma held_tally:
  assumes bv: "\<And>w. Some w \<in> set (bv_votes bv') \<Longrightarrow> w = v \<or> w \<in> held vs"
    and votes: "\<And>w. Some w \<in> set votes \<Longrightarrow> w = v \<or> w \<in> held vs"
  shows "held (vs\<lparr>vs_valSet := s, vs_byBlock := gm_put k bv' (vs_byBlock vs), vs_maj23 := m, vs_votes := votes\<rparr>)
     \<subseteq> insert v (held vs)"
  using assms by (auto simp: held_def gm_get_put split: if_splits)

lemma held_verified:
  assumes "addVerifiedVote vs v k p = (Return (added, c, vs') :: (unit, _) outcome)"
  shows "held vs' \<subseteq> insert v (held vs)"
proof -
  obtain vs1 where p: "primary_vote vs v k p = (Return (c, vs1) :: (unit, _) outcome)"
    using assms by (auto simp: addVerifiedVote_def bind_o_Return_iff Let_def split: if_splits)
  define bv where "bv = (case gm_get (vs_byBlock vs1) k of Some bv \<Rightarrow> bv
     | None \<Rightarrow> newBlockVotes False (vals_Size (vs_valSet vs1)))"
  have old: "w \<in> held vs1" if "Some w \<in> set (bv_votes bv)" for w
    using that by (auto simp: bv_def held_def newBlockVotes_def split: option.splits)
  have "vs' = vs1 \<or> (\<exists>s bv' m votes. bv_addVerifiedVote bv v p = (Return bv' :: (unit, _) outcome)
      \<and> (votes = vs_votes vs1 \<or> copy_votes (bv_votes bv') (vs_votes vs1) = (Return votes :: (unit, _) outcome))
      \<and> vs' = vs1\<lparr>vs_valSet := s, vs_byBlock := gm_put k bv' (vs_byBlock vs1), vs_maj23 := m, vs_votes := votes\<rparr>)"
  proof (cases "vs' = vs1")
    case False
    then obtain s bv' where b: "bv_addVerifiedVote bv v p = (Return bv' :: (unit, _) outcome)"
      and r: "vs' = vs1\<lparr>vs_valSet := s, vs_byBlock := gm_put k bv' (vs_byBlock vs1)\<rparr>
        \<or> (\<exists>m votes. copy_votes (bv_votes bv') (vs_votes vs1) = (Return votes :: (unit, _) outcome)
          \<and> vs' = vs1\<lparr>vs_valSet := s, vs_byBlock := gm_put k bv' (vs_byBlock vs1), vs_maj23 := m, vs_votes := votes\<rparr>)"
      using assms unfolding addVerifiedVote_def p bind_o.simps Let_def bv_def [symmetric] prod.case
      by (auto simp: bind_o_Return_iff split: if_splits)
    have "vs1\<lparr>vs_valSet := s, vs_byBlock := gm_put k bv' (vs_byBlock vs1)\<rparr> =
      vs1\<lparr>vs_valSet := s, vs_byBlock := gm_put k bv' (vs_byBlock vs1), vs_maj23 := vs_maj23 vs1, vs_votes := vs_votes vs1\<rparr>"
      by simp
    then show ?thesis using b r by metis
  qed simp
  moreover have "held vs1 \<subseteq> insert v (held vs)" by (rule held_primary [OF p])
  moreover have "held (vs1\<lparr>vs_valSet := s, vs_byBlock := gm_put k bv' (vs_byBlock vs1), vs_maj23 := m, vs_votes := votes\<rparr>)
      \<subseteq> insert v (held vs1)"
    if b: "bv_addVerifiedVote bv v p = (Return bv' :: (unit, _) outcome)"
      and c: "votes = vs_votes vs1 \<or> copy_votes (bv_votes bv') (vs_votes vs1) = (Return votes :: (unit, _) outcome)"
    for s bv' m votes
  proof (rule held_tally)
    show bv': "w = v \<or> w \<in> held vs1" if "Some w \<in> set (bv_votes bv')" for w
      using held_bv_add [OF b that] old by blast
    show "w = v \<or> w \<in> held vs1" if "Some w \<in> set votes" for w
      using c that set_copy_votes [of "bv_votes bv'" "vs_votes vs1" votes] bv' [of w] by (auto simp: held_def)
  qed
  ultimately show ?thesis by blast
qed

lemma held_addVote:
  assumes "addVote env vs (Some v) = (Return (added, err, vs') :: (unit, _) outcome)"
  shows "held vs' \<subseteq> insert v (held vs)"
proof (cases "vs' = vs")
  case False
  then obtain k p c where "addVerifiedVote vs v k p = (Return (added, c, vs') :: (unit, _) outcome)"
    using assms by (auto simp: addVote_def Let_def bind_o_Return_iff split: if_splits option.splits)
  then show ?thesis by (rule held_verified)
qed auto

lemma held_SetPeerMaj23: "held (snd (SetPeerMaj23 vs peer b)) \<subseteq> held vs"
  by (auto simp: SetPeerMaj23_def Let_def held_def gm_get_put newBlockVotes_def split: option.splits if_splits)

lemma held_NewVoteSet: "NewVoteSet c h r t vals = Return vs \<Longrightarrow> held vs = {}"
  by (auto simp: NewVoteSet_def held_def split: if_splits)

section \<open>What the operations keep\<close>

definition set_ok :: "crypto_env \<Rightarrow> HeightVoteSet \<Rightarrow> int \<Rightarrow> SignedMsgType \<Rightarrow> VoteSet \<Rightarrow> bool" where
  \<comment> \<open>a well-formed vote set of this height, for round r and type t\<close>
  "set_ok env hvs r t vs \<longleftrightarrow> vs_inv env vs \<and> vs_chainID vs = hvs_chainID hvs \<and> vs_height vs = hvs_height hvs
     \<and> vs_round vs = r \<and> vs_type vs = t \<and> Validators (vs_valSet vs) = Validators (hvs_valSet hvs)"

definition hvs_ok :: "crypto_env \<Rightarrow> HeightVoteSet \<Rightarrow> bool" where
  "hvs_ok env hvs \<longleftrightarrow> hvs_height hvs \<noteq> 0 \<and> vals_wf (hvs_valSet hvs)
     \<and> (\<forall>v \<in> set (Validators (hvs_valSet hvs)). PubKey v \<noteq> None)
     \<and> (\<forall>r rvs. gm_get (hvs_roundVoteSets hvs) r = Some rvs \<longrightarrow>
          set_ok env hvs r PrevoteType (rvs_Prevotes rvs) \<and> set_ok env hvs r PrecommitType (rvs_Precommits rvs))"

definition votes_of :: "SignedMsgType \<Rightarrow> RoundVoteSet \<Rightarrow> VoteSet" where
  "votes_of t rvs = (if t = PrevoteType then rvs_Prevotes rvs else rvs_Precommits rvs)"

definition majority :: "HeightVoteSet \<Rightarrow> SignedMsgType \<Rightarrow> int \<Rightarrow> BlockID option" where
  "majority hvs t r = Option.bind (gm_get (hvs_roundVoteSets hvs) r) (\<lambda>rvs. vs_maj23 (votes_of t rvs))"

definition hvs_held :: "HeightVoteSet \<Rightarrow> Vote set" where
  "hvs_held hvs = {v. \<exists>r rvs t. gm_get (hvs_roundVoteSets hvs) r = Some rvs \<and> v \<in> held (votes_of t rvs)}"

definition grows :: "Vote set \<Rightarrow> HeightVoteSet \<Rightarrow> HeightVoteSet \<Rightarrow> bool" where
  \<comment> \<open>the same height and validators, no majority lost, no vote held but those of V\<close>
  "grows V hvs hvs' \<longleftrightarrow> hvs_chainID hvs' = hvs_chainID hvs \<and> hvs_height hvs' = hvs_height hvs
     \<and> hvs_valSet hvs' = hvs_valSet hvs
     \<and> (\<forall>t r b. majority hvs t r = Some b \<longrightarrow> majority hvs' t r = Some b)
     \<and> hvs_held hvs' \<subseteq> V \<union> hvs_held hvs"

lemma TwoThirdsMajority_iff:
  "TwoThirdsMajority (Prevotes r hvs) = (b, True) \<longleftrightarrow> majority hvs PrevoteType r = Some b"
  "TwoThirdsMajority (Precommits r hvs) = (b, True) \<longleftrightarrow> majority hvs PrecommitType r = Some b"
  "TwoThirdsMajority (Prevotes r hvs) = (b', False) \<longleftrightarrow> b' = zero_bid \<and> majority hvs PrevoteType r = None"
  "TwoThirdsMajority (Precommits r hvs) = (b', False) \<longleftrightarrow> b' = zero_bid \<and> majority hvs PrecommitType r = None"
  "HasTwoThirdsMajority (Prevotes r hvs) \<longleftrightarrow> majority hvs PrevoteType r \<noteq> None"
  "HasTwoThirdsMajority (Precommits r hvs) \<longleftrightarrow> majority hvs PrecommitType r \<noteq> None"
  by (auto simp: TwoThirdsMajority_def HasTwoThirdsMajority_def Prevotes_def Precommits_def majority_def votes_of_def
      split: option.splits)

lemma votes_grow_refl [simp]: "grows V hvs hvs"
  by (simp add: grows_def)

lemma votes_grow_trans: "grows V a b \<Longrightarrow> grows V b c \<Longrightarrow> grows V a c"
  by (auto simp: grows_def)

lemma votes_grow_mono: "grows V a b \<Longrightarrow> V \<subseteq> W \<Longrightarrow> grows W a b"
  by (auto simp: grows_def)

lemma grows_round [simp]:
  "grows V hvs (hvs'\<lparr>hvs_round := r\<rparr>) = grows V hvs hvs'"
  "grows V hvs (hvs'\<lparr>hvs_peerCatchupRounds := c\<rparr>) = grows V hvs hvs'"
  by (simp_all add: grows_def majority_def hvs_held_def)

lemma hvs_ok_round [simp]:
  "hvs_ok env (hvs\<lparr>hvs_round := r\<rparr>) = hvs_ok env hvs"
  "hvs_ok env (hvs\<lparr>hvs_peerCatchupRounds := c\<rparr>) = hvs_ok env hvs"
  by (simp_all add: hvs_ok_def set_ok_def)

lemma put_ok:
  assumes "hvs_ok env hvs" "set_ok env hvs r PrevoteType (rvs_Prevotes rvs)" "set_ok env hvs r PrecommitType (rvs_Precommits rvs)"
  shows "hvs_ok env (hvs\<lparr>hvs_roundVoteSets := gm_put r rvs (hvs_roundVoteSets hvs)\<rparr>)"
  using assms by (auto simp: hvs_ok_def set_ok_def gm_get_put)

lemma put_grows:
  assumes "\<And>old t b. gm_get (hvs_roundVoteSets hvs) r = Some old \<Longrightarrow> vs_maj23 (votes_of t old) = Some b
       \<Longrightarrow> vs_maj23 (votes_of t rvs) = Some b"
    and "\<And>t. held (votes_of t rvs) \<subseteq> V \<union> hvs_held hvs"
  shows "grows V hvs (hvs\<lparr>hvs_roundVoteSets := gm_put r rvs (hvs_roundVoteSets hvs)\<rparr>)"
  using assms by (fastforce simp: grows_def majority_def hvs_held_def gm_get_put bind_eq_Some_conv split: if_splits)

lemma addRound_spec:
  assumes ok: "hvs_ok env hvs" and new: "gm_get (hvs_roundVoteSets hvs) r = None"
  obtains hvs' where "addRound r hvs = (Return hvs' :: ('e, _) outcome)" "hvs_ok env hvs'" "grows {} hvs hvs'"
    "hvs_round hvs' = hvs_round hvs" "hvs_peerCatchupRounds hvs' = hvs_peerCatchupRounds hvs"
    "\<forall>k. gm_get (hvs_roundVoteSets hvs') k \<noteq> None \<longleftrightarrow> k = r \<or> gm_get (hvs_roundVoteSets hvs) k \<noteq> None"
proof -
  have h: "hvs_height hvs \<noteq> 0" "vals_wf (hvs_valSet hvs)" "\<forall>v \<in> set (Validators (hvs_valSet hvs)). PubKey v \<noteq> None"
    using ok by (auto simp: hvs_ok_def)
  obtain pv where pv: "NewVoteSet (hvs_chainID hvs) (hvs_height hvs) r PrevoteType (hvs_valSet hvs) = (Return pv :: ('e, _) outcome)"
    "set_ok env hvs r PrevoteType pv" "vs_maj23 pv = None"
    by (rule NewVoteSet_inv [OF h, where 'e = 'e and c = "hvs_chainID hvs" and r = r and t = PrevoteType and env = env])
      (auto simp: set_ok_def)
  obtain pc where pc: "NewVoteSet (hvs_chainID hvs) (hvs_height hvs) r PrecommitType (hvs_valSet hvs) = (Return pc :: ('e, _) outcome)"
    "set_ok env hvs r PrecommitType pc" "vs_maj23 pc = None"
    by (rule NewVoteSet_inv [OF h, where 'e = 'e and c = "hvs_chainID hvs" and r = r and t = PrecommitType and env = env])
      (auto simp: set_ok_def)
  define rvs where "rvs = \<lparr>rvs_Prevotes = pv, rvs_Precommits = pc\<rparr>"
  have "held (votes_of t rvs) \<subseteq> {} \<union> hvs_held hvs" for t
    using held_NewVoteSet [OF pv(1)] held_NewVoteSet [OF pc(1)] by (simp add: rvs_def votes_of_def)
  then have "grows {} hvs (hvs\<lparr>hvs_roundVoteSets := gm_put r rvs (hvs_roundVoteSets hvs)\<rparr>)"
    by (intro put_grows) (use new in auto)
  moreover have "hvs_ok env (hvs\<lparr>hvs_roundVoteSets := gm_put r rvs (hvs_roundVoteSets hvs)\<rparr>)"
    by (rule put_ok [OF ok]) (use pv(2) pc(2) in \<open>simp_all add: rvs_def\<close>)
  moreover have "addRound r hvs = (Return (hvs\<lparr>hvs_roundVoteSets := gm_put r rvs (hvs_roundVoteSets hvs)\<rparr>) :: ('e, _) outcome)"
    using new pv(1) pc(1) by (simp add: addRound_def rvs_def)
  ultimately show thesis using that by (simp add: gm_get_put)
qed

lemma store_votes_spec:
  assumes ok: "hvs_ok env hvs" and t: "IsVoteTypeValid t" and rvs: "gm_get (hvs_roundVoteSets hvs) r = Some rvs"
    and vs: "vs_inv env vs" "same_step (votes_of t rvs) vs"
      "\<And>b. vs_maj23 (votes_of t rvs) = Some b \<Longrightarrow> vs_maj23 vs = Some b" "held vs \<subseteq> V \<union> held (votes_of t rvs)"
  shows "hvs_ok env (store_votes r t vs hvs)" "grows V hvs (store_votes r t vs hvs)"
    "hvs_round (store_votes r t vs hvs) = hvs_round hvs"
    "hvs_peerCatchupRounds (store_votes r t vs hvs) = hvs_peerCatchupRounds hvs"
    "\<forall>k. gm_get (hvs_roundVoteSets (store_votes r t vs hvs)) k \<noteq> None \<longleftrightarrow> gm_get (hvs_roundVoteSets hvs) k \<noteq> None"
proof -
  define rvs' where "rvs' = (if t = PrevoteType then rvs\<lparr>rvs_Prevotes := vs\<rparr> else rvs\<lparr>rvs_Precommits := vs\<rparr>)"
  have eq: "store_votes r t vs hvs = hvs\<lparr>hvs_roundVoteSets := gm_put r rvs' (hvs_roundVoteSets hvs)\<rparr>"
    using rvs by (simp add: store_votes_def rvs'_def)
  have old: "set_ok env hvs r PrevoteType (rvs_Prevotes rvs)" "set_ok env hvs r PrecommitType (rvs_Precommits rvs)"
    using ok rvs by (auto simp: hvs_ok_def)
  have tt: "t = PrevoteType \<or> t = PrecommitType" using t by (cases t) (simp_all add: IsVoteTypeValid_def)
  show "hvs_ok env (store_votes r t vs hvs)" unfolding eq
    by (rule put_ok [OF ok]) (use old vs(1,2) tt in \<open>auto simp: rvs'_def set_ok_def votes_of_def same_step_def\<close>)
  have mem: "held (votes_of u rvs) \<subseteq> hvs_held hvs" for u using rvs by (auto simp: hvs_held_def)
  show "grows V hvs (store_votes r t vs hvs)" unfolding eq
  proof (rule put_grows)
    show "vs_maj23 (votes_of u rvs') = Some b"
      if "gm_get (hvs_roundVoteSets hvs) r = Some old" "vs_maj23 (votes_of u old) = Some b" for old u b
      using that rvs vs(3) [of b] tt by (auto simp: rvs'_def votes_of_def split: if_splits)
    show "held (votes_of u rvs') \<subseteq> V \<union> hvs_held hvs" for u
      using vs(4) mem [of u] mem [of t] tt by (auto simp: rvs'_def votes_of_def split: if_splits)
  qed
qed (use rvs in \<open>auto simp: store_votes_def gm_get_put\<close>)

lemma getVoteSet_valid:
  "IsVoteTypeValid t \<Longrightarrow> getVoteSet r t hvs = Return (map_option (votes_of t) (gm_get (hvs_roundVoteSets hvs) r))"
  by (cases t) (auto simp: IsVoteTypeValid_def getVoteSet_def votes_of_def split: option.split)

abbreviation tracked :: "HeightVoteSet \<Rightarrow> int \<Rightarrow> bool" where
  "tracked hvs r \<equiv> gm_get (hvs_roundVoteSets hvs) r \<noteq> None"

lemma add_to_round:
  assumes ok: "hvs_ok env hvs" and t: "IsVoteTypeValid (v_Type v)" and tr: "tracked hvs (v_Round v)"
    and sig: "vote_signable env (hvs_chainID hvs) v"
  obtains added err hvs' where
    "bind_o (getVoteSet (v_Round v) (v_Type v) hvs) (\<lambda>voteSet.
       bind_o (AddVote env voteSet (Some v)) (\<lambda>(added, err, vs).
       Return (added, map_option VoteErr err, store_votes (v_Round v) (v_Type v) vs hvs))) = (Return (added, err, hvs') :: (unit, _) outcome)"
    "hvs_ok env hvs'" "grows {v} hvs hvs'" "hvs_round hvs' = hvs_round hvs"
    "hvs_peerCatchupRounds hvs' = hvs_peerCatchupRounds hvs" "\<forall>k. tracked hvs' k \<longleftrightarrow> tracked hvs k"
proof -
  obtain rvs where rvs: "gm_get (hvs_roundVoteSets hvs) (v_Round v) = Some rvs" using tr by blast
  have set: "set_ok env hvs (v_Round v) (v_Type v) (votes_of (v_Type v) rvs)"
    using ok rvs t by (cases "v_Type v") (auto simp: hvs_ok_def votes_of_def IsVoteTypeValid_def)
  obtain added err vs' where a: "addVote env (votes_of (v_Type v) rvs) (Some v) = (Return (added, err, vs') :: (unit, _) outcome)"
    "vs_inv env vs'" "same_step (votes_of (v_Type v) rvs) vs'"
    "vs_maj23 (votes_of (v_Type v) rvs) \<noteq> None \<Longrightarrow> vs_maj23 vs' = vs_maj23 (votes_of (v_Type v) rvs)"
    by (rule addVote_spec [of env "votes_of (v_Type v) rvs" "Some v", where 'e = unit]) (use set sig in \<open>auto simp: set_ok_def\<close>)
  have h: "held vs' \<subseteq> {v} \<union> held (votes_of (v_Type v) rvs)" using held_addVote [OF a(1)] by simp
  note st = store_votes_spec [OF ok t rvs a(2,3) _ h]
  show thesis
  proof (rule that [of added "map_option VoteErr err" "store_votes (v_Round v) (v_Type v) vs' hvs"])
    show "bind_o (getVoteSet (v_Round v) (v_Type v) hvs) (\<lambda>voteSet.
       bind_o (AddVote env voteSet (Some v)) (\<lambda>(added, err, vs).
       Return (added, map_option VoteErr err, store_votes (v_Round v) (v_Type v) vs hvs)))
       = (Return (added, map_option VoteErr err, store_votes (v_Round v) (v_Type v) vs' hvs) :: (unit, _) outcome)"
      using a(1) rvs by (simp add: getVoteSet_valid [OF t] AddVote_def)
  qed (use st a(4) in auto)
qed

lemma hvs_AddVote_spec:
  assumes ok: "hvs_ok env hvs" and sig: "vote_signable env (hvs_chainID hvs) v"
  obtains added err hvs' where "hvs_AddVote env v peer hvs = (Return (added, err, hvs') :: (unit, _) outcome)"
    "hvs_ok env hvs'" "grows {v} hvs hvs'" "hvs_round hvs' = hvs_round hvs"
    "\<And>p. length (catchup p hvs) \<le> 2 \<Longrightarrow> length (catchup p hvs') \<le> 2"
    "\<And>p. set (catchup p hvs) \<subseteq> set (catchup p hvs')"
    "\<forall>k. tracked hvs' k \<longrightarrow> tracked hvs k \<or> k \<in> set (catchup peer hvs')"
proof -
  consider (type) "\<not> IsVoteTypeValid (v_Type v)" | (tracked) "IsVoteTypeValid (v_Type v)" "tracked hvs (v_Round v)"
    | (unwanted) "IsVoteTypeValid (v_Type v)" "\<not> tracked hvs (v_Round v)" "\<not> length (catchup peer hvs) < 2"
    | (catchup) "IsVoteTypeValid (v_Type v)" "\<not> tracked hvs (v_Round v)" "length (catchup peer hvs) < 2" by blast
  then show thesis
  proof cases
    case type
    then show thesis by (intro that [of False None hvs]) (use ok in \<open>auto simp: hvs_AddVote_def\<close>)
  next
    case unwanted
    then show thesis by (intro that [of False "Some ErrGotVoteFromUnwantedRound" hvs])
      (use ok in \<open>auto simp: hvs_AddVote_def getVoteSet_valid\<close>)
  next
    case tracked
    obtain added err hvs' where r: "bind_o (getVoteSet (v_Round v) (v_Type v) hvs) (\<lambda>voteSet.
       bind_o (AddVote env voteSet (Some v)) (\<lambda>(added, err, vs).
       Return (added, map_option VoteErr err, store_votes (v_Round v) (v_Type v) vs hvs))) = (Return (added, err, hvs') :: (unit, _) outcome)"
      "hvs_ok env hvs'" "grows {v} hvs hvs'" "hvs_round hvs' = hvs_round hvs"
      "hvs_peerCatchupRounds hvs' = hvs_peerCatchupRounds hvs" "\<forall>k. tracked hvs' k \<longleftrightarrow> tracked hvs k"
      by (rule add_to_round [OF ok tracked sig])
    have "hvs_AddVote env v peer hvs = (Return (added, err, hvs') :: (unit, _) outcome)"
      using r(1) tracked by (auto simp: hvs_AddVote_def getVoteSet_valid Let_def)
    then show thesis by (rule that) (use r tracked in \<open>auto simp: catchup_def\<close>)
  next
    case catchup
    obtain hvs1 where h1: "addRound (v_Round v) hvs = (Return hvs1 :: (unit, _) outcome)" "hvs_ok env hvs1" "grows {} hvs hvs1"
      "hvs_round hvs1 = hvs_round hvs" "hvs_peerCatchupRounds hvs1 = hvs_peerCatchupRounds hvs"
      "\<forall>k. tracked hvs1 k \<longleftrightarrow> k = v_Round v \<or> tracked hvs k"
      by (rule addRound_spec [OF ok, where 'e = unit]) (use catchup in auto)
    define hvs2 where "hvs2 = hvs1\<lparr>hvs_peerCatchupRounds :=
      gm_put peer (HeightVotes.catchup peer hvs @ [v_Round v]) (hvs_peerCatchupRounds hvs1)\<rparr>"
    have ok2: "hvs_ok env hvs2" "grows {v} hvs hvs2" "hvs_chainID hvs2 = hvs_chainID hvs"
      using h1(2,3) votes_grow_mono [OF h1(3), of "{v}"] by (simp_all add: hvs2_def) (simp add: grows_def)
    obtain added err hvs' where r: "bind_o (getVoteSet (v_Round v) (v_Type v) hvs2) (\<lambda>voteSet.
       bind_o (AddVote env voteSet (Some v)) (\<lambda>(added, err, vs).
       Return (added, map_option VoteErr err, store_votes (v_Round v) (v_Type v) vs hvs2))) = (Return (added, err, hvs') :: (unit, _) outcome)"
      "hvs_ok env hvs'" "grows {v} hvs2 hvs'" "hvs_round hvs' = hvs_round hvs2"
      "hvs_peerCatchupRounds hvs' = hvs_peerCatchupRounds hvs2" "\<forall>k. tracked hvs' k \<longleftrightarrow> tracked hvs2 k"
      by (rule add_to_round [OF ok2(1) catchup(1)]) (use sig h1(6) ok2(3) in \<open>auto simp: hvs2_def\<close>)
    have "hvs_AddVote env v peer hvs = (Return (added, err, hvs') :: (unit, _) outcome)"
      using r(1) catchup h1(1) by (auto simp: hvs_AddVote_def getVoteSet_valid Let_def hvs2_def)
    then show thesis by (rule that)
      (use r h1 catchup votes_grow_trans [OF ok2(2) r(3)] in \<open>auto simp: hvs2_def HeightVotes.catchup_def gm_get_put split: option.splits\<close>)
  qed
qed

lemma hvs_SetPeerMaj23_spec:
  assumes ok: "hvs_ok env hvs"
  obtains res hvs' where "hvs_SetPeerMaj23 r t peer b hvs = (Return (res, hvs') :: ('e, _) outcome)"
    "hvs_ok env hvs'" "grows {} hvs hvs'" "hvs_round hvs' = hvs_round hvs"
proof (cases "IsVoteTypeValid t \<and> tracked hvs r")
  case False
  then show thesis by (intro that [of "IsVoteTypeValid t" hvs]) (use ok in \<open>auto simp: hvs_SetPeerMaj23_def getVoteSet_valid\<close>)
next
  case True
  then obtain rvs where rvs: "gm_get (hvs_roundVoteSets hvs) r = Some rvs" and t: "IsVoteTypeValid t" by blast
  let ?vs = "votes_of t rvs"
  have inv: "vs_inv env ?vs"
    using ok rvs t by (cases t) (auto simp: hvs_ok_def votes_of_def IsVoteTypeValid_def set_ok_def)
  obtain res vs' where s: "SetPeerMaj23 ?vs peer b = (res, vs')" by fastforce
  note spec = SetPeerMaj23_spec [OF inv, of peer b] held_SetPeerMaj23 [of ?vs peer b]
  have st: "hvs_ok env (store_votes r t vs' hvs)" "grows {} hvs (store_votes r t vs' hvs)" "hvs_round (store_votes r t vs' hvs) = hvs_round hvs"
    using store_votes_spec [OF ok t rvs, of vs' "{}"] spec by (auto simp: s)
  show thesis by (rule that [OF _ st, of res]) (use rvs s in \<open>simp add: hvs_SetPeerMaj23_def t getVoteSet_valid [OF t]\<close>)
qed

section \<open>Setting the round\<close>

lemma set_round_loop_spec:
  assumes "hvs_ok env hvs" "is_i32 r" "rnd < MaxInt32"
  obtains hvs' where "set_round_loop r rnd hvs = done_r hvs'" "hvs_ok env hvs'" "grows {} hvs hvs'"
    "hvs_peerCatchupRounds hvs' = hvs_peerCatchupRounds hvs" "\<forall>k. tracked hvs' k \<longleftrightarrow> tracked hvs k \<or> r \<le> k \<and> k \<le> rnd"
  using assms
proof (induction "nat (rnd + 1 - r)" arbitrary: r hvs thesis rule: less_induct)
  case less
  show ?case
  proof (cases "r \<le> rnd")
    case False
    then have "set_round_loop r rnd hvs = done_r hvs" by (simp add: set_round_loop.simps)
    then show thesis by (rule less.prems) (use False less.prems in auto)
  next
    case True
    have next_r: "i32 (r + 1) = r + 1" "is_i32 (r + 1)" using True less.prems by (auto simp: is_i32_def i32_def)
    have m: "nat (rnd + 1 - (r + 1)) < nat (rnd + 1 - r)" using True by simp
    show thesis
    proof (cases "tracked hvs r")
      case False
      obtain hvs1 where h1: "addRound r hvs = (Return hvs1 :: (unit, _) outcome)" "hvs_ok env hvs1" "grows {} hvs hvs1"
        "hvs_round hvs1 = hvs_round hvs" "hvs_peerCatchupRounds hvs1 = hvs_peerCatchupRounds hvs"
        "\<forall>k. tracked hvs1 k \<longleftrightarrow> k = r \<or> tracked hvs k"
        by (rule addRound_spec [OF less.prems(2), where 'e = unit]) (use False in auto)
      obtain hvs' where h2: "set_round_loop (r + 1) rnd hvs1 = done_r hvs'" "hvs_ok env hvs'" "grows {} hvs1 hvs'"
        "hvs_peerCatchupRounds hvs' = hvs_peerCatchupRounds hvs1" "\<forall>k. tracked hvs' k \<longleftrightarrow> tracked hvs1 k \<or> r + 1 \<le> k \<and> k \<le> rnd"
        by (rule less.hyps [OF m _ h1(2) next_r(2) less.prems(4)])
      have "set_round_loop r rnd hvs = done_r hvs'" using h1(1) h2(1) True False next_r by (simp add: set_round_loop.simps [of r])
      then show thesis
        by (rule less.prems(1)) (use h1 h2 True votes_grow_trans [OF h1(3) h2(3)] in \<open>auto simp: zless_imp_add1_zle\<close>)
    next
      case tr: True
      obtain hvs' where h2: "set_round_loop (r + 1) rnd hvs = done_r hvs'" "hvs_ok env hvs'" "grows {} hvs hvs'"
        "hvs_peerCatchupRounds hvs' = hvs_peerCatchupRounds hvs" "\<forall>k. tracked hvs' k \<longleftrightarrow> tracked hvs k \<or> r + 1 \<le> k \<and> k \<le> rnd"
        by (rule less.hyps [OF m _ less.prems(2) next_r(2) less.prems(4)])
      have "set_round_loop r rnd hvs = done_r hvs'" using h2(1) tr True next_r by (simp add: set_round_loop.simps [of r])
      moreover have "r + 1 \<le> k" if "r \<le> k" "\<not> tracked hvs k" for k using that tr by (cases "k = r") auto
      ultimately show thesis by (intro less.prems(1) [of hvs']) (use h2 tr True in auto)
    qed
  qed
qed

lemma set_round_loop_diverges:
  assumes "set_round_loop r rnd hvs = Some out" "is_i32 r" "MaxInt32 \<le> rnd" "hvs_ok env hvs"
  shows False
  using assms
proof -
  have "is_i32 r \<longrightarrow> MaxInt32 \<le> rnd \<longrightarrow> hvs_ok env hvs \<longrightarrow> False"
  proof (rule set_round_loop.raw_induct [where P = "\<lambda>r rnd hvs out. is_i32 r \<longrightarrow> MaxInt32 \<le> rnd \<longrightarrow> hvs_ok env hvs \<longrightarrow> False",
        OF _ assms(1)], goal_cases)
    case (1 loop r rnd hvs out)
    have "\<not> hvs_ok env hvs" if g: "is_i32 r" "MaxInt32 \<le> rnd"
    proof
      assume ok: "hvs_ok env hvs"
      have "r \<le> rnd" using g by (simp add: is_i32_def)
      show False
      proof (cases "tracked hvs r")
        case True
        then show False using 1(2) 1(1) [of "i32 (r + 1)" rnd hvs out] g ok \<open>r \<le> rnd\<close> by auto
      next
        case False
        obtain hvs1 where h1: "addRound r hvs = (Return hvs1 :: (unit, _) outcome)" "hvs_ok env hvs1"
          by (rule addRound_spec [OF ok, where 'e = unit]) (use False in auto)
        then show False using 1(2) 1(1) [of "i32 (r + 1)" rnd hvs1 out] g False \<open>r \<le> rnd\<close> by auto
      qed
    qed
    then show ?case by blast
  qed
  then show False using assms by blast
qed

definition round_ok :: "HeightVoteSet \<Rightarrow> bool" where
  "round_ok hvs \<longleftrightarrow> 0 \<le> hvs_round hvs \<and> is_i32 (hvs_round hvs)"

lemma SetRound_spec:
  assumes ok: "hvs_ok env hvs" and rnd: "round_ok hvs" "hvs_round hvs - 1 \<le> rnd" "rnd < MaxInt32"
  obtains hvs' where "SetRound rnd hvs = done_r hvs'" "hvs_ok env hvs'" "grows {} hvs hvs'" "hvs_round hvs' = rnd"
    "hvs_peerCatchupRounds hvs' = hvs_peerCatchupRounds hvs"
    "\<forall>k. tracked hvs' k \<longleftrightarrow> tracked hvs k \<or> hvs_round hvs - 1 \<le> k \<and> k \<le> rnd"
proof -
  have i: "is_i32 (hvs_round hvs - 1)" "SafeSubInt32 (hvs_round hvs) 1 = (Return (hvs_round hvs - 1) :: (unit, _) outcome)"
    using rnd by (auto simp: round_ok_def is_i32_def SafeSubInt32_spec)
  obtain hvs' where h: "set_round_loop (hvs_round hvs - 1) rnd hvs = done_r hvs'" "hvs_ok env hvs'" "grows {} hvs hvs'"
    "hvs_peerCatchupRounds hvs' = hvs_peerCatchupRounds hvs"
    "\<forall>k. tracked hvs' k \<longleftrightarrow> tracked hvs k \<or> hvs_round hvs - 1 \<le> k \<and> k \<le> rnd"
    by (rule set_round_loop_spec [OF ok i(1) rnd(3)])
  have "SetRound rnd hvs = done_r (hvs'\<lparr>hvs_round := rnd\<rparr>)" using h(1) i(2) rnd(2) by (simp add: SetRound_def)
  then show thesis by (rule that) (use h in simp_all)
qed

lemma SetRound_post:
  assumes ok: "hvs_ok env hvs" and rnd: "round_ok hvs" and run: "SetRound rnd hvs = done_r hvs'"
  shows "hvs_ok env hvs'" "grows {} hvs hvs'" "hvs_round hvs' = rnd" "rnd < MaxInt32"
proof -
  have i: "is_i32 (hvs_round hvs - 1)" "SafeSubInt32 (hvs_round hvs) 1 = (Return (hvs_round hvs - 1) :: (unit, _) outcome)"
    using rnd by (auto simp: round_ok_def is_i32_def SafeSubInt32_spec)
  obtain hvs1 where l: "set_round_loop (hvs_round hvs - 1) rnd hvs = done_r hvs1" "hvs' = hvs1\<lparr>hvs_round := rnd\<rparr>"
    using run i(2) by (auto simp: SetRound_def bind_r_done_iff split: if_splits)
  show m: "rnd < MaxInt32" using set_round_loop_diverges [OF l(1) i(1) _ ok] by (rule ccontr) simp
  obtain hvs2 where h: "set_round_loop (hvs_round hvs - 1) rnd hvs = done_r hvs2" "hvs_ok env hvs2" "grows {} hvs hvs2"
    by (rule set_round_loop_spec [OF ok i(1) m])
  then show "hvs_ok env hvs'" "grows {} hvs hvs'" "hvs_round hvs' = rnd" using l by simp_all
qed

section \<open>Properties\<close>

lemma pol_loop_spec:
  "pol_loop r hvs = (r', b) \<Longrightarrow>
     (r' = -1 \<and> b = zero_bid \<and> (\<forall>k. 0 \<le> k \<longrightarrow> k \<le> r \<longrightarrow> majority hvs PrevoteType k = None))
     \<or> (0 \<le> r' \<and> r' \<le> r \<and> majority hvs PrevoteType r' = Some b
        \<and> (\<forall>k. r' < k \<longrightarrow> k \<le> r \<longrightarrow> majority hvs PrevoteType k = None))"
proof (induction r hvs rule: pol_loop.induct)
  case (1 r hvs)
  show ?case
  proof (cases "0 \<le> r")
    case False
    then show ?thesis using 1(2) by (auto simp: pol_loop.simps [of r])
  next
    case True
    show ?thesis
    proof (cases "majority hvs PrevoteType r")
      case None
      then have m: "TwoThirdsMajority (Prevotes r hvs) = (zero_bid, False)" by (simp add: TwoThirdsMajority_iff)
      have *: "(\<forall>k. a < k \<longrightarrow> k \<le> r - 1 \<longrightarrow> P k) \<Longrightarrow> P r \<Longrightarrow> (\<forall>k. a < k \<longrightarrow> k \<le> r \<longrightarrow> P k)"
        "(\<forall>k. 0 \<le> k \<longrightarrow> k \<le> r - 1 \<longrightarrow> P k) \<Longrightarrow> P r \<Longrightarrow> (\<forall>k. 0 \<le> k \<longrightarrow> k \<le> r \<longrightarrow> P k)" for P and a :: int
        by (metis zle_diff1_eq order_le_less)+
      from 1(1) [OF True m [symmetric] refl] 1(2) True m None show ?thesis
        by (auto simp: pol_loop.simps [of r] intro!: *)
    next
      case (Some b')
      then have m: "TwoThirdsMajority (Prevotes r hvs) = (b', True)" by (simp add: TwoThirdsMajority_iff)
      then show ?thesis using 1(2) True Some by (auto simp: pol_loop.simps [of r])
    qed
  qed
qed

lemma NewHeightVoteSet_spec:
  assumes "h \<noteq> 0" "vals_wf vals" "\<forall>v \<in> set (Validators vals). PubKey v \<noteq> None"
  obtains hvs where "NewHeightVoteSet c h vals = (Return hvs :: ('e, _) outcome)" "hvs_ok env hvs"
    "hvs_chainID hvs = c" "hvs_height hvs = h" "hvs_valSet hvs = vals" "hvs_round hvs = 0"
    "\<forall>t r. majority hvs t r = None" "hvs_held hvs = {}" "\<forall>p. catchup p hvs = []" "\<forall>k. tracked hvs k \<longleftrightarrow> k = 0"
proof -
  define h0 where "h0 = \<lparr>hvs_chainID = c, hvs_height = h, hvs_valSet = vals, hvs_round = 0,
     hvs_roundVoteSets = [], hvs_peerCatchupRounds = []\<rparr>"
  have ok: "hvs_ok env h0" using assms by (simp add: h0_def hvs_ok_def)
  obtain hvs where r: "addRound 0 h0 = (Return hvs :: ('e, _) outcome)" "hvs_ok env hvs" "grows {} h0 hvs"
    "hvs_round hvs = hvs_round h0" "hvs_peerCatchupRounds hvs = hvs_peerCatchupRounds h0" "\<forall>k. tracked hvs k \<longleftrightarrow> k = 0 \<or> tracked h0 k"
    by (rule addRound_spec [OF ok, where 'e = 'e and r = 0]) (auto simp: h0_def)
  have "hvs = hvs\<lparr>hvs_round := 0\<rparr>" using r(4) by (simp add: h0_def)
  then have new: "NewHeightVoteSet c h vals = (Return hvs :: ('e, _) outcome)"
    using r(1) by (simp add: NewHeightVoteSet_def hvs_Reset_def h0_def)
  have maj: "majority hvs t k = None" for t k
    using r(1) assms(1) by (cases "k = 0") (auto simp: addRound_def NewVoteSet_def h0_def majority_def gm_get_def votes_of_def)
  show thesis by (rule that [OF new r(2)]) (use r maj in \<open>auto simp: h0_def grows_def hvs_held_def catchup_def\<close>)
qed

inductive hvs_run :: "crypto_env \<Rightarrow> string \<Rightarrow> int \<Rightarrow> validator_set \<Rightarrow> string set \<Rightarrow> HeightVoteSet \<Rightarrow> bool"
  for env c h vals P where
  start: "NewHeightVoteSet c h vals = (Return hvs :: (unit, _) outcome) \<Longrightarrow> hvs_run env c h vals P hvs"
| vote: "hvs_run env c h vals P hvs \<Longrightarrow> vote_signable env c v \<Longrightarrow> peer \<in> P
    \<Longrightarrow> hvs_AddVote env v peer hvs = (Return (added, err, hvs') :: (unit, _) outcome) \<Longrightarrow> hvs_run env c h vals P hvs'"
| peer_maj: "hvs_run env c h vals P hvs
    \<Longrightarrow> hvs_SetPeerMaj23 r t peer b hvs = (Return (ok, hvs') :: (unit, _) outcome) \<Longrightarrow> hvs_run env c h vals P hvs'"
| round: "hvs_run env c h vals P hvs \<Longrightarrow> hvs_round hvs \<le> rnd
    \<Longrightarrow> SetRound rnd hvs = done_r hvs' \<Longrightarrow> hvs_run env c h vals P hvs'"

definition run_inv :: "crypto_env \<Rightarrow> string \<Rightarrow> string set \<Rightarrow> HeightVoteSet \<Rightarrow> bool" where
  "run_inv env c P hvs \<longleftrightarrow> hvs_ok env hvs \<and> round_ok hvs \<and> hvs_chainID hvs = c
     \<and> (\<forall>p. length (catchup p hvs) \<le> 2)
     \<and> (\<forall>r. tracked hvs r \<longrightarrow> (-1 \<le> r \<and> r \<le> hvs_round hvs) \<or> (\<exists>p \<in> P. r \<in> set (catchup p hvs)))"

lemma run_inv_vote:
  assumes inv: "run_inv env c P hvs" and v: "vote_signable env c v" "peer \<in> P"
    and run: "hvs_AddVote env v peer hvs = (Return (added, err, hvs') :: (unit, _) outcome)"
  shows "run_inv env c P hvs'"
proof -
  have ok: "hvs_ok env hvs" "vote_signable env (hvs_chainID hvs) v" using inv v by (auto simp: run_inv_def)
  obtain a e h' where r: "hvs_AddVote env v peer hvs = (Return (a, e, h') :: (unit, _) outcome)"
    "hvs_ok env h'" "grows {v} hvs h'" "hvs_round h' = hvs_round hvs"
    "\<forall>p. length (catchup p hvs) \<le> 2 \<longrightarrow> length (catchup p h') \<le> 2" "\<forall>p. set (catchup p hvs) \<subseteq> set (catchup p h')"
    "\<forall>k. tracked h' k \<longrightarrow> tracked hvs k \<or> k \<in> set (catchup peer h')"
    by (rule hvs_AddVote_spec [OF ok, of peer]) blast
  have eq: "h' = hvs'" using r(1) run by simp
  have "(-1 \<le> k \<and> k \<le> hvs_round h') \<or> (\<exists>p \<in> P. k \<in> set (catchup p h'))" if "tracked h' k" for k
  proof (cases "tracked hvs k")
    case True
    then have "(-1 \<le> k \<and> k \<le> hvs_round hvs) \<or> (\<exists>p \<in> P. k \<in> set (catchup p hvs))"
      using inv unfolding run_inv_def by blast
    then show ?thesis using r(4,6) by auto
  next
    case False
    then have "k \<in> set (catchup peer h')" using r(7) that by blast
    then show ?thesis using v(2) by blast
  qed
  then show ?thesis using r(2-5) inv unfolding run_inv_def eq by (simp add: grows_def round_ok_def)
qed

lemma run_inv_peer_maj:
  assumes inv: "run_inv env c P hvs" and run: "hvs_SetPeerMaj23 r t peer b hvs = (Return (ok, hvs') :: (unit, _) outcome)"
  shows "run_inv env c P hvs'"
proof -
  have ok: "hvs_ok env hvs" using inv by (auto simp: run_inv_def)
  obtain a h' where r: "hvs_SetPeerMaj23 r t peer b hvs = (Return (a, h') :: (unit, _) outcome)"
    "hvs_ok env h'" "grows {} hvs h'" "hvs_round h' = hvs_round hvs"
    by (rule hvs_SetPeerMaj23_spec [OF ok, where 'e = unit])
  have "hvs' = hvs \<or> (\<exists>vs. hvs' = store_votes r t vs hvs)"
    using run by (auto simp: hvs_SetPeerMaj23_def bind_o_Return_iff case_prod_beta split: if_splits option.splits)
  then have "hvs_peerCatchupRounds hvs' = hvs_peerCatchupRounds hvs" "tracked hvs' k = tracked hvs k" for k
    by (auto simp: store_votes_def gm_get_put split: option.splits if_splits)
  then show ?thesis using r inv run by (simp add: run_inv_def grows_def round_ok_def catchup_def)
qed

lemma run_inv_round:
  assumes inv: "run_inv env c P hvs" and run: "hvs_round hvs \<le> rnd" "SetRound rnd hvs = done_r hvs'"
  shows "run_inv env c P hvs'"
proof -
  have ok: "hvs_ok env hvs" "round_ok hvs" using inv by (auto simp: run_inv_def)
  have m: "rnd < MaxInt32" by (rule SetRound_post [OF ok run(2)])
  obtain h' where r: "SetRound rnd hvs = done_r h'" "hvs_ok env h'" "grows {} hvs h'" "hvs_round h' = rnd"
    "hvs_peerCatchupRounds h' = hvs_peerCatchupRounds hvs"
    "\<forall>k. tracked h' k \<longleftrightarrow> tracked hvs k \<or> hvs_round hvs - 1 \<le> k \<and> k \<le> rnd"
    by (rule SetRound_spec [OF ok _ m]) (use run in auto)
  have "h' = hvs'" using r(1) run(2) by simp
  moreover have "round_ok h'" using ok(2) run(1) m r(4) by (auto simp: round_ok_def is_i32_def)
  moreover have "(-1 \<le> k \<and> k \<le> rnd) \<or> (\<exists>p \<in> P. k \<in> set (catchup p h'))" if "tracked h' k" for k
  proof (cases "tracked hvs k")
    case True
    then have "(-1 \<le> k \<and> k \<le> hvs_round hvs) \<or> (\<exists>p \<in> P. k \<in> set (catchup p hvs))"
      using inv unfolding run_inv_def by blast
    then show ?thesis using run(1) r(5) by (auto simp: catchup_def)
  next
    case False
    then have "hvs_round hvs - 1 \<le> k \<and> k \<le> rnd" using r(6) that by blast
    then show ?thesis using ok(2) by (auto simp: round_ok_def)
  qed
  ultimately show ?thesis using r inv unfolding run_inv_def by (simp add: grows_def catchup_def)
qed

lemma hvs_run_inv:
  assumes "hvs_run env c h vals P hvs" "vals_wf vals" "\<forall>v \<in> set (Validators vals). PubKey v \<noteq> None"
  shows "run_inv env c P hvs"
  using assms
proof (induction rule: hvs_run.induct)
  case (start hvs)
  then have "h \<noteq> 0" by (auto simp: NewHeightVoteSet_def hvs_Reset_def addRound_def NewVoteSet_def)
  then obtain h1 where "NewHeightVoteSet c h vals = (Return h1 :: (unit, _) outcome)" "hvs_ok env h1" "hvs_chainID h1 = c"
    "hvs_round h1 = 0" "\<forall>p. catchup p h1 = []" "\<forall>k. tracked h1 k \<longleftrightarrow> k = 0"
    by (rule NewHeightVoteSet_spec [OF _ start.prems, where 'e = unit])
  then show ?case using start.hyps by (auto simp: run_inv_def round_ok_def is_i32_def)
next
  case vote then show ?case using run_inv_vote by blast
next
  case peer_maj then show ?case using run_inv_peer_maj by blast
next
  case round then show ?case using run_inv_round by blast
qed

text \<open>
  C11: the proof of lock a height reports is the last one.  \<open>POLInfo\<close> returns the highest round up to
  the tracked one whose prevotes have a two thirds majority, with the block id of that majority,
  and round -1 exactly when no round has one.
\<close>

theorem POLInfo_is_the_last_polka:
  "case POLInfo hvs of (r, b) \<Rightarrow>
     if r = -1 then b = zero_bid \<and> \<not> (\<exists>k. 0 \<le> k \<and> k \<le> hvs_round hvs \<and> HasTwoThirdsMajority (Prevotes k hvs))
     else 0 \<le> r \<and> r \<le> hvs_round hvs \<and> TwoThirdsMajority (Prevotes r hvs) = (b, True)
       \<and> \<not> (\<exists>k. r < k \<and> k \<le> hvs_round hvs \<and> HasTwoThirdsMajority (Prevotes k hvs))"
  using pol_loop_spec [of "hvs_round hvs" hvs]
  by (cases "POLInfo hvs") (auto simp: POLInfo_def TwoThirdsMajority_iff)

text \<open>
  C12: the votes of a height stay well-formed and bounded.  Whatever votes peers send, each peer
  makes the node keep vote sets for at most two rounds beyond the tracked ones; every vote set kept is
  well-formed, of this height and of its round; and the next vote is processed without a panic.
\<close>

theorem peers_add_at_most_two_rounds:
  assumes "vals_wf vals" "\<forall>v \<in> set (Validators vals). PubKey v \<noteq> None" "hvs_run env c h vals P hvs"
  shows "hvs_ok env hvs \<and> (\<forall>p. length (catchup p hvs) \<le> 2)
     \<and> {r. tracked hvs r} \<subseteq> {-1..hvs_round hvs} \<union> (\<Union>p \<in> P. set (catchup p hvs))
     \<and> (\<forall>v peer. vote_signable env c v \<longrightarrow> (\<exists>x. hvs_AddVote env v peer hvs = (Return x :: (unit, _) outcome)))"
proof -
  have inv: "run_inv env c P hvs" by (rule hvs_run_inv [OF assms(3,1,2)])
  have "\<exists>x. hvs_AddVote env v peer hvs = (Return x :: (unit, _) outcome)" if "vote_signable env c v" for v peer
    by (rule hvs_AddVote_spec [of env hvs v peer]) (use inv that in \<open>auto simp: run_inv_def\<close>)
  moreover have "{r. tracked hvs r} \<subseteq> {-1..hvs_round hvs} \<union> (\<Union>p \<in> P. set (catchup p hvs))"
    using inv unfolding run_inv_def by fastforce
  ultimately show ?thesis using inv by (auto simp: run_inv_def)
qed

definition late_vote :: "int \<Rightarrow> Vote" where
  "late_vote r = (example_vote PrevoteType 0 zero_bid)\<lparr>v_Round := r\<rparr>"

definition late_votes :: "int list \<Rightarrow> HeightVoteSet" where
  \<comment> \<open>a peer votes for the given rounds of a fresh height\<close>
  "late_votes rs = foldl (\<lambda>hvs r. case hvs_AddVote vote_env (late_vote r) ''p'' hvs :: (unit, _) outcome of
       Return (_, _, hvs') \<Rightarrow> hvs' | _ \<Rightarrow> hvs)
     (case NewHeightVoteSet ''c'' 1 vote_vals :: (unit, _) outcome of Return hvs \<Rightarrow> hvs) rs"

lemma late_votes_run: "hvs_run vote_env ''c'' 1 vote_vals {''p''} (late_votes rs)"
proof (induction rs rule: rev_induct)
  case Nil
  obtain hvs where "NewHeightVoteSet ''c'' 1 vote_vals = (Return hvs :: (unit, _) outcome)"
    by (rule NewHeightVoteSet_spec [OF _ vote_vals_ok, of 1, where 'e = unit]) auto
  then show ?case by (auto simp: late_votes_def intro: hvs_run.start)
next
  case (snoc r rs)
  have sig: "vote_signable vote_env ''c'' (late_vote r)"
    by (simp add: vote_signable_def vote_env_def late_vote_def example_vote_def example_bid_ok)
  show ?case
  proof (cases "hvs_AddVote vote_env (late_vote r) ''p'' (late_votes rs) :: (unit, _) outcome")
    case (Return x)
    then show ?thesis using hvs_run.vote [OF snoc sig, of "''p''"]
      by (cases x) (auto simp: late_votes_def)
  qed (use snoc in \<open>auto simp: late_votes_def\<close>)
qed

theorem peers_add_at_most_two_rounds_witness:
  "map fst (hvs_roundVoteSets (late_votes [7, 5, 9])) = [0, 7, 5]
   \<and> hvs_ok vote_env (late_votes [7, 5, 9]) \<and> length (catchup ''p'' (late_votes [7, 5, 9])) \<le> 2"
proof -
  have "map fst (hvs_roundVoteSets (late_votes [7, 5, 9])) = [0, 7, 5]" by code_simp
  then show ?thesis using peers_add_at_most_two_rounds [OF vote_vals_ok late_votes_run [of "[7, 5, 9]"]] by blast
qed

end
