(* ===== verification/TmVoting.thy ===== *)
theory TmVoting
  imports Blocks
begin

text \<open>
  The voting rules of the Tendermint protocol, without the code around them: what a validator
  remembers of a height (its round, step and lock, the majorities it has seen, the votes it has
  signed), the steps it may take, and why two blocks are never decided for one height.
  \<open>TmRefinement\<close> shows that the handlers of \<open>consensus/state.go\<close> only take these steps.
\<close>

section \<open>One validator\<close>

record anode =
  a_height :: int
  a_round :: int
  a_step :: int
  a_lock :: "(bytes \<times> int) option"
  a_polka :: "int \<Rightarrow> int \<Rightarrow> bytes option"
  a_maj :: "int \<Rightarrow> int \<Rightarrow> bytes option"
  a_sent :: "(SignedMsgType \<times> int \<times> int \<times> bytes) set"
  a_decided :: "(int \<times> bytes) set"

inductive astep :: "anode \<Rightarrow> anode \<Rightarrow> bool" where
  learn: "(\<And>h r x. a_polka n h r = Some x \<Longrightarrow> P h r = Some x) \<Longrightarrow> (\<And>h r x. a_maj n h r = Some x \<Longrightarrow> M h r = Some x)
    \<Longrightarrow> astep n (n\<lparr>a_polka := P, a_maj := M\<rparr>)"
| advance: "a_round n < r \<or> a_round n = r \<and> a_step n \<le> st \<Longrightarrow> astep n (n\<lparr>a_round := r, a_step := st\<rparr>)"
| prevote: "a_step n < 4 \<Longrightarrow> (\<And>x lr. a_lock n = Some (x, lr) \<Longrightarrow> y = x)
    \<Longrightarrow> astep n (n\<lparr>a_step := 4, a_sent := insert (PrevoteType, a_height n, a_round n, y) (a_sent n)\<rparr>)"
| lock: "a_step n < 6 \<Longrightarrow> a_polka n (a_height n) (a_round n) = Some x \<Longrightarrow> x \<noteq> []
    \<Longrightarrow> S = a_sent n \<or> S = insert (PrecommitType, a_height n, a_round n, x) (a_sent n)
    \<Longrightarrow> astep n (n\<lparr>a_step := 6, a_lock := Some (x, a_round n), a_sent := S\<rparr>)"
| precommit_nil: "a_step n < 6
    \<Longrightarrow> astep n (n\<lparr>a_step := 6, a_sent := insert (PrecommitType, a_height n, a_round n, []) (a_sent n)\<rparr>)"
| unlock: "a_lock n = Some (x, lr) \<Longrightarrow> a_polka n (a_height n) r = Some y \<Longrightarrow> y \<noteq> x \<Longrightarrow> lr < r \<Longrightarrow> r \<le> a_round n
    \<Longrightarrow> astep n (n\<lparr>a_lock := None\<rparr>)"
| decide: "a_maj n h r = Some x \<Longrightarrow> x \<noteq> [] \<Longrightarrow> astep n (n\<lparr>a_decided := insert (h, x) (a_decided n)\<rparr>)"
| new_height: "a_height n < h \<Longrightarrow> astep n (n\<lparr>a_height := h, a_round := 0, a_step := 1, a_lock := None\<rparr>)"

definition past :: "anode \<Rightarrow> SignedMsgType \<Rightarrow> int \<Rightarrow> int \<Rightarrow> bool" where
  \<comment> \<open>the node has done its vote of type t in round r of height h, or never will\<close>
  "past n t h r \<longleftrightarrow> h < a_height n \<or> h = a_height n \<and>
     (r < a_round n \<or> r = a_round n \<and> (if t = PrevoteType then 4 else 6) \<le> a_step n)"

definition sent_inv :: "anode \<Rightarrow> bool" where
  "sent_inv n \<longleftrightarrow>
     (\<forall>t h r x. (t, h, r, x) \<in> a_sent n \<longrightarrow> past n t h r)
     \<and> (\<forall>t h r x y. (t, h, r, x) \<in> a_sent n \<longrightarrow> (t, h, r, y) \<in> a_sent n \<longrightarrow> x = y)
     \<and> (\<forall>h r x. (PrecommitType, h, r, x) \<in> a_sent n \<longrightarrow> x \<noteq> [] \<longrightarrow> a_polka n h r = Some x)
     \<and> (\<forall>h x. (h, x) \<in> a_decided n \<longrightarrow> x \<noteq> [] \<and> (\<exists>r. a_maj n h r = Some x))"

definition overtaken :: "anode \<Rightarrow> int \<Rightarrow> int \<Rightarrow> int \<Rightarrow> bytes \<Rightarrow> bool" where
  \<comment> \<open>a majority of prevotes for something other than x after round r and not after round r'\<close>
  "overtaken n h r r' x \<longleftrightarrow> (\<exists>k y. r < k \<and> k \<le> r' \<and> a_polka n h k = Some y \<and> y \<noteq> x)"

definition lock_inv :: "anode \<Rightarrow> bool" where
  "lock_inv n \<longleftrightarrow>
     (\<forall>x lr. a_lock n = Some (x, lr) \<longrightarrow> past n PrecommitType (a_height n) lr \<and> x \<noteq> [])
     \<and> (\<forall>r x. (PrecommitType, a_height n, r, x) \<in> a_sent n \<longrightarrow> x \<noteq> [] \<longrightarrow>
          (\<exists>lr. a_lock n = Some (x, lr) \<and> r \<le> lr) \<or> overtaken n (a_height n) r (a_round n) x)
     \<and> (\<forall>h r r' x y. (PrecommitType, h, r, x) \<in> a_sent n \<longrightarrow> x \<noteq> [] \<longrightarrow> (PrevoteType, h, r', y) \<in> a_sent n
          \<longrightarrow> r < r' \<longrightarrow> y \<noteq> x \<longrightarrow> overtaken n h r r' x)"

lemma astep_past: "astep n n' \<Longrightarrow> past n t h r \<Longrightarrow> past n' t h r"
  by (induction rule: astep.induct) (auto simp: past_def split: if_splits)

lemma astep_polka: "astep n n' \<Longrightarrow> a_polka n h r = Some x \<Longrightarrow> a_polka n' h r = Some x"
  by (induction rule: astep.induct) auto

lemma astep_maj: "astep n n' \<Longrightarrow> a_maj n h r = Some x \<Longrightarrow> a_maj n' h r = Some x"
  by (induction rule: astep.induct) auto

lemma astep_sent: "astep n n' \<Longrightarrow> a_sent n \<subseteq> a_sent n'"
  by (induction rule: astep.induct) auto

lemma astep_new_vote:
  "astep n n' \<Longrightarrow> (t, h, r, x) \<in> a_sent n' \<Longrightarrow> (t, h, r, x) \<notin> a_sent n
    \<Longrightarrow> \<not> past n t h r \<and> past n' t h r \<and> h = a_height n \<and> r = a_round n \<and> a_polka n' = a_polka n
      \<and> (t = PrecommitType \<longrightarrow> x \<noteq> [] \<longrightarrow> a_polka n h r = Some x)"
  by (induction rule: astep.induct) (auto simp: past_def)

lemma overtaken_mono: "overtaken n h r r' x \<Longrightarrow> astep n n' \<Longrightarrow> r' \<le> r'' \<Longrightarrow> overtaken n' h r r'' x"
  unfolding overtaken_def using astep_polka by (metis order_trans)

lemma sent_invD:
  assumes "sent_inv n"
  shows "(t, h, r, x) \<in> a_sent n \<Longrightarrow> past n t h r"
    "(t, h, r, x) \<in> a_sent n \<Longrightarrow> (t, h, r, y) \<in> a_sent n \<Longrightarrow> x = y"
    "(PrecommitType, h, r, x) \<in> a_sent n \<Longrightarrow> x \<noteq> [] \<Longrightarrow> a_polka n h r = Some x"
    "(h, x) \<in> a_decided n \<Longrightarrow> x \<noteq> [] \<and> (\<exists>r. a_maj n h r = Some x)"
  using assms by (auto simp: sent_inv_def)

lemma lock_invD:
  assumes "lock_inv n"
  shows "a_lock n = Some (x, lr) \<Longrightarrow> past n PrecommitType (a_height n) lr \<and> x \<noteq> []"
    "(PrecommitType, a_height n, r, x) \<in> a_sent n \<Longrightarrow> x \<noteq> [] \<Longrightarrow>
       (\<exists>lr. a_lock n = Some (x, lr) \<and> r \<le> lr) \<or> overtaken n (a_height n) r (a_round n) x"
    "(PrecommitType, h, r, x) \<in> a_sent n \<Longrightarrow> x \<noteq> [] \<Longrightarrow> (PrevoteType, h, r', y) \<in> a_sent n
       \<Longrightarrow> r < r' \<Longrightarrow> y \<noteq> x \<Longrightarrow> overtaken n h r r' x"
  using assms by (auto simp: lock_inv_def)

lemma sent_inv_step:
  assumes step: "astep n n'" and inv: "sent_inv n"
  shows "sent_inv n'"
proof -
  note D = sent_invD [OF inv] and new = astep_new_vote [OF step]
  have "past n' t h r" if "(t, h, r, x) \<in> a_sent n'" for t h r x
    using new [OF that] astep_past [OF step D(1)] by (cases "(t, h, r, x) \<in> a_sent n") blast+
  moreover have "x = y" if v: "(t, h, r, x) \<in> a_sent n'" "(t, h, r, y) \<in> a_sent n'" for t h r x y
  proof (rule ccontr)
    assume "x \<noteq> y"
    have "(t, h, r, x) \<in> a_sent n \<or> (t, h, r, y) \<in> a_sent n"
      using step v \<open>x \<noteq> y\<close> by (induction rule: astep.induct) auto
    then have "past n t h r" using D(1) by auto
    then show False using new [OF v(1)] new [OF v(2)] D(2) [of t h r x y] \<open>x \<noteq> y\<close> by auto
  qed
  moreover have "a_polka n' h r = Some x" if "(PrecommitType, h, r, x) \<in> a_sent n'" "x \<noteq> []" for h r x
    using new [OF that(1)] that(2) astep_polka [OF step] D(3) by (cases "(PrecommitType, h, r, x) \<in> a_sent n") auto
  moreover have "x \<noteq> [] \<and> (\<exists>r. a_maj n' h r = Some x)" if d: "(h, x) \<in> a_decided n'" for h x
  proof (cases "(h, x) \<in> a_decided n")
    case True
    then show ?thesis using D(4) astep_maj [OF step] by metis
  next
    case False
    with step d show ?thesis by (induction rule: astep.induct) auto
  qed
  ultimately show ?thesis unfolding sent_inv_def by simp
qed

lemma lock_past_step:
  "astep n n' \<Longrightarrow> lock_inv n \<Longrightarrow> a_lock n' = Some (x, lr) \<Longrightarrow> past n' PrecommitType (a_height n') lr \<and> x \<noteq> []"
proof (induction rule: astep.induct)
  case (lock n x S)
  then show ?case by (auto simp: past_def)
qed (auto dest!: lock_invD(1) simp: past_def)

lemma lock_kept_step:
  assumes step: "astep n n'" and inv: "lock_inv n" "sent_inv n"
    and v: "(PrecommitType, a_height n', r, x) \<in> a_sent n'" "x \<noteq> []"
  shows "(\<exists>lr. a_lock n' = Some (x, lr) \<and> r \<le> lr) \<or> overtaken n' (a_height n') r (a_round n') x"
  using step inv v
proof cases
  case (lock x0 S)
  show ?thesis
  proof (cases "(PrecommitType, a_height n, r, x) \<in> a_sent n")
    case False
    then show ?thesis using v lock by auto
  next
    case True
    have r: "r < a_round n" using sent_invD(1) [OF inv(2) True] lock by (auto simp: past_def)
    show ?thesis
    proof (cases "x = x0")
      case True
      then show ?thesis using lock r by auto
    next
      case False
      then show ?thesis using lock r by (auto simp: overtaken_def)
    qed
  qed
next
  case (unlock x0 lr k y)
  consider lr' where "a_lock n = Some (x, lr')" "r \<le> lr'" | "overtaken n (a_height n) r (a_round n) x"
    using lock_invD(2) [OF inv(1)] v unlock by auto
  then show ?thesis
  proof cases
    case 1
    then show ?thesis using unlock by (force simp: overtaken_def)
  qed (use unlock in \<open>auto simp: overtaken_def\<close>)
next
  case (new_height h)
  then show ?thesis using v sent_invD(1) [OF inv(2), of PrecommitType h r x] by (auto simp: past_def)
next
  case (learn P M)
  then show ?thesis using lock_invD(2) [OF inv(1), of r x] v overtaken_mono [OF _ step] by auto
next
  case (advance r' st)
  then show ?thesis using lock_invD(2) [OF inv(1), of r x] v overtaken_mono [OF _ step] by auto
qed (use lock_invD(2) [OF inv(1), of r x] v overtaken_mono [OF _ step] in auto)

lemma lock_obeyed_step:
  assumes step: "astep n n'" and inv: "lock_inv n" "sent_inv n"
    and v: "(PrecommitType, h, r, x) \<in> a_sent n'" "x \<noteq> []" "(PrevoteType, h, r', y) \<in> a_sent n'" "r < r'" "y \<noteq> x"
  shows "overtaken n' h r r' x"
proof (cases "(PrevoteType, h, r', y) \<in> a_sent n")
  case True
  have "(PrecommitType, h, r, x) \<in> a_sent n"
  proof (rule ccontr)
    assume "(PrecommitType, h, r, x) \<notin> a_sent n"
    then show False using astep_new_vote [OF step v(1)] sent_invD(1) [OF inv(2) True] v(4) by (auto simp: past_def)
  qed
  then show ?thesis using lock_invD(3) [OF inv(1) _ v(2) True v(4,5)] overtaken_mono [OF _ step] by blast
next
  case False
  with step v(3) have p: "a_lock n \<noteq> None \<longrightarrow> fst (the (a_lock n)) = y" "a_sent n' = insert (PrevoteType, h, r', y) (a_sent n)"
    "h = a_height n" "r' = a_round n"
    by (induction rule: astep.induct) auto
  then have "(PrecommitType, a_height n, r, x) \<in> a_sent n" using v(1) by simp
  from lock_invD(2) [OF inv(1) this v(2)] p v(5) have "overtaken n h r r' x" by auto
  then show ?thesis using overtaken_mono [OF _ step] by blast
qed

lemma lock_inv_step:
  assumes "astep n n'" "lock_inv n" "sent_inv n"
  shows "lock_inv n'"
  unfolding lock_inv_def
  using lock_past_step [OF assms(1,2)] lock_kept_step [OF assms] lock_obeyed_step [OF assms] by blast

section \<open>The validators together\<close>

definition backers :: "'n set \<Rightarrow> ('n \<Rightarrow> anode) \<Rightarrow> SignedMsgType \<Rightarrow> int \<Rightarrow> int \<Rightarrow> bytes \<Rightarrow> 'n set" where
  \<comment> \<open>who may stand behind this vote: the honest validators that sent it, and every other one\<close>
  "backers honest s t h r x = {p. p \<in> honest \<longrightarrow> (t, h, r, x) \<in> a_sent (s p)}"

definition node_backed :: "(int \<Rightarrow> 'n set \<Rightarrow> bool) \<Rightarrow> 'n set \<Rightarrow> ('n \<Rightarrow> anode) \<Rightarrow> anode \<Rightarrow> bool" where
  \<comment> \<open>the majorities the node has seen are votes of a quorum\<close>
  "node_backed quorum honest s n \<longleftrightarrow>
     (\<forall>h r x. a_polka n h r = Some x \<longrightarrow> quorum h (backers honest s PrevoteType h r x))
     \<and> (\<forall>h r x. a_maj n h r = Some x \<longrightarrow> quorum h (backers honest s PrecommitType h r x))"

inductive gstep :: "(int \<Rightarrow> 'n set \<Rightarrow> bool) \<Rightarrow> 'n set \<Rightarrow> ('n \<Rightarrow> anode) \<Rightarrow> ('n \<Rightarrow> anode) \<Rightarrow> bool" for quorum honest where
  "p \<in> honest \<Longrightarrow> astep (s p) n \<Longrightarrow> node_backed quorum honest s n \<Longrightarrow> gstep quorum honest s (s(p := n))"

definition may_precommit :: "anode \<Rightarrow> int \<Rightarrow> int \<Rightarrow> bytes \<Rightarrow> bool" where
  "may_precommit n h r x \<longleftrightarrow> (PrecommitType, h, r, x) \<in> a_sent n \<or> \<not> past n PrecommitType h r"

definition choosable :: "'n set \<Rightarrow> ('n \<Rightarrow> anode) \<Rightarrow> int \<Rightarrow> int \<Rightarrow> bytes \<Rightarrow> 'n set" where
  "choosable honest s h r x = {p. p \<in> honest \<longrightarrow> may_precommit (s p) h r x}"

definition node_inv :: "anode \<Rightarrow> bool" where
  "node_inv n \<longleftrightarrow> sent_inv n \<and> lock_inv n"

definition ginv :: "(int \<Rightarrow> 'n set \<Rightarrow> bool) \<Rightarrow> 'n set \<Rightarrow> ('n \<Rightarrow> anode) \<Rightarrow> bool" where
  "ginv quorum honest s \<longleftrightarrow>
     (\<forall>p \<in> honest. node_inv (s p) \<and> node_backed quorum honest s (s p))
     \<and> (\<forall>h r r' x y. x \<noteq> [] \<longrightarrow> y \<noteq> x \<longrightarrow> r < r' \<longrightarrow> quorum h (backers honest s PrevoteType h r' y)
          \<longrightarrow> \<not> quorum h (choosable honest s h r x))"

lemma may_precommit_step: "astep n n' \<Longrightarrow> may_precommit n' h r x \<Longrightarrow> may_precommit n h r x"
  unfolding may_precommit_def using astep_past astep_new_vote by blast

lemma node_inv_step: "astep n n' \<Longrightarrow> node_inv n \<Longrightarrow> node_inv n'"
  unfolding node_inv_def using sent_inv_step lock_inv_step by blast

lemma node_inv_steps: "astep\<^sup>*\<^sup>* n n' \<Longrightarrow> node_inv n \<Longrightarrow> node_inv n'"
  by (induction rule: rtranclp_induct) (auto intro: node_inv_step)

lemma gstep_frame:
  assumes "gstep quorum honest s s'"
  shows "backers honest s t h r x \<subseteq> backers honest s' t h r x" "choosable honest s' h r x \<subseteq> choosable honest s h r x"
  using assms
  by (induction rule: gstep.induct)
    (auto simp: backers_def choosable_def dest: astep_sent may_precommit_step)

lemma ginvD:
  assumes "ginv quorum honest s"
  shows "p \<in> honest \<Longrightarrow> sent_inv (s p)" "p \<in> honest \<Longrightarrow> lock_inv (s p)" "p \<in> honest \<Longrightarrow> node_backed quorum honest s (s p)"
    "x \<noteq> [] \<Longrightarrow> y \<noteq> x \<Longrightarrow> r < r' \<Longrightarrow> quorum h (backers honest s PrevoteType h r' y) \<Longrightarrow> \<not> quorum h (choosable honest s h r x)"
  using assms by (auto simp: ginv_def node_inv_def)

locale tm_quorums =
  fixes quorum :: "int \<Rightarrow> 'n set \<Rightarrow> bool" and honest :: "'n set"
  assumes overlap: "quorum h A \<Longrightarrow> quorum h B \<Longrightarrow> \<exists>p. p \<in> A \<and> p \<in> B \<and> p \<in> honest"
    and upward: "quorum h A \<Longrightarrow> A \<subseteq> B \<Longrightarrow> quorum h B"
begin

lemma backed_mono:
  assumes "node_backed quorum honest s n" "\<And>t h r x. backers honest s t h r x \<subseteq> backers honest s' t h r x"
  shows "node_backed quorum honest s' n"
  using assms(1) upward [OF _ assms(2)] by (simp add: node_backed_def)

lemma not_choosable_step:
  assumes inv: "ginv quorum honest s" and step: "gstep quorum honest s s'"
    and v: "x \<noteq> []" "y \<noteq> x" "r < r'" "quorum h (backers honest s' PrevoteType h r' y)"
  shows "\<not> quorum h (choosable honest s' h r x)"
proof
  assume ch: "quorum h (choosable honest s' h r x)"
  have old: "quorum h (choosable honest s h r x)" by (rule upward [OF ch gstep_frame(2) [OF step]])
  from step obtain p n where s': "s' = s(p := n)" "p \<in> honest" "astep (s p) n" "node_backed quorum honest s n"
    by cases blast
  have inv': "node_inv (s' q)" if "q \<in> honest" for q
    using inv s' that node_inv_step by (auto simp: ginv_def)
  obtain q where q: "q \<in> honest" "(PrevoteType, h, r', y) \<in> a_sent (s' q)" "may_precommit (s' q) h r x"
    using overlap [OF v(4) ch] by (auto simp: backers_def choosable_def)
  have I: "sent_inv (s' q)" "lock_inv (s' q)" using inv' [OF q(1)] by (auto simp: node_inv_def)
  have "past (s' q) PrecommitType h r" using sent_invD(1) [OF I(1) q(2)] v(3) by (auto simp: past_def)
  then have "(PrecommitType, h, r, x) \<in> a_sent (s' q)" using q(3) by (simp add: may_precommit_def)
  from lock_invD(3) [OF I(2) this v(1) q(2) v(3,2)] obtain k z where k: "r < k" "a_polka (s' q) h k = Some z" "z \<noteq> x"
    by (auto simp: overtaken_def)
  have "node_backed quorum honest s (s' q)" using inv q(1) s' by (cases "q = p") (auto simp: ginv_def)
  then have "quorum h (backers honest s PrevoteType h k z)" using k(2) unfolding node_backed_def by blast
  from ginvD(4) [OF inv v(1) k(3,1) this] old show False by blast
qed

lemma ginv_step:
  assumes inv: "ginv quorum honest s" and step: "gstep quorum honest s s'"
  shows "ginv quorum honest s'"
proof -
  from step obtain p n where s': "s' = s(p := n)" "p \<in> honest" "astep (s p) n" "node_backed quorum honest s n"
    by cases blast
  have "node_inv (s' q) \<and> node_backed quorum honest s' (s' q)" if "q \<in> honest" for q
  proof (cases "q = p")
    case True
    then show ?thesis using inv s' that node_inv_step backed_mono [OF s'(4) gstep_frame(1) [OF step]] by (auto simp: ginv_def)
  next
    case False
    have "node_backed quorum honest s (s q)" using inv that by (auto simp: ginv_def)
    from backed_mono [OF this gstep_frame(1) [OF step]] show ?thesis using False inv s' that by (auto simp: ginv_def)
  qed
  then show ?thesis using not_choosable_step [OF inv step] by (simp add: ginv_def)
qed

lemma ginv_steps: "(gstep quorum honest)\<^sup>*\<^sup>* s s' \<Longrightarrow> ginv quorum honest s \<Longrightarrow> ginv quorum honest s'"
  by (induction rule: rtranclp_induct) (auto intro: ginv_step)

lemma node_steps:
  assumes "astep\<^sup>*\<^sup>* (s p) n" "p \<in> honest" "node_backed quorum honest s n"
  shows "(gstep quorum honest)\<^sup>*\<^sup>* s (s(p := n))"
  using assms(1,3)
proof (induction rule: rtranclp_induct)
  case base
  then show ?case by simp
next
  case (step m n)
  have "node_backed quorum honest s m"
    using step.prems astep_polka [OF step.hyps(2)] astep_maj [OF step.hyps(2)] by (simp add: node_backed_def)
  then have reach: "(gstep quorum honest)\<^sup>*\<^sup>* s (s(p := m))" by (rule step.IH)
  then have "backers honest s t h r x \<subseteq> backers honest (s(p := m)) t h r x" for t h r x
    by (induction rule: rtranclp_induct) (use gstep_frame(1) in blast)+
  then have "node_backed quorum honest (s(p := m)) n" by (rule backed_mono [OF step.prems])
  then have "gstep quorum honest (s(p := m)) ((s(p := m))(p := n))"
    using assms(2) step.hyps(2) by (intro gstep.intros) simp_all
  then show ?case using rtranclp.rtrancl_into_rtrancl [OF reach] by (simp only: fun_upd_upd)
qed

lemma one_value_per_round:
  assumes inv: "ginv quorum honest s" and q: "quorum h (backers honest s t h r x)" "quorum h (backers honest s t h r y)"
  shows "x = y"
proof -
  obtain p where "p \<in> honest" "(t, h, r, x) \<in> a_sent (s p)" "(t, h, r, y) \<in> a_sent (s p)"
    using overlap [OF q] by (auto simp: backers_def)
  then show ?thesis using inv sent_invD(2) by (auto simp: ginv_def node_inv_def)
qed

lemma later_quorum_agrees:
  assumes inv: "ginv quorum honest s" and x: "x \<noteq> []" "y \<noteq> []" and r: "r < r'"
    and q: "quorum h (backers honest s PrecommitType h r x)" "quorum h (backers honest s PrecommitType h r' y)"
  shows "x = y"
proof (rule ccontr)
  assume "x \<noteq> y"
  obtain p where p: "p \<in> honest" "(PrecommitType, h, r', y) \<in> a_sent (s p)"
    using overlap [OF q(2,2)] by (auto simp: backers_def)
  then have "a_polka (s p) h r' = Some y" using inv x sent_invD(3) by (auto simp: ginv_def node_inv_def)
  then have "quorum h (backers honest s PrevoteType h r' y)" using inv p(1) by (auto simp: ginv_def node_backed_def)
  then have "\<not> quorum h (choosable honest s h r x)" by (rule ginvD(4) [OF inv x(1) not_sym [OF \<open>x \<noteq> y\<close>] r])
  moreover have "backers honest s PrecommitType h r x \<subseteq> choosable honest s h r x"
    by (auto simp: backers_def choosable_def may_precommit_def)
  ultimately show False using upward [OF q(1)] by blast
qed

lemma decisions_agree:
  assumes inv: "ginv quorum honest s" and p: "p \<in> honest" "(h, x) \<in> a_decided (s p)"
    and q: "q \<in> honest" "(h, y) \<in> a_decided (s q)"
  shows "x = y"
proof -
  have D: "\<exists>r. z \<noteq> [] \<and> quorum h (backers honest s PrecommitType h r z)"
    if "w \<in> honest" "(h, z) \<in> a_decided (s w)" for w z
    using sent_invD(4) [OF ginvD(1) [OF inv that(1)] that(2)] ginvD(3) [OF inv that(1)]
    unfolding node_backed_def by metis
  obtain r r' where r: "x \<noteq> []" "quorum h (backers honest s PrecommitType h r x)"
    "y \<noteq> []" "quorum h (backers honest s PrecommitType h r' y)"
    using D [OF p] D [OF q] by blast
  consider "r < r'" | "r = r'" | "r' < r" by linarith
  then show ?thesis
  proof cases
    case 1
    then show ?thesis by (rule later_quorum_agrees [OF inv r(1,3) _ r(2,4)])
  next
    case 2
    then show ?thesis using one_value_per_round [OF inv r(2)] r(4) by simp
  next
    case 3
    then show ?thesis by (rule later_quorum_agrees [OF inv r(3,1) _ r(4,2), symmetric])
  qed
qed

end

end
