(* ===== verification/ConsensusState.thy ===== *)
theory ConsensusState
  imports HeightVotes PartSets PrivVal CommitVerify TmVoting
begin

text \<open>
  The consensus state machine of a node, \<open>consensus/state.go\<close>: the round state, the handlers of
  proposals, block parts, votes and timeouts, and the functions that enter the steps of a round,
  down to the commit of a block and the move to the next height.

  What the handlers call and what is modelled elsewhere is used from there: vote sets
  (\<open>VoteSets\<close>, \<open>HeightVotes\<close>), part sets (\<open>PartSets\<close>), proposer rotation (\<open>Validators\<close>) and the
  private validator (\<open>PrivVal\<close>).  Hashing, decoding, validating, creating and executing a block are
  parameters, as are the clock and the keys.  Left out are the write-ahead log, the events, the
  durations of the timeouts, and the measurements of block propagation that the code takes on the
  way (\<open>cost\<close>, \<open>pt\<close>, \<open>blt\<close>, \<open>tps\<close> and their kind), none of which a handler reads; the flag of the first
  complete block of a height is kept, because reading the block under it can crash the node.

  A vote or part set the code shares through a pointer is a value here.  The part sets of the
  proposal, the lock and the valid block are shared only once they are complete, and then no part
  is added any more.

  Two fields record what the code hands over and forgets: \<open>cs_internal\<close> is every message the node
  put on its internal queue, in order, and \<open>cs_past\<close> the votes of the heights it has finished.
\<close>

section \<open>State\<close>

abbreviation "RoundStepNewHeight \<equiv> (1 :: int)"
abbreviation "RoundStepNewRound \<equiv> (2 :: int)"
abbreviation "RoundStepPropose \<equiv> (3 :: int)"
abbreviation "RoundStepPrevote \<equiv> (4 :: int)"
abbreviation "RoundStepPrevoteWait \<equiv> (5 :: int)"
abbreviation "RoundStepPrecommit \<equiv> (6 :: int)"
abbreviation "RoundStepPrecommitWait \<equiv> (7 :: int)"
abbreviation "RoundStepCommit \<equiv> (8 :: int)"

record TmBlock =
  \<comment> \<open>the header fields the handlers read; the rest of the block as its encoding\<close>
  tb_Height :: int
  tb_Time :: timestamp
  tb_AppHash :: bytes
  tb_rest :: bytes

record ChainState =
  ss_ChainID :: string
  ss_InitialHeight :: int
  ss_LastBlockHeight :: int
  ss_AppHash :: bytes
  ss_Validators :: validator_set
  ss_LastValidators :: validator_set
  ss_MaxBytes :: int
  ss_TimeIotaMs :: int

record BlockStore =
  bs_base :: int
  bs_height :: int
  bs_saved :: "(TmBlock \<times> PartSet \<times> Commit) list"

datatype tm_msg =
    ProposalMessage Proposal
  | BlockPartMessage int int "Part option"
  | VoteMessage Vote

record timeoutInfo =
  ti_Height :: int
  ti_Round :: int
  ti_Step :: int

record tm_env =
  te_codec :: time_codec
  te_verify :: "pubkey \<Rightarrow> bytes \<Rightarrow> bytes \<Rightarrow> bool"
  te_addr :: "pubkey \<Rightarrow> address"
  te_sign :: "bytes \<Rightarrow> bytes option"
  te_pubkey :: pubkey
  te_sha :: "bytes \<Rightarrow> bytes"
  te_room :: "nat \<Rightarrow> nat"
  te_clock :: "nat \<Rightarrow> timestamp"
  te_SkipTimeoutCommit :: bool
  te_CreateEmptyBlocks :: bool
  te_CreateEmptyBlocksInterval :: int
  te_Hash :: "TmBlock \<Rightarrow> bytes"
  te_decode :: "bytes \<Rightarrow> TmBlock option"
  te_ValidateBlock :: "ChainState \<Rightarrow> TmBlock \<Rightarrow> bool"
  te_CreateProposalBlock :: "nat \<Rightarrow> int \<Rightarrow> ChainState \<Rightarrow> Commit \<Rightarrow> address \<Rightarrow> TmBlock \<times> PartSet"
  te_ApplyBlock :: "ChainState \<Rightarrow> BlockID \<Rightarrow> TmBlock \<Rightarrow> ChainState option"

record tm_state =
  cs_Height :: int
  cs_Round :: int
  cs_Step :: int
  cs_Validators :: validator_set
  cs_Proposal :: "Proposal option"
  cs_ProposalBlock :: "TmBlock option"
  cs_ProposalBlockParts :: "PartSet option"
  cs_LockedRound :: int
  cs_LockedBlock :: "TmBlock option"
  cs_LockedBlockParts :: "PartSet option"
  cs_ValidRound :: int
  cs_ValidBlock :: "TmBlock option"
  cs_ValidBlockParts :: "PartSet option"
  cs_Votes :: HeightVoteSet
  cs_CommitRound :: int
  cs_LastCommit :: "VoteSet option"
  cs_LastValidators :: validator_set
  cs_TriggeredTimeoutPrecommit :: bool
  cs_state :: ChainState
  cs_privValidator :: "FilePV option"
  cs_privValidatorPubKey :: "pubkey option"
  cs_blockStore :: BlockStore
  cs_flag :: bool
  cs_reads :: nat
  cs_timeouts :: "timeoutInfo list"
  cs_evidence :: "(Vote \<times> Vote) list"
  cs_internal :: "tm_msg list"
  cs_past :: "(int \<times> HeightVoteSet) list"

section \<open>Helpers\<close>

definition te_crypto :: "tm_env \<Rightarrow> crypto_env" where
  "te_crypto e = canonical_env (te_codec e) (te_verify e) (te_addr e)"

definition WaitForTxs :: "tm_env \<Rightarrow> bool" where
  "WaitForTxs e \<longleftrightarrow> \<not> te_CreateEmptyBlocks e \<or> te_CreateEmptyBlocksInterval e > 0"

definition HashesTo :: "tm_env \<Rightarrow> TmBlock option \<Rightarrow> bytes \<Rightarrow> bool" where
  "HashesTo e ob hash \<longleftrightarrow> length hash \<noteq> 0 \<and> (case ob of None \<Rightarrow> False | Some b \<Rightarrow> te_Hash e b = hash)"

definition read_clock :: "tm_env \<Rightarrow> tm_state \<Rightarrow> timestamp \<times> tm_state" where
  "read_clock e cs = (te_clock e (cs_reads cs), cs\<lparr>cs_reads := Suc (cs_reads cs)\<rparr>)"

definition updateRoundStep :: "int \<Rightarrow> int \<Rightarrow> tm_state \<Rightarrow> tm_state" where
  "updateRoundStep rnd stp cs = cs\<lparr>cs_Round := rnd, cs_Step := stp\<rparr>"

definition scheduleTimeout :: "int \<Rightarrow> int \<Rightarrow> int \<Rightarrow> tm_state \<Rightarrow> tm_state" where
  "scheduleTimeout height rnd stp cs =
     cs\<lparr>cs_timeouts := cs_timeouts cs @ [\<lparr>ti_Height = height, ti_Round = rnd, ti_Step = stp\<rparr>]\<rparr>"

definition scheduleRound0 :: "tm_state \<Rightarrow> tm_state" where
  "scheduleRound0 cs = scheduleTimeout (cs_Height cs) 0 RoundStepNewHeight cs"

definition sendInternalMessage :: "tm_msg \<Rightarrow> tm_state \<Rightarrow> tm_state" where
  "sendInternalMessage m cs = cs\<lparr>cs_internal := cs_internal cs @ [m]\<rparr>"

definition updatePrivValidatorPubKey :: "tm_env \<Rightarrow> tm_state \<Rightarrow> tm_state" where
  "updatePrivValidatorPubKey e cs =
     (if cs_privValidator cs = None then cs else cs\<lparr>cs_privValidatorPubKey := Some (te_pubkey e)\<rparr>)"

definition LoadBlockMeta :: "BlockStore \<Rightarrow> int \<Rightarrow> TmBlock option" where
  "LoadBlockMeta bs height = map_option fst (find (\<lambda>(b, _, _). tb_Height b = height) (rev (bs_saved bs)))"

definition LoadSeenCommit :: "BlockStore \<Rightarrow> int \<Rightarrow> Commit option" where
  "LoadSeenCommit bs height = map_option (snd \<circ> snd) (find (\<lambda>(b, _, _). tb_Height b = height) (rev (bs_saved bs)))"

definition SaveBlock :: "TmBlock \<Rightarrow> PartSet \<Rightarrow> Commit \<Rightarrow> BlockStore \<Rightarrow> BlockStore run" where
  "SaveBlock block blockParts seenCommit bs =
     (if bs_base bs > 0 \<and> tb_Height block \<noteq> i64 (bs_height bs + 1) then halt_r
      else if \<not> IsComplete blockParts then halt_r
      else done_r (bs\<lparr>bs_saved := bs_saved bs @ [(block, blockParts, seenCommit)], bs_height := tb_Height block,
             bs_base := (if bs_base bs = 0 then tb_Height block else bs_base bs)\<rparr>))"

definition isProposalComplete :: "tm_state \<Rightarrow> bool" where
  "isProposalComplete cs =
     (case (cs_Proposal cs, cs_ProposalBlock cs) of
        (Some proposal, Some _) \<Rightarrow>
          if p_POLRound proposal < 0 then True
          else HasTwoThirdsMajority (Prevotes (p_POLRound proposal) (cs_Votes cs))
      | _ \<Rightarrow> False)"

definition needProofBlock :: "int \<Rightarrow> tm_state \<Rightarrow> bool run" where
  "needProofBlock height cs =
     (if height = ss_InitialHeight (cs_state cs) then done_r True
      else case LoadBlockMeta (cs_blockStore cs) (i64 (height - 1)) of
             None \<Rightarrow> halt_r
           | Some b \<Rightarrow> done_r (ss_AppHash (cs_state cs) \<noteq> tb_AppHash b))"

definition get_proposer :: "tm_state \<Rightarrow> (validator \<times> tm_state) run" where
  \<comment> \<open>\<open>cs.Validators.GetProposer()\<close>, where the result is dereferenced\<close>
  "get_proposer cs =
     bind_r (Some (GetProposer (cs_Validators cs))) (\<lambda>(p, vals).
     case p of None \<Rightarrow> halt_r | Some v \<Rightarrow> done_r (v, cs\<lparr>cs_Validators := vals\<rparr>))"

section \<open>Signing votes\<close>

definition voteTime :: "tm_env \<Rightarrow> tm_state \<Rightarrow> timestamp \<times> tm_state" where
  "voteTime e cs =
     (let (now, cs1) = read_clock e cs;
          timeIota = i64 (ss_TimeIotaMs (cs_state cs) * 1000000);
          minVoteTime = (case cs_LockedBlock cs of
              Some b \<Rightarrow> tb_Time b + timeIota
            | None \<Rightarrow> (case cs_ProposalBlock cs of Some b \<Rightarrow> tb_Time b + timeIota | None \<Rightarrow> now))
      in (if now > minVoteTime then now else minVoteTime, cs1))"

definition cs_signVote ::
    "tm_env \<Rightarrow> SignedMsgType \<Rightarrow> bytes \<Rightarrow> PartSetHeader \<Rightarrow> tm_state \<Rightarrow> (Vote option \<times> tm_state) run" where
  "cs_signVote e msgType hash header cs =
     (case cs_privValidatorPubKey cs of
        None \<Rightarrow> done_r (None, cs)
      | Some pk \<Rightarrow>
          let addr = te_addr e pk;
              (ts, cs1) = voteTime e cs;
              vote = \<lparr>v_Type = msgType, v_Height = cs_Height cs, v_Round = cs_Round cs,
                v_BlockID = \<lparr>bid_Hash = hash, bid_Parts = header\<rparr>, v_Timestamp = ts,
                v_ValidatorAddress = addr, v_ValidatorIndex = fst (GetByAddress (cs_Validators cs) addr), v_Signature = []\<rparr>;
              (now, cs2) = read_clock e cs1
          in case cs_privValidator cs of
               None \<Rightarrow> halt_r
             | Some pv \<Rightarrow>
                 (case signVote (te_codec e) (te_sign e) now (ss_ChainID (cs_state cs)) pv vote of
                    Return (pv', vote') \<Rightarrow> done_r (Some vote', cs2\<lparr>cs_privValidator := Some pv'\<rparr>)
                  | Error _ \<Rightarrow> done_r (None, cs2)
                  | Panic \<Rightarrow> halt_r))"

definition signAddVote :: "tm_env \<Rightarrow> SignedMsgType \<Rightarrow> bytes \<Rightarrow> PartSetHeader \<Rightarrow> tm_state \<Rightarrow> tm_state run" where
  "signAddVote e msgType hash header cs =
     (if cs_privValidator cs = None then done_r cs
      else case cs_privValidatorPubKey cs of
             None \<Rightarrow> done_r cs
           | Some pk \<Rightarrow>
               if \<not> HasAddress (cs_Validators cs) (te_addr e pk) then done_r cs
               else bind_r (cs_signVote e msgType hash header cs) (\<lambda>(vote, cs1).
                    case vote of None \<Rightarrow> done_r cs1 | Some v \<Rightarrow> done_r (sendInternalMessage (VoteMessage v) cs1)))"

abbreviation zero_psh :: PartSetHeader where "zero_psh \<equiv> \<lparr>psh_Total = 0, psh_Hash = []\<rparr>"

section \<open>Prevote and precommit\<close>

definition defaultDoPrevote :: "tm_env \<Rightarrow> tm_state \<Rightarrow> tm_state run" where
  "defaultDoPrevote e cs =
     (case cs_LockedBlock cs of
        Some b \<Rightarrow> signAddVote e PrevoteType (te_Hash e b) (ps_Header (cs_LockedBlockParts cs)) cs
      | None \<Rightarrow>
          (case cs_ProposalBlock cs of
             None \<Rightarrow> signAddVote e PrevoteType [] zero_psh cs
           | Some b \<Rightarrow>
               if \<not> te_ValidateBlock e (cs_state cs) b then signAddVote e PrevoteType [] zero_psh cs
               else signAddVote e PrevoteType (te_Hash e b) (ps_Header (cs_ProposalBlockParts cs)) cs))"

definition enterPrevote :: "tm_env \<Rightarrow> int \<Rightarrow> int \<Rightarrow> tm_state \<Rightarrow> tm_state run" where
  "enterPrevote e height rnd cs =
     (if cs_Height cs \<noteq> height \<or> rnd < cs_Round cs \<or> (cs_Round cs = rnd \<and> RoundStepPrevote \<le> cs_Step cs) then done_r cs
      else bind_r (defaultDoPrevote e cs) (\<lambda>cs1. done_r (updateRoundStep rnd RoundStepPrevote cs1)))"

definition unlock_block :: "tm_state \<Rightarrow> tm_state" where
  "unlock_block cs = cs\<lparr>cs_LockedRound := -1, cs_LockedBlock := None, cs_LockedBlockParts := None\<rparr>"

definition fetch_parts :: "PartSetHeader \<Rightarrow> tm_state \<Rightarrow> tm_state" where
  \<comment> \<open>set up to receive a block we do not have\<close>
  "fetch_parts header cs =
     (if HasHeader (cs_ProposalBlockParts cs) header then cs
      else cs\<lparr>cs_ProposalBlock := None, cs_ProposalBlockParts := Some (NewPartSetFromHeader header)\<rparr>)"

definition doPrecommit :: "tm_env \<Rightarrow> int \<Rightarrow> tm_state \<Rightarrow> tm_state run" where
  "doPrecommit e rnd cs =
     (case TwoThirdsMajority (Prevotes rnd (cs_Votes cs)) of
        (_, False) \<Rightarrow> signAddVote e PrecommitType [] zero_psh cs
      | (blockID, True) \<Rightarrow>
          if fst (POLInfo (cs_Votes cs)) < rnd then halt_r
          else if length (bid_Hash blockID) = 0
          then signAddVote e PrecommitType [] zero_psh (if cs_LockedBlock cs = None then cs else unlock_block cs)
          else if HashesTo e (cs_LockedBlock cs) (bid_Hash blockID)
          then signAddVote e PrecommitType (bid_Hash blockID) (bid_Parts blockID) (cs\<lparr>cs_LockedRound := rnd\<rparr>)
          else if HashesTo e (cs_ProposalBlock cs) (bid_Hash blockID)
          then (if \<not> te_ValidateBlock e (cs_state cs) (the (cs_ProposalBlock cs)) then halt_r
                else signAddVote e PrecommitType (bid_Hash blockID) (bid_Parts blockID)
                  (cs\<lparr>cs_LockedRound := rnd, cs_LockedBlock := cs_ProposalBlock cs,
                      cs_LockedBlockParts := cs_ProposalBlockParts cs\<rparr>))
          else signAddVote e PrecommitType [] zero_psh (fetch_parts (bid_Parts blockID) (unlock_block cs)))"

definition enterPrecommit :: "tm_env \<Rightarrow> int \<Rightarrow> int \<Rightarrow> tm_state \<Rightarrow> tm_state run" where
  "enterPrecommit e height rnd cs =
     (if cs_Height cs \<noteq> height \<or> rnd < cs_Round cs \<or> (cs_Round cs = rnd \<and> RoundStepPrecommit \<le> cs_Step cs) then done_r cs
      else bind_r (doPrecommit e rnd cs) (\<lambda>cs1. done_r (updateRoundStep rnd RoundStepPrecommit cs1)))"

definition enterPrevoteWait :: "tm_env \<Rightarrow> int \<Rightarrow> int \<Rightarrow> tm_state \<Rightarrow> tm_state run" where
  "enterPrevoteWait e height rnd cs =
     bind_r (Some (HasAll (Prevotes rnd (cs_Votes cs)))) (\<lambda>hasAll.
     bind_r (if hasAll \<and> \<not> HasTwoThirdsMajority (Prevotes rnd (cs_Votes cs)) then enterPrecommit e height rnd cs
             else done_r cs) (\<lambda>cs1.
     if cs_Height cs1 \<noteq> height \<or> rnd < cs_Round cs1 \<or> (cs_Round cs1 = rnd \<and> RoundStepPrevoteWait \<le> cs_Step cs1)
     then done_r cs1
     else bind_r (Some (HasTwoThirdsAny (Prevotes rnd (cs_Votes cs1)))) (\<lambda>any.
          if \<not> any then halt_r
          else done_r (updateRoundStep rnd RoundStepPrevoteWait
                 (scheduleTimeout height rnd RoundStepPrevoteWait cs1)))))"

definition enterPrecommitWait :: "int \<Rightarrow> int \<Rightarrow> tm_state \<Rightarrow> tm_state run" where
  "enterPrecommitWait height rnd cs =
     (if cs_Height cs \<noteq> height \<or> rnd < cs_Round cs \<or> (cs_Round cs = rnd \<and> cs_TriggeredTimeoutPrecommit cs) then done_r cs
      else bind_r (Some (HasTwoThirdsAny (Precommits rnd (cs_Votes cs)))) (\<lambda>any.
           if \<not> any then halt_r
           else done_r ((scheduleTimeout height rnd RoundStepPrecommitWait cs)\<lparr>cs_TriggeredTimeoutPrecommit := True\<rparr>)))"

section \<open>Commit\<close>

definition reset_to_state :: "ChainState \<Rightarrow> VoteSet option \<Rightarrow> tm_state \<Rightarrow> tm_state run" where
  \<comment> \<open>the second half of updateToState: the fields of the next height\<close>
  "reset_to_state st lastCommit cs =
     (let h1 = i64 (ss_LastBlockHeight st + 1);
          height = (if h1 = 1 then ss_InitialHeight st else h1)
      in bind_r (Some (NewHeightVoteSet (ss_ChainID st) height (ss_Validators st))) (\<lambda>votes.
         done_r (updateRoundStep 0 RoundStepNewHeight (cs\<lparr>cs_Height := height, cs_Validators := ss_Validators st,
           cs_Proposal := None, cs_ProposalBlock := None, cs_ProposalBlockParts := None,
           cs_LockedRound := -1, cs_LockedBlock := None, cs_LockedBlockParts := None,
           cs_ValidRound := -1, cs_ValidBlock := None, cs_ValidBlockParts := None,
           cs_Votes := votes, cs_CommitRound := -1, cs_LastCommit := lastCommit,
           cs_LastValidators := ss_LastValidators st, cs_TriggeredTimeoutPrecommit := False,
           cs_state := st, cs_flag := False, cs_past := cs_past cs @ [(cs_Height cs, cs_Votes cs)]\<rparr>))))"

definition updateToState :: "ChainState \<Rightarrow> tm_state \<Rightarrow> tm_state run" where
  \<comment> \<open>called by a running node, whose state and votes are not nil\<close>
  "updateToState st cs =
     (let last = ss_LastBlockHeight (cs_state cs)
      in if cs_CommitRound cs > -1 \<and> 0 < cs_Height cs \<and> cs_Height cs \<noteq> ss_LastBlockHeight st then halt_r
         else if last > 0 \<and> i64 (last + 1) \<noteq> cs_Height cs then halt_r
         else if last > 0 \<and> cs_Height cs = ss_InitialHeight (cs_state cs) then halt_r
         else if ss_LastBlockHeight st \<le> last then done_r cs
         else if ss_LastBlockHeight st = 0 then reset_to_state st None cs
         else if cs_CommitRound cs > -1
         then (if \<not> HasTwoThirdsMajority (Precommits (cs_CommitRound cs) (cs_Votes cs)) then halt_r
               else reset_to_state st (Precommits (cs_CommitRound cs) (cs_Votes cs)) cs)
         else if cs_LastCommit cs = None then halt_r
         else reset_to_state st (cs_LastCommit cs) cs)"

definition save_block :: "TmBlock \<Rightarrow> PartSet \<Rightarrow> tm_state \<Rightarrow> tm_state run" where
  "save_block block blockParts cs =
     (if bs_height (cs_blockStore cs) < tb_Height block
      then (case Precommits (cs_CommitRound cs) (cs_Votes cs) of
              None \<Rightarrow> halt_r
            | Some precommits \<Rightarrow>
                bind_r (Some (MakeCommit precommits)) (\<lambda>seenCommit.
                bind_r (SaveBlock block blockParts seenCommit (cs_blockStore cs)) (\<lambda>bs.
                done_r (cs\<lparr>cs_blockStore := bs\<rparr>))))
      else done_r cs)"

definition finalizeCommit :: "tm_env \<Rightarrow> int \<Rightarrow> tm_state \<Rightarrow> tm_state run" where
  "finalizeCommit e height cs =
     (if cs_Height cs \<noteq> height \<or> cs_Step cs \<noteq> RoundStepCommit then done_r cs
      else case TwoThirdsMajority (Precommits (cs_CommitRound cs) (cs_Votes cs)) of
        (_, False) \<Rightarrow> halt_r
      | (blockID, True) \<Rightarrow>
          if \<not> HasHeader (cs_ProposalBlockParts cs) (bid_Parts blockID) then halt_r
          else if \<not> HashesTo e (cs_ProposalBlock cs) (bid_Hash blockID) then halt_r
          else let block = the (cs_ProposalBlock cs); blockParts = the (cs_ProposalBlockParts cs)
               in if \<not> te_ValidateBlock e (cs_state cs) block then halt_r
                  else bind_r (save_block block blockParts cs) (\<lambda>cs1.
                    if cs_privValidatorPubKey cs1 = None then halt_r
                    else case te_ApplyBlock e (cs_state cs1)
                           \<lparr>bid_Hash = te_Hash e block, bid_Parts = ps_Header (cs_ProposalBlockParts cs1)\<rparr> block of
                      None \<Rightarrow> done_r cs1
                    | Some st \<Rightarrow>
                        bind_r (updateToState st cs1) (\<lambda>cs2.
                        done_r (scheduleRound0 (updatePrivValidatorPubKey e cs2)))))"

definition tryFinalizeCommit :: "tm_env \<Rightarrow> int \<Rightarrow> tm_state \<Rightarrow> tm_state run" where
  "tryFinalizeCommit e height cs =
     (if cs_Height cs \<noteq> height then halt_r
      else case TwoThirdsMajority (Precommits (cs_CommitRound cs) (cs_Votes cs)) of
             (blockID, ok) \<Rightarrow>
               if \<not> ok \<or> length (bid_Hash blockID) = 0 then done_r cs
               else if \<not> HashesTo e (cs_ProposalBlock cs) (bid_Hash blockID) then done_r cs
               else finalizeCommit e height cs)"

definition stage_commit :: "tm_env \<Rightarrow> BlockID \<Rightarrow> tm_state \<Rightarrow> tm_state" where
  \<comment> \<open>move the locked block over if it is the one committed, or set up to get that one\<close>
  "stage_commit e blockID cs =
     (let cs1 = (if HashesTo e (cs_LockedBlock cs) (bid_Hash blockID)
                 then cs\<lparr>cs_ProposalBlock := cs_LockedBlock cs, cs_ProposalBlockParts := cs_LockedBlockParts cs\<rparr> else cs)
      in if HashesTo e (cs_ProposalBlock cs1) (bid_Hash blockID) then cs1
         else fetch_parts (bid_Parts blockID) cs1)"

definition enterCommit :: "tm_env \<Rightarrow> int \<Rightarrow> int \<Rightarrow> tm_state \<Rightarrow> tm_state run" where
  "enterCommit e height commitRound cs =
     (if cs_Height cs \<noteq> height \<or> RoundStepCommit \<le> cs_Step cs then done_r cs
      else case TwoThirdsMajority (Precommits commitRound (cs_Votes cs)) of
             (_, False) \<Rightarrow> halt_r
           | (blockID, True) \<Rightarrow>
               tryFinalizeCommit e height
                 ((updateRoundStep (cs_Round cs) RoundStepCommit (stage_commit e blockID cs))\<lparr>cs_CommitRound := commitRound\<rparr>))"

section \<open>Propose\<close>

definition createProposalBlock :: "tm_env \<Rightarrow> tm_state \<Rightarrow> ((TmBlock \<times> PartSet) option \<times> tm_state) run" where
  "createProposalBlock e cs =
     (if cs_privValidator cs = None then halt_r
      else let create = (\<lambda>commit. case cs_privValidatorPubKey cs of
                 None \<Rightarrow> done_r (None, cs)
               | Some pk \<Rightarrow> done_r (Some (te_CreateProposalBlock e (cs_reads cs) (cs_Height cs) (cs_state cs) commit (te_addr e pk)),
                                    cs\<lparr>cs_reads := Suc (cs_reads cs)\<rparr>))
           in if cs_Height cs = ss_InitialHeight (cs_state cs)
              then create \<lparr>c_Height = 0, c_Round = 0, c_BlockID = zero_bid, c_Signatures = []\<rparr>
              else (case cs_LastCommit cs of
                      Some lc \<Rightarrow>
                        if HasTwoThirdsMajority (Some lc) then bind_r (Some (MakeCommit lc)) create
                        else done_r (None, cs)
                    | None \<Rightarrow> done_r (None, cs)))"

fun send_parts :: "nat \<Rightarrow> PartSet \<Rightarrow> tm_state \<Rightarrow> tm_state run" where
  \<comment> \<open>the loop over the parts, with the number of parts left to send\<close>
  "send_parts 0 blockParts cs = done_r cs"
| "send_parts (Suc n) blockParts cs =
     (case GetPart blockParts (uint (ps_total blockParts) - int (Suc n)) of
        Return part \<Rightarrow> send_parts n blockParts
          (sendInternalMessage (BlockPartMessage (cs_Height cs) (cs_Round cs) part) cs)
      | _ \<Rightarrow> halt_r)"

definition choose_block :: "tm_env \<Rightarrow> tm_state \<Rightarrow> ((TmBlock \<times> PartSet option) option \<times> tm_state) run" where
  \<comment> \<open>the valid block if there is one, else a new block\<close>
  "choose_block e cs =
     (case cs_ValidBlock cs of
        Some b \<Rightarrow> done_r (Some (b, cs_ValidBlockParts cs), cs)
      | None \<Rightarrow> bind_r (createProposalBlock e cs) (\<lambda>(made, cs1).
          done_r (map_option (\<lambda>(b, parts). (b, Some parts)) made, cs1)))"

definition send_proposal :: "tm_env \<Rightarrow> int \<Rightarrow> int \<Rightarrow> TmBlock \<Rightarrow> PartSet option \<Rightarrow> tm_state \<Rightarrow> tm_state run" where
  \<comment> \<open>sign the proposal and queue it with the parts of its block\<close>
  "send_proposal e height rnd block blockParts cs =
     (let (now, cs1) = read_clock e cs;
          proposal = \<lparr>p_Type = ProposalType, p_Height = height, p_Round = rnd, p_POLRound = cs_ValidRound cs1,
            p_BlockID = \<lparr>bid_Hash = te_Hash e block, bid_Parts = ps_Header blockParts\<rparr>,
            p_Timestamp = now, p_Signature = []\<rparr>;
          (now', cs2) = read_clock e cs1
      in case cs_privValidator cs2 of
           None \<Rightarrow> halt_r
         | Some pv \<Rightarrow>
             (case signProposal (te_codec e) (te_sign e) now' (ss_ChainID (cs_state cs2)) pv proposal of
                Panic \<Rightarrow> halt_r
              | Error _ \<Rightarrow> done_r cs2
              | Return (pv', proposal') \<Rightarrow>
                  let cs3 = sendInternalMessage (ProposalMessage (proposal\<lparr>p_Signature := p_Signature proposal'\<rparr>))
                        (cs2\<lparr>cs_privValidator := Some pv'\<rparr>)
                  in (case blockParts of None \<Rightarrow> done_r cs3
                      | Some ps \<Rightarrow> send_parts (unat (ps_total ps)) ps cs3)))"

definition defaultDecideProposal :: "tm_env \<Rightarrow> int \<Rightarrow> int \<Rightarrow> tm_state \<Rightarrow> tm_state run" where
  "defaultDecideProposal e height rnd cs =
     bind_r (choose_block e cs) (\<lambda>(choice, cs1).
     case choice of
       None \<Rightarrow> done_r cs1
     | Some (block, blockParts) \<Rightarrow> send_proposal e height rnd block blockParts cs1)"

definition proposeIfProposer :: "tm_env \<Rightarrow> int \<Rightarrow> int \<Rightarrow> tm_state \<Rightarrow> tm_state run" where
  "proposeIfProposer e height rnd cs =
     (if cs_privValidator cs = None then done_r cs
      else case cs_privValidatorPubKey cs of
             None \<Rightarrow> done_r cs
           | Some pk \<Rightarrow>
               if \<not> HasAddress (cs_Validators cs) (te_addr e pk) then done_r cs
               else bind_r (get_proposer cs) (\<lambda>(proposer, cs1).
                    if Address proposer = te_addr e pk then defaultDecideProposal e height rnd cs1 else done_r cs1))"

definition enterPropose :: "tm_env \<Rightarrow> int \<Rightarrow> int \<Rightarrow> tm_state \<Rightarrow> tm_state run" where
  "enterPropose e height rnd cs =
     (if cs_Height cs \<noteq> height \<or> rnd < cs_Round cs \<or> (cs_Round cs = rnd \<and> RoundStepPropose \<le> cs_Step cs) then done_r cs
      else bind_r (proposeIfProposer e height rnd (scheduleTimeout height rnd RoundStepPropose cs)) (\<lambda>cs1.
           let cs2 = updateRoundStep rnd RoundStepPropose cs1
           in if isProposalComplete cs2 then enterPrevote e height (cs_Round cs2) cs2 else done_r cs2))"

definition enterNewRound :: "tm_env \<Rightarrow> int \<Rightarrow> int \<Rightarrow> tm_state \<Rightarrow> tm_state run" where
  "enterNewRound e height rnd cs =
     (if cs_Height cs \<noteq> height \<or> rnd < cs_Round cs \<or> (cs_Round cs = rnd \<and> cs_Step cs \<noteq> RoundStepNewHeight) then done_r cs
      else bind_r (if cs_Round cs < rnd
                   then bind_r (Some (SafeSubInt32 rnd (cs_Round cs))) (\<lambda>d.
                        Some (IncrementProposerPriority (cs_Validators cs) d))
                   else done_r (cs_Validators cs)) (\<lambda>validators.
           bind_r (get_proposer ((updateRoundStep rnd RoundStepNewRound cs)\<lparr>cs_Validators := validators\<rparr>)) (\<lambda>(_, cs1).
           if cs_privValidatorPubKey cs1 = None then halt_r
           else let cs2 = (if rnd = 0 then cs1
                           else cs1\<lparr>cs_Proposal := None, cs_ProposalBlock := None, cs_ProposalBlockParts := None\<rparr>)
                in bind_r (Some (SafeAddInt32 rnd 1)) (\<lambda>rnd1.
                   bind_r (SetRound rnd1 (cs_Votes cs2)) (\<lambda>votes.
                   let cs3 = cs2\<lparr>cs_Votes := votes, cs_TriggeredTimeoutPrecommit := False\<rparr>
                   in bind_r (if WaitForTxs e \<and> rnd = 0 then needProofBlock height cs3 else done_r True) (\<lambda>goOn.
                      if \<not> goOn
                      then done_r (if te_CreateEmptyBlocksInterval e > 0
                                   then scheduleTimeout height rnd RoundStepNewRound cs3 else cs3)
                      else enterPropose e height rnd cs3))))))"

section \<open>Messages\<close>

definition defaultSetProposal :: "tm_env \<Rightarrow> Proposal \<Rightarrow> tm_state \<Rightarrow> tm_state run" where
  "defaultSetProposal e proposal cs =
     (if cs_Proposal cs \<noteq> None then done_r cs
      else if p_Height proposal \<noteq> cs_Height cs \<or> p_Round proposal \<noteq> cs_Round cs then done_r cs
      else if p_POLRound proposal < -1 \<or> (p_POLRound proposal \<ge> 0 \<and> p_POLRound proposal \<ge> p_Round proposal) then done_r cs
      else bind_r (get_proposer cs) (\<lambda>(proposer, cs1).
           case PubKey proposer of
             None \<Rightarrow> halt_r
           | Some pk \<Rightarrow>
               bind_r (Some (ProposalSignBytes (te_crypto e) (ss_ChainID (cs_state cs1)) proposal)) (\<lambda>bz.
               if \<not> te_verify e pk bz (p_Signature proposal) then done_r cs1
               else done_r (cs1\<lparr>cs_Proposal := Some proposal, cs_ProposalBlockParts :=
                      (case cs_ProposalBlockParts cs1 of
                         None \<Rightarrow> Some (NewPartSetFromHeader (bid_Parts (p_BlockID proposal)))
                       | Some ps \<Rightarrow> Some ps)\<rparr>))))"

definition decode_parts :: "tm_env \<Rightarrow> PartSet \<Rightarrow> tm_state \<Rightarrow> tm_state run" where
  \<comment> \<open>read the complete parts and decode the block; an error leaves the proposal block as it was\<close>
  "decode_parts e ps cs =
     (case GetReader ps of
        Return psr \<Rightarrow>
          (case ReadAll (te_room e) psr of
             None \<Rightarrow> None
           | Some (Return bz) \<Rightarrow>
               (case te_decode e bz of None \<Rightarrow> done_r cs | Some b \<Rightarrow> done_r (cs\<lparr>cs_ProposalBlock := Some b\<rparr>))
           | Some (Error _) \<Rightarrow> done_r cs
           | Some Panic \<Rightarrow> halt_r)
      | _ \<Rightarrow> halt_r)"

definition addProposalBlockPart :: "tm_env \<Rightarrow> int \<Rightarrow> Part option \<Rightarrow> tm_state \<Rightarrow> (bool \<times> tm_state) run" where
  "addProposalBlockPart e height opart cs =
     (if cs_Height cs \<noteq> height then done_r (False, cs)
      else case cs_ProposalBlockParts cs of
        None \<Rightarrow> (case opart of None \<Rightarrow> halt_r | Some part \<Rightarrow> done_r (False, cs))
      | Some ps \<Rightarrow>
          (case opart of
             None \<Rightarrow> halt_r
           | Some part \<Rightarrow>
               (case AddPart (te_sha e) (Some ps) part of
                  Return (added, Some ps') \<Rightarrow>
                    let cs1 = cs\<lparr>cs_ProposalBlockParts := Some ps'\<rparr>
                    in if ps_byteSize ps' > ss_MaxBytes (cs_state cs) then done_r (added, cs1)
                       else if added \<and> IsComplete ps'
                       then bind_r (decode_parts e ps' cs1) (\<lambda>cs2. done_r (added, cs2))
                       else done_r (added, cs1)
                | Return (_, None) \<Rightarrow> halt_r
                | Error _ \<Rightarrow> done_r (False, cs)
                | Panic \<Rightarrow> halt_r)))"

definition handleCompleteProposal :: "tm_env \<Rightarrow> int \<Rightarrow> tm_state \<Rightarrow> tm_state run" where
  "handleCompleteProposal e blockHeight cs =
     (let (blockID, hasTwoThirds) = TwoThirdsMajority (Prevotes (cs_Round cs) (cs_Votes cs));
          cs1 = (if hasTwoThirds \<and> \<not> bid_IsZero blockID \<and> cs_ValidRound cs < cs_Round cs
                   \<and> HashesTo e (cs_ProposalBlock cs) (bid_Hash blockID)
                 then cs\<lparr>cs_ValidRound := cs_Round cs, cs_ValidBlock := cs_ProposalBlock cs,
                         cs_ValidBlockParts := cs_ProposalBlockParts cs\<rparr> else cs)
      in if cs_Step cs1 \<le> RoundStepPropose \<and> isProposalComplete cs1
         then bind_r (enterPrevote e blockHeight (cs_Round cs1) cs1) (\<lambda>cs2.
              if hasTwoThirds then enterPrecommit e blockHeight (cs_Round cs2) cs2 else done_r cs2)
         else if cs_Step cs1 = RoundStepCommit then tryFinalizeCommit e blockHeight cs1
         else done_r cs1)"

definition handleBlockPart :: "tm_env \<Rightarrow> int \<Rightarrow> Part option \<Rightarrow> tm_state \<Rightarrow> tm_state run" where
  "handleBlockPart e height part cs =
     bind_r (addProposalBlockPart e height part cs) (\<lambda>(added, cs1).
     if added \<and> (case cs_ProposalBlockParts cs1 of None \<Rightarrow> False | Some ps \<Rightarrow> IsComplete ps)
     then (if \<not> cs_flag cs1
           then (case cs_ProposalBlock cs1 of
                   None \<Rightarrow> halt_r
                 | Some _ \<Rightarrow> handleCompleteProposal e height (cs1\<lparr>cs_flag := True\<rparr>))
           else handleCompleteProposal e height cs1)
     else done_r cs1)"

definition on_polka :: "tm_env \<Rightarrow> int \<Rightarrow> tm_state \<Rightarrow> tm_state" where
  \<comment> \<open>a round has a majority of prevotes: release the lock, update the valid block\<close>
  "on_polka e rnd cs =
     (case TwoThirdsMajority (Prevotes rnd (cs_Votes cs)) of
        (_, False) \<Rightarrow> cs
      | (blockID, True) \<Rightarrow>
          let cs1 = (if cs_LockedBlock cs \<noteq> None \<and> cs_LockedRound cs < rnd \<and> rnd \<le> cs_Round cs
                       \<and> \<not> HashesTo e (cs_LockedBlock cs) (bid_Hash blockID) then unlock_block cs else cs)
          in if length (bid_Hash blockID) \<noteq> 0 \<and> cs_ValidRound cs1 < rnd \<and> rnd = cs_Round cs1
             then let cs2 = (if HashesTo e (cs_ProposalBlock cs1) (bid_Hash blockID)
                             then cs1\<lparr>cs_ValidRound := rnd, cs_ValidBlock := cs_ProposalBlock cs1,
                                      cs_ValidBlockParts := cs_ProposalBlockParts cs1\<rparr>
                             else cs1\<lparr>cs_ProposalBlock := None\<rparr>)
                  in if HasHeader (cs_ProposalBlockParts cs2) (bid_Parts blockID) then cs2
                     else cs2\<lparr>cs_ProposalBlockParts := Some (NewPartSetFromHeader (bid_Parts blockID))\<rparr>
             else cs1)"

definition prevote_added :: "tm_env \<Rightarrow> int \<Rightarrow> tm_state \<Rightarrow> tm_state run" where
  "prevote_added e rnd cs0 =
     (let cs = on_polka e rnd cs0; height = cs_Height cs
      in bind_r (if cs_Round cs < rnd then Some (HasTwoThirdsAny (Prevotes rnd (cs_Votes cs))) else done_r False) (\<lambda>skip.
         if skip then enterNewRound e height rnd cs
         else if cs_Round cs = rnd \<and> RoundStepPrevote \<le> cs_Step cs
         then (let (blockID, ok) = TwoThirdsMajority (Prevotes rnd (cs_Votes cs))
               in if ok \<and> (isProposalComplete cs \<or> length (bid_Hash blockID) = 0) then enterPrecommit e height rnd cs
                  else bind_r (Some (HasTwoThirdsAny (Prevotes rnd (cs_Votes cs)))) (\<lambda>any.
                       if any then enterPrevoteWait e height rnd cs else done_r cs))
         else if (case cs_Proposal cs of None \<Rightarrow> False | Some p \<Rightarrow> 0 \<le> p_POLRound p \<and> p_POLRound p = rnd)
         then (if isProposalComplete cs then enterPrevote e height (cs_Round cs) cs else done_r cs)
         else done_r cs))"

definition precommit_added :: "tm_env \<Rightarrow> int \<Rightarrow> tm_state \<Rightarrow> tm_state run" where
  "precommit_added e rnd cs =
     (let height = cs_Height cs; precommits = Precommits rnd (cs_Votes cs)
      in case TwoThirdsMajority precommits of
           (blockID, True) \<Rightarrow>
             bind_r (enterNewRound e height rnd cs) (\<lambda>cs1.
             bind_r (enterPrecommit e height rnd cs1) (\<lambda>cs2.
             if length (bid_Hash blockID) \<noteq> 0
             then bind_r (enterCommit e height rnd cs2) (\<lambda>cs3.
                  bind_r (if te_SkipTimeoutCommit e then Some (HasAll precommits) else done_r False) (\<lambda>skip.
                  if skip then enterNewRound e (cs_Height cs3) 0 cs3 else done_r cs3))
             else enterPrecommitWait height rnd cs2))
         | (_, False) \<Rightarrow>
             bind_r (if cs_Round cs \<le> rnd then Some (HasTwoThirdsAny precommits) else done_r False) (\<lambda>any.
             if any then bind_r (enterNewRound e height rnd cs) (enterPrecommitWait height rnd)
             else done_r cs))"

definition cs_addVote :: "tm_env \<Rightarrow> Vote \<Rightarrow> string \<Rightarrow> tm_state \<Rightarrow> (hvs_error option \<times> tm_state) run" where
  "cs_addVote e vote peerID cs =
     (if i64 (v_Height vote + 1) = cs_Height cs \<and> v_Type vote = PrecommitType
      then (if cs_Step cs \<noteq> RoundStepNewHeight then done_r (None, cs)
            else bind_r (Some (AddVote (te_crypto e) (cs_LastCommit cs) (Some vote))) (\<lambda>(added, err, lastCommit).
                 let cs1 = cs\<lparr>cs_LastCommit := Some lastCommit\<rparr>
                 in if \<not> added then done_r (map_option VoteErr err, cs1)
                    else bind_r (if te_SkipTimeoutCommit e then Some (HasAll (Some lastCommit)) else done_r False) (\<lambda>skip.
                         bind_r (if skip then enterNewRound e (cs_Height cs1) 0 cs1 else done_r cs1) (\<lambda>cs2.
                         done_r (map_option VoteErr err, cs2)))))
      else if v_Height vote \<noteq> cs_Height cs then done_r (None, cs)
      else bind_r (Some (hvs_AddVote (te_crypto e) vote peerID (cs_Votes cs))) (\<lambda>(added, err, votes).
           let cs1 = cs\<lparr>cs_Votes := votes\<rparr>
           in if \<not> added then done_r (err, cs1)
              else bind_r (case v_Type vote of
                             PrevoteType \<Rightarrow> prevote_added e (v_Round vote) cs1
                           | PrecommitType \<Rightarrow> precommit_added e (v_Round vote) cs1
                           | _ \<Rightarrow> halt_r) (\<lambda>cs2. done_r (err, cs2))))"

definition tryAddVote :: "tm_env \<Rightarrow> Vote \<Rightarrow> string \<Rightarrow> tm_state \<Rightarrow> tm_state run" where
  "tryAddVote e vote peerID cs =
     bind_r (cs_addVote e vote peerID cs) (\<lambda>(err, cs1).
     case err of
       Some (VoteErr (ErrVoteConflictingVotes voteA voteB)) \<Rightarrow>
         (case cs_privValidatorPubKey cs1 of
            None \<Rightarrow> done_r cs1
          | Some pk \<Rightarrow>
              if v_ValidatorAddress vote = te_addr e pk then done_r cs1
              else done_r (cs1\<lparr>cs_evidence := cs_evidence cs1 @ [(voteA, voteB)]\<rparr>))
     | _ \<Rightarrow> done_r cs1)"

definition handleMsg :: "tm_env \<Rightarrow> string \<Rightarrow> tm_msg \<Rightarrow> tm_state \<Rightarrow> tm_state run" where
  "handleMsg e peerID msg cs =
     (case msg of
        ProposalMessage proposal \<Rightarrow> defaultSetProposal e proposal cs
      | BlockPartMessage height rnd part \<Rightarrow> handleBlockPart e height part cs
      | VoteMessage vote \<Rightarrow> tryAddVote e vote peerID cs)"

definition handleTimeout :: "tm_env \<Rightarrow> timeoutInfo \<Rightarrow> int \<Rightarrow> int \<Rightarrow> int \<Rightarrow> tm_state \<Rightarrow> tm_state run" where
  \<comment> \<open>\<open>rsHeight\<close>, \<open>rsRound\<close> and \<open>rsStep\<close> are the snapshot the receive loop took before it read the timeout\<close>
  "handleTimeout e ti rsHeight rsRound rsStep cs =
     (if ti_Height ti \<noteq> rsHeight \<or> ti_Round ti < rsRound \<or> (ti_Round ti = rsRound \<and> ti_Step ti < rsStep) then done_r cs
      else if ti_Step ti = RoundStepNewHeight then enterNewRound e (ti_Height ti) 0 cs
      else if ti_Step ti = RoundStepNewRound then enterPropose e (ti_Height ti) 0 cs
      else if ti_Step ti = RoundStepPropose then enterPrevote e (ti_Height ti) (ti_Round ti) cs
      else if ti_Step ti = RoundStepPrevoteWait then enterPrecommit e (ti_Height ti) (ti_Round ti) cs
      else if ti_Step ti = RoundStepPrecommitWait
      then bind_r (enterPrecommit e (ti_Height ti) (ti_Round ti) cs) (enterNewRound e (ti_Height ti) (i32 (ti_Round ti + 1)))
      else halt_r)"

definition handleTxsAvailable :: "tm_env \<Rightarrow> tm_state \<Rightarrow> tm_state run" where
  "handleTxsAvailable e cs =
     (if cs_Round cs \<noteq> 0 then done_r cs
      else if cs_Step cs = RoundStepNewHeight
      then bind_r (needProofBlock (cs_Height cs) cs) (\<lambda>need.
           if need then done_r cs else done_r (scheduleTimeout (cs_Height cs) 0 RoundStepNewRound cs))
      else if cs_Step cs = RoundStepNewRound then enterPropose e (cs_Height cs) 0 cs
      else done_r cs)"

definition peerMaj23 :: "int \<Rightarrow> int \<Rightarrow> SignedMsgType \<Rightarrow> string \<Rightarrow> BlockID \<Rightarrow> tm_state \<Rightarrow> tm_state run" where
  \<comment> \<open>the reactor hands a peer's claim of a majority to the votes of the height\<close>
  "peerMaj23 height rnd t peerID blockID cs =
     (if cs_Height cs \<noteq> height then done_r cs
      else bind_r (Some (hvs_SetPeerMaj23 rnd t peerID blockID (cs_Votes cs))) (\<lambda>(_, votes). done_r (cs\<lparr>cs_Votes := votes\<rparr>)))"

section \<open>Start\<close>

definition reconstructLastCommit :: "tm_env \<Rightarrow> ChainState \<Rightarrow> BlockStore \<Rightarrow> VoteSet run" where
  "reconstructLastCommit e st bs =
     (case LoadSeenCommit bs (ss_LastBlockHeight st) of
        None \<Rightarrow> halt_r
      | Some seenCommit \<Rightarrow>
          bind_r (Some (CommitToVoteSet (te_crypto e) (ss_ChainID st) seenCommit (ss_LastValidators st))) (\<lambda>lastPrecommits.
          if \<not> HasTwoThirdsMajority (Some lastPrecommits) then halt_r else done_r lastPrecommits))"

definition blank_state :: "ChainState \<Rightarrow> BlockStore \<Rightarrow> FilePV option \<Rightarrow> tm_state" where
  \<comment> \<open>what NewState starts from; an empty vote set stands for the nil one, which nothing reads\<close>
  "blank_state st bs pv =
     \<lparr>cs_Height = 0, cs_Round = 0, cs_Step = 0, cs_Validators = ss_Validators st, cs_Proposal = None,
      cs_ProposalBlock = None, cs_ProposalBlockParts = None, cs_LockedRound = 0, cs_LockedBlock = None,
      cs_LockedBlockParts = None, cs_ValidRound = 0, cs_ValidBlock = None, cs_ValidBlockParts = None,
      cs_Votes = \<lparr>hvs_chainID = [], hvs_height = 0, hvs_valSet = ss_Validators st, hvs_round = 0,
        hvs_roundVoteSets = [], hvs_peerCatchupRounds = []\<rparr>,
      cs_CommitRound = 0, cs_LastCommit = None, cs_LastValidators = ss_LastValidators st,
      cs_TriggeredTimeoutPrecommit = False, cs_state = st, cs_privValidator = pv, cs_privValidatorPubKey = None,
      cs_blockStore = bs, cs_flag = False, cs_reads = 0, cs_timeouts = [], cs_evidence = [], cs_internal = [],
      cs_past = []\<rparr>"

definition NewState :: "tm_env \<Rightarrow> ChainState \<Rightarrow> BlockStore \<Rightarrow> FilePV option \<Rightarrow> tm_state run" where
  \<comment> \<open>NewState and SetPrivValidator, with the first timeout that OnStart schedules\<close>
  "NewState e st bs pv =
     bind_r (if ss_LastBlockHeight st > 0 then bind_r (reconstructLastCommit e st bs) (\<lambda>lc. done_r (Some lc))
             else done_r None) (\<lambda>lastCommit.
     if ss_LastBlockHeight st \<noteq> 0 \<and> lastCommit = None then halt_r
     else bind_r (reset_to_state st lastCommit (blank_state st bs pv)) (\<lambda>cs.
          done_r (scheduleRound0 (updatePrivValidatorPubKey e (cs\<lparr>cs_past := []\<rparr>)))))"

end
