(* ===== verification/TmRefinement.thy ===== *)
theory TmRefinement
  imports ConsensusState
begin

text \<open>
  The handlers of \<open>consensus/state.go\<close> take the steps of \<open>TmVoting\<close> only.  \<open>tm_view\<close> reads off a node's
  state what the voting rules speak about; each function of \<open>ConsensusState\<close> that returns is a sequence of
  those steps on the view, and keeps the invariant \<open>node_ok\<close> of the state.
\<close>

section \<open>The view\<close>

definition votes_at :: "tm_state \<Rightarrow> int \<Rightarrow> HeightVoteSet option" where
  "votes_at cs h = (if h = cs_Height cs then Some (cs_Votes cs) else map_of (cs_past cs) h)"

definition seen_majority :: "tm_state \<Rightarrow> SignedMsgType \<Rightarrow> int \<Rightarrow> int \<Rightarrow> bytes option" where
  "seen_majority cs t h r = map_option bid_Hash (Option.bind (votes_at cs h) (\<lambda>hvs. majority hvs t r))"

definition vote_key :: "Vote \<Rightarrow> SignedMsgType \<times> int \<times> int \<times> bytes" where
  "vote_key v = (v_Type v, v_Height v, v_Round v, bid_Hash (v_BlockID v))"

definition sent_votes :: "tm_state \<Rightarrow> Vote set" where
  "sent_votes cs = {v. VoteMessage v \<in> set (cs_internal cs)}"

definition decisions :: "tm_env \<Rightarrow> tm_state \<Rightarrow> (int \<times> bytes) set" where
  "decisions e cs = (\<lambda>(b, _, c). (c_Height c, te_Hash e b)) ` set (bs_saved (cs_blockStore cs))"

definition tm_view :: "tm_env \<Rightarrow> tm_state \<Rightarrow> anode" where
  "tm_view e cs = \<lparr>a_height = cs_Height cs, a_round = cs_Round cs, a_step = cs_Step cs,
     a_lock = map_option (\<lambda>b. (te_Hash e b, cs_LockedRound cs)) (cs_LockedBlock cs),
     a_polka = seen_majority cs PrevoteType, a_maj = seen_majority cs PrecommitType,
     a_sent = vote_key ` sent_votes cs, a_decided = decisions e cs\<rparr>"

definition votes_ok :: "tm_env \<Rightarrow> (int \<Rightarrow> validator list) \<Rightarrow> string \<Rightarrow> Vote set \<Rightarrow> int \<Rightarrow> HeightVoteSet \<Rightarrow> bool" where
  \<comment> \<open>well-formed votes of height h of this chain, of the validators of that height, all of them from K\<close>
  "votes_ok e V c K h hvs \<longleftrightarrow> hvs_ok (te_crypto e) hvs \<and> hvs_height hvs = h \<and> hvs_chainID hvs = c
     \<and> Validators (hvs_valSet hvs) = V h \<and> hvs_held hvs \<subseteq> K"

definition node_ok :: "tm_env \<Rightarrow> (int \<Rightarrow> validator list) \<Rightarrow> string \<Rightarrow> Vote set \<Rightarrow> tm_state \<Rightarrow> bool" where
  "node_ok e V c K cs \<longleftrightarrow> votes_ok e V c K (cs_Height cs) (cs_Votes cs) \<and> round_ok (cs_Votes cs)
     \<and> ss_ChainID (cs_state cs) = c
     \<and> (\<forall>(h, hvs) \<in> set (cs_past cs). votes_ok e V c K h hvs \<and> h < cs_Height cs)
     \<and> 0 < cs_Height cs \<and> 0 \<le> cs_Round cs \<and> (cs_Step cs = RoundStepCommit \<longrightarrow> 0 \<le> cs_CommitRound cs)
     \<and> (\<forall>ti \<in> set (cs_timeouts cs). ti_Height ti < cs_Height cs \<or> ti_Height ti = cs_Height cs \<and> ti_Round ti \<le> cs_Round cs)"

definition good :: "tm_env \<Rightarrow> (int \<Rightarrow> validator list) \<Rightarrow> string \<Rightarrow> Vote set \<Rightarrow> tm_state \<Rightarrow> tm_state \<Rightarrow> bool" where
  \<comment> \<open>a state reached from cs0 by steps of the voting rules\<close>
  "good e V c K cs0 cs \<longleftrightarrow> node_ok e V c K cs \<and> node_inv (tm_view e cs) \<and> astep\<^sup>*\<^sup>* (tm_view e cs0) (tm_view e cs)"

lemmas view_defs = tm_view_def votes_at_def seen_majority_def sent_votes_def decisions_def fun_eq_iff

lemma view_sel [simp]:
  "a_height (tm_view e cs) = cs_Height cs" "a_round (tm_view e cs) = cs_Round cs" "a_step (tm_view e cs) = cs_Step cs"
  "a_lock (tm_view e cs) = map_option (\<lambda>b. (te_Hash e b, cs_LockedRound cs)) (cs_LockedBlock cs)"
  "a_polka (tm_view e cs) = seen_majority cs PrevoteType" "a_maj (tm_view e cs) = seen_majority cs PrecommitType"
  "a_sent (tm_view e cs) = vote_key ` sent_votes cs" "a_decided (tm_view e cs) = decisions e cs"
  by (simp_all add: tm_view_def)

lemma view_frame [simp]:
    "tm_view e (cs\<lparr>cs_Validators := x0\<rparr>) = tm_view e cs"
    "tm_view e (cs\<lparr>cs_Proposal := x1\<rparr>) = tm_view e cs"
    "tm_view e (cs\<lparr>cs_ProposalBlock := x2\<rparr>) = tm_view e cs"
    "tm_view e (cs\<lparr>cs_ProposalBlockParts := x3\<rparr>) = tm_view e cs"
    "tm_view e (cs\<lparr>cs_LockedBlockParts := x4\<rparr>) = tm_view e cs"
    "tm_view e (cs\<lparr>cs_ValidRound := x5\<rparr>) = tm_view e cs"
    "tm_view e (cs\<lparr>cs_ValidBlock := x6\<rparr>) = tm_view e cs"
    "tm_view e (cs\<lparr>cs_ValidBlockParts := x7\<rparr>) = tm_view e cs"
    "tm_view e (cs\<lparr>cs_LastCommit := x8\<rparr>) = tm_view e cs"
    "tm_view e (cs\<lparr>cs_LastValidators := x9\<rparr>) = tm_view e cs"
    "tm_view e (cs\<lparr>cs_TriggeredTimeoutPrecommit := x10\<rparr>) = tm_view e cs"
    "tm_view e (cs\<lparr>cs_privValidator := x11\<rparr>) = tm_view e cs"
    "tm_view e (cs\<lparr>cs_privValidatorPubKey := x12\<rparr>) = tm_view e cs"
    "tm_view e (cs\<lparr>cs_flag := x13\<rparr>) = tm_view e cs"
    "tm_view e (cs\<lparr>cs_reads := x14\<rparr>) = tm_view e cs"
    "tm_view e (cs\<lparr>cs_evidence := x15\<rparr>) = tm_view e cs"
  by (simp_all add: view_defs)

lemma node_ok_frame [simp]:
    "node_ok e V c K (cs\<lparr>cs_Validators := x0\<rparr>) = node_ok e V c K cs"
    "node_ok e V c K (cs\<lparr>cs_Proposal := x1\<rparr>) = node_ok e V c K cs"
    "node_ok e V c K (cs\<lparr>cs_ProposalBlock := x2\<rparr>) = node_ok e V c K cs"
    "node_ok e V c K (cs\<lparr>cs_ProposalBlockParts := x3\<rparr>) = node_ok e V c K cs"
    "node_ok e V c K (cs\<lparr>cs_LockedBlockParts := x4\<rparr>) = node_ok e V c K cs"
    "node_ok e V c K (cs\<lparr>cs_ValidRound := x5\<rparr>) = node_ok e V c K cs"
    "node_ok e V c K (cs\<lparr>cs_ValidBlock := x6\<rparr>) = node_ok e V c K cs"
    "node_ok e V c K (cs\<lparr>cs_ValidBlockParts := x7\<rparr>) = node_ok e V c K cs"
    "node_ok e V c K (cs\<lparr>cs_LastCommit := x8\<rparr>) = node_ok e V c K cs"
    "node_ok e V c K (cs\<lparr>cs_LastValidators := x9\<rparr>) = node_ok e V c K cs"
    "node_ok e V c K (cs\<lparr>cs_TriggeredTimeoutPrecommit := x10\<rparr>) = node_ok e V c K cs"
    "node_ok e V c K (cs\<lparr>cs_privValidator := x11\<rparr>) = node_ok e V c K cs"
    "node_ok e V c K (cs\<lparr>cs_privValidatorPubKey := x12\<rparr>) = node_ok e V c K cs"
    "node_ok e V c K (cs\<lparr>cs_flag := x13\<rparr>) = node_ok e V c K cs"
    "node_ok e V c K (cs\<lparr>cs_reads := x14\<rparr>) = node_ok e V c K cs"
    "node_ok e V c K (cs\<lparr>cs_evidence := x15\<rparr>) = node_ok e V c K cs"
  by (simp_all add: node_ok_def)

lemma good_frame [simp]:
    "good e V c K cs0 (cs\<lparr>cs_Validators := x0\<rparr>) = good e V c K cs0 cs"
    "good e V c K cs0 (cs\<lparr>cs_Proposal := x1\<rparr>) = good e V c K cs0 cs"
    "good e V c K cs0 (cs\<lparr>cs_ProposalBlock := x2\<rparr>) = good e V c K cs0 cs"
    "good e V c K cs0 (cs\<lparr>cs_ProposalBlockParts := x3\<rparr>) = good e V c K cs0 cs"
    "good e V c K cs0 (cs\<lparr>cs_LockedBlockParts := x4\<rparr>) = good e V c K cs0 cs"
    "good e V c K cs0 (cs\<lparr>cs_ValidRound := x5\<rparr>) = good e V c K cs0 cs"
    "good e V c K cs0 (cs\<lparr>cs_ValidBlock := x6\<rparr>) = good e V c K cs0 cs"
    "good e V c K cs0 (cs\<lparr>cs_ValidBlockParts := x7\<rparr>) = good e V c K cs0 cs"
    "good e V c K cs0 (cs\<lparr>cs_LastCommit := x8\<rparr>) = good e V c K cs0 cs"
    "good e V c K cs0 (cs\<lparr>cs_LastValidators := x9\<rparr>) = good e V c K cs0 cs"
    "good e V c K cs0 (cs\<lparr>cs_TriggeredTimeoutPrecommit := x10\<rparr>) = good e V c K cs0 cs"
    "good e V c K cs0 (cs\<lparr>cs_privValidator := x11\<rparr>) = good e V c K cs0 cs"
    "good e V c K cs0 (cs\<lparr>cs_privValidatorPubKey := x12\<rparr>) = good e V c K cs0 cs"
    "good e V c K cs0 (cs\<lparr>cs_flag := x13\<rparr>) = good e V c K cs0 cs"
    "good e V c K cs0 (cs\<lparr>cs_reads := x14\<rparr>) = good e V c K cs0 cs"
    "good e V c K cs0 (cs\<lparr>cs_evidence := x15\<rparr>) = good e V c K cs0 cs"
  by (simp_all add: good_def)

lemma good_step: "good e V c K cs0 cs \<Longrightarrow> node_ok e V c K cs' \<Longrightarrow> astep (tm_view e cs) (tm_view e cs') \<Longrightarrow> good e V c K cs0 cs'"
  by (auto simp: good_def intro: node_inv_step rtranclp.rtrancl_into_rtrancl)

lemma good_same: "good e V c K cs0 cs \<Longrightarrow> node_ok e V c K cs' \<Longrightarrow> tm_view e cs' = tm_view e cs \<Longrightarrow> good e V c K cs0 cs'"
  by (simp add: good_def)

lemma seen_now: "seen_majority cs t (cs_Height cs) r = map_option bid_Hash (majority (cs_Votes cs) t r)"
  by (simp add: seen_majority_def votes_at_def)

lemma post_bindI: "(\<And>x. m = done_r x \<Longrightarrow> post_r (f x) Q) \<Longrightarrow> post_r (bind_r m f) Q"
  by (auto simp: post_r_def bind_r_done_iff)

lemma post_bind_mono: "post_r m P \<Longrightarrow> (\<And>x. P x \<Longrightarrow> post_r (f x) Q) \<Longrightarrow> post_r (bind_r m f) Q"
  by (auto simp: post_r_def bind_r_done_iff)

section \<open>Signing a vote\<close>

lemma signVote_keeps:
  assumes "signVote tc sign now c pv v = Return (pv', v')"
  shows "vote_key v' = vote_key v"
  using assms by (auto simp: signVote_def Let_def bind_o_Return_iff vote_key_def split: if_splits option.splits)

lemma voteTime_snd: "voteTime e cs = (fst (voteTime e cs), cs\<lparr>cs_reads := Suc (cs_reads cs)\<rparr>)"
  by (simp add: voteTime_def read_clock_def Let_def)

lemma cs_signVote_frame:
  assumes "cs_signVote e t hash header cs = done_r (ov, cs1)"
  shows "\<exists>pv n. cs1 = cs\<lparr>cs_privValidator := pv, cs_reads := n\<rparr>"
    "ov = Some v \<Longrightarrow> vote_key v = (t, cs_Height cs, cs_Round cs, hash)"
proof -
  obtain ts where ts: "voteTime e cs = (ts, cs\<lparr>cs_reads := Suc (cs_reads cs)\<rparr>)" using voteTime_snd by metis
  have same: "\<exists>pv m. cs\<lparr>cs_reads := n\<rparr> = cs\<lparr>cs_privValidator := pv, cs_reads := m\<rparr>" for n
    by (intro exI [of _ "cs_privValidator cs"] exI [of _ n]) simp
  have "(\<exists>pv n. cs1 = cs\<lparr>cs_privValidator := pv, cs_reads := n\<rparr>)
      \<and> (ov = Some v \<longrightarrow> vote_key v = (t, cs_Height cs, cs_Round cs, hash))"
  proof (cases "cs_privValidatorPubKey cs")
    case None
    then have "ov = None" "cs1 = cs\<lparr>cs_reads := cs_reads cs\<rparr>" using assms by (simp_all add: cs_signVote_def)
    then show ?thesis using same [of "cs_reads cs"] by simp
  next
    case (Some pk)
    then obtain pv where pv: "cs_privValidator cs = Some pv"
      using assms by (cases "cs_privValidator cs") (auto simp: cs_signVote_def ts read_clock_def Let_def)
    let ?vote = "\<lparr>v_Type = t, v_Height = cs_Height cs, v_Round = cs_Round cs,
      v_BlockID = \<lparr>bid_Hash = hash, bid_Parts = header\<rparr>, v_Timestamp = ts, v_ValidatorAddress = te_addr e pk,
      v_ValidatorIndex = fst (GetByAddress (cs_Validators cs) (te_addr e pk)), v_Signature = []\<rparr>"
    let ?run = "signVote (te_codec e) (te_sign e) (te_clock e (Suc (cs_reads cs))) (ss_ChainID (cs_state cs)) pv ?vote"
    show ?thesis
    proof (cases ?run)
      case (Return r)
      obtain pv' v' where r: "r = (pv', v')" by fastforce
      have "ov = Some v'" "cs1 = cs\<lparr>cs_privValidator := Some pv', cs_reads := Suc (Suc (cs_reads cs))\<rparr>"
        using assms Some pv ts Return r by (auto simp: cs_signVote_def read_clock_def Let_def)
      then show ?thesis using signVote_keeps [of _ _ _ _ _ ?vote] Return r by (auto simp: vote_key_def)
    next
      case (Error x)
      then have "ov = None" "cs1 = cs\<lparr>cs_reads := Suc (Suc (cs_reads cs))\<rparr>"
        using assms Some pv ts by (simp_all add: cs_signVote_def read_clock_def Let_def)
      then show ?thesis using same by simp
    next
      case Panic
      then show ?thesis using assms Some pv ts by (simp add: cs_signVote_def read_clock_def Let_def)
    qed
  qed
  then show "\<exists>pv n. cs1 = cs\<lparr>cs_privValidator := pv, cs_reads := n\<rparr>"
    "ov = Some v \<Longrightarrow> vote_key v = (t, cs_Height cs, cs_Round cs, hash)" by auto
qed

lemma signAddVote_cases:
  assumes "signAddVote e t hash header cs = done_r cs'"
  obtains pv n where "cs' = cs\<lparr>cs_privValidator := pv, cs_reads := n\<rparr>"
  | pv n v where "cs' = cs\<lparr>cs_privValidator := pv, cs_reads := n, cs_internal := cs_internal cs @ [VoteMessage v]\<rparr>"
      "vote_key v = (t, cs_Height cs, cs_Round cs, hash)"
proof (cases "cs' = cs")
  case True
  then have "cs' = cs\<lparr>cs_privValidator := cs_privValidator cs, cs_reads := cs_reads cs\<rparr>" by simp
  then show ?thesis by (rule that(1))
next
  case False
  then obtain ov cs1 where s: "cs_signVote e t hash header cs = done_r (ov, cs1)"
    "cs' = (case ov of None \<Rightarrow> cs1 | Some v \<Rightarrow> sendInternalMessage (VoteMessage v) cs1)"
    using assms by (auto simp: signAddVote_def bind_r_done_iff split: if_splits option.splits)
  obtain pv n where cs1: "cs1 = cs\<lparr>cs_privValidator := pv, cs_reads := n\<rparr>" using cs_signVote_frame(1) [OF s(1)] by blast
  show ?thesis
  proof (cases ov)
    case None
    then show ?thesis using that(1) s(2) cs1 by simp
  next
    case (Some v)
    then show ?thesis using that(2) s cs1 cs_signVote_frame(2) [OF s(1) Some] by (simp add: sendInternalMessage_def)
  qed
qed

lemma view_send:
  "tm_view e (cs\<lparr>cs_internal := cs_internal cs @ [VoteMessage v]\<rparr>) =
     (tm_view e cs)\<lparr>a_sent := insert (vote_key v) (a_sent (tm_view e cs))\<rparr>"
  by (auto simp: view_defs)

lemma node_ok_send [simp]: "node_ok e V c K (cs\<lparr>cs_internal := m\<rparr>) = node_ok e V c K cs"
  by (simp add: node_ok_def)

section \<open>Entering the steps\<close>

definition due :: "int \<Rightarrow> int \<Rightarrow> tm_state \<Rightarrow> bool" where
  \<comment> \<open>a step is entered for a round the node has reached\<close>
  "due height rnd cs \<longleftrightarrow> (cs_Height cs = height \<longrightarrow> rnd \<le> cs_Round cs)"

lemma view_step:
  "tm_view e (updateRoundStep r st cs) = (tm_view e cs)\<lparr>a_round := r, a_step := st\<rparr>"
  by (simp add: updateRoundStep_def view_defs)

lemma node_ok_step:
  "node_ok e V c K cs \<Longrightarrow> cs_Round cs \<le> r \<Longrightarrow> st \<noteq> RoundStepCommit \<or> 0 \<le> cs_CommitRound cs \<Longrightarrow> node_ok e V c K (updateRoundStep r st cs)"
  by (fastforce simp: node_ok_def updateRoundStep_def)

lemma good_advance:
  assumes "good e V c K cs0 cs" "cs_Round cs < r \<or> cs_Round cs = r \<and> cs_Step cs \<le> st"
    "st \<noteq> RoundStepCommit \<or> 0 \<le> cs_CommitRound cs"
  shows "good e V c K cs0 (updateRoundStep r st cs)"
  using assms
  by (intro good_step [OF assms(1)]) (auto simp: good_def view_step intro!: node_ok_step astep.advance)

lemma vote_and_step:
  assumes run: "signAddVote e t hash header cs = done_r cs'" and st: "st \<noteq> RoundStepCommit"
    and g: "good e V c K cs0 cs" "cs_Step cs \<le> st"
    and step: "astep (tm_view e cs) ((tm_view e cs)\<lparr>a_step := st,
        a_sent := insert (t, cs_Height cs, cs_Round cs, hash) (a_sent (tm_view e cs))\<rparr>)"
  shows "good e V c K cs0 (updateRoundStep (cs_Round cs) st cs')"
  using run
proof (cases rule: signAddVote_cases)
  case (1 pv n)
  then show ?thesis using good_advance [of e V c K cs0 cs' "cs_Round cs" st] g st by simp
next
  case (2 pv n v)
  have v: "tm_view e (updateRoundStep (cs_Round cs) st cs') = (tm_view e cs)\<lparr>a_step := st,
        a_sent := insert (t, cs_Height cs, cs_Round cs, hash) (a_sent (tm_view e cs))\<rparr>"
    using 2 view_send [of e "cs\<lparr>cs_privValidator := pv, cs_reads := n\<rparr>" v]
    by (simp add: view_step)
  show ?thesis
    by (rule good_step [OF g(1)]) (use v step 2 g st in \<open>auto simp: good_def intro!: node_ok_step\<close>)
qed

lemma enterPrevote_good:
  assumes g: "good e V c K cs0 cs" and d: "due height rnd cs"
  shows "post_r (enterPrevote e height rnd cs) (\<lambda>cs'. good e V c K cs0 cs' \<and> cs_Height cs' = cs_Height cs \<and> cs_Round cs' = cs_Round cs)"
proof (rule post_rI)
  fix cs' assume run: "enterPrevote e height rnd cs = done_r cs'"
  show "good e V c K cs0 cs' \<and> cs_Height cs' = cs_Height cs \<and> cs_Round cs' = cs_Round cs"
  proof (cases "cs' = cs")
    case True
    then show ?thesis using g by simp
  next
    case False
    then have guard: "cs_Height cs = height" "rnd = cs_Round cs" "cs_Step cs < 4"
      using run d by (auto simp: enterPrevote_def due_def split: if_splits)
    then obtain cs1 where p: "defaultDoPrevote e cs = done_r cs1" "cs' = updateRoundStep (cs_Round cs) 4 cs1"
      using run by (auto simp: enterPrevote_def bind_r_done_iff)
    obtain hash header where s: "signAddVote e PrevoteType hash header cs = done_r cs1"
      and lock: "\<And>b. cs_LockedBlock cs = Some b \<Longrightarrow> hash = te_Hash e b"
      using p(1) by (auto simp: defaultDoPrevote_def split: option.splits if_splits)
    have "good e V c K cs0 cs'" unfolding p(2)
      by (rule vote_and_step [OF s]) (use g guard lock in \<open>auto intro!: astep.prevote [of "tm_view e cs", simplified]\<close>)
    moreover have "cs_Height cs' = cs_Height cs" using s p(2) by (cases rule: signAddVote_cases) (auto simp: updateRoundStep_def)
    ultimately show ?thesis using p(2) by (simp add: updateRoundStep_def)
  qed
qed

lemma view_unlock: "tm_view e (unlock_block cs) = (tm_view e cs)\<lparr>a_lock := None\<rparr>"
  by (simp add: unlock_block_def view_defs)

lemma unlock_good:
  assumes g: "good e V c K cs0 cs" and l: "cs_LockedBlock cs = Some b" "cs_LockedRound cs < r" "r \<le> cs_Round cs"
    and m: "majority (cs_Votes cs) PrevoteType r = Some bid" "bid_Hash bid \<noteq> te_Hash e b"
  shows "good e V c K cs0 (unlock_block cs)"
proof (rule good_step [OF g])
  show "node_ok e V c K (unlock_block cs)" using g by (simp add: good_def node_ok_def unlock_block_def)
  show "astep (tm_view e cs) (tm_view e (unlock_block cs))" unfolding view_unlock
    by (rule astep.unlock [of _ "te_Hash e b" "cs_LockedRound cs" r "bid_Hash bid"]) (use l m in \<open>simp_all add: seen_now\<close>)
qed

lemma locked_before:
  assumes "good e V c K cs0 cs" "cs_LockedBlock cs = Some b" "cs_Step cs < 6"
  shows "cs_LockedRound cs < cs_Round cs" "te_Hash e b \<noteq> []"
  using assms lock_invD(1) [of "tm_view e cs" "te_Hash e b" "cs_LockedRound cs"]
  by (auto simp: good_def node_inv_def past_def)

lemma view_lock:
  "tm_view e (cs\<lparr>cs_LockedRound := r, cs_LockedBlock := Some b\<rparr>) = (tm_view e cs)\<lparr>a_lock := Some (te_Hash e b, r)\<rparr>"
  by (simp add: view_defs)

lemma lock_and_step:
  assumes run: "signAddVote e PrecommitType (te_Hash e b) header cs1 = done_r cs'"
    and cs1: "cs1 = cs\<lparr>cs_LockedRound := cs_Round cs, cs_LockedBlock := Some b, cs_LockedBlockParts := ps\<rparr>"
    and g: "good e V c K cs0 cs" "cs_Step cs < 6"
    and m: "majority (cs_Votes cs) PrevoteType (cs_Round cs) = Some bid" "bid_Hash bid = te_Hash e b" "te_Hash e b \<noteq> []"
  shows "good e V c K cs0 (updateRoundStep (cs_Round cs) 6 cs')"
proof -
  have view1: "tm_view e cs1 = (tm_view e cs)\<lparr>a_lock := Some (te_Hash e b, cs_Round cs)\<rparr>"
    by (simp add: cs1 view_lock)
  have ok1: "node_ok e V c K cs1" using g(1) by (simp add: cs1 good_def node_ok_def)
  have "\<exists>S. tm_view e (updateRoundStep (cs_Round cs) 6 cs') =
      (tm_view e cs)\<lparr>a_step := 6, a_lock := Some (te_Hash e b, cs_Round cs), a_sent := S\<rparr>
      \<and> (S = a_sent (tm_view e cs) \<or> S = insert (PrecommitType, cs_Height cs, cs_Round cs, te_Hash e b) (a_sent (tm_view e cs)))
      \<and> node_ok e V c K (updateRoundStep (cs_Round cs) 6 cs')"
    using run
  proof (cases rule: signAddVote_cases)
    case (1 pv n)
    have "tm_view e cs' = tm_view e cs1" "node_ok e V c K cs'" "cs_Round cs' = cs_Round cs" using 1 ok1 by (simp_all add: cs1)
    then show ?thesis by (intro exI [of _ "a_sent (tm_view e cs)"]) (simp add: view_step view1 node_ok_step)
  next
    case (2 pv n v)
    have "tm_view e cs' = (tm_view e cs1)\<lparr>a_sent := insert (PrecommitType, cs_Height cs, cs_Round cs, te_Hash e b) (a_sent (tm_view e cs))\<rparr>"
      using 2 view_send [of e "cs1\<lparr>cs_privValidator := pv, cs_reads := n\<rparr>" v] by (simp add: view1) (simp add: cs1 sent_votes_def)
    moreover have "node_ok e V c K cs'" "cs_Round cs' = cs_Round cs" using 2 ok1 by (simp_all add: cs1)
    ultimately show ?thesis
      by (intro exI [of _ "insert (PrecommitType, cs_Height cs, cs_Round cs, te_Hash e b) (a_sent (tm_view e cs))"])
        (simp add: view_step view1 node_ok_step)
  qed
  then obtain S where S: "tm_view e (updateRoundStep (cs_Round cs) 6 cs') =
      (tm_view e cs)\<lparr>a_step := 6, a_lock := Some (te_Hash e b, cs_Round cs), a_sent := S\<rparr>"
      "S = a_sent (tm_view e cs) \<or> S = insert (PrecommitType, cs_Height cs, cs_Round cs, te_Hash e b) (a_sent (tm_view e cs))"
      "node_ok e V c K (updateRoundStep (cs_Round cs) 6 cs')" by blast
  have "astep (tm_view e cs) ((tm_view e cs)\<lparr>a_step := 6, a_lock := Some (te_Hash e b, a_round (tm_view e cs)), a_sent := S\<rparr>)"
    by (rule astep.lock) (use g m S(2) in \<open>simp_all add: seen_now\<close>)
  then show ?thesis by (intro good_step [OF g(1) S(3)]) (simp add: S(1))
qed

lemma nil_and_step:
  assumes "signAddVote e PrecommitType [] header cs = done_r cs'" "good e V c K cs0 cs" "cs_Step cs < 6"
  shows "good e V c K cs0 (updateRoundStep (cs_Round cs) 6 cs')"
  by (rule vote_and_step [OF assms(1)])
    (use assms(2,3) astep.precommit_nil [of "tm_view e cs"] in simp_all)

lemma doPrecommit_good:
  assumes g: "good e V c K cs0 cs" "cs_Step cs < 6" and run: "doPrecommit e (cs_Round cs) cs = done_r cs'"
  shows "good e V c K cs0 (updateRoundStep (cs_Round cs) 6 cs')"
proof (cases "majority (cs_Votes cs) PrevoteType (cs_Round cs)")
  case None
  then have "TwoThirdsMajority (Prevotes (cs_Round cs) (cs_Votes cs)) = (zero_bid, False)" by (simp add: TwoThirdsMajority_iff)
  then show ?thesis using run nil_and_step [OF _ g] by (simp add: doPrecommit_def)
next
  case (Some bid)
  then have "TwoThirdsMajority (Prevotes (cs_Round cs) (cs_Votes cs)) = (bid, True)" by (simp add: TwoThirdsMajority_iff)
  note run' = run [unfolded doPrecommit_def this prod.case bool.case]
  have unlocked: "good e V c K cs0 (unlock_block cs)" if "cs_LockedBlock cs = Some b" "te_Hash e b \<noteq> bid_Hash bid" for b
    using unlock_good [OF g(1) that(1) _ _ Some] locked_before(1) [OF g(1) that(1) g(2)] that(2) by auto
  consider (nil) "bid_Hash bid = []" | (relock) "bid_Hash bid \<noteq> []" "HashesTo e (cs_LockedBlock cs) (bid_Hash bid)"
    | (lock) "bid_Hash bid \<noteq> []" "\<not> HashesTo e (cs_LockedBlock cs) (bid_Hash bid)" "HashesTo e (cs_ProposalBlock cs) (bid_Hash bid)"
    | (unknown) "bid_Hash bid \<noteq> []" "\<not> HashesTo e (cs_LockedBlock cs) (bid_Hash bid)" "\<not> HashesTo e (cs_ProposalBlock cs) (bid_Hash bid)"
    by blast
  then show ?thesis
  proof cases
    case nil
    define cs1 where "cs1 = (if cs_LockedBlock cs = None then cs else unlock_block cs)"
    have "good e V c K cs0 cs1" using g(1) unlocked locked_before(2) [OF g(1) _ g(2)] nil by (auto simp: cs1_def)
    moreover have "cs_Step cs1 < 6" "cs_Round cs1 = cs_Round cs" using g(2) by (simp_all add: cs1_def unlock_block_def)
    moreover have "signAddVote e PrecommitType [] zero_psh cs1 = done_r cs'" using run' nil by (auto simp: cs1_def split: if_splits)
    ultimately show ?thesis using nil_and_step by metis
  next
    case relock
    then obtain b where b: "cs_LockedBlock cs = Some b" "te_Hash e b = bid_Hash bid"
      by (auto simp: HashesTo_def split: option.splits)
    have "cs\<lparr>cs_LockedRound := cs_Round cs\<rparr> =
        cs\<lparr>cs_LockedRound := cs_Round cs, cs_LockedBlock := Some b, cs_LockedBlockParts := cs_LockedBlockParts cs\<rparr>"
      using b(1) by (cases cs) simp
    moreover have "signAddVote e PrecommitType (te_Hash e b) (bid_Parts bid) (cs\<lparr>cs_LockedRound := cs_Round cs\<rparr>) = done_r cs'"
      using run' relock b(2) by (simp split: if_splits)
    ultimately show ?thesis using lock_and_step [OF _ _ g Some] b(2) relock(1) by metis
  next
    case lock
    then obtain b where b: "cs_ProposalBlock cs = Some b" "te_Hash e b = bid_Hash bid"
      by (auto simp: HashesTo_def split: option.splits)
    have "signAddVote e PrecommitType (te_Hash e b) (bid_Parts bid)
        (cs\<lparr>cs_LockedRound := cs_Round cs, cs_LockedBlock := Some b, cs_LockedBlockParts := cs_ProposalBlockParts cs\<rparr>) = done_r cs'"
      using run' lock b by (simp split: if_splits)
    then show ?thesis by (rule lock_and_step [OF _ refl g Some]) (use b lock in simp_all)
  next
    case unknown
    define cs1 where "cs1 = fetch_parts (bid_Parts bid) (unlock_block cs)"
    have "good e V c K cs0 (unlock_block cs)"
    proof (cases "cs_LockedBlock cs")
      case None
      have "node_ok e V c K (unlock_block cs)" using g(1) by (simp add: good_def node_ok_def unlock_block_def)
      then show ?thesis by (rule good_same [OF g(1)]) (use None in \<open>simp add: unlock_block_def view_defs\<close>)
    next
      case (Some b)
      then show ?thesis using unlocked unknown(1,2) by (auto simp: HashesTo_def)
    qed
    then have "good e V c K cs0 cs1" by (simp add: cs1_def fetch_parts_def)
    moreover have "cs_Step cs1 < 6" "cs_Round cs1 = cs_Round cs" using g(2) by (simp_all add: cs1_def unlock_block_def fetch_parts_def)
    moreover have "signAddVote e PrecommitType [] zero_psh cs1 = done_r cs'" using run' unknown by (simp add: cs1_def split: if_splits)
    ultimately show ?thesis using nil_and_step by metis
  qed
qed

definition kept :: "tm_env \<Rightarrow> (int \<Rightarrow> validator list) \<Rightarrow> string \<Rightarrow> Vote set \<Rightarrow> tm_state \<Rightarrow> tm_state \<Rightarrow> tm_state \<Rightarrow> bool" where
  \<comment> \<open>what entering a step of the current height gives\<close>
  "kept e V c K cs0 cs cs' \<longleftrightarrow> good e V c K cs0 cs' \<and> cs_Height cs' = cs_Height cs \<and> cs_Round cs \<le> cs_Round cs'"

lemma keptD: "kept e V c K cs0 cs cs' \<Longrightarrow> good e V c K cs0 cs'" "kept e V c K cs0 cs cs' \<Longrightarrow> cs_Height cs' = cs_Height cs"
  "kept e V c K cs0 cs cs' \<Longrightarrow> due h r cs \<Longrightarrow> due h r cs'"
  by (auto simp: kept_def due_def)

lemma kept_refl [simp]: "good e V c K cs0 cs \<Longrightarrow> kept e V c K cs0 cs cs"
  by (simp add: kept_def)

lemma kept_trans: "kept e V c K cs0 a b \<Longrightarrow> kept e V c K cs0 b d \<Longrightarrow> kept e V c K cs0 a d"
  by (simp add: kept_def)

lemma post_kept: "kept e V c K cs0 a b \<Longrightarrow> post_r m (kept e V c K cs0 b) \<Longrightarrow> post_r m (kept e V c K cs0 a)"
  by (auto simp: post_r_def intro: kept_trans)

lemma post_kept_good: "post_r m (kept e V c K cs0 cs) \<Longrightarrow> post_r m (good e V c K cs0)"
  by (auto simp: post_r_def kept_def)

lemma prevote_kept:
  assumes "good e V c K cs0 cs" "due height rnd cs"
  shows "post_r (enterPrevote e height rnd cs) (kept e V c K cs0 cs)"
  by (rule post_r_mono [OF enterPrevote_good [OF assms]]) (simp add: kept_def)

lemma doPrecommit_frame:
  assumes "doPrecommit e rnd cs = done_r cs'"
  shows "cs_Height cs' = cs_Height cs"
proof -
  have sign: "signAddVote e t hash header cs1 = done_r cs' \<Longrightarrow> cs_Height cs' = cs_Height cs1" for t hash header cs1
    by (erule signAddVote_cases) simp_all
  obtain b ok where m: "TwoThirdsMajority (Prevotes rnd (cs_Votes cs)) = (b, ok)" by fastforce
  have h: "cs_Height (unlock_block cs) = cs_Height cs" "cs_Height (fetch_parts p x) = cs_Height x" for p x
    by (simp_all add: unlock_block_def fetch_parts_def)
  show ?thesis using assms unfolding doPrecommit_def m prod.case
    by (cases ok) (auto simp: h split: if_splits dest!: sign)
qed

lemma precommit_kept:
  assumes g: "good e V c K cs0 cs" and d: "due height rnd cs"
  shows "post_r (enterPrecommit e height rnd cs) (kept e V c K cs0 cs)"
proof (rule post_rI)
  fix cs' assume run: "enterPrecommit e height rnd cs = done_r cs'"
  show "kept e V c K cs0 cs cs'"
  proof (cases "cs' = cs")
    case True
    then show ?thesis using g by simp
  next
    case False
    then have guard: "cs_Height cs = height" "rnd = cs_Round cs" "cs_Step cs < 6"
      using run d by (auto simp: enterPrecommit_def due_def split: if_splits)
    then obtain cs1 where p: "doPrecommit e (cs_Round cs) cs = done_r cs1" "cs' = updateRoundStep (cs_Round cs) 6 cs1"
      using run by (auto simp: enterPrecommit_def bind_r_done_iff)
    show ?thesis using doPrecommit_good [OF g guard(3) p(1)] doPrecommit_frame [OF p(1)] p(2)
      by (simp add: kept_def updateRoundStep_def)
  qed
qed

lemma schedule_good:
  assumes g: "good e V c K cs0 cs" and d: "height = cs_Height cs" "rnd \<le> cs_Round cs"
  shows "good e V c K cs0 (scheduleTimeout height rnd st cs)"
proof (rule good_same [OF g])
  show "node_ok e V c K (scheduleTimeout height rnd st cs)" using g d by (auto simp: good_def node_ok_def scheduleTimeout_def)
  show "tm_view e (scheduleTimeout height rnd st cs) = tm_view e cs"
    by (simp add: scheduleTimeout_def view_defs)
qed

lemma schedule_sel [simp]:
  "cs_Height (scheduleTimeout h r st cs) = cs_Height cs" "cs_Round (scheduleTimeout h r st cs) = cs_Round cs"
  "cs_Step (scheduleTimeout h r st cs) = cs_Step cs" "cs_CommitRound (scheduleTimeout h r st cs) = cs_CommitRound cs"
  "cs_Votes (scheduleTimeout h r st cs) = cs_Votes cs"
  by (simp_all add: scheduleTimeout_def)

lemma step_sel [simp]:
  "cs_Height (updateRoundStep r st cs) = cs_Height cs" "cs_Round (updateRoundStep r st cs) = r" "cs_Step (updateRoundStep r st cs) = st"
  by (simp_all add: updateRoundStep_def)

lemma prevote_wait_kept:
  assumes g: "good e V c K cs0 cs" and d: "due height rnd cs"
  shows "post_r (enterPrevoteWait e height rnd cs) (kept e V c K cs0 cs)"
proof -
  have tail: "post_r (if cs_Height cs1 \<noteq> height \<or> rnd < cs_Round cs1 \<or> (cs_Round cs1 = rnd \<and> RoundStepPrevoteWait \<le> cs_Step cs1)
      then done_r cs1
      else bind_r (Some (HasTwoThirdsAny (Prevotes rnd (cs_Votes cs1)))) (\<lambda>any.
          if \<not> any then halt_r
          else done_r (updateRoundStep rnd RoundStepPrevoteWait (scheduleTimeout height rnd RoundStepPrevoteWait cs1)))) (kept e V c K cs0 cs)"
    if k: "kept e V c K cs0 cs cs1" for cs1
  proof (cases "cs_Height cs1 \<noteq> height \<or> rnd < cs_Round cs1 \<or> (cs_Round cs1 = rnd \<and> RoundStepPrevoteWait \<le> cs_Step cs1)")
    case False
    then have eq: "height = cs_Height cs1" "rnd = cs_Round cs1" "cs_Step cs1 < 5" using keptD(3) [OF k d] by (auto simp: due_def)
    have "good e V c K cs0 (updateRoundStep rnd 5 (scheduleTimeout height rnd 5 cs1))"
      by (rule good_advance [OF schedule_good [OF keptD(1) [OF k]]]) (use eq in auto)
    then have "kept e V c K cs0 cs (updateRoundStep rnd 5 (scheduleTimeout height rnd 5 cs1))" using eq k by (simp add: kept_def)
    then show ?thesis unfolding if_not_P [OF False] by (intro post_bindI) simp
  qed (use k in simp)
  have "post_r (if hasAll \<and> \<not> HasTwoThirdsMajority (Prevotes rnd (cs_Votes cs)) then enterPrecommit e height rnd cs
      else done_r cs) (kept e V c K cs0 cs)" for hasAll
    using precommit_kept [OF g d] g by simp
  then show ?thesis unfolding enterPrevoteWait_def by (intro post_bindI post_bind_mono [OF _ tail])
qed

lemma precommit_wait_kept:
  assumes g: "good e V c K cs0 cs" and d: "due height rnd cs"
  shows "post_r (enterPrecommitWait height rnd cs) (kept e V c K cs0 cs)"
proof (cases "cs_Height cs \<noteq> height \<or> rnd < cs_Round cs \<or> (cs_Round cs = rnd \<and> cs_TriggeredTimeoutPrecommit cs)")
  case False
  then have "height = cs_Height cs" "rnd = cs_Round cs" using d by (auto simp: due_def)
  then have "good e V c K cs0 (scheduleTimeout height rnd 7 cs)" by (intro schedule_good [OF g]) simp_all
  then have "kept e V c K cs0 cs ((scheduleTimeout height rnd 7 cs)\<lparr>cs_TriggeredTimeoutPrecommit := True\<rparr>)" by (simp add: kept_def)
  then show ?thesis unfolding enterPrecommitWait_def if_not_P [OF False] by (intro post_bindI) simp
qed (use g in \<open>simp add: enterPrecommitWait_def\<close>)

section \<open>Proposing\<close>

definition quiet :: "tm_env \<Rightarrow> tm_state \<Rightarrow> tm_state \<Rightarrow> bool" where
  \<comment> \<open>nothing the voting rules speak about has changed\<close>
  "quiet e cs cs' \<longleftrightarrow> tm_view e cs' = tm_view e cs \<and> (\<forall>V c K. node_ok e V c K cs' = node_ok e V c K cs)"

lemma quiet_refl [simp]: "quiet e cs cs"
  by (simp add: quiet_def)

lemma quiet_trans: "quiet e a b \<Longrightarrow> quiet e b d \<Longrightarrow> quiet e a d"
  by (simp add: quiet_def)

lemma quiet_kept:
  assumes "quiet e cs cs'" "good e V c K cs0 cs"
  shows "kept e V c K cs0 cs cs'"
proof -
  have "a_height (tm_view e cs') = a_height (tm_view e cs)" "a_round (tm_view e cs') = a_round (tm_view e cs)"
    using assms(1) by (simp_all add: quiet_def del: view_sel)
  then show ?thesis using assms by (simp add: kept_def good_def quiet_def)
qed

lemma quiet_send:
  assumes "\<And>v. m \<noteq> VoteMessage v"
  shows "quiet e cs (sendInternalMessage m cs)"
proof -
  have "sent_votes (sendInternalMessage m cs) = sent_votes cs" using assms by (auto simp: sent_votes_def sendInternalMessage_def)
  then show ?thesis by (simp add: quiet_def sendInternalMessage_def) (simp add: view_defs)
qed

lemma quiet_send_parts: "post_r (send_parts n ps cs) (quiet e cs)"
proof (induction n arbitrary: cs)
  case (Suc n)
  show ?case
  proof (cases "GetPart ps (uint (ps_total ps) - int (Suc n))")
    case (Return part)
    let ?cs1 = "sendInternalMessage (BlockPartMessage (cs_Height cs) (cs_Round cs) part) cs"
    have "quiet e cs ?cs1" by (rule quiet_send) simp
    then show ?thesis using Return post_r_mono [OF Suc.IH [of ?cs1]] quiet_trans by simp
  qed simp_all
qed simp

lemma quiet_get_proposer: "post_r (get_proposer cs) (\<lambda>(v, cs'). quiet e cs cs')"
  unfolding get_proposer_def by (intro post_bindI) (auto simp: quiet_def split: option.splits)

lemma quiet_create: "post_r (createProposalBlock e cs) (\<lambda>(m, cs'). quiet e cs cs')"
  by (auto simp: createProposalBlock_def Let_def quiet_def split: option.splits intro!: post_bindI)

lemma quiet_choose: "post_r (choose_block e cs) (\<lambda>(x, cs'). quiet e cs cs')"
  unfolding choose_block_def
  by (cases "cs_ValidBlock cs") (auto intro!: post_bind_mono [OF quiet_create])

lemma quiet_send_proposal: "post_r (send_proposal e height rnd block parts cs) (quiet e cs)"
proof -
  define cs2 where "cs2 = cs\<lparr>cs_reads := Suc (Suc (cs_reads cs))\<rparr>"
  have q2: "quiet e cs cs2" by (simp add: cs2_def quiet_def)
  have q3: "quiet e cs (sendInternalMessage (ProposalMessage p) (cs2\<lparr>cs_privValidator := pv\<rparr>))" for p pv
    by (rule quiet_trans [OF _ quiet_send]) (use q2 in \<open>simp_all add: quiet_def\<close>)
  have "post_r (send_parts n ps (sendInternalMessage (ProposalMessage p) (cs2\<lparr>cs_privValidator := pv\<rparr>))) (quiet e cs)" for n ps p pv
    by (rule post_r_mono [OF quiet_send_parts]) (rule quiet_trans [OF q3])
  then show ?thesis using q2 q3
    by (cases parts) (auto simp: send_proposal_def read_clock_def Let_def cs2_def [symmetric] split: option.split outcome.split)
qed

lemma quiet_decide: "post_r (defaultDecideProposal e height rnd cs) (quiet e cs)"
proof -
  have "post_r (send_proposal e height rnd block parts cs1) (quiet e cs)" if "quiet e cs cs1" for block parts cs1
    by (rule post_r_mono [OF quiet_send_proposal]) (rule quiet_trans [OF that])
  then show ?thesis unfolding defaultDecideProposal_def
    by (intro post_bind_mono [OF quiet_choose]) (auto split: option.split)
qed

lemma quiet_propose: "post_r (proposeIfProposer e height rnd cs) (quiet e cs)"
proof -
  have "post_r (if Address v = a then defaultDecideProposal e height rnd cs1 else done_r cs1) (quiet e cs)" if "quiet e cs cs1" for v a cs1
    using that post_r_mono [OF quiet_decide [of e height rnd cs1] quiet_trans [OF that]] by simp
  then show ?thesis
    by (auto simp: proposeIfProposer_def split: option.split intro!: post_bind_mono [OF quiet_get_proposer])
qed

lemma propose_kept:
  assumes g: "good e V c K cs0 cs" and d: "due height rnd cs"
  shows "post_r (enterPropose e height rnd cs) (kept e V c K cs0 cs)"
proof (cases "cs_Height cs \<noteq> height \<or> rnd < cs_Round cs \<or> (cs_Round cs = rnd \<and> RoundStepPropose \<le> cs_Step cs)")
  case True
  then show ?thesis using g by (simp add: enterPropose_def)
next
  case False
  then have eq: "height = cs_Height cs" "rnd = cs_Round cs" "cs_Step cs < 3" using d by (auto simp: due_def)
  have sch: "good e V c K cs0 (scheduleTimeout height rnd 3 cs)" by (rule schedule_good [OF g]) (use eq in simp_all)
  have "post_r (let cs2 = updateRoundStep rnd RoundStepPropose cs1
           in if isProposalComplete cs2 then enterPrevote e height (cs_Round cs2) cs2 else done_r cs2) (kept e V c K cs0 cs)"
    if q: "quiet e (scheduleTimeout height rnd 3 cs) cs1" for cs1
  proof -
    have k1: "kept e V c K cs0 (scheduleTimeout height rnd 3 cs) cs1" by (rule quiet_kept [OF q sch])
    have "a_round (tm_view e cs1) = a_round (tm_view e (scheduleTimeout height rnd 3 cs))"
      "a_step (tm_view e cs1) = a_step (tm_view e (scheduleTimeout height rnd 3 cs))"
      using q by (simp_all add: quiet_def del: view_sel)
    then have "good e V c K cs0 (updateRoundStep rnd 3 cs1)" by (intro good_advance [OF keptD(1) [OF k1]]) (use eq in simp_all)
    then have k2: "kept e V c K cs0 cs (updateRoundStep rnd 3 cs1)" using k1 eq by (simp add: kept_def)
    have "post_r (enterPrevote e height rnd (updateRoundStep rnd 3 cs1)) (kept e V c K cs0 (updateRoundStep rnd 3 cs1))"
      by (rule prevote_kept [OF keptD(1) [OF k2]]) (simp add: due_def)
    then show ?thesis using k2 post_kept [OF k2] by (simp add: Let_def)
  qed
  then show ?thesis unfolding enterPropose_def if_not_P [OF False] by (rule post_bind_mono [OF quiet_propose])
qed

section \<open>New votes and new rounds\<close>

lemma view_votes:
  "tm_view e (cs\<lparr>cs_Votes := hvs\<rparr>) = (tm_view e cs)\<lparr>a_polka := seen_majority (cs\<lparr>cs_Votes := hvs\<rparr>) PrevoteType,
     a_maj := seen_majority (cs\<lparr>cs_Votes := hvs\<rparr>) PrecommitType\<rparr>"
  by (simp add: tm_view_def sent_votes_def decisions_def)

lemma votes_good:
  assumes g: "good e V c K cs0 cs" and ok: "hvs_ok (te_crypto e) hvs" "round_ok hvs" and gr: "grows W (cs_Votes cs) hvs" "W \<subseteq> K"
  shows "good e V c K cs0 (cs\<lparr>cs_Votes := hvs\<rparr>)"
proof (rule good_step [OF g])
  show "node_ok e V c K (cs\<lparr>cs_Votes := hvs\<rparr>)" using g ok gr by (auto simp: good_def node_ok_def votes_ok_def grows_def)
  have "seen_majority (cs\<lparr>cs_Votes := hvs\<rparr>) t h r = Some x" if "seen_majority cs t h r = Some x" for t h r x
    using that gr(1) by (auto simp: seen_majority_def votes_at_def grows_def split: if_splits)
  then show "astep (tm_view e cs) (tm_view e (cs\<lparr>cs_Votes := hvs\<rparr>))" unfolding view_votes by (intro astep.learn) simp_all
qed

lemma new_round_kept:
  assumes g: "good e V c K cs0 cs"
  shows "post_r (enterNewRound e height rnd cs) (\<lambda>cs'. kept e V c K cs0 cs cs' \<and> due height rnd cs')"
proof (cases "cs_Height cs \<noteq> height \<or> rnd < cs_Round cs \<or> (cs_Round cs = rnd \<and> cs_Step cs \<noteq> RoundStepNewHeight)")
  case True
  then show ?thesis using g by (auto simp: enterNewRound_def due_def)
next
  case False
  then have guard: "height = cs_Height cs" "cs_Round cs < rnd \<or> cs_Round cs = rnd \<and> cs_Step cs \<le> 2" by auto
  have rnd: "0 \<le> rnd" using guard(2) g by (auto simp: good_def node_ok_def)
  have k1: "kept e V c K cs0 cs cs1 \<and> cs_Round cs1 = rnd"
    if q: "quiet e ((updateRoundStep rnd 2 cs)\<lparr>cs_Validators := vals\<rparr>) cs1" for vals cs1
  proof -
    have "good e V c K cs0 ((updateRoundStep rnd 2 cs)\<lparr>cs_Validators := vals\<rparr>)" using good_advance [OF g guard(2)] by simp
    note k = quiet_kept [OF q this]
    have "a_round (tm_view e cs1) = a_round (tm_view e ((updateRoundStep rnd 2 cs)\<lparr>cs_Validators := vals\<rparr>))"
      using q by (simp add: quiet_def del: view_sel)
    then show ?thesis using k guard by (auto simp: kept_def)
  qed
  have tail: "post_r (bind_r (Some (SafeAddInt32 rnd 1)) (\<lambda>rnd1.
        bind_r (SetRound rnd1 (cs_Votes cs2)) (\<lambda>votes.
        let cs3 = cs2\<lparr>cs_Votes := votes, cs_TriggeredTimeoutPrecommit := False\<rparr>
        in bind_r (if WaitForTxs e \<and> rnd = 0 then needProofBlock height cs3 else done_r True) (\<lambda>goOn.
           if \<not> goOn
           then done_r (if te_CreateEmptyBlocksInterval e > 0
                        then scheduleTimeout height rnd RoundStepNewRound cs3 else cs3)
           else enterPropose e height rnd cs3)))) (\<lambda>cs'. kept e V c K cs0 cs cs' \<and> due height rnd cs')"
    if k2: "kept e V c K cs0 cs cs2 \<and> cs_Round cs2 = rnd" for cs2
  proof (intro post_bindI, goal_cases)
    case (1 rnd1 votes)
    have ok2: "hvs_ok (te_crypto e) (cs_Votes cs2)" "round_ok (cs_Votes cs2)"
      using k2 by (auto simp: kept_def good_def node_ok_def votes_ok_def)
    note sr = SetRound_post [OF ok2 1(2)]
    have "rnd1 = rnd + 1" "is_i32 (rnd + 1)" using 1(1) rnd by (auto simp: SafeAddInt32_def is_i32_def i32_def split: if_splits)
    then have ro: "round_ok votes" using rnd sr(3) by (simp add: round_ok_def)
    define cs3 where "cs3 = cs2\<lparr>cs_Votes := votes, cs_TriggeredTimeoutPrecommit := False\<rparr>"
    have g3: "good e V c K cs0 cs3" using votes_good [OF _ sr(1) ro sr(2)] k2 by (simp add: cs3_def kept_def)
    then have k3: "kept e V c K cs0 cs cs3" "cs_Round cs3 = rnd" "cs_Height cs3 = height" using k2 guard by (auto simp: cs3_def kept_def)
    have s3: "kept e V c K cs0 cs (scheduleTimeout height rnd 2 cs3)"
      using schedule_good [OF g3, of height rnd 2] k3 by (simp add: kept_def)
    have p3: "post_r (enterPropose e height rnd cs3) (\<lambda>cs'. kept e V c K cs0 cs cs' \<and> due height rnd cs')"
      by (rule post_r_mono [OF propose_kept [OF g3, of height rnd]]) (use k3 in \<open>auto simp: kept_def due_def\<close>)
    show ?case unfolding cs3_def [symmetric] Let_def
      by (rule post_bindI) (use k3 s3 p3 in \<open>auto simp: due_def\<close>)
  qed
  show ?thesis unfolding enterNewRound_def if_not_P [OF False]
  proof (rule post_bindI, rule post_bind_mono [OF quiet_get_proposer [of _ e]], goal_cases)
    case (1 vals x)
    obtain v cs1 where x: "x = (v, cs1)" by fastforce
    show ?case using tail [of cs1] tail [of "cs1\<lparr>cs_Proposal := None, cs_ProposalBlock := None, cs_ProposalBlockParts := None\<rparr>"]
        k1 [of vals cs1] 1(2) by (auto simp: x Let_def kept_def)
  qed
qed

lemma polka_kept:
  assumes g: "good e V c K cs0 cs"
  shows "kept e V c K cs0 cs (on_polka e rnd cs) \<and> cs_Round (on_polka e rnd cs) = cs_Round cs"
proof (cases "majority (cs_Votes cs) PrevoteType rnd")
  case None
  then have "TwoThirdsMajority (Prevotes rnd (cs_Votes cs)) = (zero_bid, False)" by (simp add: TwoThirdsMajority_iff)
  then show ?thesis using g by (simp add: on_polka_def)
next
  case (Some bid)
  then have t: "TwoThirdsMajority (Prevotes rnd (cs_Votes cs)) = (bid, True)" by (simp add: TwoThirdsMajority_iff)
  define cs1 where "cs1 = (if cs_LockedBlock cs \<noteq> None \<and> cs_LockedRound cs < rnd \<and> rnd \<le> cs_Round cs
     \<and> \<not> HashesTo e (cs_LockedBlock cs) (bid_Hash bid) then unlock_block cs else cs)"
  have "good e V c K cs0 cs1"
  proof (cases "cs1 = cs")
    case False
    then obtain b where b: "cs_LockedBlock cs = Some b" "cs_LockedRound cs < rnd" "rnd \<le> cs_Round cs" "\<not> HashesTo e (Some b) (bid_Hash bid)"
      and eq: "cs1 = unlock_block cs"
      by (auto simp: cs1_def split: if_splits)
    have "te_Hash e b \<noteq> []" using lock_invD(1) [of "tm_view e cs" "te_Hash e b" "cs_LockedRound cs"] g b(1) by (auto simp: good_def node_inv_def)
    then have "bid_Hash bid \<noteq> te_Hash e b" using b(4) by (auto simp: HashesTo_def)
    then show ?thesis unfolding eq by (rule unlock_good [OF g b(1-3) Some])
  qed (use g in simp)
  moreover have "cs_Height cs1 = cs_Height cs" "cs_Round cs1 = cs_Round cs" by (simp_all add: cs1_def unlock_block_def)
  ultimately have k: "kept e V c K cs0 cs cs1" "cs_Round cs1 = cs_Round cs" by (simp_all add: kept_def)
  then show ?thesis unfolding on_polka_def t prod.case bool.case cs1_def [symmetric] Let_def by (simp add: kept_def)
qed

lemma prevote_added_kept:
  assumes g: "good e V c K cs0 cs0'"
  shows "post_r (prevote_added e rnd cs0') (kept e V c K cs0 cs0')"
proof -
  define cs where "cs = on_polka e rnd cs0'"
  have k: "kept e V c K cs0 cs0' cs" using polka_kept [OF g] by (simp add: cs_def)
  note g1 = keptD(1) [OF k]
  have d: "due (cs_Height cs) rnd cs" if "cs_Round cs = rnd" using that by (simp add: due_def)
  have r: "post_r (enterNewRound e (cs_Height cs) rnd cs) (kept e V c K cs0 cs)"
    by (rule post_r_mono [OF new_round_kept [OF g1]]) simp
  have p: "post_r (enterPrevote e (cs_Height cs) (cs_Round cs) cs) (kept e V c K cs0 cs)"
    by (rule prevote_kept [OF g1]) (simp add: due_def)
  have w: "post_r (bind_r (Some (HasTwoThirdsAny (Prevotes rnd (cs_Votes cs)))) (\<lambda>any.
      if any then enterPrevoteWait e (cs_Height cs) rnd cs else done_r cs)) (kept e V c K cs0 cs)" if "cs_Round cs = rnd"
    by (rule post_bindI) (use prevote_wait_kept [OF g1 d [OF that]] g1 in simp)
  have "post_r (prevote_added e rnd cs0') (kept e V c K cs0 cs)"
    unfolding prevote_added_def cs_def [symmetric] Let_def
    by (rule post_bindI) (use r p w precommit_kept [OF g1 d] g1 in \<open>auto split: prod.split\<close>)
  then show ?thesis by (rule post_kept [OF k])
qed

section \<open>Committing a block\<close>

lemma precommits_of_height:
  assumes "node_ok e V c K cs" "Precommits r (cs_Votes cs) = Some vs"
  shows "vs_height vs = cs_Height cs" "vs_maj23 vs = majority (cs_Votes cs) PrecommitType r"
proof -
  obtain rvs where rvs: "gm_get (hvs_roundVoteSets (cs_Votes cs)) r = Some rvs" "vs = rvs_Precommits rvs"
    using assms(2) by (auto simp: Precommits_def)
  then show "vs_height vs = cs_Height cs" using assms(1) by (auto simp: node_ok_def votes_ok_def hvs_ok_def set_ok_def)
  show "vs_maj23 vs = majority (cs_Votes cs) PrecommitType r" using rvs by (simp add: majority_def votes_of_def)
qed

lemma save_block_good:
  assumes g: "good e V c K cs0 cs" and m: "majority (cs_Votes cs) PrecommitType (cs_CommitRound cs) = Some bid"
    and b: "te_Hash e block = bid_Hash bid" "bid_Hash bid \<noteq> []" and run: "save_block block parts cs = done_r cs1"
  shows "good e V c K cs0 cs1" "\<exists>bs. cs1 = cs\<lparr>cs_blockStore := bs\<rparr>"
proof -
  have "good e V c K cs0 cs1 \<and> (\<exists>bs. cs1 = cs\<lparr>cs_blockStore := bs\<rparr>)"
  proof (cases "cs1 = cs")
    case True
    then show ?thesis using g by (auto intro!: exI [of _ "cs_blockStore cs"])
  next
    case False
    then obtain vs sc bs where s: "Precommits (cs_CommitRound cs) (cs_Votes cs) = Some vs" "MakeCommit vs = (Return sc :: (unit, _) outcome)"
      "SaveBlock block parts sc (cs_blockStore cs) = done_r bs" "cs1 = cs\<lparr>cs_blockStore := bs\<rparr>"
      using run by (auto simp: save_block_def bind_r_done_iff split: if_splits option.splits)
    have h: "c_Height sc = cs_Height cs"
      using s(2) precommits_of_height(1) [OF _ s(1)] g by (auto simp: good_def MakeCommit_def bind_o_Return_iff split: if_splits option.splits)
    have "bs_saved bs = bs_saved (cs_blockStore cs) @ [(block, parts, sc)]"
      using s(3) by (auto simp: SaveBlock_def split: if_splits)
    then have v: "tm_view e cs1 = (tm_view e cs)\<lparr>a_decided := insert (cs_Height cs, bid_Hash bid) (a_decided (tm_view e cs))\<rparr>"
      using h b(1) by (simp add: s(4) view_defs)
    have "good e V c K cs0 cs1"
    proof (rule good_step [OF g])
      show "node_ok e V c K cs1" using g by (simp add: s(4) good_def node_ok_def)
      show "astep (tm_view e cs) (tm_view e cs1)" unfolding v
        by (rule astep.decide [of _ _ "cs_CommitRound cs"]) (use m b(2) in \<open>simp_all add: seen_now\<close>)
    qed
    then show ?thesis using s(4) by blast
  qed
  then show "good e V c K cs0 cs1" "\<exists>bs. cs1 = cs\<lparr>cs_blockStore := bs\<rparr>" by blast+
qed

definition next_height :: "ChainState \<Rightarrow> int" where
  "next_height st = (let h = i64 (ss_LastBlockHeight st + 1) in if h = 1 then ss_InitialHeight st else h)"

definition state_ok :: "(int \<Rightarrow> validator list) \<Rightarrow> string \<Rightarrow> ChainState \<Rightarrow> bool" where
  \<comment> \<open>a state of this chain whose validators are those of the next height\<close>
  "state_ok V c st \<longleftrightarrow> ss_ChainID st = c \<and> vals_wf (ss_Validators st)
     \<and> (\<forall>v \<in> set (Validators (ss_Validators st)). PubKey v \<noteq> None)
     \<and> Validators (ss_Validators st) = V (next_height st) \<and> ss_LastBlockHeight st < MaxInt64"

definition app_ok :: "tm_env \<Rightarrow> (int \<Rightarrow> validator list) \<Rightarrow> string \<Rightarrow> bool" where
  \<comment> \<open>executing a block gives a state of the same chain with the validators of its next height\<close>
  "app_ok e V c \<longleftrightarrow> (\<forall>st bid b st'. ss_ChainID st = c \<longrightarrow> te_ApplyBlock e st bid b = Some st' \<longrightarrow> state_ok V c st')"

lemma view_reset:
  assumes "\<forall>(h, hvs) \<in> set (cs_past cs). h < cs_Height cs" "cs_Height cs < h'" "\<forall>t r. majority votes t r = None"
    and past: "cs_past cs' = cs_past cs @ [(cs_Height cs, cs_Votes cs)]" and cs': "cs_Votes cs' = votes" "cs_Height cs' = h'"
  shows "seen_majority cs' t = seen_majority cs t"
proof -
  have old: "map_of (cs_past cs) h = None" if "cs_Height cs \<le> h" for h
  proof (rule ccontr)
    assume "map_of (cs_past cs) h \<noteq> None"
    then obtain hvs where "(h, hvs) \<in> set (cs_past cs)" using map_of_SomeD by fastforce
    then show False using assms(1) that by fastforce
  qed
  have "seen_majority cs' t h r = seen_majority cs t h r" for h r
    using assms(2,3) old [of h] by (auto simp: seen_majority_def votes_at_def past cs' map_add_def split: option.split)
  then show ?thesis by blast
qed

lemma reset_good:
  assumes g: "good e V c K cs0 cs" and st: "state_ok V c st" and h: "cs_Height cs < next_height st"
    and run: "reset_to_state st lc cs = done_r cs'"
  shows "good e V c K cs0 cs'"
proof -
  have pos: "next_height st \<noteq> 0" "0 < next_height st" using h g by (auto simp: good_def node_ok_def)
  obtain hvs where hvs: "NewHeightVoteSet (ss_ChainID st) (next_height st) (ss_Validators st) = (Return hvs :: (unit, _) outcome)"
    "hvs_ok (te_crypto e) hvs" "hvs_chainID hvs = c" "hvs_height hvs = next_height st" "hvs_valSet hvs = ss_Validators st"
    "hvs_round hvs = 0" "\<forall>t r. majority hvs t r = None" "hvs_held hvs = {}"
    by (rule NewHeightVoteSet_spec [OF pos(1), of "ss_Validators st" "ss_ChainID st" "te_crypto e", where 'e = unit])
      (use st in \<open>auto simp: state_ok_def\<close>)
  have nh: "(if i64 (ss_LastBlockHeight st + 1) = 1 then ss_InitialHeight st else i64 (ss_LastBlockHeight st + 1)) = next_height st"
    by (simp add: next_height_def Let_def)
  have cs': "cs' = updateRoundStep 0 RoundStepNewHeight (cs\<lparr>cs_Height := next_height st, cs_Validators := ss_Validators st,
           cs_Proposal := None, cs_ProposalBlock := None, cs_ProposalBlockParts := None,
           cs_LockedRound := -1, cs_LockedBlock := None, cs_LockedBlockParts := None,
           cs_ValidRound := -1, cs_ValidBlock := None, cs_ValidBlockParts := None,
           cs_Votes := hvs, cs_CommitRound := -1, cs_LastCommit := lc,
           cs_LastValidators := ss_LastValidators st, cs_TriggeredTimeoutPrecommit := False,
           cs_state := st, cs_flag := False, cs_past := cs_past cs @ [(cs_Height cs, cs_Votes cs)]\<rparr>)"
    using run hvs(1) unfolding reset_to_state_def Let_def nh by simp
  have ok: "node_ok e V c K cs" using g by (simp add: good_def)
  show ?thesis
  proof (rule good_step [OF g])
    have "votes_ok e V c K (next_height st) hvs" using hvs st by (simp add: votes_ok_def state_ok_def)
    then show "node_ok e V c K cs'"
      using ok h pos st hvs(6) by (fastforce simp: cs' updateRoundStep_def node_ok_def round_ok_def is_i32_def state_ok_def)
    have "seen_majority cs' t = seen_majority cs t" for t
      by (rule view_reset [OF _ h hvs(7)]) (use ok in \<open>auto simp: cs' updateRoundStep_def node_ok_def\<close>)
    then have "tm_view e cs' = (tm_view e cs)\<lparr>a_height := next_height st, a_round := 0, a_step := 1, a_lock := None\<rparr>"
      by (simp add: tm_view_def) (simp add: cs' updateRoundStep_def sent_votes_def decisions_def)
    then show "astep (tm_view e cs) (tm_view e cs')" using astep.new_height [of "tm_view e cs" "next_height st"] h by simp
  qed
qed

lemma update_good:
  assumes g: "good e V c K cs0 cs" and st: "state_ok V c st" and cr: "0 \<le> cs_CommitRound cs"
    and run: "updateToState st cs = done_r cs'"
  shows "good e V c K cs0 cs'"
proof (cases "cs' = cs")
  case False
  have pos: "0 < cs_Height cs" using g by (simp add: good_def node_ok_def)
  have last: "ss_LastBlockHeight st = cs_Height cs" using run cr pos by (auto simp: updateToState_def Let_def split: if_splits)
  then have "cs_Height cs < next_height st"
    using st pos by (auto simp: next_height_def Let_def state_ok_def i64_def)
  moreover obtain lc where "reset_to_state st lc cs = done_r cs'"
    using run False by (auto simp: updateToState_def Let_def split: if_splits)
  ultimately show ?thesis using reset_good [OF g st] by blast
qed (use g in simp)

lemma finalize_good:
  assumes g: "good e V c K cs0 cs" and app: "app_ok e V c"
  shows "post_r (finalizeCommit e height cs) (good e V c K cs0)"
proof (rule post_rI)
  fix cs' assume run: "finalizeCommit e height cs = done_r cs'"
  show "good e V c K cs0 cs'"
  proof (cases "cs' = cs")
    case False
    then have step: "cs_Height cs = height" "cs_Step cs = 8" using run by (auto simp: finalizeCommit_def split: if_splits)
    obtain bid where t: "TwoThirdsMajority (Precommits (cs_CommitRound cs) (cs_Votes cs)) = (bid, True)"
      using run step by (cases "TwoThirdsMajority (Precommits (cs_CommitRound cs) (cs_Votes cs))")
        (auto simp: finalizeCommit_def split: bool.splits)
    then have m: "majority (cs_Votes cs) PrecommitType (cs_CommitRound cs) = Some bid" by (simp add: TwoThirdsMajority_iff)
    note run1 = run [unfolded finalizeCommit_def t prod.case bool.case Let_def]
    have hash: "HashesTo e (cs_ProposalBlock cs) (bid_Hash bid)" using run1 step by (auto split: if_splits)
    then obtain block where b: "cs_ProposalBlock cs = Some block" "te_Hash e block = bid_Hash bid" "bid_Hash bid \<noteq> []"
      by (auto simp: HashesTo_def split: option.splits)
    obtain cs1 where s: "save_block block (the (cs_ProposalBlockParts cs)) cs = done_r cs1"
      using run1 step b(1) by (auto simp: bind_r_done_iff split: if_splits)
    note g1 = save_block_good(1) [OF g m b(2,3) s]
    obtain bs where bs: "cs1 = cs\<lparr>cs_blockStore := bs\<rparr>" using save_block_good(2) [OF g m b(2,3) s] by blast
    have cr: "0 \<le> cs_CommitRound cs1" using g step bs by (simp add: good_def node_ok_def)
    consider "cs' = cs1" | st cs2 bid' where "te_ApplyBlock e (cs_state cs1) bid' block = Some st" "updateToState st cs1 = done_r cs2"
        "cs' = scheduleRound0 (updatePrivValidatorPubKey e cs2)"
      using run1 step b(1) s by (auto simp: bind_r_done_iff split: if_splits option.splits)
    then show ?thesis
    proof cases
      case 2
      have "ss_ChainID (cs_state cs1) = c" using g1 by (simp add: good_def node_ok_def)
      then have "state_ok V c st" using app 2(1) unfolding app_ok_def by blast
      from update_good [OF g1 this cr 2(2)] have g2: "good e V c K cs0 (updatePrivValidatorPubKey e cs2)"
        by (simp add: updatePrivValidatorPubKey_def)
      then show ?thesis unfolding 2(3) scheduleRound0_def by (intro schedule_good) (auto simp: good_def node_ok_def)
    qed (use g1 in simp)
  qed (use g in simp)
qed

lemma try_finalize_good:
  assumes "good e V c K cs0 cs" "app_ok e V c"
  shows "post_r (tryFinalizeCommit e height cs) (good e V c K cs0)"
  using finalize_good [OF assms, of height] assms(1) by (auto simp: tryFinalizeCommit_def split: prod.split)

lemma quiet_stage: "quiet e cs (stage_commit e bid cs)"
  by (simp add: stage_commit_def fetch_parts_def Let_def quiet_def)

lemma commit_good:
  assumes g: "good e V c K cs0 cs" and app: "app_ok e V c" and r: "0 \<le> commitRound"
  shows "post_r (enterCommit e height commitRound cs) (good e V c K cs0)"
proof (cases "cs_Height cs \<noteq> height \<or> RoundStepCommit \<le> cs_Step cs")
  case True
  then show ?thesis using g by (simp add: enterCommit_def)
next
  case False
  have "post_r (tryFinalizeCommit e height ((updateRoundStep (cs_Round cs) 8 (stage_commit e bid cs))\<lparr>cs_CommitRound := commitRound\<rparr>))
      (good e V c K cs0)" for bid
  proof (rule try_finalize_good [OF _ app])
    let ?cs1 = "(stage_commit e bid cs)\<lparr>cs_CommitRound := commitRound\<rparr>"
    have g1: "good e V c K cs0 (stage_commit e bid cs)" using quiet_kept [OF quiet_stage g] by (simp add: kept_def)
    have s: "cs_Step (stage_commit e bid cs) = cs_Step cs" "cs_Round (stage_commit e bid cs) = cs_Round cs"
      by (simp_all add: stage_commit_def fetch_parts_def Let_def)
    have g2: "good e V c K cs0 ?cs1"
      by (rule good_same [OF g1]) (use g1 r in \<open>simp_all add: good_def node_ok_def view_defs\<close>)
    have "good e V c K cs0 (updateRoundStep (cs_Round cs) 8 ?cs1)"
      by (rule good_advance [OF g2]) (use False s r in simp_all)
    moreover have "updateRoundStep (cs_Round cs) 8 ?cs1 = (updateRoundStep (cs_Round cs) 8 (stage_commit e bid cs))\<lparr>cs_CommitRound := commitRound\<rparr>"
      by (simp add: updateRoundStep_def)
    ultimately show "good e V c K cs0 ((updateRoundStep (cs_Round cs) 8 (stage_commit e bid cs))\<lparr>cs_CommitRound := commitRound\<rparr>)" by simp
  qed
  then show ?thesis unfolding enterCommit_def if_not_P [OF False] by (auto split: prod.split bool.split)
qed

lemma new_round_good:
  assumes "good e V c K cs0 cs"
  shows "post_r (enterNewRound e height rnd cs) (good e V c K cs0)"
  by (rule post_r_mono [OF new_round_kept [OF assms]]) (simp add: kept_def)

lemma precommit_majority_good:
  assumes g: "good e V c K cs0 cs" and app: "app_ok e V c" and r: "0 \<le> rnd"
  shows "post_r (bind_r (enterNewRound e height rnd cs) (\<lambda>cs1.
      bind_r (enterPrecommit e height rnd cs1) (\<lambda>cs2.
      if length (bid_Hash blockID) \<noteq> 0
      then bind_r (enterCommit e height rnd cs2) (\<lambda>cs3.
           bind_r (if te_SkipTimeoutCommit e then Some (HasAll precommits) else done_r False) (\<lambda>skip.
           if skip then enterNewRound e (cs_Height cs3) 0 cs3 else done_r cs3))
      else enterPrecommitWait height rnd cs2))) (good e V c K cs0)"
proof (rule post_bind_mono [OF new_round_kept [OF g]], goal_cases)
  case (1 cs1)
  then have 1: "good e V c K cs0 cs1" "due height rnd cs1" by (auto simp: kept_def)
  show ?case
  proof (rule post_bind_mono [OF precommit_kept [OF 1]], goal_cases)
    case (1 cs2)
    then have 2: "good e V c K cs0 cs2" "due height rnd cs2" using \<open>due height rnd cs1\<close> by (auto simp: kept_def due_def)
    have wait: "post_r (enterPrecommitWait height rnd cs2) (good e V c K cs0)"
      by (rule post_r_mono [OF precommit_wait_kept [OF 2]]) (simp add: kept_def)
    have "post_r (bind_r (enterCommit e height rnd cs2) (\<lambda>cs3.
           bind_r (if te_SkipTimeoutCommit e then Some (HasAll precommits) else done_r False) (\<lambda>skip.
           if skip then enterNewRound e (cs_Height cs3) 0 cs3 else done_r cs3))) (good e V c K cs0)"
      by (rule post_bind_mono [OF commit_good [OF 2(1) app r]], rule post_bindI) (auto intro: new_round_good)
    then show ?case using wait by simp
  qed
qed

lemma precommit_added_good:
  assumes g: "good e V c K cs0 cs" and app: "app_ok e V c" and r: "0 \<le> rnd"
  shows "post_r (precommit_added e rnd cs) (good e V c K cs0)"
proof -
  obtain b ok where m: "TwoThirdsMajority (Precommits rnd (cs_Votes cs)) = (b, ok)" by fastforce
  have wait: "post_r (bind_r (enterNewRound e height rnd cs) (enterPrecommitWait height rnd)) (good e V c K cs0)" for height
  proof (rule post_bind_mono [OF new_round_kept [OF g]], goal_cases)
    case (1 cs1)
    then have "post_r (enterPrecommitWait height rnd cs1) (kept e V c K cs0 cs1)" by (intro precommit_wait_kept) (auto simp: kept_def)
    then show ?case by (rule post_r_mono) (simp add: kept_def)
  qed
  show ?thesis
  proof (cases ok)
    case True
    then have t: "ok = True" by simp
    show ?thesis unfolding precommit_added_def m t Let_def prod.case bool.case by (rule precommit_majority_good [OF g app r])
  next
    case False
    then have f: "ok = False" by simp
    show ?thesis unfolding precommit_added_def m f Let_def prod.case bool.case
      by (intro post_bindI) (use wait g in simp)
  qed
qed

section \<open>Messages and timeouts\<close>

lemma set_proposal_good:
  assumes g: "good e V c K cs0 cs"
  shows "post_r (defaultSetProposal e p cs) (good e V c K cs0)"
proof -
  have "post_r (bind_r (get_proposer cs) (\<lambda>(proposer, cs1). case PubKey proposer of None \<Rightarrow> halt_r | Some pk \<Rightarrow>
               bind_r (Some (ProposalSignBytes (te_crypto e) (ss_ChainID (cs_state cs1)) p)) (\<lambda>bz.
               if \<not> te_verify e pk bz (p_Signature p) then done_r cs1
               else done_r (cs1\<lparr>cs_Proposal := Some p, cs_ProposalBlockParts :=
                      (case cs_ProposalBlockParts cs1 of
                         None \<Rightarrow> Some (NewPartSetFromHeader (bid_Parts (p_BlockID p)))
                       | Some ps \<Rightarrow> Some ps)\<rparr>)))) (good e V c K cs0)"
    by (rule post_bind_mono [OF quiet_get_proposer [of _ e]])
      (use quiet_kept [OF _ g] in \<open>auto simp: kept_def split: option.split intro!: post_bindI\<close>)
  then show ?thesis using g by (simp add: defaultSetProposal_def)
qed

lemma decode_good: "good e V c K cs0 cs \<Longrightarrow> post_r (decode_parts e ps cs) (good e V c K cs0)"
  by (auto simp: decode_parts_def split: outcome.split option.split)

lemma add_part_good:
  assumes g: "good e V c K cs0 cs"
  shows "post_r (addProposalBlockPart e height part cs) (\<lambda>(_, cs'). good e V c K cs0 cs')"
proof -
  have "post_r (bind_r (decode_parts e ps (cs\<lparr>cs_ProposalBlockParts := x\<rparr>)) (\<lambda>cs2. done_r (a, cs2))) (\<lambda>(_, cs'). good e V c K cs0 cs')" for ps x a
    by (rule post_bind_mono [OF decode_good [of e V c K cs0]]) (use g in simp_all)
  then show ?thesis using g by (auto simp: addProposalBlockPart_def Let_def split: option.split outcome.split)
qed

lemma complete_proposal_good:
  assumes g: "good e V c K cs0 cs" and app: "app_ok e V c"
  shows "post_r (handleCompleteProposal e height cs) (good e V c K cs0)"
proof -
  obtain b ok where m: "TwoThirdsMajority (Prevotes (cs_Round cs) (cs_Votes cs)) = (b, ok)" by fastforce
  define cs1 where "cs1 = (if ok \<and> \<not> bid_IsZero b \<and> cs_ValidRound cs < cs_Round cs \<and> HashesTo e (cs_ProposalBlock cs) (bid_Hash b)
     then cs\<lparr>cs_ValidRound := cs_Round cs, cs_ValidBlock := cs_ProposalBlock cs, cs_ValidBlockParts := cs_ProposalBlockParts cs\<rparr> else cs)"
  have g1: "good e V c K cs0 cs1" using g by (simp add: cs1_def)
  have pre: "post_r (enterPrecommit e height (cs_Round cs2) cs2) (good e V c K cs0)" if "good e V c K cs0 cs2" for cs2
    by (rule post_r_mono [OF precommit_kept [OF that]]) (auto simp: due_def kept_def)
  have "post_r (bind_r (enterPrevote e height (cs_Round cs1) cs1) (\<lambda>cs2.
        if ok then enterPrecommit e height (cs_Round cs2) cs2 else done_r cs2)) (good e V c K cs0)"
    by (rule post_bind_mono [OF prevote_kept [OF g1]]) (use pre in \<open>auto simp: due_def kept_def\<close>)
  then show ?thesis unfolding handleCompleteProposal_def m Let_def prod.case cs1_def [symmetric]
    using try_finalize_good [OF g1 app] g1 by simp
qed

lemma block_part_good:
  assumes g: "good e V c K cs0 cs" and app: "app_ok e V c"
  shows "post_r (handleBlockPart e height part cs) (good e V c K cs0)"
  unfolding handleBlockPart_def
  by (rule post_bind_mono [OF add_part_good [OF g]])
    (auto split: option.split intro!: complete_proposal_good [OF _ app])

definition vote_deliverable :: "tm_env \<Rightarrow> string \<Rightarrow> Vote \<Rightarrow> bool" where
  \<comment> \<open>what ValidateBasic has checked of a vote from a peer\<close>
  "vote_deliverable e c v \<longleftrightarrow> vote_signable (te_crypto e) c v \<and> 0 \<le> v_Round v"

lemma last_commit_vote_good:
  assumes g: "good e V c K cs0 cs"
  shows "post_r (bind_r (Some (AddVote (te_crypto e) (cs_LastCommit cs) (Some vote))) (\<lambda>(added, err, lastCommit).
                 let cs1 = cs\<lparr>cs_LastCommit := Some lastCommit\<rparr>
                 in if \<not> added then done_r (map_option VoteErr err, cs1)
                    else bind_r (if te_SkipTimeoutCommit e then Some (HasAll (Some lastCommit)) else done_r False) (\<lambda>skip.
                         bind_r (if skip then enterNewRound e (cs_Height cs1) 0 cs1 else done_r cs1) (\<lambda>cs2.
                         done_r (map_option VoteErr err, cs2))))) (\<lambda>(_, cs'). good e V c K cs0 cs')"
proof (rule post_bindI, goal_cases)
  case (1 x)
  obtain added err lc where x: "x = (added, err, lc)" by (cases x) auto
  define cs1 where "cs1 = cs\<lparr>cs_LastCommit := Some lc\<rparr>"
  have g1: "good e V c K cs0 cs1" using g by (simp add: cs1_def)
  have skip: "post_r (bind_r (if skip then enterNewRound e (cs_Height cs1) 0 cs1 else done_r cs1) (\<lambda>cs2.
      done_r (map_option VoteErr err, cs2))) (\<lambda>(_, cs'). good e V c K cs0 cs')" for skip
    by (rule post_bind_mono [of _ "good e V c K cs0"]) (use new_round_good [OF g1] g1 in simp_all)
  have "post_r (bind_r m (\<lambda>skip. bind_r (if skip then enterNewRound e (cs_Height cs1) 0 cs1 else done_r cs1) (\<lambda>cs2.
      done_r (map_option VoteErr err, cs2)))) (\<lambda>(_, cs'). good e V c K cs0 cs')" for m
    by (rule post_bindI) (rule skip)
  then show ?case using g1 unfolding x prod.case Let_def cs1_def [symmetric] by auto
qed

lemma height_vote_good:
  assumes g: "good e V c K cs0 cs" and app: "app_ok e V c" and v: "vote_deliverable e c v" "v \<in> K"
  shows "post_r (bind_r (Some (hvs_AddVote (te_crypto e) v peerID (cs_Votes cs))) (\<lambda>(added, err, votes).
           let cs1 = cs\<lparr>cs_Votes := votes\<rparr>
           in if \<not> added then done_r (err, cs1)
              else bind_r (case v_Type v of
                             PrevoteType \<Rightarrow> prevote_added e (v_Round v) cs1
                           | PrecommitType \<Rightarrow> precommit_added e (v_Round v) cs1
                           | _ \<Rightarrow> halt_r) (\<lambda>cs2. done_r (err, cs2)))) (\<lambda>(_, cs'). good e V c K cs0 cs')"
proof -
  have ok: "hvs_ok (te_crypto e) (cs_Votes cs)" "round_ok (cs_Votes cs)" "vote_signable (te_crypto e) (hvs_chainID (cs_Votes cs)) v"
    using g v(1) by (auto simp: good_def node_ok_def votes_ok_def vote_deliverable_def)
  obtain added err hvs where a: "hvs_AddVote (te_crypto e) v peerID (cs_Votes cs) = (Return (added, err, hvs) :: (unit, _) outcome)"
    "hvs_ok (te_crypto e) hvs" "grows {v} (cs_Votes cs) hvs" "hvs_round hvs = hvs_round (cs_Votes cs)"
    by (rule hvs_AddVote_spec [OF ok(1,3), of peerID]) blast
  define cs1 where "cs1 = cs\<lparr>cs_Votes := hvs\<rparr>"
  have g1: "good e V c K cs0 cs1" unfolding cs1_def
    by (rule votes_good [OF g a(2) _ a(3)]) (use ok(2) a(4) v(2) in \<open>auto simp: round_ok_def\<close>)
  have "post_r (case v_Type v of PrevoteType \<Rightarrow> prevote_added e (v_Round v) cs1
      | PrecommitType \<Rightarrow> precommit_added e (v_Round v) cs1 | _ \<Rightarrow> halt_r) (good e V c K cs0)"
    using post_kept_good [OF prevote_added_kept [OF g1]] precommit_added_good [OF g1 app] v(1)
    by (cases "v_Type v") (auto simp: vote_deliverable_def)
  then have "post_r (bind_r (case v_Type v of PrevoteType \<Rightarrow> prevote_added e (v_Round v) cs1
      | PrecommitType \<Rightarrow> precommit_added e (v_Round v) cs1 | _ \<Rightarrow> halt_r) (\<lambda>cs2. done_r (err, cs2))) (\<lambda>(_, cs'). good e V c K cs0 cs')"
    by (rule post_bind_mono) simp
  then show ?thesis using g1 unfolding cs1_def a(1) Let_def by simp
qed

lemma add_vote_good:
  assumes g: "good e V c K cs0 cs" and app: "app_ok e V c" and v: "vote_deliverable e c v" "v \<in> K"
  shows "post_r (cs_addVote e v peerID cs) (\<lambda>(_, cs'). good e V c K cs0 cs')"
  unfolding cs_addVote_def using last_commit_vote_good [OF g] height_vote_good [OF g app v] g by simp

lemma try_vote_good:
  assumes g: "good e V c K cs0 cs" and app: "app_ok e V c" and v: "vote_deliverable e c v" "v \<in> K"
  shows "post_r (tryAddVote e v peerID cs) (good e V c K cs0)"
  unfolding tryAddVote_def
  by (rule post_bind_mono [OF add_vote_good [OF assms]])
    (auto split: option.split hvs_error.split vote_error.split)

datatype tm_event =
    Deliver string tm_msg
  | Fire timeoutInfo int int int
  | TxsAvailable
  | PeerMaj23 int int SignedMsgType string BlockID

definition tm_handle :: "tm_env \<Rightarrow> tm_event \<Rightarrow> tm_state \<Rightarrow> tm_state run" where
  \<comment> \<open>the cases of the select in receiveRoutine, and the reactor's one write to the votes\<close>
  "tm_handle e ev cs =
     (case ev of
        Deliver peerID msg \<Rightarrow> handleMsg e peerID msg cs
      | Fire ti h r st \<Rightarrow> handleTimeout e ti h r st cs
      | TxsAvailable \<Rightarrow> handleTxsAvailable e cs
      | PeerMaj23 h r t peerID b \<Rightarrow> peerMaj23 h r t peerID b cs)"

definition event_ok :: "tm_env \<Rightarrow> string \<Rightarrow> Vote set \<Rightarrow> tm_state \<Rightarrow> tm_event \<Rightarrow> bool" where
  \<comment> \<open>a vote is one of those in the network, and a timeout one that was scheduled\<close>
  "event_ok e c K cs ev =
     (case ev of
        Deliver peerID (VoteMessage v) \<Rightarrow> vote_deliverable e c v \<and> v \<in> K
      | Fire ti h r st \<Rightarrow> ti \<in> set (cs_timeouts cs)
      | _ \<Rightarrow> True)"

lemma timeout_good:
  assumes g: "good e V c K cs0 cs" and ti: "ti \<in> set (cs_timeouts cs)"
  shows "post_r (handleTimeout e ti h r st cs) (good e V c K cs0)"
proof -
  have d: "due (ti_Height ti) (ti_Round ti) cs" using g ti by (auto simp: good_def node_ok_def due_def)
  have d0: "due (ti_Height ti) 0 cs" using g by (auto simp: good_def node_ok_def due_def)
  have p: "post_r (enterPrecommit e (ti_Height ti) (ti_Round ti) cs) (good e V c K cs0)"
    by (rule post_kept_good [OF precommit_kept [OF g d]])
  have w: "post_r (bind_r (enterPrecommit e (ti_Height ti) (ti_Round ti) cs) (enterNewRound e (ti_Height ti) (i32 (ti_Round ti + 1)))) (good e V c K cs0)"
    by (rule post_bind_mono [OF p]) (rule new_round_good)
  note rest = new_round_good [OF g] post_kept_good [OF propose_kept [OF g d0]] post_kept_good [OF prevote_kept [OF g d]]
  show ?thesis using g p w rest by (auto simp: handleTimeout_def)
qed

lemma txs_good:
  assumes g: "good e V c K cs0 cs"
  shows "post_r (handleTxsAvailable e cs) (good e V c K cs0)"
proof (cases "cs_Round cs = 0")
  case True
  have s: "good e V c K cs0 (scheduleTimeout (cs_Height cs) 0 2 cs)" by (rule schedule_good [OF g]) (use True in simp_all)
  have "post_r (bind_r (needProofBlock (cs_Height cs) cs) (\<lambda>need.
      if need then done_r cs else done_r (scheduleTimeout (cs_Height cs) 0 2 cs))) (good e V c K cs0)"
    by (rule post_bindI) (use g s in simp)
  moreover have "post_r (enterPropose e (cs_Height cs) 0 cs) (good e V c K cs0)"
    by (rule post_kept_good [OF propose_kept [OF g]]) (use True in \<open>simp add: due_def\<close>)
  ultimately show ?thesis using g True by (simp add: handleTxsAvailable_def)
qed (use g in \<open>simp add: handleTxsAvailable_def\<close>)

lemma peer_maj_good:
  assumes g: "good e V c K cs0 cs"
  shows "post_r (peerMaj23 h r t peerID b cs) (good e V c K cs0)"
proof -
  have ok: "hvs_ok (te_crypto e) (cs_Votes cs)" "round_ok (cs_Votes cs)"
    using g by (auto simp: good_def node_ok_def votes_ok_def)
  obtain res hvs where a: "hvs_SetPeerMaj23 r t peerID b (cs_Votes cs) = (Return (res, hvs) :: (unit, _) outcome)"
    "hvs_ok (te_crypto e) hvs" "grows {} (cs_Votes cs) hvs" "hvs_round hvs = hvs_round (cs_Votes cs)"
    by (rule hvs_SetPeerMaj23_spec [OF ok(1)]) blast
  have "good e V c K cs0 (cs\<lparr>cs_Votes := hvs\<rparr>)"
    by (rule votes_good [OF g a(2) _ a(3)]) (use ok(2) a(4) in \<open>auto simp: round_ok_def\<close>)
  then show ?thesis using g by (simp add: peerMaj23_def a(1))
qed

lemma handle_good:
  assumes g: "good e V c K cs0 cs" and app: "app_ok e V c" and ev: "event_ok e c K cs ev"
  shows "post_r (tm_handle e ev cs) (good e V c K cs0)"
proof (cases ev)
  case (Deliver peerID m)
  then show ?thesis using ev set_proposal_good [OF g] block_part_good [OF g app] try_vote_good [OF g app]
    by (cases m) (auto simp: tm_handle_def handleMsg_def event_ok_def)
qed (use ev timeout_good [OF g] txs_good [OF g] peer_maj_good [OF g] in \<open>auto simp: tm_handle_def event_ok_def\<close>)

section \<open>The start\<close>

definition genesis_ok :: "(int \<Rightarrow> validator list) \<Rightarrow> string \<Rightarrow> ChainState \<Rightarrow> BlockStore \<Rightarrow> bool" where
  \<comment> \<open>a node that has no block yet\<close>
  "genesis_ok V c st bs \<longleftrightarrow> state_ok V c st \<and> ss_LastBlockHeight st = 0 \<and> 0 < ss_InitialHeight st \<and> bs_saved bs = []"

lemma start_good:
  assumes gen: "genesis_ok V c st bs" and run: "NewState e st bs pv = done_r cs"
  shows "node_ok e V c K cs" "tm_view e cs = \<lparr>a_height = cs_Height cs, a_round = 0, a_step = 1, a_lock = None,
    a_polka = \<lambda>_ _. None, a_maj = \<lambda>_ _. None, a_sent = {}, a_decided = {}\<rparr>" "cs_past cs = []"
proof -
  have nh: "next_height st = ss_InitialHeight st" using gen by (simp add: genesis_ok_def next_height_def i64_def)
  obtain hvs where hvs: "NewHeightVoteSet (ss_ChainID st) (ss_InitialHeight st) (ss_Validators st) = (Return hvs :: (unit, _) outcome)"
    "hvs_ok (te_crypto e) hvs" "hvs_chainID hvs = c" "hvs_height hvs = ss_InitialHeight st" "hvs_valSet hvs = ss_Validators st"
    "hvs_round hvs = 0" "\<forall>t r. majority hvs t r = None" "hvs_held hvs = {}"
    by (rule NewHeightVoteSet_spec [of "ss_InitialHeight st" "ss_Validators st" "ss_ChainID st" "te_crypto e", where 'e = unit])
      (use gen in \<open>auto simp: genesis_ok_def state_ok_def\<close>)
  have one: "i64 1 = 1" by (simp add: i64_def)
  have cs: "cs_Height cs = ss_InitialHeight st" "cs_Round cs = 0" "cs_Step cs = 1" "cs_LockedBlock cs = None" "cs_Votes cs = hvs"
    "cs_past cs = []" "cs_internal cs = []" "cs_blockStore cs = bs" "cs_state cs = st"
    "cs_timeouts cs = [\<lparr>ti_Height = ss_InitialHeight st, ti_Round = 0, ti_Step = 1\<rparr>]"
    using run gen hvs(1) one
    by (auto simp: NewState_def reset_to_state_def Let_def genesis_ok_def blank_state_def updateRoundStep_def
        scheduleRound0_def scheduleTimeout_def updatePrivValidatorPubKey_def split: if_splits)
  have "votes_ok e V c K (ss_InitialHeight st) hvs" using hvs gen nh by (simp add: votes_ok_def genesis_ok_def state_ok_def)
  then show "node_ok e V c K cs"
    using gen hvs(6) by (auto simp: node_ok_def cs round_ok_def is_i32_def genesis_ok_def state_ok_def)
  have "seen_majority cs t = (\<lambda>_ _. None)" for t using hvs(7) by (auto simp: seen_majority_def votes_at_def cs fun_eq_iff)
  then show "tm_view e cs = \<lparr>a_height = cs_Height cs, a_round = 0, a_step = 1, a_lock = None,
    a_polka = \<lambda>_ _. None, a_maj = \<lambda>_ _. None, a_sent = {}, a_decided = {}\<rparr>"
    using gen by (simp add: tm_view_def cs sent_votes_def decisions_def genesis_ok_def)
  show "cs_past cs = []" by (fact cs(6))
qed

end
