(* ===== verification/TmAgreement.thy ===== *)
theory TmAgreement
  imports TmRefinement
begin

text \<open>
  Agreement of the nodes of a Tendermint network.  Every honest node runs the handlers of
  \<open>ConsensusState\<close>; what the other validators do is left open, except that they cannot sign for an honest
  one.  Validators holding at most a third of the voting power of a height may be dishonest.  The voting
  rules of \<open>TmVoting\<close> are instantiated with the two-thirds quorums of the validators' voting power.
\<close>

section \<open>Quorums of voting power\<close>

definition power_of :: "validator list \<Rightarrow> address set \<Rightarrow> int" where
  "power_of vals A = (\<Sum>v\<leftarrow>vals. if Address v \<in> A then VotingPower v else 0)"

definition weight_quorum :: "(int \<Rightarrow> validator list) \<Rightarrow> address set \<Rightarrow> int \<Rightarrow> address set \<Rightarrow> bool" where
  \<comment> \<open>more than two thirds, at a height where at most one third is dishonest\<close>
  "weight_quorum V honest h A \<longleftrightarrow> (\<forall>v \<in> set (V h). 0 \<le> VotingPower v)
     \<and> 3 * power_of (V h) (- honest) \<le> power_of (V h) UNIV \<and> 2 * power_of (V h) UNIV < 3 * power_of (V h) A"

lemma power_of_mono: "\<forall>v \<in> set vals. 0 \<le> VotingPower v \<Longrightarrow> A \<subseteq> B \<Longrightarrow> power_of vals A \<le> power_of vals B"
  unfolding power_of_def by (rule sum_list_mono) auto

lemma power_of_overlap:
  "\<forall>v \<in> set vals. 0 \<le> VotingPower v \<Longrightarrow> power_of vals A + power_of vals B \<le> power_of vals UNIV + power_of vals (A \<inter> B)"
  unfolding power_of_def by (induction vals) auto

lemma power_of_indices:
  "power_of vals A = (\<Sum>i | i < length vals \<and> Address (vals ! i) \<in> A. VotingPower (vals ! i))"
  unfolding power_of_def
  by (simp add: sum_list_sum_nth atLeast0LessThan sum.If_cases Int_def)

interpretation tm: tm_quorums "weight_quorum V honest" honest for V honest
proof unfold_locales
  fix h A B
  assume q: "weight_quorum V honest h A" "weight_quorum V honest h B"
  then have nn: "\<forall>v \<in> set (V h). 0 \<le> VotingPower v" by (simp add: weight_quorum_def)
  show "\<exists>p. p \<in> A \<and> p \<in> B \<and> p \<in> honest"
  proof (rule ccontr)
    assume "\<not> (\<exists>p. p \<in> A \<and> p \<in> B \<and> p \<in> honest)"
    then have "power_of (V h) (A \<inter> B) \<le> power_of (V h) (- honest)" by (intro power_of_mono [OF nn]) auto
    then show False using q power_of_overlap [OF nn, of A B] by (auto simp: weight_quorum_def)
  qed
next
  fix h A B
  assume "weight_quorum V honest h A" "A \<subseteq> B"
  then show "weight_quorum V honest h B" using power_of_mono [of "V h" A B] by (auto simp: weight_quorum_def)
qed

section \<open>The network\<close>

type_synonym tm_net = "address \<Rightarrow> tm_state"

definition views :: "(address \<Rightarrow> tm_env) \<Rightarrow> tm_net \<Rightarrow> address \<Rightarrow> anode" where
  "views E s p = tm_view (E p) (s p)"

definition signed_by :: "crypto_env \<Rightarrow> (int \<Rightarrow> validator list) \<Rightarrow> string \<Rightarrow> address \<Rightarrow> Vote \<Rightarrow> bool" where
  \<comment> \<open>the vote verifies under the key of the validator at this address\<close>
  "signed_by env V c a v \<longleftrightarrow> v_ValidatorAddress v = a \<and> (\<exists>val \<in> set (V (v_Height v)). Address val = a \<and>
     (\<exists>pk. PubKey val = Some pk \<and> vote_Verify env c v pk = (Return None :: (unit, _) outcome)))"

definition in_network :: "(address \<Rightarrow> tm_env) \<Rightarrow> (int \<Rightarrow> validator list) \<Rightarrow> string \<Rightarrow> address set \<Rightarrow> tm_net \<Rightarrow> address \<Rightarrow> Vote set" where
  \<comment> \<open>the votes that can reach node p: what verifies as a vote of an honest validator, that validator has signed\<close>
  "in_network E V c honest s p = {v. \<forall>a \<in> honest. signed_by (te_crypto (E p)) V c a v \<longrightarrow> vote_key v \<in> a_sent (views E s a)}"

inductive tm_reach :: "(address \<Rightarrow> tm_env) \<Rightarrow> (int \<Rightarrow> validator list) \<Rightarrow> string \<Rightarrow> address set \<Rightarrow> tm_net \<Rightarrow> bool"
  for E V c honest where
  start: "(\<And>p. p \<in> honest \<Longrightarrow> \<exists>st bs pv. genesis_ok V c st bs \<and> NewState (E p) st bs pv = done_r (s p)) \<Longrightarrow> tm_reach E V c honest s"
| step: "tm_reach E V c honest s \<Longrightarrow> p \<in> honest \<Longrightarrow> event_ok (E p) c (in_network E V c honest s p) (s p) ev
    \<Longrightarrow> tm_handle (E p) ev (s p) = done_r cs' \<Longrightarrow> tm_reach E V c honest (s(p := cs'))"

definition few_dishonest :: "(int \<Rightarrow> validator list) \<Rightarrow> address set \<Rightarrow> bool" where
  "few_dishonest V honest \<longleftrightarrow> (\<forall>h. 3 * power_of (V h) (- honest) \<le> power_of (V h) UNIV)"

section \<open>Majorities are quorums\<close>

lemma majority_quorum:
  assumes few: "few_dishonest V honest" and ok: "votes_ok (E p) V c (in_network E V c honest s p) h hvs"
    and m: "majority hvs t r = Some bid" and t: "t = PrevoteType \<or> t = PrecommitType"
  shows "weight_quorum V honest h (backers honest (views E s) t h r (bid_Hash bid))"
proof -
  let ?env = "te_crypto (E p)"
  obtain rvs where rvs: "gm_get (hvs_roundVoteSets hvs) r = Some rvs" "vs_maj23 (votes_of t rvs) = Some bid"
    using m by (auto simp: majority_def bind_eq_Some_conv)
  define vs where "vs = votes_of t rvs"
  have vs: "set_ok ?env hvs r t vs" using ok rvs(1) t by (auto simp: votes_ok_def hvs_ok_def vs_def votes_of_def)
  then have eq: "vs_inv ?env vs" "vs_chainID vs = c" "vs_height vs = h" "vs_round vs = r" "vs_type vs = t" "Validators (vs_valSet vs) = V h"
    using ok by (auto simp: set_ok_def votes_ok_def)
  obtain S where S: "S \<subseteq> {..<length (V h)}" "2 * sum_list (pws (vs_valSet vs)) < 3 * (\<Sum>i\<in>S. VotingPower (V h ! i))"
    "\<And>i. i \<in> S \<Longrightarrow> \<exists>v. vs_votes vs ! i = Some v \<and> v_BlockID v = bid \<and> valid_at ?env vs i v"
    by (rule maj23_backed [OF eq(1)]) (use rvs(2) vs_def eq(6) in auto)
  let ?A = "backers honest (views E s) t h r (bid_Hash bid)"
  have "Address (V h ! i) \<in> ?A" if "i \<in> S" for i
  proof -
    obtain v where v: "vs_votes vs ! i = Some v" "v_BlockID v = bid" "valid_at ?env vs i v" using S(3) [OF \<open>i \<in> S\<close>] by blast
    have len: "i < length (vs_votes vs)" using eq(1) v(3) by (auto simp: vs_inv_def core_inv_def valid_at_def)
    have "v \<in> hvs_held hvs" unfolding hvs_held_def held_def
      using rvs(1) nth_mem [OF len] v(1) vs_def by auto
    then have net: "v \<in> in_network E V c honest s p" using ok by (auto simp: votes_ok_def)
    have "signed_by ?env V c (Address (V h ! i)) v"
      using v(3) eq S(1) \<open>i \<in> S\<close> nth_mem [of i "V h"] by (auto simp: signed_by_def valid_at_def)
    moreover have "vote_key v = (t, h, r, bid_Hash bid)" using v eq by (simp add: vote_key_def valid_at_def)
    ultimately show ?thesis using net by (auto simp: in_network_def backers_def)
  qed
  moreover have nn: "\<forall>v \<in> set (V h). 0 \<le> VotingPower v"
    using eq(1,6) by (auto simp: vs_inv_def core_inv_def vals_wf_def less_imp_le)
  ultimately have "(\<Sum>i\<in>S. VotingPower (V h ! i)) \<le> power_of (V h) ?A"
    unfolding power_of_indices using S(1) by (intro sum_mono2) (auto intro: nn [rule_format])
  moreover have "power_of (V h) UNIV = sum_list (pws (vs_valSet vs))" using eq(6) by (simp add: power_of_def)
  moreover have "3 * power_of (V h) (- honest) \<le> power_of (V h) UNIV" using few by (simp add: few_dishonest_def)
  ultimately show ?thesis unfolding weight_quorum_def using S(2) nn by linarith
qed

lemma node_ok_backed:
  assumes few: "few_dishonest V honest" and ok: "node_ok (E p) V c (in_network E V c honest s p) cs"
  shows "node_backed (weight_quorum V honest) honest (views E s) (tm_view e cs)"
proof -
  have "weight_quorum V honest h (backers honest (views E s) t h r x)"
    if m: "seen_majority cs t h r = Some x" and t: "t = PrevoteType \<or> t = PrecommitType" for t h r x
  proof -
    obtain hvs bid where h: "votes_at cs h = Some hvs" "majority hvs t r = Some bid" "x = bid_Hash bid"
      using m by (auto simp: seen_majority_def bind_eq_Some_conv)
    then have "votes_ok (E p) V c (in_network E V c honest s p) h hvs"
      using ok by (auto simp: votes_at_def node_ok_def split: if_splits dest!: map_of_SomeD)
    from majority_quorum [OF few this h(2) t] show ?thesis by (simp add: h(3))
  qed
  then show ?thesis by (simp add: node_backed_def)
qed

section \<open>The invariant of the network\<close>

lemma node_ok_mono: "node_ok e V c K cs \<Longrightarrow> K \<subseteq> K' \<Longrightarrow> node_ok e V c K' cs"
  by (fastforce simp: node_ok_def votes_ok_def)

lemma start_inv:
  assumes "\<And>p. p \<in> honest \<Longrightarrow> \<exists>st bs pv. genesis_ok V c st bs \<and> NewState (E p) st bs pv = done_r (s p)"
  shows "ginv (weight_quorum V honest) honest (views E s)" "p \<in> honest \<Longrightarrow> node_ok (E p) V c K (s p)"
proof -
  have ok: "node_ok (E p) V c K (s p)" and view: "views E s p = \<lparr>a_height = cs_Height (s p), a_round = 0, a_step = 1,
      a_lock = None, a_polka = \<lambda>_ _. None, a_maj = \<lambda>_ _. None, a_sent = {}, a_decided = {}\<rparr>" if p: "p \<in> honest" for p K
    using assms [OF p] start_good unfolding views_def by blast+
  have "\<not> weight_quorum V honest h (backers honest (views E s) t h r x)" for t h r x
    using tm.overlap [of V honest h] view by (fastforce simp: backers_def)
  then show "ginv (weight_quorum V honest) honest (views E s)"
    by (auto simp: ginv_def node_backed_def node_inv_def sent_inv_def lock_inv_def view)
  show "p \<in> honest \<Longrightarrow> node_ok (E p) V c K (s p)" by (rule ok)
qed

lemma steps_sent: "astep\<^sup>*\<^sup>* n n' \<Longrightarrow> a_sent n \<subseteq> a_sent n'"
  by (induction rule: rtranclp_induct) (use astep_sent in blast)+

lemma step_node:
  assumes ok: "node_ok (E p) V c (in_network E V c honest s p) (s p)" "node_inv (views E s p)" and app: "app_ok (E p) V c"
    and ev: "event_ok (E p) c (in_network E V c honest s p) (s p) ev" and run: "tm_handle (E p) ev (s p) = done_r cs'"
  shows "node_ok (E p) V c (in_network E V c honest s p) cs'" "node_inv (tm_view (E p) cs')"
    "astep\<^sup>*\<^sup>* (views E s p) (tm_view (E p) cs')" "in_network E V c honest s q \<subseteq> in_network E V c honest (s(p := cs')) q"
proof -
  have "good (E p) V c (in_network E V c honest s p) (s p) (s p)" using ok by (simp add: good_def views_def)
  from post_rD [OF handle_good [OF this app ev] run]
  show g: "node_ok (E p) V c (in_network E V c honest s p) cs'" "node_inv (tm_view (E p) cs')"
    "astep\<^sup>*\<^sup>* (views E s p) (tm_view (E p) cs')" by (auto simp: good_def views_def)
  show "in_network E V c honest s q \<subseteq> in_network E V c honest (s(p := cs')) q"
    using steps_sent [OF g(3)] by (auto simp: in_network_def views_def)
qed

lemma reach_nodes:
  assumes "tm_reach E V c honest s" "\<forall>p \<in> honest. app_ok (E p) V c" "q \<in> honest"
  shows "node_ok (E q) V c (in_network E V c honest s q) (s q) \<and> node_inv (views E s q)"
  using assms
proof (induction arbitrary: q rule: tm_reach.induct)
  case (start s)
  then show ?case using start_inv [of honest V c E s] by (auto simp: ginv_def)
next
  case (step s p ev cs')
  note S = step_node [OF _ _ _ step.hyps(3,4)]
  have p: "node_ok (E p) V c (in_network E V c honest s p) (s p)" "node_inv (views E s p)" "app_ok (E p) V c"
    using step.IH step.prems(1) step.hyps(2) by auto
  show ?case
  proof (cases "q = p")
    case True
    show ?thesis unfolding True views_def fun_upd_same using node_ok_mono [OF S(1) [OF p] S(4) [OF p]] S(2) [OF p] by blast
  next
    case False
    show ?thesis unfolding views_def fun_upd_other [OF False]
      using step.IH [OF step.prems, unfolded views_def] node_ok_mono [OF _ S(4) [OF p]] by blast
  qed
qed

lemma reach_inv:
  assumes "tm_reach E V c honest s" "few_dishonest V honest" "\<forall>p \<in> honest. app_ok (E p) V c"
  shows "ginv (weight_quorum V honest) honest (views E s)"
  using assms
proof (induction rule: tm_reach.induct)
  case (start s)
  then show ?case using start_inv(1) by blast
next
  case (step s p ev cs')
  have p: "node_ok (E p) V c (in_network E V c honest s p) (s p)" "node_inv (views E s p)" "app_ok (E p) V c"
    using reach_nodes [OF step.hyps(1) step.prems(2) step.hyps(2)] step.prems(2) step.hyps(2) by auto
  note S = step_node [OF p step.hyps(3,4)]
  have eq: "views E (s(p := cs')) = (views E s)(p := tm_view (E p) cs')" by (auto simp: views_def)
  have "(gstep (weight_quorum V honest) honest)\<^sup>*\<^sup>* (views E s) (views E (s(p := cs')))"
    unfolding eq by (rule tm.node_steps [where V = V, OF S(3) step.hyps(2) node_ok_backed [OF step.prems(1) S(1)]])
  then show ?case by (rule tm.ginv_steps) (rule step.IH [OF step.prems])
qed

section \<open>A network of two nodes\<close>

function varint_int :: "int \<Rightarrow> bytes" where
  \<comment> \<open>encodeVarint on binary numbers, to evaluate it\<close>
  "varint_int v = (if v \<ge> 128 then word_of_int (v mod 128 + 128) # varint_int (v div 128) else [word_of_int v])"
  by pat_completeness auto
termination by (relation "measure nat") (auto simp: zdiv_int)

declare varint_int.simps [simp del]

lemma encodeVarint_int: "encodeVarint v = varint_int (int v)"
proof (induction v rule: encodeVarint.induct)
  case (1 v)
  have "int v mod 128 + 128 = int (v mod 128 + 128)" by (simp add: zmod_int)
  then have "word_of_nat (v mod 128 + 128) = (word_of_int (int v mod 128 + 128) :: byte)" by (metis of_int_of_nat_eq)
  then show ?case using 1 by (subst encodeVarint.simps, subst varint_int.simps) (simp add: zdiv_int)
qed

lemma opt_varint_int:
  "opt_varint tag (u64 x) = (let v = x mod 18446744073709551616 in if v \<noteq> 0 then tag # varint_int v else [])"
  using pos_mod_sign [of 18446744073709551616 x] by (auto simp: opt_varint_def u64_def encodeVarint_int Let_def)

lemma cprop_Marshal_code [code]:
  "cprop_Marshal tc m =
     (case time_enc tc (pcp_Timestamp m) of None \<Rightarrow> Error TimestampError
      | Some t \<Rightarrow> Return
          (opt_varint 0x8 (u64 (pcp_Type m)) @ opt_fixed64 0x11 (pcp_Height m) @ opt_fixed64 0x19 (pcp_Round m)
           @ (let v = pcp_POLRound m mod 18446744073709551616 in if v \<noteq> 0 then 0x20 # varint_int v else [])
           @ opt_block_id 0x2a (map_option cbid_Marshal (pcp_BlockID m))
           @ len_field 0x32 t @ opt_len_field 0x3a (str_bytes (pcp_ChainID m))))"
  by (simp only: cprop_Marshal_def opt_varint_int [of "0x20"])

definition duo_codec :: time_codec where
  "duo_codec = \<lparr>time_enc = (\<lambda>_. Some []), time_dec = (\<lambda>_. Some 0), time_size = (\<lambda>_. 0)\<rparr>"

definition duo_block :: TmBlock where
  "duo_block = \<lparr>tb_Height = 1, tb_Time = 0, tb_AppHash = [], tb_rest = []\<rparr>"

definition duo_parts :: PartSet where
  "duo_parts = (case NewPartSetFromData (\<lambda>_. replicate 32 7) [5] 1 of Return (Some ps) \<Rightarrow> ps)"

definition duo_state :: "int \<Rightarrow> ChainState" where
  "duo_state h = \<lparr>ss_ChainID = ''c'', ss_InitialHeight = 1, ss_LastBlockHeight = h, ss_AppHash = [],
     ss_Validators = vote_vals, ss_LastValidators = vote_vals, ss_MaxBytes = 100, ss_TimeIotaMs = 1\<rparr>"

definition duo_env :: "address \<Rightarrow> tm_env" where
  "duo_env p = \<lparr>te_codec = duo_codec, te_verify = (\<lambda>pk _ sig. sig = pk), te_addr = (\<lambda>pk. pk), te_sign = (\<lambda>_. Some p),
     te_pubkey = p, te_sha = (\<lambda>_. replicate 32 7), te_room = (\<lambda>_. 512), te_clock = (\<lambda>_. 0), te_SkipTimeoutCommit = False,
     te_CreateEmptyBlocks = True, te_CreateEmptyBlocksInterval = 0, te_Hash = (\<lambda>b. replicate 32 (word_of_int (tb_Height b))),
     te_decode = (\<lambda>_. Some duo_block), te_ValidateBlock = (\<lambda>_ _. True),
     te_CreateProposalBlock = (\<lambda>_ _ _ _ _. (duo_block, duo_parts)), te_ApplyBlock = (\<lambda>_ _ _. Some (duo_state 1))\<rparr>"

definition duo_pv :: FilePV where
  "duo_pv = (let l = \<lparr>lss_Height = 0, lss_Round = 0, lss_Step = 0, lss_Signature = None, lss_SignBytes = None\<rparr>
     in \<lparr>pv_LastSignState = l, pv_disk = l\<rparr>)"

datatype net_act = Tick address nat | Relay address address nat

definition act_event :: "tm_net \<Rightarrow> net_act \<Rightarrow> (address \<times> tm_event) option" where
  \<comment> \<open>a node's n-th timeout fires, or the n-th message another has queued reaches it\<close>
  "act_event s a =
     (case a of
        Tick p n \<Rightarrow> if n < length (cs_timeouts (s p))
          then Some (p, Fire (cs_timeouts (s p) ! n) (cs_Height (s p)) (cs_Round (s p)) (cs_Step (s p))) else None
      | Relay q p n \<Rightarrow> if n < length (cs_internal (s q)) then Some (p, Deliver ''p'' (cs_internal (s q) ! n)) else None)"

definition event_safe :: "(address \<Rightarrow> tm_env) \<Rightarrow> string \<Rightarrow> tm_net \<Rightarrow> address \<Rightarrow> tm_event \<Rightarrow> bool" where
  "event_safe E c s p ev =
     (case ev of
        Deliver _ (VoteMessage v) \<Rightarrow> vote_deliverable (E p) c v \<and> VoteMessage v \<in> set (cs_internal (s (v_ValidatorAddress v)))
      | Fire ti _ _ _ \<Rightarrow> ti \<in> set (cs_timeouts (s p))
      | _ \<Rightarrow> True)"

fun play :: "(address \<Rightarrow> tm_env) \<Rightarrow> string \<Rightarrow> net_act list \<Rightarrow> tm_net \<Rightarrow> tm_net option" where
  "play E c [] s = Some s"
| "play E c (a # as) s =
     (case act_event s a of
        None \<Rightarrow> None
      | Some (p, ev) \<Rightarrow>
          if event_safe E c s p ev
          then (case tm_handle (E p) ev (s p) of Some (Return cs') \<Rightarrow> play E c as (s(p := cs')) | _ \<Rightarrow> None)
          else None)"

definition duo_start :: tm_net where
  "duo_start p = (case NewState (duo_env p) (duo_state 0) \<lparr>bs_base = 0, bs_height = 0, bs_saved = []\<rparr> (Some duo_pv) of
     Some (Return cs) \<Rightarrow> cs)"

definition duo_acts :: "net_act list" where
  "duo_acts = [Tick [1] 0, Tick [2] 0, Relay [1] [1] 0, Relay [1] [1] 1, Relay [1] [2] 0, Relay [1] [2] 1,
     Relay [1] [1] 2, Relay [2] [1] 0, Relay [1] [2] 2, Relay [2] [2] 0,
     Relay [1] [1] 3, Relay [2] [1] 1, Relay [1] [2] 3, Relay [2] [2] 1]"

definition duo_report :: "net_act list \<Rightarrow> (int list list \<times> (SignedMsgType \<times> bool) list) option" where
  \<comment> \<open>the heights both nodes have saved, and the votes of the first\<close>
  "duo_report as = map_option (\<lambda>s.
     (map (\<lambda>p. map (\<lambda>(_, _, c). c_Height c) (bs_saved (cs_blockStore (s p)))) [[1], [2]],
      concat (map (\<lambda>m. case m of VoteMessage v \<Rightarrow> [(v_Type v, bid_Hash (v_BlockID v) \<noteq> [])] | _ \<Rightarrow> []) (cs_internal (s [1])))))
     (play duo_env ''c'' as duo_start)"

lemma safe_event_ok:
  assumes "event_safe E c s p ev"
  shows "event_ok (E p) c (in_network E V c honest s p) (s p) ev"
  using assms
  by (auto simp: event_safe_def event_ok_def in_network_def signed_by_def views_def sent_votes_def
      split: tm_event.splits tm_msg.splits)

lemma play_reach:
  "play E c as s = Some s' \<Longrightarrow> tm_reach E V c honest s \<Longrightarrow> \<forall>a \<in> set as. (case a of Tick p _ \<Rightarrow> p | Relay _ p _ \<Rightarrow> p) \<in> honest
    \<Longrightarrow> tm_reach E V c honest s'"
proof (induction as arbitrary: s)
  case (Cons a as)
  then obtain p ev cs' where a: "act_event s a = Some (p, ev)" "event_safe E c s p ev" "tm_handle (E p) ev (s p) = done_r cs'"
    "play E c as (s(p := cs')) = Some s'"
    by (auto split: option.splits if_splits outcome.splits)
  have "p \<in> honest" using Cons.prems(3) a(1) by (auto simp: act_event_def split: net_act.splits if_splits)
  then have "tm_reach E V c honest (s(p := cs'))" using Cons.prems(2) a safe_event_ok by (blast intro: tm_reach.step)
  then show ?case by (rule Cons.IH [OF a(4)]) (use Cons.prems(3) in simp)
qed simp

abbreviation duo_vals :: "int \<Rightarrow> validator list" where "duo_vals \<equiv> \<lambda>_. Validators vote_vals"

abbreviation duo_honest :: "address set" where "duo_honest \<equiv> {[1], [2]}"

lemma duo_ok: "few_dishonest duo_vals duo_honest" "\<forall>p \<in> duo_honest. app_ok (duo_env p) duo_vals ''c''"
  using vote_vals_ok
  by (simp_all add: few_dishonest_def power_of_def vote_vals_def app_ok_def duo_env_def state_ok_def duo_state_def)

lemma duo_start_runs:
  "case NewState (duo_env [1]) (duo_state 0) \<lparr>bs_base = 0, bs_height = 0, bs_saved = []\<rparr> (Some duo_pv) of Some (Return cs) \<Rightarrow> True | _ \<Rightarrow> False"
  "case NewState (duo_env [2]) (duo_state 0) \<lparr>bs_base = 0, bs_height = 0, bs_saved = []\<rparr> (Some duo_pv) of Some (Return cs) \<Rightarrow> True | _ \<Rightarrow> False"
  by code_simp+

lemma duo_start_reach: "tm_reach duo_env duo_vals ''c'' duo_honest duo_start"
proof (rule tm_reach.start)
  fix p assume p: "p \<in> duo_honest"
  let ?bs = "\<lparr>bs_base = 0, bs_height = 0, bs_saved = []\<rparr>"
  have "genesis_ok duo_vals ''c'' (duo_state 0) ?bs"
    using vote_vals_ok by (simp add: genesis_ok_def state_ok_def duo_state_def)
  moreover have "NewState (duo_env p) (duo_state 0) ?bs (Some duo_pv) = done_r (duo_start p)"
    using p duo_start_runs by (auto simp: duo_start_def split: option.splits outcome.splits)
  ultimately show "\<exists>st bs pv. genesis_ok duo_vals ''c'' st bs \<and> NewState (duo_env p) st bs pv = done_r (duo_start p)" by blast
qed

lemma duo_reach:
  assumes "play duo_env ''c'' (take n duo_acts) duo_start = Some s"
  shows "tm_reach duo_env duo_vals ''c'' duo_honest s"
  by (rule play_reach [OF assms duo_start_reach]) (auto simp: duo_acts_def dest!: in_set_takeD)

lemma duo_run: "duo_report duo_acts = Some ([[1], [1]], [(PrevoteType, True), (PrecommitType, True)])"
  by code_simp

section \<open>Agreement\<close>

text \<open>
  C1: agreement of Tendermint nodes.  Take any number of nodes that run the handlers of the consensus
  state machine from genesis, with votes, proposals, block parts and timeouts in any order, lost or
  repeated, and let validators with at most a third of the voting power of each height behave as they
  like.  If two honest nodes have saved a block under a commit of the same height, the blocks have the
  same hash.  Honest nodes start at genesis and do not restart, and the application gives every height
  the validators that were fixed for it in advance, whatever blocks it has applied.
\<close>

theorem tendermint_agreement:
  assumes few: "few_dishonest V honest" and app: "\<forall>p \<in> honest. app_ok (E p) V c" and reach: "tm_reach E V c honest s"
    and p: "p \<in> honest" "(block, parts, commit) \<in> set (bs_saved (cs_blockStore (s p)))"
    and q: "q \<in> honest" "(block', parts', commit') \<in> set (bs_saved (cs_blockStore (s q)))"
    and h: "c_Height commit = c_Height commit'"
  shows "te_Hash (E p) block = te_Hash (E q) block'"
proof -
  show ?thesis
    by (rule tm.decisions_agree [OF reach_inv [OF reach few app], of p "c_Height commit" _ q]) (use p q h in \<open>force simp: views_def decisions_def\<close>)+
qed

theorem tendermint_agreement_witness:
  "\<exists>s block parts commit block' parts' commit'. play duo_env ''c'' duo_acts duo_start = Some s
     \<and> (block, parts, commit) \<in> set (bs_saved (cs_blockStore (s [1])))
     \<and> (block', parts', commit') \<in> set (bs_saved (cs_blockStore (s [2])))
     \<and> te_Hash (duo_env [1]) block = te_Hash (duo_env [2]) block'"
proof -
  obtain s where s: "play duo_env ''c'' duo_acts duo_start = Some s"
    "map (\<lambda>(_, _, c). c_Height c) (bs_saved (cs_blockStore (s [1]))) = [1]"
    "map (\<lambda>(_, _, c). c_Height c) (bs_saved (cs_blockStore (s [2]))) = [1]"
    using duo_run by (auto simp: duo_report_def)
  then obtain b ps c b' ps' c' where m: "(b, ps, c) \<in> set (bs_saved (cs_blockStore (s [1])))"
    "(b', ps', c') \<in> set (bs_saved (cs_blockStore (s [2])))" "c_Height c = c_Height c'"
    by (auto simp: map_eq_Cons_conv)
  have "tm_reach duo_env duo_vals ''c'' duo_honest s" using duo_reach [of "length duo_acts" s] s(1) by simp
  from tendermint_agreement [OF duo_ok this _ m(1) _ m(2,3)] show ?thesis using s(1) m by auto
qed

text \<open>
  C3: what an honest node signs, whatever the others do.  Two votes of one type, height and round have the
  same block hash.  A precommit for a block follows a two thirds majority of prevotes for it in that
  round.  After a precommit for a block, a prevote for anything else in a later round of the height
  follows a majority of prevotes for something else in a round in between or that round.
\<close>

theorem honest_votes_obey_the_rules:
  assumes "tm_reach E V c honest s" "\<forall>p \<in> honest. app_ok (E p) V c" "p \<in> honest"
    and v: "v \<in> sent_votes (s p)" and w: "w \<in> sent_votes (s p)" "v_Height w = v_Height v"
  shows "(v_Type w = v_Type v \<longrightarrow> v_Round w = v_Round v \<longrightarrow> bid_Hash (v_BlockID w) = bid_Hash (v_BlockID v))
    \<and> (v_Type v = PrecommitType \<longrightarrow> bid_Hash (v_BlockID v) \<noteq> [] \<longrightarrow>
      seen_majority (s p) PrevoteType (v_Height v) (v_Round v) = Some (bid_Hash (v_BlockID v)))
    \<and> (v_Type v = PrecommitType \<longrightarrow> bid_Hash (v_BlockID v) \<noteq> [] \<longrightarrow> v_Type w = PrevoteType \<longrightarrow> v_Round v < v_Round w
      \<longrightarrow> bid_Hash (v_BlockID w) \<noteq> bid_Hash (v_BlockID v) \<longrightarrow>
      (\<exists>k y. v_Round v < k \<and> k \<le> v_Round w \<and> seen_majority (s p) PrevoteType (v_Height v) k = Some y \<and> y \<noteq> bid_Hash (v_BlockID v)))"
proof -
  have I: "sent_inv (views E s p)" "lock_inv (views E s p)" using reach_nodes [OF assms(1-3)] by (auto simp: node_inv_def)
  have k: "(v_Type v, v_Height v, v_Round v, bid_Hash (v_BlockID v)) \<in> a_sent (views E s p)"
    "(v_Type w, v_Height v, v_Round w, bid_Hash (v_BlockID w)) \<in> a_sent (views E s p)"
    using imageI [OF v, of vote_key] imageI [OF w(1), of vote_key] w(2) by (auto simp: views_def vote_key_def)
  have "v_Type w = v_Type v \<Longrightarrow> v_Round w = v_Round v \<Longrightarrow> bid_Hash (v_BlockID w) = bid_Hash (v_BlockID v)"
    using sent_invD(2) [OF I(1) k(1)] k(2) by auto
  moreover have "v_Type v = PrecommitType \<Longrightarrow> bid_Hash (v_BlockID v) \<noteq> [] \<Longrightarrow>
      seen_majority (s p) PrevoteType (v_Height v) (v_Round v) = Some (bid_Hash (v_BlockID v))"
    using sent_invD(3) [OF I(1)] k(1) by (auto simp: views_def)
  moreover have "overtaken (views E s p) (v_Height v) (v_Round v) (v_Round w) (bid_Hash (v_BlockID v))"
    if "v_Type v = PrecommitType" "bid_Hash (v_BlockID v) \<noteq> []" "v_Type w = PrevoteType" "v_Round v < v_Round w"
      "bid_Hash (v_BlockID w) \<noteq> bid_Hash (v_BlockID v)"
    using lock_invD(3) [OF I(2)] k that by metis
  ultimately show ?thesis by (simp add: overtaken_def views_def)
qed

theorem honest_votes_obey_the_rules_witness:
  "\<exists>s v. play duo_env ''c'' duo_acts duo_start = Some s \<and> v \<in> sent_votes (s [1]) \<and> v_Type v = PrecommitType
     \<and> seen_majority (s [1]) PrevoteType (v_Height v) (v_Round v) = Some (bid_Hash (v_BlockID v))"
proof -
  obtain s where s: "play duo_env ''c'' duo_acts duo_start = Some s"
    "concat (map (\<lambda>m. case m of VoteMessage v \<Rightarrow> [(v_Type v, bid_Hash (v_BlockID v) \<noteq> [])] | _ \<Rightarrow> []) (cs_internal (s [1])))
       = [(PrevoteType, True), (PrecommitType, True)]"
    using duo_run by (auto simp: duo_report_def)
  then have "(PrecommitType, True) \<in> set (concat (map (\<lambda>m. case m of VoteMessage v \<Rightarrow> [(v_Type v, bid_Hash (v_BlockID v) \<noteq> [])] | _ \<Rightarrow> []) (cs_internal (s [1]))))"
    by simp
  then obtain v where v: "v \<in> sent_votes (s [1])" "v_Type v = PrecommitType" "bid_Hash (v_BlockID v) \<noteq> []"
    by (auto simp: sent_votes_def split: tm_msg.splits)
  have "tm_reach duo_env duo_vals ''c'' duo_honest s" using duo_reach [of "length duo_acts" s] s(1) by simp
  from honest_votes_obey_the_rules [OF this duo_ok(2) _ v(1) v(1) refl] show ?thesis using s(1) v by blast
qed

text \<open>
  C4: a block that cannot be read stops the node.  When the last part of the proposed block arrives, and
  the block is larger than the consensus parameters allow or its bytes do not decode, the handler
  reads a field of the block that is not there: the node panics.  A proposer reaches this with a
  signed proposal of arbitrary bytes.
\<close>

theorem unreadable_block_stops_node:
  assumes "cs_ProposalBlock cs = None" "\<not> cs_flag cs" "cs_ProposalBlockParts cs = Some ps"
    and add: "AddPart (te_sha e) (Some ps) part = Return (True, Some ps')" "IsComplete ps'"
    and read: "GetReader ps' = Return r" "ReadAll (te_room e) r = Some (Return bz)"
    and bad: "ss_MaxBytes (cs_state cs) < ps_byteSize ps' \<or> te_decode e bz = None"
  shows "handleMsg e peerID (BlockPartMessage (cs_Height cs) rnd (Some part)) cs = halt_r"
proof -
  have "addProposalBlockPart e (cs_Height cs) (Some part) cs = done_r (True, cs\<lparr>cs_ProposalBlockParts := Some ps'\<rparr>)"
    using assms by (auto simp: addProposalBlockPart_def decode_parts_def Let_def)
  then show ?thesis using assms by (simp add: handleMsg_def handleBlockPart_def)
qed

theorem unreadable_block_stops_node_witness:
  "handleMsg ((duo_env [1])\<lparr>te_decode := \<lambda>_. None\<rparr>) ''p'' (BlockPartMessage 1 0 (ps_parts duo_parts ! 0))
     ((duo_start [1])\<lparr>cs_ProposalBlockParts := Some (NewPartSetFromHeader (ps_Header (Some duo_parts)))\<rparr>) = halt_r"
proof -
  let ?e = "(duo_env [1])\<lparr>te_decode := \<lambda>_. None\<rparr>" and ?ps = "NewPartSetFromHeader (ps_Header (Some duo_parts))"
  let ?cs = "(duo_start [1])\<lparr>cs_ProposalBlockParts := Some ?ps\<rparr>" and ?part = "the (ps_parts duo_parts ! 0)"
  have part: "ps_parts duo_parts ! 0 = Some ?part" by code_simp
  have add: "AddPart (te_sha ?e) (Some ?ps) ?part = Return (True, Some duo_parts)" "IsComplete duo_parts" by code_simp+
  have read: "GetReader duo_parts = Return \<lparr>psr_i = 0, psr_parts = ps_parts duo_parts, psr_reader = [5]\<rparr>"
    "ReadAll (te_room ?e) \<lparr>psr_i = 0, psr_parts = ps_parts duo_parts, psr_reader = [5]\<rparr> = Some (Return [5])" by code_simp+
  have cs: "cs_ProposalBlock ?cs = None" "\<not> cs_flag ?cs" "cs_Height ?cs = 1" by code_simp+
  have "handleMsg ?e ''p'' (BlockPartMessage (cs_Height ?cs) 0 (Some ?part)) ?cs = halt_r"
    by (rule unreadable_block_stops_node [OF cs(1,2) _ add read]) simp_all
  then show ?thesis unfolding cs(3) part [symmetric] .
qed

end
