(* ===== verification/Spec2Isabelle.thy ===== *)
theory Spec2Isabelle
  imports Bits SafeMath Rotation Validators ValidatorUpdates Blocks VoteSets CommitVerify Wire Canonical PrivVal HsTypes HsConvert HsChain HsCrypto HsCache CmdCache EventQueue HsReplica HsVoting HsRules HsSync HsFrame HsAgreement Merkle PartSets HeightVotes TmVoting ConsensusState TmRefinement TmAgreement
begin

text \<open>
  NimbleChain, \<^verbatim>\<open>src/sourcecodes\<close>: two implementations of Byzantine fault tolerant consensus, a fork of
  Tendermint (\<^verbatim>\<open>tendermint/\<close>) and one of HotStuff (\<^verbatim>\<open>hotstuff/\<close>), to which the project adds the
  measurement and prediction of block propagation times.  This library models the code that
  consensus rests on, in both, and proves what makes it correct or shows where it is not.

  \<^bold>\<open>How the parts interact.\<close>  A Tendermint node runs one state machine (consensus/state.go).  For each
  height it asks the validator set who proposes, receives the proposed block as parts with Merkle
  proofs, counts prevotes and precommits in vote sets by voting power, has its votes signed by the
  private validator, and saves a block under the precommits of two thirds of the power; commits made
  of such precommits are verified by others.  A HotStuff replica handles proposals, votes, timeouts
  and new-view messages.  It verifies certificates, keeps a tree of blocks, votes by the rules of one
  of three protocol variants, collects votes into certificates and executes a block once enough
  certified blocks follow it.

  \<^bold>\<open>Conventions\<close> (\<open>Prelude\<close>).  A struct is a record with the fields of the source, a nil pointer is
  \<open>None\<close>, a Go map an association list with the operations \<open>gm_get\<close>, \<open>gm_put\<close> and \<open>gm_del\<close>.  Signed
  integers are \<open>int\<close> with \<open>i64\<close> and \<open>i32\<close> written where the code computes with wrap-around; unsigned
  ones are words.  A function that can fail returns an \<open>outcome\<close>: \<open>Return\<close>, \<open>Error\<close> or \<open>Panic\<close>.  State
  is passed and returned explicitly.  A computation that may not end is a partial function into
  \<open>option\<close>, where \<open>None\<close> is not ending, so no fuel is used anywhere; that a loop ends is proved where
  it is claimed.  A handler of a Tendermint node is a \<open>run\<close>, one of a HotStuff replica a
  \<open>handler_result\<close>, which also keeps the state in which a replica crashes.

  \<^bold>\<open>Tendermint, from the leaves up.\<close>

  \<^item> \<open>Bits\<close>: libs/bits/bit_array.go, word by word, with the interface \<open>bit_vector\<close> of its readers.
  \<^item> \<open>SafeMath\<close>: libs/math and the clipping helpers of types/validator_set.go against exact arithmetic.
  \<^item> \<open>Rotation\<close>, \<open>Validators\<close>: types/validator.go and the proposer rotation of types/validator_set.go.
    Priorities stay within bounds that depend on the total power and the harmonic number of the
    number of validators, so nothing is clipped (C37), and proposers are chosen in proportion to
    their power (C38).
  \<^item> \<open>ValidatorUpdates\<close>: the change sets of types/validator_set.go.  What is accepted gives the intended
    well-formed set (C39), and valid changes are accepted (C40).
  \<^item> \<open>Blocks\<close>: votes, proposals, block ids and commits with their basic validation and sign bytes,
    types/block.go, types/vote.go, types/proposal.go and types/canonical.go.
  \<^item> \<open>Wire\<close>, \<open>Canonical\<close>: the wire format and the canonical messages of
    proto/tendermint/types/canonical.pb.go with libs/protoio.  Decoding inverts encoding (C24) and sign
    bytes determine what was signed (C23).
  \<^item> \<open>PrivVal\<close>: privval/file.go.  No double signing across restarts and crashes (C21), and a signature
    lost in a crash is found again (C22).
  \<^item> \<open>Merkle\<close>, \<open>PartSets\<close>: crypto/merkle and types/part_set.go.  The iterative root is the recursive one
    (C5), proofs are accepted and honest (C6, C7), parts in any order give the block back (C8), the
    invariant of a part set (C10), and that one valid part is accepted in every slot (C9).
  \<^item> \<open>VoteSets\<close>, \<open>HeightVotes\<close>: types/vote_set.go and consensus/types/height_vote_set.go.  The invariant
    (C13), majorities are final, real and expose double votes (C14 to C16), the last round with a
    majority of prevotes (C11), and what peers can make a node keep (C12).
  \<^item> \<open>CommitVerify\<close>: MakeCommit, the three commit checks of types/validator_set.go and CommitToVoteSet
    (C17 to C20).
  \<^item> \<open>ConsensusState\<close>: the round state and all handlers of consensus/state.go.  \<open>TmVoting\<close> states the
    voting rules abstractly, with the interface \<open>tm_quorums\<close> of quorums, and proves that no two blocks
    are decided for a height; \<open>TmRefinement\<close> shows that every handler takes only steps of these rules;
    \<open>TmAgreement\<close> interprets the quorums by voting power and concludes agreement of the nodes of a
    network (C1), the rules for a single node (C3), and that a proposal which does not decode stops a
    node (C4).

  \<^bold>\<open>HotStuff, from the leaves up.\<close>

  \<^item> \<open>HsTypes\<close>, \<open>HsConvert\<close>: types.go, block.go, events.go and internal/proto/hotstuffpb/convert.go; what
    the conversions keep (C25).
  \<^item> \<open>HsChain\<close>: blockchain/blockchain.go; the branch test (C31).
  \<^item> \<open>HsCrypto\<close>, \<open>HsCache\<close>: crypto/crypto.go over crypto/ecdsa, and crypto/cache.go.  Certificates that
    are made are verified (C32), quorums meet in an honest replica (\<open>quorum_system\<close>), and the keys of
    the cache leave out the signers and, for batches, the messages (C33, C34).
  \<^item> \<open>CmdCache\<close>, \<open>EventQueue\<close>: replica/cmdcache.go and eventloop/queue.go.  Commands are not proposed
    twice (C35), and the ring buffer implements the interface \<open>bounded_queue\<close> (C36).
  \<^item> \<open>HsReplica\<close>, \<open>HsRules\<close>, \<open>HsSync\<close>: consensus/consensus.go, the vote and commit rules of
    ChainedHotStuff, FastHotStuff and SimpleHotStuff with the byzantine proposers, and
    synchronizer/synchronizer.go with consensus/votingmachine.go.  Votes make certificates (C27); what
    a repeated vote, a malformed certificate and a certificate of genesis do to a replica (C28 to
    C30); a run in which ChainedHotStuff executes conflicting blocks (C26).
  \<^item> \<open>HsVoting\<close>, \<open>HsFrame\<close>, \<open>HsAgreement\<close>: the abstract voting protocol with the interface \<open>voting\<close>, the
    invariant of a replica, and the agreement of SimpleHotStuff for all runs of its handlers (C2).

  \<^bold>\<open>What the two agreement theorems assume.\<close>  For Tendermint (C1): at most a third of the power of each
  height is dishonest, honest nodes start at genesis and do not restart, signatures of honest nodes
  are not forged, and the validators of each height are fixed whatever blocks are applied.  For
  SimpleHotStuff (C2): at most a third of the replicas is faulty, block hashes are distinct,
  signatures are not forged and are verified without the cache, aggregate certificates are off, and
  every fetch of a block that an honest replica voted for succeeds.  This gives one branch of
  certified blocks; equal executed prefixes need in addition that every block, those of faulty
  replicas included, names its certified block as its parent.  The code does not enforce the last
  two conditions; \<open>unlinked_block_splits_execution\<close> is a run that violates the last one and executes
  different blocks.

  \<^bold>\<open>Parameters.\<close>  Hash functions, signature schemes and keys, the timestamp codec and the encoding of
  command batches of the protobuf libraries, the replies of the network, the clock, the leader
  schedule, and hashing, decoding, validating, creating and executing a Tendermint block are
  arguments, collected in the records \<open>crypto_env\<close>, \<open>time_codec\<close>, \<open>tm_env\<close>, \<open>crypto_cfg\<close> and \<open>hs_env\<close>.
  What is relied on is a named hypothesis; the witness of a property instantiates the parameters.

  \<^bold>\<open>Not modelled.\<close>  The prediction of proposal timeouts (consensus/proposetimeout) computes with
  float64 statistics and calls an external service.  The write-ahead log and replay, reactors, gossip,
  peer-to-peer networking, RPC, the mempool, evidence, block and state synchronisation, the light
  client, block execution against the application, indexers, configuration and command line tools
  are input and output or run on goroutines around the modelled code.  Also left out are timers and
  the durations of timeouts and views, the measurements taken inside the handlers, locks (every
  method of a modelled struct runs under its mutex), printers and JSON forms, Handel, and the BLS and
  EdDSA schemes.  Reading back the JSON state of the private validator is taken to give what was
  written, and the handlers of a replica verify certificates without the signature cache that
  internal/orchestration/worker.go puts in front.
\<close>

end
